(* ===== verification/Claw_Prelude.thy ===== *)
theory Claw_Prelude
  imports Main "HOL-Library.Word"
begin

text \<open>
  What every component of the development shares: the machine integers of the Rust code as words,
  Rust's checked and saturating arithmetic on them, \<open>Result\<close> as a datatype, byte strings with
  the ASCII classifiers the validators use, and reachable states of a labelled step relation with
  the locale through which each component proves its invariants.
\<close>

unbundle bit_operations_syntax

named_theorems rust_arith \<open>Rust arithmetic on words, read as natural numbers\<close>
named_theorems result_simps \<open>equations that invert a successful or failed Result\<close>

type_synonym u8 = "8 word"
type_synonym u16 = "16 word"
type_synonym u32 = "32 word"
type_synonym u64 = "64 word"

section \<open>Result\<close>

text \<open>
  Rust's \<open>Result<T, E>\<close>. An operation that can also panic returns \<open>result option\<close>, with
  \<open>None\<close> for the panic, so that the absence of a panic is a statement about the model.
\<close>

datatype ('a, 'e) result = Ok 'a | Err 'e

fun is_ok :: "('a, 'e) result \<Rightarrow> bool" where
  "is_ok (Ok _) = True"
| "is_ok (Err _) = False"

text \<open>The \<open>?\<close> operator with the \<open>From\<close> conversion \<open>f\<close> of the error it propagates.\<close>

fun result_bind :: "('a, 'e) result \<Rightarrow> ('e \<Rightarrow> 'f) \<Rightarrow> ('a \<Rightarrow> ('b, 'f) result) \<Rightarrow> ('b, 'f) result" where
  "result_bind (Ok a) f k = k a"
| "result_bind (Err e) f k = Err (f e)"

lemma result_bind_eq_Ok [result_simps]:
  "result_bind r f k = Ok b \<longleftrightarrow> (\<exists>a. r = Ok a \<and> k a = Ok b)"
  by (cases r) auto

lemma result_bind_eq_Err [result_simps]:
  "result_bind r f k = Err x \<longleftrightarrow> (\<exists>e. r = Err e \<and> x = f e) \<or> (\<exists>a. r = Ok a \<and> k a = Err x)"
  by (cases r) auto

lemma is_ok_iff [result_simps]: "is_ok r \<longleftrightarrow> (\<exists>a. r = Ok a)"
  by (cases r) auto

section \<open>Integer arithmetic\<close>

definition checked_add :: "'a::len word \<Rightarrow> 'a word \<Rightarrow> 'a word option" where
  "checked_add a b = (if unat a + unat b < 2 ^ LENGTH('a) then Some (a + b) else None)"

definition saturating_add :: "'a::len word \<Rightarrow> 'a word \<Rightarrow> 'a word" where
  "saturating_add a b = (if unat a + unat b < 2 ^ LENGTH('a) then a + b else - 1)"

definition saturating_sub :: "'a::len word \<Rightarrow> 'a word \<Rightarrow> 'a word" where
  "saturating_sub a b = (if a \<le> b then 0 else a - b)"

definition checked_sub :: "'a::len word \<Rightarrow> 'a word \<Rightarrow> 'a word option" where
  "checked_sub a b = (if b \<le> a then Some (a - b) else None)"

definition checked_mul :: "'a::len word \<Rightarrow> 'a word \<Rightarrow> 'a word option" where
  "checked_mul a b = (if unat a * unat b < 2 ^ LENGTH('a) then Some (a * b) else None)"

definition saturating_mul :: "'a::len word \<Rightarrow> 'a word \<Rightarrow> 'a word" where
  "saturating_mul a b = (if unat a * unat b < 2 ^ LENGTH('a) then a * b else - 1)"

lemma unat_bound: "unat (w :: 'a::len word) < 2 ^ LENGTH('a)"
  by (rule unsigned_less)

lemma unat_minus_one_max [rust_arith]: "unat (- 1 :: 'a::len word) = 2 ^ LENGTH('a) - 1"
  by (simp add: unsigned_minus_1_eq_mask mask_eq_exp_minus_1)

lemma checked_add_eq_Some:
  fixes a b c :: "'a::len word"
  shows "checked_add a b = Some c \<longleftrightarrow> unat c = unat a + unat b"
proof
  assume "checked_add a b = Some c"
  then show "unat c = unat a + unat b"
    by (auto simp: checked_add_def unat_word_ariths split: if_splits)
next
  assume sum: "unat c = unat a + unat b"
  then have bound: "unat a + unat b < 2 ^ LENGTH('a)"
    using unat_bound [of c] by linarith
  then have "unat (a + b) = unat c"
    using sum by (simp add: unat_word_ariths)
  then have "a + b = c"
    by (simp add: word_unat_eq_iff)
  with bound show "checked_add a b = Some c"
    by (simp add: checked_add_def)
qed

lemma checked_add_eq_None:
  fixes a b :: "'a::len word"
  shows "checked_add a b = None \<longleftrightarrow> 2 ^ LENGTH('a) \<le> unat a + unat b"
  by (auto simp: checked_add_def)

lemma unat_saturating_add [rust_arith]:
  fixes a b :: "'a::len word"
  shows "unat (saturating_add a b) = min (unat a + unat b) (2 ^ LENGTH('a) - 1)"
  by (auto simp: saturating_add_def unat_word_ariths unat_minus_one_max min_def)

lemma saturating_succ: "a \<noteq> - 1 \<Longrightarrow> saturating_add a 1 = a + 1" for a :: "'a::len word"
proof -
  assume a: "a \<noteq> - 1"
  have "unat a \<noteq> unat (- 1 :: 'a word)"
    using a by (simp add: word_unat_eq_iff)
  moreover have "unat a \<le> unat (- 1 :: 'a word)"
    by (simp add: word_le_nat_alt [symmetric])
  ultimately show ?thesis
    by (auto simp: saturating_add_def unat_minus_one_max)
qed

lemma less_saturating_succ: "a \<noteq> - 1 \<Longrightarrow> a < saturating_add a 1" for a :: "'a::len word"
proof -
  assume "a \<noteq> - 1"
  then have "unat a \<noteq> 2 ^ LENGTH('a) - 1"
    by (metis unat_minus_one_max word_unat_eq_iff)
  moreover have "unat a \<le> 2 ^ LENGTH('a) - 1"
    using unat_bound [of a] by linarith
  ultimately show ?thesis
    by (simp add: word_less_nat_alt unat_saturating_add)
qed

lemma saturating_succ_nonzero: "saturating_add a 1 \<noteq> 0" for a :: "'a::len word"
proof -
  have "(1 :: nat) < 2 ^ LENGTH('a)"
    by (rule one_less_power) simp_all
  then have "0 < min (unat a + unat (1 :: 'a word)) (2 ^ LENGTH('a) - 1)"
    by simp
  then have "0 < unat (saturating_add a 1)"
    by (simp only: unat_saturating_add)
  then show ?thesis
    by auto
qed

lemma nth_list_update_cases: "xs[i := x] ! j = (if i = j \<and> i < length xs then x else xs ! j)"
  by (cases "i < length xs") (auto simp: nth_list_update list_update_beyond)

lemma sorted_wrt_le_last:
  assumes "sorted_wrt (<) xs" and "x \<in> set xs"
  shows "x \<le> (last xs :: 'a :: linorder)"
  using assms by (induction xs) (auto intro: less_imp_le)

lemma unat_saturating_sub [rust_arith]:
  fixes a b :: "'a::len word"
  shows "unat (saturating_sub a b) = unat a - unat b"
  by (auto simp: saturating_sub_def word_le_nat_alt unat_sub)

lemma checked_sub_eq_Some:
  fixes a b c :: "'a::len word"
  shows "checked_sub a b = Some c \<longleftrightarrow> unat b \<le> unat a \<and> unat c = unat a - unat b"
  by (auto simp: checked_sub_def word_le_nat_alt unat_sub word_unat_eq_iff)

lemma checked_mul_eq_Some:
  fixes a b c :: "'a::len word"
  shows "checked_mul a b = Some c \<longleftrightarrow> unat c = unat a * unat b"
proof
  assume "checked_mul a b = Some c"
  then show "unat c = unat a * unat b"
    by (auto simp: checked_mul_def unat_word_ariths split: if_splits)
next
  assume product: "unat c = unat a * unat b"
  then have bound: "unat a * unat b < 2 ^ LENGTH('a)"
    using unat_bound [of c] by linarith
  then have "unat (a * b) = unat c"
    using product by (simp add: unat_word_ariths)
  then have "a * b = c"
    by (simp add: word_unat_eq_iff)
  with bound show "checked_mul a b = Some c"
    by (simp add: checked_mul_def)
qed

lemma unat_saturating_mul [rust_arith]:
  fixes a b :: "'a::len word"
  shows "unat (saturating_mul a b) = min (unat a * unat b) (2 ^ LENGTH('a) - 1)"
proof (cases "unat a * unat b < 2 ^ LENGTH('a)")
  case True
  then show ?thesis by (simp add: saturating_mul_def unat_word_ariths)
next
  case False
  then have "2 ^ LENGTH('a) - 1 \<le> unat a * unat b" by linarith
  with False show ?thesis by (simp add: saturating_mul_def unat_minus_one_max)
qed

lemma saturating_add_mono:
  fixes a b c :: "'a::len word"
  shows "b \<le> c \<Longrightarrow> saturating_add a b \<le> saturating_add a c"
  by (simp add: word_le_nat_alt unat_saturating_add)

lemma le_saturating_add:
  fixes a b :: "'a::len word"
  shows "a \<le> saturating_add a b"
proof -
  have "unat a \<le> 2 ^ LENGTH('a) - 1"
    using unat_bound [of a] by linarith
  then show ?thesis
    by (simp add: word_le_nat_alt unat_saturating_add)
qed

text \<open>The two halves of a byte.\<close>

lemma low_nibble: "b AND 0x0f = take_bit 4 (b :: u8)"
  by (simp add: take_bit_eq_mask mask_eq_exp_minus_1)

lemma nibbles_join: "push_bit 4 (drop_bit 4 b) OR (b AND 0x0f) = (b :: u8)"
  unfolding low_nibble by (rule bit_word_eqI) (auto simp: bit_simps)

lemma nibble_bound: "drop_bit 4 b < (16 :: u8)" "b AND 0x0f < (16 :: u8)"
  using unat_bound [of b]
  by (simp_all add: low_nibble word_less_nat_alt drop_bit_eq_div take_bit_eq_mod
      unat_div_distrib unat_mod_distrib)

lemmas word_order_nat = word_le_nat_alt word_less_nat_alt word_unat_eq_iff

section \<open>Byte strings\<close>

text \<open>
  A Rust \<open>String\<close> is its UTF-8 bytes: \<open>len\<close> counts bytes, and HOL's \<open>char\<close> is one byte.
  The classifiers are those of \<open>u8::is_ascii_*\<close>.
\<close>

definition is_ascii_digit :: "char \<Rightarrow> bool" where
  "is_ascii_digit c \<longleftrightarrow> 48 \<le> (of_char c :: nat) \<and> (of_char c :: nat) \<le> 57"

definition is_ascii_lowercase :: "char \<Rightarrow> bool" where
  "is_ascii_lowercase c \<longleftrightarrow> 97 \<le> (of_char c :: nat) \<and> (of_char c :: nat) \<le> 122"

definition is_ascii_uppercase :: "char \<Rightarrow> bool" where
  "is_ascii_uppercase c \<longleftrightarrow> 65 \<le> (of_char c :: nat) \<and> (of_char c :: nat) \<le> 90"

definition is_ascii_alphanumeric :: "char \<Rightarrow> bool" where
  "is_ascii_alphanumeric c \<longleftrightarrow> is_ascii_digit c \<or> is_ascii_lowercase c \<or> is_ascii_uppercase c"

lemmas ascii_defs =
  is_ascii_digit_def is_ascii_lowercase_def is_ascii_uppercase_def is_ascii_alphanumeric_def

text \<open>
  The loop \<open>for (index, item) in xs.enumerate() { if bad { return Err(..index..) } }\<close>: the first
  index at or after \<open>i\<close> whose item is bad.
\<close>

fun find_index_from :: "nat \<Rightarrow> ('a \<Rightarrow> bool) \<Rightarrow> 'a list \<Rightarrow> (nat \<times> 'a) option" where
  "find_index_from i bad [] = None"
| "find_index_from i bad (x # xs) =
     (if bad x then Some (i, x) else find_index_from (Suc i) bad xs)"

lemma find_index_from_None:
  "find_index_from i bad xs = None \<longleftrightarrow> (\<forall>x \<in> set xs. \<not> bad x)"
  by (induction xs arbitrary: i) auto

lemma find_index_from_Some:
  "find_index_from i bad xs = Some (k, x) \<Longrightarrow>
     i \<le> k \<and> k - i < length xs \<and> xs ! (k - i) = x \<and> bad x \<and> (\<forall>j < k - i. \<not> bad (xs ! j))"
proof (induction xs arbitrary: i)
  case Nil
  then show ?case by simp
next
  case (Cons y ys)
  show ?case
  proof (cases "bad y")
    case True
    with Cons.prems show ?thesis by auto
  next
    case False
    with Cons.prems have "find_index_from (Suc i) bad ys = Some (k, x)" by simp
    from Cons.IH [OF this] False show ?thesis
      by (auto simp: nth_Cons' Suc_diff_le le_Suc_eq less_diff_conv2)
  qed
qed

lemma find_index_from_cases:
  obtains (absent) "find_index_from i bad xs = None" "\<forall>x \<in> set xs. \<not> bad x"
  | (found) k x where "find_index_from i bad xs = Some (k, x)" "x \<in> set xs" "bad x"
proof (cases "find_index_from i bad xs")
  case None
  then show ?thesis using absent by (simp add: find_index_from_None)
next
  case (Some hit)
  obtain k x where "hit = (k, x)" by (cases hit)
  with Some have "find_index_from i bad xs = Some (k, x)" by simp
  with find_index_from_Some [OF this] show ?thesis
    using found nth_mem by metis
qed

text \<open>\<open>str::split(sep)\<close>: never empty, and a separator at an end leaves an empty part there.\<close>

fun split_on :: "'a \<Rightarrow> 'a list \<Rightarrow> 'a list list" where
  "split_on sep [] = [[]]"
| "split_on sep (x # xs) =
     (if x = sep then [] # split_on sep xs
      else (case split_on sep xs of [] \<Rightarrow> [[x]] | p # ps \<Rightarrow> (x # p) # ps))"

lemma split_on_not_Nil [simp]: "split_on sep xs \<noteq> []"
  by (induction xs) (auto split: list.splits)

section \<open>Reachable states\<close>

text \<open>
  A component with state is a start predicate and a step relation labelled with events.
\<close>

inductive reach :: "('s \<Rightarrow> bool) \<Rightarrow> ('s \<Rightarrow> 'e \<Rightarrow> 's \<Rightarrow> bool) \<Rightarrow> 's \<Rightarrow> bool"
  for init :: "'s \<Rightarrow> bool" and step :: "'s \<Rightarrow> 'e \<Rightarrow> 's \<Rightarrow> bool"
where
  reach_init: "init s \<Longrightarrow> reach init step s"
| reach_step: "reach init step s \<Longrightarrow> step s e t \<Longrightarrow> reach init step t"

text \<open>An invariant of such a system, proved once for every component that interprets it.\<close>

locale invariant_system =
  fixes init :: "'s \<Rightarrow> bool"
    and step :: "'s \<Rightarrow> 'e \<Rightarrow> 's \<Rightarrow> bool"
    and inv :: "'s \<Rightarrow> bool"
  assumes inv_init: "init s \<Longrightarrow> inv s"
    and inv_step: "inv s \<Longrightarrow> step s e t \<Longrightarrow> inv t"
begin

lemma reach_inv: "reach init step s \<Longrightarrow> inv s"
  by (induction rule: reach.induct) (blast intro: inv_init inv_step)+

end

text \<open>The states after a list of steps, for statements about everything that happens later.\<close>

inductive steps :: "('s \<Rightarrow> 'e \<Rightarrow> 's \<Rightarrow> bool) \<Rightarrow> 's \<Rightarrow> 'e list \<Rightarrow> 's \<Rightarrow> bool"
  for step :: "'s \<Rightarrow> 'e \<Rightarrow> 's \<Rightarrow> bool"
where
  steps_nil: "steps step s [] s"
| steps_cons: "step s e t \<Longrightarrow> steps step t es u \<Longrightarrow> steps step s (e # es) u"

inductive_cases steps_nilE [elim!]: "steps step s [] t"
inductive_cases steps_consE [elim!]: "steps step s (e # es) t"

lemma steps_append:
  "steps step s es t \<Longrightarrow> steps step t fs u \<Longrightarrow> steps step s (es @ fs) u"
  by (induction rule: steps.induct) (auto intro: steps.intros)

lemma steps_single: "step s e t \<Longrightarrow> steps step s [e] t"
  by (auto intro: steps.intros)

lemma reach_steps: "steps step s es t \<Longrightarrow> reach init step s \<Longrightarrow> reach init step t"
  by (induction rule: steps.induct) (auto intro: reach.reach_step)

text \<open>A predicate that every step keeps is kept by every list of steps.\<close>

locale stable_predicate =
  fixes step :: "'s \<Rightarrow> 'e \<Rightarrow> 's \<Rightarrow> bool"
    and stable :: "'s \<Rightarrow> bool"
  assumes stable_step: "stable s \<Longrightarrow> step s e t \<Longrightarrow> stable t"
begin

lemma stable_steps: "steps step s es t \<Longrightarrow> stable s \<Longrightarrow> stable t"
  by (induction rule: steps.induct) (auto intro: stable_step)

end

text \<open>A predicate on the events so far and the state, kept when a step adds its event.\<close>

locale history_invariant =
  fixes step :: "'s \<Rightarrow> 'e \<Rightarrow> 's \<Rightarrow> bool"
    and hinv :: "'e list \<Rightarrow> 's \<Rightarrow> bool"
  assumes hinv_step: "hinv es s \<Longrightarrow> step s e t \<Longrightarrow> hinv (es @ [e]) t"
begin

lemma hinv_steps: "steps step s es t \<Longrightarrow> hinv past s \<Longrightarrow> hinv (past @ es) t"
proof (induction arbitrary: past rule: steps.induct)
  case (steps_cons s e t es u)
  from steps_cons.IH [OF hinv_step [OF steps_cons.prems steps_cons.hyps(1)]] show ?case by simp
qed simp

end

text \<open>
  A detailed system that implements an abstract one: on its reachable states every detailed step is
  an abstract step or changes nothing that the abstraction shows.
\<close>

locale simulation =
  fixes cinit :: "'c \<Rightarrow> bool"
    and cstep :: "'c \<Rightarrow> 'e \<Rightarrow> 'c \<Rightarrow> bool"
    and ainit :: "'a \<Rightarrow> bool"
    and astep :: "'a \<Rightarrow> 'f \<Rightarrow> 'a \<Rightarrow> bool"
    and abs :: "'c \<Rightarrow> 'a"
  assumes sim_init: "cinit c \<Longrightarrow> ainit (abs c)"
    and sim_step: "reach cinit cstep c \<Longrightarrow> cstep c e c' \<Longrightarrow> abs c' = abs c \<or> (\<exists>f. astep (abs c) f (abs c'))"
begin

lemma reach_abs: "reach cinit cstep c \<Longrightarrow> reach ainit astep (abs c)"
proof (induction rule: reach.induct)
  case (reach_init s)
  then show ?case using sim_init by (blast intro: reach.reach_init)
next
  case (reach_step s e t)
  from sim_step [OF reach_step(1,2)] show ?case
    using reach_step(3) by (auto intro: reach.reach_step)
qed

lemma steps_abs:
  "steps cstep c es d \<Longrightarrow> reach cinit cstep c \<Longrightarrow> \<exists>fs. steps astep (abs c) fs (abs d)"
proof (induction rule: steps.induct)
  case (steps_nil s)
  show ?case by (rule exI, rule steps.steps_nil)
next
  case (steps_cons s e t es u)
  then obtain fs where "steps astep (abs t) fs (abs u)" by (blast intro: reach.reach_step)
  with sim_step [OF steps_cons(4,1)] show ?case by (auto intro: steps.steps_cons)
qed

end

end
