(* ===== verification/Worker_Identity.thy ===== *)
theory Worker_Identity
  imports Claw_Prelude
begin

text \<open>
  The validated values of the closed worker protocol (crates/claw-worker): payload limits
  (limits.rs), bounded identifiers (identity.rs), the exact method allowlist (allowlist.rs) and the
  hex form of the admission secret (secret.rs). A Rust newtype is a datatype with one constructor;
  its \<open>new\<close> is the only function of the code that builds it.
\<close>

section \<open>Payload limits (limits.rs)\<close>

definition DEFAULT_MAX_ADMISSION_BYTES :: nat where
  "DEFAULT_MAX_ADMISSION_BYTES = 8 * 1024"

definition DEFAULT_MAX_CALL_BYTES :: nat where
  "DEFAULT_MAX_CALL_BYTES = 256 * 1024"

record payload_limits =
  max_admission_bytes :: nat
  max_call_bytes :: nat

datatype limit_error = ZeroLimit string

definition payload_limits_new :: "nat \<Rightarrow> nat \<Rightarrow> payload_limits" where
  "payload_limits_new a c = \<lparr>max_admission_bytes = a, max_call_bytes = c\<rparr>"

definition validate_limits :: "payload_limits \<Rightarrow> (unit, limit_error) result" where
  "validate_limits l =
     (if max_admission_bytes l = 0 then Err (ZeroLimit ''max_admission_bytes'')
      else if max_call_bytes l = 0 then Err (ZeroLimit ''max_call_bytes'')
      else Ok ())"

definition default_limits :: payload_limits where
  "default_limits = payload_limits_new DEFAULT_MAX_ADMISSION_BYTES DEFAULT_MAX_CALL_BYTES"

section \<open>Identifiers (identity.rs)\<close>

definition MAX_IDENTIFIER_BYTES :: nat where
  "MAX_IDENTIFIER_BYTES = 128"

datatype identifier_error =
    IdentifierEmpty
  | IdentifierTooLong (id_limit: nat) (id_actual: nat)
  | IdentifierForbiddenByte (id_index: nat) (id_byte: char)

definition identifier_byte :: "char \<Rightarrow> bool" where
  "identifier_byte c \<longleftrightarrow> is_ascii_alphanumeric c \<or> c \<in> set ''-_.:''"

definition validate_identifier :: "string \<Rightarrow> (unit, identifier_error) result" where
  "validate_identifier value =
     (if value = [] then Err IdentifierEmpty
      else if MAX_IDENTIFIER_BYTES < length value
      then Err (IdentifierTooLong MAX_IDENTIFIER_BYTES (length value))
      else (case find_index_from 0 (\<lambda>c. \<not> identifier_byte c) value of
              Some (index, byte) \<Rightarrow> Err (IdentifierForbiddenByte index byte)
            | None \<Rightarrow> Ok ()))"

datatype worker_id = WorkerId string
datatype ticket_id = TicketId string
datatype call_id = CallId string

definition worker_id_new :: "string \<Rightarrow> (worker_id, identifier_error) result" where
  "worker_id_new value = result_bind (validate_identifier value) id (\<lambda>_. Ok (WorkerId value))"

definition ticket_id_new :: "string \<Rightarrow> (ticket_id, identifier_error) result" where
  "ticket_id_new value = result_bind (validate_identifier value) id (\<lambda>_. Ok (TicketId value))"

definition call_id_new :: "string \<Rightarrow> (call_id, identifier_error) result" where
  "call_id_new value = result_bind (validate_identifier value) id (\<lambda>_. Ok (CallId value))"

section \<open>Method allowlist (allowlist.rs)\<close>

definition MAX_METHOD_NAME_BYTES :: nat where
  "MAX_METHOD_NAME_BYTES = 128"

definition WORKER_PROTOCOL_METHODS :: "string list" where
  "WORKER_PROTOCOL_METHODS =
     [''worker.heartbeat'', ''worker.lease.renew'', ''worker.task.claim'',
      ''worker.task.complete'', ''worker.task.fail'', ''worker.task.progress'']"

datatype method_name_error =
    MethodEmpty
  | MethodTooLong (mn_limit: nat) (mn_actual: nat)
  | MethodEmptySegment (mn_segment: nat)
  | MethodForbiddenByte (mn_index: nat) (mn_byte: char)

datatype method_name = MethodName string

definition method_byte :: "char \<Rightarrow> bool" where
  "method_byte c \<longleftrightarrow> is_ascii_lowercase c \<or> is_ascii_digit c \<or> c \<in> set ''._''"

definition method_name_new :: "string \<Rightarrow> (method_name, method_name_error) result" where
  "method_name_new value =
     (if value = [] then Err MethodEmpty
      else if MAX_METHOD_NAME_BYTES < length value
      then Err (MethodTooLong MAX_METHOD_NAME_BYTES (length value))
      else (case find_index_from 0 (\<lambda>c. \<not> method_byte c) value of
              Some (index, byte) \<Rightarrow> Err (MethodForbiddenByte index byte)
            | None \<Rightarrow>
                (case find_index_from 0 (\<lambda>part. part = []) (split_on (CHR ''.'') value) of
                   Some (segment, _) \<Rightarrow> Err (MethodEmptySegment segment)
                 | None \<Rightarrow> Ok (MethodName value))))"

record method_allowlist =
  methods :: "method_name set"

definition allowlist_empty :: method_allowlist where
  "allowlist_empty = \<lparr>methods = {}\<rparr>"

definition allowlist_closed :: "method_name list \<Rightarrow> method_allowlist" where
  "allowlist_closed ms = \<lparr>methods = set ms\<rparr>"

fun parse_closed_loop :: "method_name set \<Rightarrow> string list \<Rightarrow> (method_allowlist, method_name_error) result" where
  "parse_closed_loop acc [] = Ok \<lparr>methods = acc\<rparr>"
| "parse_closed_loop acc (name # names) =
     result_bind (method_name_new name) id (\<lambda>m. parse_closed_loop (insert m acc) names)"

definition parse_closed :: "string list \<Rightarrow> (method_allowlist, method_name_error) result" where
  "parse_closed names = parse_closed_loop {} names"

text \<open>\<open>worker_protocol\<close> panics (\<open>None\<close>) if the pinned constant ever stops being valid.\<close>

definition worker_protocol :: "method_allowlist option" where
  "worker_protocol =
     (case parse_closed WORKER_PROTOCOL_METHODS of Ok a \<Rightarrow> Some a | Err _ \<Rightarrow> None)"

definition admits :: "method_allowlist \<Rightarrow> method_name \<Rightarrow> bool" where
  "admits a m \<longleftrightarrow> m \<in> methods a"

definition allowlist_len :: "method_allowlist \<Rightarrow> nat" where
  "allowlist_len a = card (methods a)"

section \<open>The admission secret (secret.rs)\<close>

definition ADMISSION_SECRET_BYTES :: nat where
  "ADMISSION_SECRET_BYTES = 32"

definition TICKET_ID_BYTES :: nat where
  "TICKET_ID_BYTES = 16"

datatype admission_secret = AdmissionSecret "u8 list"

datatype secret_parse_error =
    BadLength (sp_expected: nat) (sp_actual: nat)
  | NonHexByte (sp_index: nat) (sp_byte: char)

datatype secret_source_error = SecretSourceError

text \<open>A byte of a string read as the integer the match arms compare.\<close>

definition hex_value :: "char \<Rightarrow> u8 option" where
  "hex_value c =
     (if is_ascii_digit c then Some (of_nat (of_char c) - 48)
      else if 97 \<le> (of_char c :: nat) \<and> (of_char c :: nat) \<le> 102
      then Some (of_nat (of_char c) - 97 + 10)
      else None)"

definition hex_digit :: "u8 \<Rightarrow> char" where
  "hex_digit d = ''0123456789abcdef'' ! unat d"

fun encode_hex :: "u8 list \<Rightarrow> string" where
  "encode_hex [] = []"
| "encode_hex (b # bs) = hex_digit (drop_bit 4 b) # hex_digit (b AND 0x0f) # encode_hex bs"

text \<open>
  The loop over \<open>chunks_exact(2)\<close>: \<open>index\<close> counts pairs, and a trailing odd byte is ignored by
  \<open>chunks_exact\<close> (the length check of \<open>secret_parse\<close> has excluded it).
\<close>

fun parse_hex_pairs :: "nat \<Rightarrow> string \<Rightarrow> (u8 list, secret_parse_error) result" where
  "parse_hex_pairs index (h # l # rest) =
     (case hex_value h of
        None \<Rightarrow> Err (NonHexByte (index * 2) h)
      | Some high \<Rightarrow>
          (case hex_value l of
             None \<Rightarrow> Err (NonHexByte (index * 2 + 1) l)
           | Some low \<Rightarrow>
               result_bind (parse_hex_pairs (Suc index) rest) id
                 (\<lambda>bs. Ok ((push_bit 4 high OR low) # bs))))"
| "parse_hex_pairs index _ = Ok []"

definition secret_parse :: "string \<Rightarrow> (admission_secret, secret_parse_error) result" where
  "secret_parse value =
     (let expected = ADMISSION_SECRET_BYTES * 2 in
      if length value \<noteq> expected then Err (BadLength expected (length value))
      else result_bind (parse_hex_pairs 0 value) id (\<lambda>bytes. Ok (AdmissionSecret bytes)))"

fun to_wire_string :: "admission_secret \<Rightarrow> string" where
  "to_wire_string (AdmissionSecret bytes) = encode_hex bytes"

text \<open>
  \<open>PartialEq\<close> through \<open>subtle::ConstantTimeEq\<close>: equal exactly when the fixed-size arrays are.
\<close>

fun secret_eq :: "admission_secret \<Rightarrow> admission_secret \<Rightarrow> bool" where
  "secret_eq (AdmissionSecret a) (AdmissionSecret b) \<longleftrightarrow> a = b"

section \<open>Identifiers and method names\<close>

lemma validate_identifier_Ok:
  "validate_identifier v = Ok () \<longleftrightarrow>
     v \<noteq> [] \<and> length v \<le> MAX_IDENTIFIER_BYTES \<and> (\<forall>c \<in> set v. identifier_byte c)"
  by (auto simp: validate_identifier_def find_index_from_None split: option.splits)
     (metis find_index_from_None option.distinct(1))

lemma ticket_id_new_Ok [result_simps]:
  "ticket_id_new v = Ok t \<longleftrightarrow> t = TicketId v \<and> validate_identifier v = Ok ()"
  by (auto simp: ticket_id_new_def result_simps)

text \<open>The shape the allowlist documentation promises of a member.\<close>

definition valid_method_name :: "string \<Rightarrow> bool" where
  "valid_method_name v \<longleftrightarrow>
     v \<noteq> [] \<and> length v \<le> MAX_METHOD_NAME_BYTES \<and> (\<forall>c \<in> set v. method_byte c) \<and>
     [] \<notin> set (split_on (CHR ''.'') v)"

lemma method_name_new_Ok [result_simps]:
  "method_name_new v = Ok m \<longleftrightarrow> m = MethodName v \<and> valid_method_name v"
proof (cases "v = [] \<or> MAX_METHOD_NAME_BYTES < length v")
  case True
  then show ?thesis by (auto simp: method_name_new_def valid_method_name_def)
next
  case short: False
  show ?thesis
  proof (cases rule: find_index_from_cases [of 0 "\<lambda>c. \<not> method_byte c" v])
    case bytes: absent
    show ?thesis
      using short bytes
      by (cases rule: find_index_from_cases [of 0 "\<lambda>part. part = []" "split_on (CHR ''.'') v"])
         (auto simp: method_name_new_def valid_method_name_def)
  next
    case (found i c)
    with short show ?thesis
      by (auto simp: method_name_new_def valid_method_name_def)
  qed
qed

lemma parse_closed_loop_Ok:
  "parse_closed_loop acc names = Ok a \<longleftrightarrow>
     (\<forall>n \<in> set names. valid_method_name n) \<and> a = \<lparr>methods = acc \<union> MethodName ` set names\<rparr>"
  by (induction names arbitrary: acc) (auto simp: result_simps)

lemma valid_method_name_no_wildcard: "valid_method_name v \<Longrightarrow> CHR ''*'' \<notin> set v"
  by (auto simp: valid_method_name_def method_byte_def ascii_defs)

text \<open>
  Building an allowlist from strings succeeds exactly when every string is a
  dotted lowercase name with no empty segment, and the list then admits exactly the strings it was
  given: there is no wildcard, prefix or implied member, and no member contains an asterisk.
\<close>

theorem parse_closed_exact:
  "(parse_closed names = Ok a \<longleftrightarrow>
      (\<forall>n \<in> set names. valid_method_name n) \<and> a = \<lparr>methods = MethodName ` set names\<rparr>)
   \<and> (parse_closed names = Ok a \<and> admits a (MethodName v) \<longrightarrow> v \<in> set names \<and> CHR ''*'' \<notin> set v)"
proof -
  have exact: "parse_closed names = Ok a \<longleftrightarrow>
      (\<forall>n \<in> set names. valid_method_name n) \<and> a = \<lparr>methods = MethodName ` set names\<rparr>"
    by (simp add: parse_closed_def parse_closed_loop_Ok)
  then show ?thesis
    by (auto simp: admits_def dest: valid_method_name_no_wildcard)
qed

theorem parse_closed_exact_witness:
  "parse_closed [''worker.heartbeat''] = Ok \<lparr>methods = {MethodName ''worker.heartbeat''}\<rparr>
   \<and> \<not> admits \<lparr>methods = {MethodName ''worker.heartbeat''}\<rparr> (MethodName ''*'')"
proof -
  have "valid_method_name ''worker.heartbeat''"
    by (simp add: valid_method_name_def method_byte_def ascii_defs MAX_METHOD_NAME_BYTES_def)
  then have ok: "parse_closed [''worker.heartbeat'']
      = Ok \<lparr>methods = {MethodName ''worker.heartbeat''}\<rparr>"
    using parse_closed_exact [of "[''worker.heartbeat'']"
        "\<lparr>methods = {MethodName ''worker.heartbeat''}\<rparr>"] by simp
  with parse_closed_exact [of "[''worker.heartbeat'']"
        "\<lparr>methods = {MethodName ''worker.heartbeat''}\<rparr>" "''*''"]
  show ?thesis by auto
qed

text \<open>The pinned protocol methods never make \<open>worker_protocol\<close> panic.\<close>

lemma worker_protocol_total:
  "worker_protocol = Some \<lparr>methods = MethodName ` set WORKER_PROTOCOL_METHODS\<rparr>"
proof -
  have "\<forall>n \<in> set WORKER_PROTOCOL_METHODS. valid_method_name n"
    by (simp add: WORKER_PROTOCOL_METHODS_def valid_method_name_def method_byte_def ascii_defs
        MAX_METHOD_NAME_BYTES_def)
  then have "parse_closed WORKER_PROTOCOL_METHODS =
      Ok \<lparr>methods = MethodName ` set WORKER_PROTOCOL_METHODS\<rparr>"
    by (simp add: parse_closed_def parse_closed_loop_Ok)
  then show ?thesis by (simp add: worker_protocol_def)
qed

section \<open>The hex form of a secret\<close>

lemma hex_value_digit:
  assumes "d < 16"
  shows "hex_value (hex_digit d) = Some d"
proof -
  have "\<forall>n \<in> set [0..<16]. hex_value (hex_digit (of_nat n)) = Some (of_nat n)"
    by code_simp
  moreover have "unat d \<in> set [0..<16]"
    using assms by (simp add: word_less_nat_alt)
  ultimately have "hex_value (hex_digit (of_nat (unat d))) = Some (of_nat (unat d))"
    by blast
  then show ?thesis by simp
qed

lemma hex_digit_value:
  assumes "hex_value c = Some d"
  shows "d < 16 \<and> hex_digit d = c"
proof -
  have "\<forall>n \<in> set ([48..<58] @ [97..<103]).
      case hex_value (char_of n) of None \<Rightarrow> True | Some e \<Rightarrow> e < 16 \<and> hex_digit e = char_of n"
    by (simp add: upt_rec_numeral hex_value_def is_ascii_digit_def hex_digit_def char_of_def
        bit_iff_odd)
  moreover have "of_char c \<in> set ([48..<58] @ [97..<103 :: nat])"
    using assms by (auto simp: hex_value_def is_ascii_digit_def split: if_splits) arith
  ultimately have "case hex_value (char_of (of_char c :: nat)) of None \<Rightarrow> True
      | Some e \<Rightarrow> e < 16 \<and> hex_digit e = char_of (of_char c :: nat)"
    by blast
  then show ?thesis using assms by simp
qed

lemma nibbles_split:
  assumes "h < 16" "l < 16"
  shows "drop_bit 4 (push_bit 4 h OR l) = h \<and> (push_bit 4 h OR l) AND 0x0f = (l :: u8)"
proof -
  have self: "take_bit 4 x = x" if "x < 16" for x :: u8
    using that by (simp add: word_less_nat_alt word_unat_eq_iff take_bit_eq_mod unat_mod_distrib)
  have high: "bit h n \<Longrightarrow> n < 4" "bit l n \<Longrightarrow> n < 4" for n
    using self [OF assms(1)] self [OF assms(2)] by (metis bit_take_bit_iff)+
  show ?thesis
    unfolding low_nibble
    by (intro conjI; rule bit_word_eqI) (auto simp: bit_simps dest: high)
qed

lemma parse_hex_pairs_encode: "parse_hex_pairs i (encode_hex bs) = Ok bs"
  by (induction bs arbitrary: i)
     (simp_all add: hex_value_digit nibble_bound nibbles_join)

lemma encode_hex_join:
  "h < 16 \<Longrightarrow> l < 16 \<Longrightarrow>
     encode_hex ((push_bit 4 h OR l) # bs) = hex_digit h # hex_digit l # encode_hex bs"
  using nibbles_split [of h l] by (simp only: encode_hex.simps)

lemma encode_parse_hex_pairs:
  "even (length v) \<Longrightarrow> parse_hex_pairs i v = Ok bs \<Longrightarrow> encode_hex bs = v"
proof (induction i v arbitrary: bs rule: parse_hex_pairs.induct)
  case (1 index h l rest)
  then obtain high low tail where "hex_value h = Some high" "hex_value l = Some low"
    and tail: "parse_hex_pairs (Suc index) rest = Ok tail"
    and bs: "bs = (push_bit 4 high OR low) # tail"
    by (auto simp: result_simps split: option.splits)
  moreover from this "1.IH" "1.prems"(1) have "encode_hex tail = rest" by simp
  ultimately show ?case
    using hex_digit_value [of h high] hex_digit_value [of l low] encode_hex_join [of high low]
    by simp
qed auto

lemma length_encode_hex [simp]: "length (encode_hex bs) = 2 * length bs"
  by (induction bs) simp_all

lemma hex_digit_identifier:
  assumes "d < 16"
  shows "identifier_byte (hex_digit d)"
proof -
  have "hex_digit d \<in> set ''0123456789abcdef''"
    unfolding hex_digit_def by (rule nth_mem) (use assms in \<open>simp add: word_less_nat_alt\<close>)
  moreover have "\<forall>c \<in> set ''0123456789abcdef''. identifier_byte c"
    by (simp add: identifier_byte_def ascii_defs)
  ultimately show ?thesis by blast
qed

lemma encode_hex_identifier_bytes: "\<forall>c \<in> set (encode_hex bs). identifier_byte c"
  by (induction bs) (simp_all add: hex_digit_identifier nibble_bound)

text \<open>A ticket identity is hex of a fixed buffer, hence always a valid identifier.\<close>

lemma encode_hex_identifier:
  "bs \<noteq> [] \<Longrightarrow> length bs \<le> 64 \<Longrightarrow> validate_identifier (encode_hex bs) = Ok ()"
  using encode_hex_identifier_bytes [of bs]
  by (cases bs) (simp_all add: validate_identifier_Ok MAX_IDENTIFIER_BYTES_def)

lemma encode_hex_inj: "encode_hex a = encode_hex b \<Longrightarrow> a = b"
  by (metis parse_hex_pairs_encode result.inject(1))

text \<open>
  The wire form of an admission secret loses nothing and accepts nothing else:
  printing any 32-byte secret and parsing it gives the secret back, and every string the parser
  accepts is exactly what printing the parsed secret produces (so uppercase digits, other lengths
  and any other spelling are refused).
\<close>

theorem secret_wire_roundtrip:
  "(length bytes = ADMISSION_SECRET_BYTES \<longrightarrow>
      secret_parse (to_wire_string (AdmissionSecret bytes)) = Ok (AdmissionSecret bytes))
   \<and> (secret_parse v = Ok s \<longrightarrow> to_wire_string s = v)"
proof (intro conjI impI)
  assume "length bytes = ADMISSION_SECRET_BYTES"
  then show "secret_parse (to_wire_string (AdmissionSecret bytes)) = Ok (AdmissionSecret bytes)"
    by (simp add: secret_parse_def parse_hex_pairs_encode)
next
  assume "secret_parse v = Ok s"
  then obtain bs where "length v = ADMISSION_SECRET_BYTES * 2" "parse_hex_pairs 0 v = Ok bs"
    and s: "s = AdmissionSecret bs"
    by (auto simp: secret_parse_def result_simps Let_def split: if_splits)
  then have "encode_hex bs = v"
    by (auto intro: encode_parse_hex_pairs)
  with s show "to_wire_string s = v" by simp
qed

theorem secret_wire_roundtrip_witness:
  "secret_parse (to_wire_string (AdmissionSecret (replicate 32 0x11)))
     = Ok (AdmissionSecret (replicate 32 0x11))"
  using secret_wire_roundtrip [of "replicate 32 0x11"]
  by (simp add: ADMISSION_SECRET_BYTES_def)

end
