(* ===== verification/Worker_Fencing.thy ===== *)
theory Worker_Fencing
  imports Worker_Identity
begin

text \<open>
  Generational fencing (crates/claw-worker/src/fencing.rs): the per-worker generation ledger, and
  the contract it gives the admission controller, stated as a locale and discharged here for the
  ledger the code has.
\<close>

section \<open>Tokens and the ledger\<close>

datatype fencing_token = FencingToken u64

fun token_get :: "fencing_token \<Rightarrow> u64" where
  "token_get (FencingToken g) = g"

definition fencing_token_new :: "u64 \<Rightarrow> fencing_token option" where
  "fencing_token_new generation = (if generation = 0 then None else Some (FencingToken generation))"

datatype fencing_error =
    ZeroGeneration
  | NeverAdmitted worker_id
  | Stale (fe_presented: u64) (fe_current: u64)
  | FromFuture (fe_presented: u64) (fe_current: u64)
  | GenerationOverflow worker_id

definition fencing_token_try_from :: "u64 \<Rightarrow> (fencing_token, fencing_error) result" where
  "fencing_token_try_from value =
     (case fencing_token_new value of Some t \<Rightarrow> Ok t | None \<Rightarrow> Err ZeroGeneration)"

record generation_ledger =
  ledger_map :: "worker_id \<rightharpoonup> fencing_token"

definition ledger_new :: generation_ledger where
  "ledger_new = \<lparr>ledger_map = Map.empty\<rparr>"

definition open_generation ::
  "generation_ledger \<Rightarrow> worker_id \<Rightarrow> (fencing_token, fencing_error) result \<times> generation_ledger" where
  "open_generation l worker =
     (case ledger_map l worker of
        Some current \<Rightarrow>
          (case checked_add (token_get current) 1 of
             None \<Rightarrow> (Err (GenerationOverflow worker), l)
           | Some next \<Rightarrow>
               (case fencing_token_new next of
                  None \<Rightarrow> (Err ZeroGeneration, l)
                | Some token \<Rightarrow> (Ok token, l\<lparr>ledger_map := (ledger_map l)(worker \<mapsto> token)\<rparr>)))
      | None \<Rightarrow>
          (case fencing_token_new 1 of
             None \<Rightarrow> (Err ZeroGeneration, l)
           | Some token \<Rightarrow> (Ok token, l\<lparr>ledger_map := (ledger_map l)(worker \<mapsto> token)\<rparr>)))"

definition ledger_current :: "generation_ledger \<Rightarrow> worker_id \<Rightarrow> fencing_token option" where
  "ledger_current l worker = ledger_map l worker"

definition ledger_verify ::
  "generation_ledger \<Rightarrow> worker_id \<Rightarrow> fencing_token \<Rightarrow> (unit, fencing_error) result" where
  "ledger_verify l worker presented =
     (case ledger_current l worker of
        None \<Rightarrow> Err (NeverAdmitted worker)
      | Some current \<Rightarrow>
          (if token_get presented = token_get current then Ok ()
           else if token_get presented < token_get current
           then Err (Stale (token_get presented) (token_get current))
           else Err (FromFuture (token_get presented) (token_get current))))"

section \<open>The contract of a fencing ledger\<close>

text \<open>
  What the controller relies on. \<open>open_gen\<close> installs a strictly newer generation for one key and
  leaves every other key alone, or fails and changes nothing; \<open>verify\<close> accepts the current
  generation and nothing else.
\<close>

locale generation_fencing =
  fixes current :: "'l \<Rightarrow> 'w \<Rightarrow> 't option"
    and gen :: "'t \<Rightarrow> u64"
    and open_gen :: "'l \<Rightarrow> 'w \<Rightarrow> ('t, 'e) result \<times> 'l"
    and verify :: "'l \<Rightarrow> 'w \<Rightarrow> 't \<Rightarrow> (unit, 'e) result"
  assumes open_installs: "open_gen l w = (Ok t, l') \<Longrightarrow> current l' w = Some t"
    and open_frame: "open_gen l w = (r, l') \<Longrightarrow> v \<noteq> w \<Longrightarrow> current l' v = current l v"
    and open_newer: "open_gen l w = (Ok t, l') \<Longrightarrow> current l w = Some u \<Longrightarrow> gen u < gen t"
    and open_failed: "open_gen l w = (Err e, l') \<Longrightarrow> l' = l"
    and verify_iff: "verify l w t = Ok () \<longleftrightarrow> (\<exists>u. current l w = Some u \<and> gen t = gen u)"
begin

text \<open>The generation of a key never decreases and is never forgotten.\<close>

lemma open_mono:
  assumes "open_gen l w = (r, l')" and "current l v = Some u"
  shows "\<exists>u'. current l' v = Some u' \<and> gen u \<le> gen u'"
proof (cases "v = w")
  case same: True
  show ?thesis
  proof (cases r)
    case (Ok t)
    with assms same open_installs [of l w t l'] open_newer [of l w t l' u] show ?thesis
      by (simp add: less_imp_le)
  next
    case (Err e)
    with assms open_failed [of l w e l'] show ?thesis by simp
  qed
next
  case False
  with assms show ?thesis by (simp add: open_frame)
qed

text \<open>The ledger after a list of openings, failed ones included.\<close>

lemma opens_mono:
  "current l v = Some u \<Longrightarrow>
     \<exists>u'. current (foldl (\<lambda>l w. snd (open_gen l w)) l ws) v = Some u' \<and> gen u \<le> gen u'"
proof (induction ws arbitrary: l u)
  case Nil
  then show ?case by simp
next
  case (Cons w ws)
  obtain r l' where step: "open_gen l w = (r, l')" by (cases "open_gen l w")
  from open_mono [OF this Cons.prems] obtain u' where "current l' v = Some u'" "gen u \<le> gen u'"
    by blast
  with Cons.IH [of l' u'] step show ?case by (auto intro: order_trans)
qed

text \<open>A token below the current generation is refused now and after any further openings.\<close>

lemma superseded_forever:
  assumes "current l w = Some u" and "gen t < gen u"
  shows "verify (foldl (\<lambda>l w. snd (open_gen l w)) l ws) w t \<noteq> Ok ()"
  using opens_mono [OF assms(1), of ws] assms(2) by (auto simp: verify_iff)

lemma opened_verifies: "open_gen l w = (Ok t, l') \<Longrightarrow> verify l' w t = Ok ()"
  by (auto simp: verify_iff dest: open_installs)

lemma verify_unique:
  "verify l w t = Ok () \<Longrightarrow> verify l w t' = Ok () \<Longrightarrow> gen t = gen t'"
  by (auto simp: verify_iff)

end

lemma checked_add_one_greater:
  "checked_add (a :: u64) 1 = Some b \<Longrightarrow> a < b \<and> b \<noteq> 0"
  by (auto simp: checked_add_eq_Some word_less_nat_alt)

lemma open_generation_installs:
  "open_generation l w = (Ok t, l') \<Longrightarrow> l' = l\<lparr>ledger_map := (ledger_map l)(w \<mapsto> t)\<rparr>"
  by (auto simp: open_generation_def split: option.splits)

lemma open_generation_failed: "open_generation l w = (Err e, l') \<Longrightarrow> l' = l"
  by (auto simp: open_generation_def split: option.splits)

interpretation ledger: generation_fencing ledger_current token_get open_generation ledger_verify
proof (unfold_locales, goal_cases)
  case (1 l w t l')
  then show ?case by (auto simp: ledger_current_def dest!: open_generation_installs)
next
  case (2 l w r l' v)
  then show ?case
    by (cases r)
       (auto simp: ledger_current_def dest!: open_generation_installs open_generation_failed)
next
  case (3 l w t l' u)
  then show ?case
    by (auto simp: open_generation_def ledger_current_def fencing_token_new_def
        split: option.splits if_splits dest!: checked_add_one_greater)
next
  case (4 l w e l')
  then show ?case by (rule open_generation_failed)
next
  case (5 l w t)
  then show ?case by (auto simp: ledger_verify_def split: option.splits)
qed

lemma open_generation_cases:
  obtains (opened) t where
      "open_generation l w = (Ok t, l\<lparr>ledger_map := (ledger_map l)(w \<mapsto> t)\<rparr>)"
      "unat (token_get t) = (case ledger_map l w of None \<Rightarrow> 1 | Some u \<Rightarrow> unat (token_get u) + 1)"
  | (exhausted) u where "ledger_map l w = Some u" "token_get u = - 1"
      "open_generation l w = (Err (GenerationOverflow w), l)"
proof (cases "ledger_map l w")
  case None
  with opened show ?thesis by (simp add: open_generation_def fencing_token_new_def)
next
  case (Some u)
  show ?thesis
  proof (cases "checked_add (token_get u) 1")
    case None
    then have "2 ^ LENGTH(64) \<le> unat (token_get u) + 1"
      by (simp add: checked_add_eq_None)
    with unat_bound [of "token_get u"] have "unat (token_get u) = unat (- 1 :: u64)"
      by (simp add: unat_minus_one_max)
    then have "token_get u = - 1" by (simp add: word_unat_eq_iff)
    with Some None exhausted show ?thesis by (simp add: open_generation_def)
  next
    case (Some n)
    with \<open>ledger_map l w = Some u\<close> opened [of "FencingToken n"] checked_add_one_greater [OF Some]
    show ?thesis
      by (simp add: open_generation_def fencing_token_new_def checked_add_eq_Some)
  qed
qed

section \<open>Properties of the ledger\<close>

text \<open>
  Fencing is permanent: a token below a worker's current generation is refused by
  \<open>verify\<close> now and after any further sequence of \<open>open_generation\<close> calls on any workers,
  including calls that fail at the end of the counter, which never wraps back to a live generation.
\<close>

theorem superseded_token_never_verifies:
  assumes "ledger_current l w = Some u" and "token_get t < token_get u"
  shows "ledger_verify (foldl (\<lambda>l v. snd (open_generation l v)) l ws) w t \<noteq> Ok ()"
  using assms by (rule ledger.superseded_forever)

theorem superseded_token_never_verifies_witness:
  "ledger_verify
     (foldl (\<lambda>l v. snd (open_generation l v))
        \<lparr>ledger_map = [WorkerId ''a'' \<mapsto> FencingToken (- 1)]\<rparr> [WorkerId ''a'', WorkerId ''b''])
     (WorkerId ''a'') (FencingToken 1) \<noteq> Ok ()"
  by (rule superseded_token_never_verifies [where u = "FencingToken (- 1)"])
     (simp_all add: ledger_current_def word_less_nat_alt unat_minus_one_max)

text \<open>
  Opening a generation either installs the successor of the worker's current
  generation (generation one for an unknown worker) or, only when the 64-bit counter is exhausted,
  fails with the overflow error and changes nothing; generation zero is never produced.
\<close>

theorem open_generation_spec:
  "case open_generation l w of
     (Ok t, l') \<Rightarrow> ledger_current l' w = Some t \<and> token_get t \<noteq> 0 \<and>
        unat (token_get t) = (case ledger_current l w of None \<Rightarrow> 1 | Some u \<Rightarrow> unat (token_get u) + 1)
   | (Err e, l') \<Rightarrow> l' = l \<and> e = GenerationOverflow w \<and>
        (\<exists>u. ledger_current l w = Some u \<and> unat (token_get u) = 2 ^ 64 - 1)"
proof (cases rule: open_generation_cases [of l w])
  case (opened t)
  moreover have "unat (token_get t) \<noteq> 0"
    using opened(2) by (simp split: option.splits)
  then have "token_get t \<noteq> 0"
    by (metis unat_eq_zero)
  ultimately show ?thesis by (simp add: ledger_current_def)
next
  case (exhausted u)
  then show ?thesis by (simp add: ledger_current_def unat_minus_one_max)
qed

end
