(* ===== verification/Worker_Controller.thy ===== *)
theory Worker_Controller
  imports Worker_Fencing
begin

text \<open>
  The admission controller of the closed worker protocol (crates/claw-worker/src/controller.rs,
  ticket.rs, error.rs): minting tickets, redeeming them into sessions and screening every call.

  Parameters. The wall clock is read once per operation, so each operation takes the reading
  \<open>now\<close>. The randomness port \<open>SecretSource\<close> is a function \<open>fill\<close> on its own state that returns
  a buffer of the requested length or an error. The JSON decoder (\<open>serde_json\<close>) is a function
  \<open>parse\<close> from frame bytes to a request or an error message, and the payload of a call is any type.
  \<open>None\<close> is a panic.
\<close>

section \<open>Tickets, requests and rejections\<close>

record admission_ticket =
  ticket_ticket_id :: ticket_id
  ticket_worker_id :: worker_id
  ticket_fencing_token :: fencing_token
  ticket_issued_at_ms :: u64
  ticket_expires_at_ms :: u64
  ticket_allowed_methods :: method_allowlist

record issued_admission =
  issued_ticket :: admission_ticket
  issued_secret :: admission_secret

record admission_request =
  req_ticket_id :: ticket_id
  req_worker_id :: worker_id
  req_fencing_token :: fencing_token
  req_secret :: admission_secret

definition admission_request_of :: "issued_admission \<Rightarrow> admission_request" where
  "admission_request_of i =
     \<lparr>req_ticket_id = ticket_ticket_id (issued_ticket i),
      req_worker_id = ticket_worker_id (issued_ticket i),
      req_fencing_token = ticket_fencing_token (issued_ticket i),
      req_secret = issued_secret i\<rparr>"

datatype session_id = SessionId (session_get: u64)

datatype admission_rejection =
    AdmissionPayloadTooLarge nat nat
  | AdmissionMalformed string
  | UnknownTicket ticket_id
  | TicketAlreadyRedeemed ticket_id
  | SecretMismatch ticket_id
  | WorkerIdentityMismatch worker_id worker_id
  | NotYetValid u64 u64
  | Expired u64 u64
  | Fenced fencing_error

datatype call_rejection =
    CallPayloadTooLarge nat nat
  | CallMalformed string
  | UnknownSession session_id
  | SessionClosed session_id
  | SessionFenced fencing_error
  | SessionExpired u64 u64
  | DuplicateCall call_id
  | MethodNotAllowed method_name

datatype issue_error =
    ZeroTimeToLive
  | ExpiryOverflow u64 u64
  | Fencing fencing_error
  | SecretSource secret_source_error
  | TicketIdCollision ticket_id
  | Limit limit_error

record admitted_session =
  admitted_session :: session_id
  admitted_worker_id :: worker_id
  admitted_fencing_token :: fencing_token
  admitted_expires_at_ms :: u64
  admitted_allowed_methods :: method_allowlist

record 'v worker_call =
  call_call_id :: call_id
  call_method :: method_name
  call_payload :: 'v

record 'v worker_call_frame =
  frame_call_id :: call_id
  frame_method :: method_name
  frame_payload :: 'v

definition worker_call_of_frame :: "'v worker_call_frame \<Rightarrow> 'v worker_call" where
  "worker_call_of_frame f =
     \<lparr>call_call_id = frame_call_id f, call_method = frame_method f, call_payload = frame_payload f\<rparr>"

definition frame_of_worker_call :: "'v worker_call \<Rightarrow> 'v worker_call_frame" where
  "frame_of_worker_call c =
     \<lparr>frame_call_id = call_call_id c, frame_method = call_method c, frame_payload = call_payload c\<rparr>"

record 'v call_accepted =
  accepted_session :: session_id
  accepted_call_id :: call_id
  accepted_method :: method_name
  accepted_payload :: 'v

section \<open>The controller\<close>

record pending_ticket =
  pending_ticket :: admission_ticket
  pending_secret :: admission_secret

record session_state =
  state_worker_id :: worker_id
  state_fencing_token :: fencing_token
  state_allowed_methods :: method_allowlist
  state_expires_at_ms :: u64
  accepted_calls :: "call_id set"
  closed :: bool

record 's admission_controller =
  secrets :: 's
  limits :: payload_limits
  generations :: generation_ledger
  pending :: "ticket_id \<rightharpoonup> pending_ticket"
  redeemed :: "ticket_id set"
  sessions :: "session_id \<rightharpoonup> session_state"
  next_session :: u64

type_synonym 's secret_source = "'s \<Rightarrow> nat \<Rightarrow> (u8 list, secret_source_error) result \<times> 's"

definition controller_new :: "'s \<Rightarrow> payload_limits \<Rightarrow> ('s admission_controller, limit_error) result" where
  "controller_new source lim =
     result_bind (validate_limits lim) id (\<lambda>_.
       Ok \<lparr>secrets = source, limits = lim, generations = ledger_new, pending = Map.empty,
           redeemed = {}, sessions = Map.empty, next_session = 1\<rparr>)"

definition current_generation :: "'s admission_controller \<Rightarrow> worker_id \<Rightarrow> fencing_token option" where
  "current_generation c worker = ledger_current (generations c) worker"

definition issue ::
  "'s secret_source \<Rightarrow> u64 \<Rightarrow> 's admission_controller \<Rightarrow> worker_id \<Rightarrow> u64 \<Rightarrow> method_allowlist \<Rightarrow>
   ((issued_admission, issue_error) result \<times> 's admission_controller) option" where
  "issue fill now_ms c worker ttl_ms allowed =
     (if ttl_ms = 0 then Some (Err ZeroTimeToLive, c)
      else (case checked_add now_ms ttl_ms of
        None \<Rightarrow> Some (Err (ExpiryOverflow now_ms ttl_ms), c)
      | Some expires_at_ms \<Rightarrow>
          (case fill (secrets c) TICKET_ID_BYTES of
             (Err e, s1) \<Rightarrow> Some (Err (SecretSource e), c\<lparr>secrets := s1\<rparr>)
           | (Ok identity_bytes, s1) \<Rightarrow>
               (case ticket_id_new (encode_hex identity_bytes) of
                  Err _ \<Rightarrow> None
                | Ok tid \<Rightarrow>
                    (if tid \<in> dom (pending c) \<or> tid \<in> redeemed c
                     then Some (Err (TicketIdCollision tid), c\<lparr>secrets := s1\<rparr>)
                     else (case fill s1 ADMISSION_SECRET_BYTES of
                       (Err e, s2) \<Rightarrow> Some (Err (SecretSource e), c\<lparr>secrets := s2\<rparr>)
                     | (Ok secret_bytes, s2) \<Rightarrow>
                         (case open_generation (generations c) worker of
                            (Err e, g) \<Rightarrow>
                              Some (Err (Fencing e), c\<lparr>secrets := s2, generations := g\<rparr>)
                          | (Ok token, g) \<Rightarrow>
                              (let ticket =
                                 \<lparr>ticket_ticket_id = tid, ticket_worker_id = worker,
                                  ticket_fencing_token = token, ticket_issued_at_ms = now_ms,
                                  ticket_expires_at_ms = expires_at_ms,
                                  ticket_allowed_methods = allowed\<rparr>;
                                 secret = AdmissionSecret secret_bytes
                               in Some (Ok \<lparr>issued_ticket = ticket, issued_secret = secret\<rparr>,
                                    c\<lparr>secrets := s2, generations := g,
                                      pending := (pending c)(tid \<mapsto>
                                        \<lparr>pending_ticket = ticket, pending_secret = secret\<rparr>)\<rparr>)))))))))"

definition fence ::
  "'s admission_controller \<Rightarrow> worker_id \<Rightarrow> (fencing_token, fencing_error) result \<times> 's admission_controller" where
  "fence c worker =
     (case open_generation (generations c) worker of (r, g) \<Rightarrow> (r, c\<lparr>generations := g\<rparr>))"

text \<open>The checks of \<open>admit\<close> up to the point where the ticket is removed, in their order.\<close>

definition admit_check ::
  "u64 \<Rightarrow> 's admission_controller \<Rightarrow> admission_request \<Rightarrow> (pending_ticket, admission_rejection) result" where
  "admit_check now_ms c request =
     (if req_ticket_id request \<in> redeemed c
      then Err (TicketAlreadyRedeemed (req_ticket_id request))
      else (case pending c (req_ticket_id request) of
        None \<Rightarrow> Err (UnknownTicket (req_ticket_id request))
      | Some p \<Rightarrow>
          (let t = pending_ticket p in
           if \<not> secret_eq (pending_secret p) (req_secret request)
           then Err (SecretMismatch (req_ticket_id request))
           else if ticket_worker_id t \<noteq> req_worker_id request
           then Err (WorkerIdentityMismatch (ticket_worker_id t) (req_worker_id request))
           else if now_ms < ticket_issued_at_ms t
           then Err (NotYetValid (ticket_issued_at_ms t) now_ms)
           else if ticket_expires_at_ms t \<le> now_ms
           then Err (Expired (ticket_expires_at_ms t) now_ms)
           else result_bind
             (ledger_verify (generations c) (ticket_worker_id t) (req_fencing_token request)) Fenced
             (\<lambda>_. result_bind
               (ledger_verify (generations c) (ticket_worker_id t) (ticket_fencing_token t)) Fenced
               (\<lambda>_. Ok p)))))"

definition admit ::
  "u64 \<Rightarrow> 's admission_controller \<Rightarrow> admission_request \<Rightarrow>
   ((admitted_session, admission_rejection) result \<times> 's admission_controller) option" where
  "admit now_ms c request =
     (case admit_check now_ms c request of
        Err e \<Rightarrow> Some (Err e, c)
      | Ok p \<Rightarrow>
          (let t = pending_ticket p; session = SessionId (next_session c) in
           case checked_add (next_session c) 1 of
             None \<Rightarrow> None
           | Some n \<Rightarrow>
               Some (Ok \<lparr>admitted_session = session, admitted_worker_id = ticket_worker_id t,
                         admitted_fencing_token = ticket_fencing_token t,
                         admitted_expires_at_ms = ticket_expires_at_ms t,
                         admitted_allowed_methods = ticket_allowed_methods t\<rparr>,
                     c\<lparr>pending := (pending c)(req_ticket_id request := None),
                       redeemed := insert (req_ticket_id request) (redeemed c),
                       next_session := n,
                       sessions := (sessions c)(session \<mapsto>
                         \<lparr>state_worker_id = ticket_worker_id t,
                          state_fencing_token = ticket_fencing_token t,
                          state_allowed_methods = ticket_allowed_methods t,
                          state_expires_at_ms = ticket_expires_at_ms t,
                          accepted_calls = {}, closed = False\<rparr>)\<rparr>)))"

definition admit_encoded ::
  "(u8 list \<Rightarrow> (admission_request, string) result) \<Rightarrow> u64 \<Rightarrow> 's admission_controller \<Rightarrow> u8 list \<Rightarrow>
   ((admitted_session, admission_rejection) result \<times> 's admission_controller) option" where
  "admit_encoded parse now_ms c frame =
     (let limit = max_admission_bytes (limits c) in
      if limit < length frame then Some (Err (AdmissionPayloadTooLarge limit (length frame)), c)
      else (case parse frame of
              Err message \<Rightarrow> Some (Err (AdmissionMalformed message), c)
            | Ok request \<Rightarrow> admit now_ms c request))"

definition call_session ::
  "u64 \<Rightarrow> 's admission_controller \<Rightarrow> session_id \<Rightarrow> 'v worker_call \<Rightarrow>
   ('v call_accepted, call_rejection) result \<times> 's admission_controller" where
  "call_session now_ms c session k =
     (case sessions c session of
        None \<Rightarrow> (Err (UnknownSession session), c)
      | Some st \<Rightarrow>
          (if closed st then (Err (SessionClosed session), c)
           else (case ledger_verify (generations c) (state_worker_id st) (state_fencing_token st) of
             Err e \<Rightarrow> (Err (SessionFenced e), c)
           | Ok _ \<Rightarrow>
               (if state_expires_at_ms st \<le> now_ms
                then (Err (SessionExpired (state_expires_at_ms st) now_ms), c)
                else if call_call_id k \<in> accepted_calls st
                then (Err (DuplicateCall (call_call_id k)), c)
                else if \<not> admits (state_allowed_methods st) (call_method k)
                then (Err (MethodNotAllowed (call_method k)), c)
                else (Ok \<lparr>accepted_session = session, accepted_call_id = call_call_id k,
                          accepted_method = call_method k, accepted_payload = call_payload k\<rparr>,
                      c\<lparr>sessions := (sessions c)(session \<mapsto>
                        st\<lparr>accepted_calls := insert (call_call_id k) (accepted_calls st)\<rparr>)\<rparr>)))))"

definition call_encoded ::
  "(u8 list \<Rightarrow> ('v worker_call_frame, string) result) \<Rightarrow> u64 \<Rightarrow> 's admission_controller \<Rightarrow> session_id \<Rightarrow>
   u8 list \<Rightarrow> ('v call_accepted, call_rejection) result \<times> 's admission_controller" where
  "call_encoded parse now_ms c session frame =
     (let limit = max_call_bytes (limits c) in
      if limit < length frame then (Err (CallPayloadTooLarge limit (length frame)), c)
      else (case parse frame of
              Err message \<Rightarrow> (Err (CallMalformed message), c)
            | Ok decoded \<Rightarrow> call_session now_ms c session (worker_call_of_frame decoded)))"

definition close_session :: "'s admission_controller \<Rightarrow> session_id \<Rightarrow> bool \<times> 's admission_controller" where
  "close_session c session =
     (case sessions c session of
        Some st \<Rightarrow>
          (if \<not> closed st then (True, c\<lparr>sessions := (sessions c)(session \<mapsto> st\<lparr>closed := True\<rparr>)\<rparr>)
           else (False, c))
      | None \<Rightarrow> (False, c))"

definition is_open :: "'s admission_controller \<Rightarrow> session_id \<Rightarrow> bool" where
  "is_open c session = (case sessions c session of None \<Rightarrow> False | Some st \<Rightarrow> \<not> closed st)"

section \<open>The controller as a step relation\<close>

text \<open>
  One event per state-changing operation, with its arguments and its answer. The clock may read
  anything at each step, also a value earlier than before.
\<close>

datatype 'v worker_event =
    Issue u64 worker_id u64 method_allowlist "(issued_admission, issue_error) result"
  | Fence worker_id "(fencing_token, fencing_error) result"
  | Admit u64 admission_request "(admitted_session, admission_rejection) result"
  | Call u64 session_id "'v worker_call" "('v call_accepted, call_rejection) result"
  | Close session_id bool

inductive worker_step ::
  "'s secret_source \<Rightarrow> 's admission_controller \<Rightarrow> 'v worker_event \<Rightarrow> 's admission_controller \<Rightarrow> bool"
  for fill :: "'s secret_source"
where
  step_issue: "issue fill now c w ttl ms = Some (r, c') \<Longrightarrow> worker_step fill c (Issue now w ttl ms r) c'"
| step_fence: "fence c w = (r, c') \<Longrightarrow> worker_step fill c (Fence w r) c'"
| step_admit: "admit now c q = Some (r, c') \<Longrightarrow> worker_step fill c (Admit now q r) c'"
| step_call: "call_session now c s k = (r, c') \<Longrightarrow> worker_step fill c (Call now s k r) c'"
| step_close: "close_session c s = (b, c') \<Longrightarrow> worker_step fill c (Close s b) c'"

definition controller_init :: "'s admission_controller \<Rightarrow> bool" where
  "controller_init c \<longleftrightarrow> (\<exists>source lim. controller_new source lim = Ok c)"

section \<open>What each operation answers and changes\<close>

lemma issue_Ok:
  assumes "issue fill now c w ttl ms = Some (Ok i, c')"
  shows "\<exists>s g. ticket_ticket_id (issued_ticket i) \<notin> dom (pending c) \<union> redeemed c \<and>
    open_generation (generations c) w = (Ok (ticket_fencing_token (issued_ticket i)), g) \<and>
    checked_add now ttl = Some (ticket_expires_at_ms (issued_ticket i)) \<and> ttl \<noteq> 0 \<and>
    ticket_worker_id (issued_ticket i) = w \<and> ticket_issued_at_ms (issued_ticket i) = now \<and>
    ticket_allowed_methods (issued_ticket i) = ms \<and>
    c' = c\<lparr>secrets := s, generations := g, pending := (pending c)(ticket_ticket_id (issued_ticket i) \<mapsto>
            \<lparr>pending_ticket = issued_ticket i, pending_secret = issued_secret i\<rparr>)\<rparr>"
  using assms
  by (auto simp: issue_def Let_def split: if_splits option.splits prod.splits result.splits)

text \<open>Everything of a controller but its randomness source.\<close>

definition same_admissions :: "'s admission_controller \<Rightarrow> 's admission_controller \<Rightarrow> bool" where
  "same_admissions c c' \<longleftrightarrow>
     limits c' = limits c \<and> generations c' = generations c \<and> pending c' = pending c \<and>
     redeemed c' = redeemed c \<and> sessions c' = sessions c \<and> next_session c' = next_session c"

lemma issue_Err:
  "issue fill now c w ttl ms = Some (Err e, c') \<Longrightarrow> same_admissions c c'"
  by (auto simp: issue_def Let_def same_admissions_def
      split: if_splits option.splits prod.splits result.splits dest!: open_generation_failed)

lemma admit_check_Ok:
  "admit_check now c q = Ok p \<longleftrightarrow>
     req_ticket_id q \<notin> redeemed c \<and> pending c (req_ticket_id q) = Some p \<and>
     secret_eq (pending_secret p) (req_secret q) \<and>
     ticket_worker_id (pending_ticket p) = req_worker_id q \<and>
     ticket_issued_at_ms (pending_ticket p) \<le> now \<and> now < ticket_expires_at_ms (pending_ticket p) \<and>
     ledger_verify (generations c) (req_worker_id q) (req_fencing_token q) = Ok () \<and>
     ledger_verify (generations c) (req_worker_id q) (ticket_fencing_token (pending_ticket p)) = Ok ()"
  by (auto simp: admit_check_def Let_def result_simps split: option.splits if_splits)

definition session_of_ticket :: "admission_ticket \<Rightarrow> session_state" where
  "session_of_ticket t =
     \<lparr>state_worker_id = ticket_worker_id t, state_fencing_token = ticket_fencing_token t,
      state_allowed_methods = ticket_allowed_methods t, state_expires_at_ms = ticket_expires_at_ms t,
      accepted_calls = {}, closed = False\<rparr>"

lemma admit_Ok:
  assumes "admit now c q = Some (Ok a, c')"
  obtains p n where "admit_check now c q = Ok p" "checked_add (next_session c) 1 = Some n"
    "a = \<lparr>admitted_session = SessionId (next_session c),
          admitted_worker_id = ticket_worker_id (pending_ticket p),
          admitted_fencing_token = ticket_fencing_token (pending_ticket p),
          admitted_expires_at_ms = ticket_expires_at_ms (pending_ticket p),
          admitted_allowed_methods = ticket_allowed_methods (pending_ticket p)\<rparr>"
    "c' = c\<lparr>pending := (pending c)(req_ticket_id q := None),
            redeemed := insert (req_ticket_id q) (redeemed c), next_session := n,
            sessions := (sessions c)(SessionId (next_session c) \<mapsto> session_of_ticket (pending_ticket p))\<rparr>"
  using assms
  by (auto simp: admit_def Let_def session_of_ticket_def split: option.splits result.splits)

lemma admit_Err:
  "admit now c q = Some (Err e, c') \<longleftrightarrow> admit_check now c q = Err e \<and> c' = c"
  by (auto simp: admit_def Let_def split: option.splits result.splits)

lemma call_session_Ok:
  "call_session now c s k = (Ok a, c') \<longleftrightarrow>
     (\<exists>st. sessions c s = Some st \<and> \<not> closed st \<and>
        ledger_verify (generations c) (state_worker_id st) (state_fencing_token st) = Ok () \<and>
        now < state_expires_at_ms st \<and> call_call_id k \<notin> accepted_calls st \<and>
        admits (state_allowed_methods st) (call_method k) \<and>
        a = \<lparr>accepted_session = s, accepted_call_id = call_call_id k,
             accepted_method = call_method k, accepted_payload = call_payload k\<rparr> \<and>
        c' = c\<lparr>sessions := (sessions c)(s \<mapsto>
               st\<lparr>accepted_calls := insert (call_call_id k) (accepted_calls st)\<rparr>)\<rparr>)"
  by (auto simp: call_session_def split: option.splits result.splits if_splits)

lemma call_session_Err: "call_session now c s k = (Err e, c') \<Longrightarrow> c' = c"
  by (auto simp: call_session_def split: option.splits result.splits if_splits)

lemma close_session_eq:
  "close_session c s = (b, c') \<Longrightarrow>
     c' = c \<or> (\<exists>st. sessions c s = Some st \<and> \<not> closed st \<and>
       c' = c\<lparr>sessions := (sessions c)(s \<mapsto> st\<lparr>closed := True\<rparr>)\<rparr>)"
  by (auto simp: close_session_def split: option.splits if_splits)

section \<open>The controller invariant\<close>

type_synonym grant = "worker_id \<times> fencing_token"

definition pending_grant :: "pending_ticket \<Rightarrow> grant" where
  "pending_grant p = (ticket_worker_id (pending_ticket p), ticket_fencing_token (pending_ticket p))"

definition session_grant :: "session_state \<Rightarrow> grant" where
  "session_grant st = (state_worker_id st, state_fencing_token st)"

text \<open>A grant the ledger has issued: its generation is at most the worker's current one.\<close>

definition issued_grant :: "generation_ledger \<Rightarrow> grant \<Rightarrow> bool" where
  "issued_grant g x \<longleftrightarrow>
     (\<exists>u. ledger_current g (fst x) = Some u \<and> token_get (snd x) \<le> token_get u)"

text \<open>
  Redeemed tickets are not pending; every ticket and session carries a generation the ledger has
  issued; handles are below the counter that makes them unique; and no two of them carry the same
  grant.
\<close>

definition pending_ok :: "generation_ledger \<Rightarrow> (ticket_id \<rightharpoonup> pending_ticket) \<Rightarrow> ticket_id set \<Rightarrow> bool" where
  "pending_ok g pend red \<longleftrightarrow>
     (\<forall>t \<in> red. pend t = None) \<and>
     (\<forall>t p. pend t = Some p \<longrightarrow>
        ticket_ticket_id (pending_ticket p) = t \<and> issued_grant g (pending_grant p) \<and>
        ticket_issued_at_ms (pending_ticket p) < ticket_expires_at_ms (pending_ticket p))"

definition sessions_ok :: "generation_ledger \<Rightarrow> (session_id \<rightharpoonup> session_state) \<Rightarrow> u64 \<Rightarrow> bool" where
  "sessions_ok g sess nxt \<longleftrightarrow>
     (\<forall>s st. sess s = Some st \<longrightarrow> session_get s < nxt \<and> issued_grant g (session_grant st))"

definition grants_unique ::
  "(ticket_id \<rightharpoonup> pending_ticket) \<Rightarrow> (session_id \<rightharpoonup> session_state) \<Rightarrow> bool" where
  "grants_unique pend sess \<longleftrightarrow>
     (\<forall>t t' p p'. pend t = Some p \<and> pend t' = Some p' \<and> pending_grant p = pending_grant p' \<longrightarrow> t = t') \<and>
     (\<forall>t s p st. pend t = Some p \<and> sess s = Some st \<longrightarrow> pending_grant p \<noteq> session_grant st) \<and>
     (\<forall>s s' st st'. sess s = Some st \<and> sess s' = Some st' \<and> session_grant st = session_grant st' \<longrightarrow> s = s')"

definition controller_inv :: "'s admission_controller \<Rightarrow> bool" where
  "controller_inv c \<longleftrightarrow>
     pending_ok (generations c) (pending c) (redeemed c) \<and>
     sessions_ok (generations c) (sessions c) (next_session c) \<and>
     grants_unique (pending c) (sessions c)"

lemmas controller_inv_defs = controller_inv_def pending_ok_def sessions_ok_def grants_unique_def

lemma issued_grant_mono:
  "open_generation g w = (r, g') \<Longrightarrow> issued_grant g x \<Longrightarrow> issued_grant g' x"
  using ledger.open_mono unfolding issued_grant_def by (meson order_trans)

text \<open>A newly opened grant is none of the issued ones.\<close>

lemma opened_grant_fresh:
  assumes "open_generation g w = (Ok t, g')" and "issued_grant g x"
  shows "x \<noteq> (w, t)"
  using assms ledger.open_newer [of g w t g'] by (auto simp: issued_grant_def)

lemma opened_grant_issued:
  "open_generation g w = (Ok t, g') \<Longrightarrow> issued_grant g' (w, t)"
  using ledger.open_installs [of g w t g'] by (auto simp: issued_grant_def)

lemma pending_ok_mono:
  "open_generation g w = (r, g') \<Longrightarrow> pending_ok g pend red \<Longrightarrow> pending_ok g' pend red"
  by (auto simp: pending_ok_def intro: issued_grant_mono)

lemma sessions_ok_mono:
  "open_generation g w = (r, g') \<Longrightarrow> sessions_ok g sess nxt \<Longrightarrow> sessions_ok g' sess nxt"
  by (auto simp: sessions_ok_def intro: issued_grant_mono)

subsection \<open>Every operation keeps it\<close>

lemma issue_inv:
  assumes inv: "controller_inv c" and "issue fill now c w ttl ms = Some (r, c')"
  shows "controller_inv c'"
proof (cases r)
  case (Err e)
  with assms issue_Err [of fill now c w ttl ms e c'] show ?thesis
    by (simp add: controller_inv_def same_admissions_def)
next
  case (Ok i)
  with assms obtain s g where
    fresh: "ticket_ticket_id (issued_ticket i) \<notin> dom (pending c) \<union> redeemed c"
    and opened: "open_generation (generations c) w = (Ok (ticket_fencing_token (issued_ticket i)), g)"
    and lease: "checked_add now ttl = Some (ticket_expires_at_ms (issued_ticket i))" "ttl \<noteq> 0"
      "ticket_issued_at_ms (issued_ticket i) = now"
    and who: "ticket_worker_id (issued_ticket i) = w"
    and c': "c' = c\<lparr>secrets := s, generations := g, pending := (pending c)
        (ticket_ticket_id (issued_ticket i) \<mapsto>
          \<lparr>pending_ticket = issued_ticket i, pending_secret = issued_secret i\<rparr>)\<rparr>"
    using issue_Ok [of fill now c w ttl ms i c'] by blast
  let ?new = "\<lparr>pending_ticket = issued_ticket i, pending_secret = issued_secret i\<rparr>"
  have grant: "pending_grant ?new = (w, ticket_fencing_token (issued_ticket i))"
    using who by (simp add: pending_grant_def)
  have window: "now < ticket_expires_at_ms (issued_ticket i)"
    using lease unat_gt_0 [of ttl] by (simp add: checked_add_eq_Some word_less_nat_alt)
  have "pending_ok g (pending c) (redeemed c)"
    using pending_ok_mono [OF opened] inv by (simp add: controller_inv_def)
  with fresh lease(3) window grant opened_grant_issued [OF opened]
  have pend: "pending_ok g (pending c') (redeemed c')"
    by (auto simp: pending_ok_def c')
  have sess: "sessions_ok g (sessions c') (next_session c')"
    using sessions_ok_mono [OF opened] inv by (simp add: controller_inv_def c')
  have old: "x \<noteq> pending_grant ?new" if "issued_grant (generations c) x" for x
    using opened_grant_fresh [OF opened that] grant by simp
  have "grants_unique (pending c') (sessions c')"
    using inv old unfolding controller_inv_def pending_ok_def sessions_ok_def grants_unique_def c'
    by simp metis
  with pend sess show ?thesis by (simp add: controller_inv_def c')
qed

lemma fence_inv:
  assumes "controller_inv c" and "fence c w = (r, c')"
  shows "controller_inv c'"
proof -
  obtain g where opened: "open_generation (generations c) w = (r, g)" and "c' = c\<lparr>generations := g\<rparr>"
    using assms(2) by (auto simp: fence_def split: prod.splits)
  with assms(1) pending_ok_mono [OF opened] sessions_ok_mono [OF opened] show ?thesis
    by (simp add: controller_inv_def)
qed

lemma admit_inv:
  assumes inv: "controller_inv c" and "admit now c q = Some (r, c')"
  shows "controller_inv c'"
proof (cases r)
  case (Err e)
  with assms show ?thesis by (simp add: admit_Err)
next
  case (Ok a)
  with assms(2) obtain p n where check: "admit_check now c q = Ok p"
    and bump: "checked_add (next_session c) 1 = Some n"
    and c': "c' = c\<lparr>pending := (pending c)(req_ticket_id q := None),
            redeemed := insert (req_ticket_id q) (redeemed c), next_session := n,
            sessions := (sessions c)(SessionId (next_session c) \<mapsto> session_of_ticket (pending_ticket p))\<rparr>"
    by (auto elim: admit_Ok)
  from check have p: "pending c (req_ticket_id q) = Some p" by (simp add: admit_check_Ok)
  have grant: "session_grant (session_of_ticket (pending_ticket p)) = pending_grant p"
    by (simp add: session_grant_def session_of_ticket_def pending_grant_def)
  have up: "next_session c < n" using bump checked_add_one_greater by blast
  have pend: "pending_ok (generations c') (pending c') (redeemed c')"
    using inv by (simp add: controller_inv_def pending_ok_def c')
  have "issued_grant (generations c) (pending_grant p)"
    using inv p by (simp add: controller_inv_def pending_ok_def)
  then have sess: "sessions_ok (generations c') (sessions c') (next_session c')"
    using inv up grant
    by (auto simp: controller_inv_def sessions_ok_def c' intro: order.strict_trans)
  have "grants_unique (pending c') (sessions c')"
    using inv p grant unfolding controller_inv_def grants_unique_def c'
    by simp metis
  with pend sess show ?thesis by (simp add: controller_inv_def)
qed

text \<open>Replacing a session's state by one with the same grant keeps the invariant.\<close>

lemma session_update_inv:
  assumes "controller_inv c" and "sessions c s = Some st" and "session_grant st' = session_grant st"
  shows "controller_inv (c\<lparr>sessions := (sessions c)(s \<mapsto> st')\<rparr>)"
proof -
  have "sessions_ok (generations c) ((sessions c)(s \<mapsto> st')) (next_session c)"
    using assms by (auto simp: controller_inv_def sessions_ok_def)
  moreover have "grants_unique (pending c) ((sessions c)(s \<mapsto> st'))"
    using assms unfolding controller_inv_def grants_unique_def by simp metis
  ultimately show ?thesis using assms(1) by (simp add: controller_inv_def)
qed

lemma call_session_inv:
  assumes inv: "controller_inv c" and "call_session now c s k = (r, c')"
  shows "controller_inv c'"
proof (cases r)
  case (Err e)
  with assms call_session_Err show ?thesis by blast
next
  case (Ok a)
  with assms(2) obtain st where st: "sessions c s = Some st"
    and c': "c' = c\<lparr>sessions := (sessions c)(s \<mapsto>
      st\<lparr>accepted_calls := insert (call_call_id k) (accepted_calls st)\<rparr>)\<rparr>"
    by (auto simp: call_session_Ok)
  show ?thesis unfolding c'
    by (rule session_update_inv [OF inv st]) (simp add: session_grant_def)
qed

lemma close_session_inv:
  assumes inv: "controller_inv c" and "close_session c s = (b, c')"
  shows "controller_inv c'"
  using close_session_eq [OF assms(2)]
proof (elim disjE exE conjE)
  fix st
  assume st: "sessions c s = Some st"
    and c': "c' = c\<lparr>sessions := (sessions c)(s \<mapsto> st\<lparr>closed := True\<rparr>)\<rparr>"
  show ?thesis unfolding c'
    by (rule session_update_inv [OF inv st]) (simp add: session_grant_def)
qed (use inv in simp)

lemma controller_new_inv: "controller_init c \<Longrightarrow> controller_inv c"
  by (auto simp: controller_init_def controller_new_def result_simps controller_inv_defs)

lemma worker_step_inv: "controller_inv c \<Longrightarrow> worker_step fill c e c' \<Longrightarrow> controller_inv c'"
  by (erule worker_step.cases)
     (auto intro: issue_inv fence_inv admit_inv call_session_inv close_session_inv)

interpretation worker: invariant_system controller_init "worker_step fill" controller_inv for fill
  by unfold_locales (blast intro: controller_new_inv worker_step_inv)+

section \<open>What a step can never undo\<close>

lemma issue_frame:
  assumes "issue fill now c w ttl ms = Some (r, c')"
  shows "redeemed c' = redeemed c" "sessions c' = sessions c"
    "pending c t = Some p \<Longrightarrow> pending c' t = Some p"
    "generations c' = generations c \<or> (\<exists>r. open_generation (generations c) w = (r, generations c'))"
proof -
  have "redeemed c' = redeemed c \<and> sessions c' = sessions c \<and>
    (pending c t = Some p \<longrightarrow> pending c' t = Some p) \<and>
    (generations c' = generations c \<or> (\<exists>r. open_generation (generations c) w = (r, generations c')))"
  proof (cases r)
    case (Ok i)
    with issue_Ok [of fill now c w ttl ms i c'] assms show ?thesis by auto
  next
    case (Err e)
    with issue_Err [of fill now c w ttl ms e c'] assms show ?thesis
      by (simp add: same_admissions_def)
  qed
  then show "redeemed c' = redeemed c" "sessions c' = sessions c"
    "pending c t = Some p \<Longrightarrow> pending c' t = Some p"
    "generations c' = generations c \<or> (\<exists>r. open_generation (generations c) w = (r, generations c'))"
    by auto
qed

text \<open>A worker's generation never goes down.\<close>

definition superseded :: "grant \<Rightarrow> 's admission_controller \<Rightarrow> bool" where
  "superseded x c \<longleftrightarrow>
     (\<exists>u. ledger_current (generations c) (fst x) = Some u \<and> token_get (snd x) < token_get u)"

lemma superseded_not_verified:
  "superseded (w, t) c \<Longrightarrow> ledger_verify (generations c) w t \<noteq> Ok ()"
  by (auto simp: superseded_def ledger.verify_iff)

lemma step_generations:
  assumes "worker_step fill c e c'"
  shows "generations c' = generations c \<or>
    (\<exists>w r. open_generation (generations c) w = (r, generations c'))"
  using assms
proof cases
  case (step_issue now w ttl ms r)
  then show ?thesis using issue_frame(4) by blast
next
  case (step_fence w r)
  then show ?thesis by (auto simp: fence_def split: prod.splits)
next
  case (step_admit now q r)
  then show ?thesis by (cases r) (auto simp: admit_Err elim: admit_Ok)
next
  case (step_call now s k r)
  then show ?thesis by (cases r) (auto simp: call_session_Ok dest: call_session_Err)
next
  case (step_close s b)
  then show ?thesis by (auto dest: close_session_eq)
qed

lemma superseded_step: "superseded x c \<Longrightarrow> worker_step fill c e c' \<Longrightarrow> superseded x c'"
  using step_generations [of fill c e c'] ledger.open_mono
  unfolding superseded_def by (metis order_less_le_trans)

text \<open>A session keeps its grant, lease and allowlist, and only ever gains accepted calls.\<close>

definition session_grows :: "session_state \<Rightarrow> session_state \<Rightarrow> bool" where
  "session_grows st st' \<longleftrightarrow>
     session_grant st' = session_grant st \<and> accepted_calls st \<subseteq> accepted_calls st' \<and>
     state_expires_at_ms st' = state_expires_at_ms st \<and>
     state_allowed_methods st' = state_allowed_methods st \<and> (closed st \<longrightarrow> closed st')"

lemma session_grows_refl [simp]: "session_grows st st"
  by (simp add: session_grows_def)

lemma session_grows_trans: "session_grows a b \<Longrightarrow> session_grows b c \<Longrightarrow> session_grows a c"
  by (auto simp: session_grows_def)

lemma session_step:
  assumes "worker_step fill c e c'" and inv: "controller_inv c" and st: "sessions c s = Some st"
  shows "\<exists>st'. sessions c' s = Some st' \<and> session_grows st st'"
  using assms(1)
proof cases
  case (step_issue now w ttl ms r)
  then show ?thesis using st by (simp add: issue_frame(2) [OF step_issue(2)])
next
  case (step_fence w r)
  then show ?thesis using st by (auto simp: fence_def split: prod.splits)
next
  case (step_admit now q r)
  have "s \<noteq> SessionId (next_session c)"
    using inv st unfolding controller_inv_def sessions_ok_def by fastforce
  with step_admit st show ?thesis by (cases r) (auto simp: admit_Err elim!: admit_Ok)
next
  case (step_call now s' k r)
  then show ?thesis
    using st by (cases r) (auto simp: call_session_Ok session_grows_def session_grant_def
        dest: call_session_Err)
next
  case (step_close s' b)
  then show ?thesis
    using st by (auto dest!: close_session_eq simp: session_grows_def session_grant_def)
qed

text \<open>A redeemed ticket stays redeemed; a pending one stays as it is until it is redeemed.\<close>

lemma redeemed_step:
  assumes "worker_step fill c e c'" and "t \<in> redeemed c"
  shows "t \<in> redeemed c'"
  using assms(1)
proof cases
  case (step_issue now w ttl ms r)
  then show ?thesis using assms(2) by (simp add: issue_frame(1) [OF step_issue(2)])
next
  case (step_fence w r)
  then show ?thesis using assms(2) by (auto simp: fence_def split: prod.splits)
next
  case (step_admit now q r)
  then show ?thesis using assms(2) by (cases r) (auto simp: admit_Err elim!: admit_Ok)
next
  case (step_call now s k r)
  then show ?thesis
    using assms(2) by (cases r) (auto simp: call_session_Ok dest: call_session_Err)
next
  case (step_close s b)
  then show ?thesis using assms(2) by (auto dest: close_session_eq)
qed

lemma pending_step:
  assumes "worker_step fill c e c'" and "pending c t = Some p"
  shows "pending c' t = Some p \<or> t \<in> redeemed c'"
  using assms(1)
proof cases
  case (step_issue now w ttl ms r)
  then show ?thesis using assms(2) by (simp add: issue_frame(3) [OF step_issue(2)])
next
  case (step_fence w r)
  then show ?thesis using assms(2) by (auto simp: fence_def split: prod.splits)
next
  case (step_admit now q r)
  then show ?thesis using assms(2) by (cases r) (auto simp: admit_Err elim!: admit_Ok)
next
  case (step_call now s k r)
  then show ?thesis
    using assms(2) by (cases r) (auto simp: call_session_Ok dest: call_session_Err)
next
  case (step_close s b)
  then show ?thesis using assms(2) by (auto dest: close_session_eq)
qed

subsection \<open>Facts that hold for ever once they hold\<close>

text \<open>Session \<open>s\<close> exists with a state that has grown from \<open>st\<close>.\<close>

definition holds_session :: "session_id \<Rightarrow> session_state \<Rightarrow> 's admission_controller \<Rightarrow> bool" where
  "holds_session s st c \<longleftrightarrow>
     controller_inv c \<and> (\<exists>st'. sessions c s = Some st' \<and> session_grows st st')"

interpretation spent: stable_predicate "worker_step fill" "\<lambda>c. t \<in> redeemed c" for fill t
  by unfold_locales (rule redeemed_step)

interpretation kept: stable_predicate "worker_step fill" "holds_session s st" for fill s st
proof
  fix c e c'
  assume "holds_session s st c" and step: "worker_step fill c e c'"
  then obtain st1 where "controller_inv c" "sessions c s = Some st1" "session_grows st st1"
    by (auto simp: holds_session_def)
  with step session_step [of fill c e c' s st1] worker_step_inv show "holds_session s st c'"
    by (auto simp: holds_session_def intro: session_grows_trans)
qed

interpretation fenced: stable_predicate "worker_step fill" "superseded x" for fill x
  by unfold_locales (rule superseded_step)

interpretation waiting: stable_predicate "worker_step fill"
  "\<lambda>c. pending c t = Some p \<or> t \<in> redeemed c" for fill t p
  by unfold_locales (blast dest: pending_step redeemed_step)


text \<open>The steps that open a new generation for a worker.\<close>

fun opens_for :: "worker_id \<Rightarrow> 'v worker_event \<Rightarrow> bool" where
  "opens_for w (Issue _ w' _ _ (Ok _)) \<longleftrightarrow> w' = w"
| "opens_for w (Fence w' (Ok _)) \<longleftrightarrow> w' = w"
| "opens_for w _ \<longleftrightarrow> False"

lemma opens_for_supersedes:
  assumes "worker_step fill c e c'" and "opens_for w e" and "issued_grant (generations c) (w, t)"
  shows "superseded (w, t) c'"
proof -
  from assms(1,2) obtain u where "open_generation (generations c) w = (Ok u, generations c')"
  proof cases
    case (step_issue now w' ttl ms r)
    with assms(2) obtain i where r: "r = Ok i" "w' = w" by (cases r) auto
    with issue_Ok [of fill now c w ttl ms i c'] step_issue(2) that show ?thesis by auto
  next
    case (step_fence w' r)
    with assms(2) that show ?thesis by (cases r) (auto simp: fence_def split: prod.splits)
  qed auto
  with assms(3) ledger.open_installs ledger.open_newer show ?thesis
    unfolding issued_grant_def superseded_def by (metis fst_conv order_le_less_trans snd_conv)
qed

lemma keeps_generation:
  assumes "worker_step fill c e c'" and "\<not> opens_for w e"
  shows "ledger_current (generations c') w = ledger_current (generations c) w"
  using assms(1)
proof cases
  case (step_issue now w' ttl ms r)
  show ?thesis
  proof (cases r)
    case (Ok i)
    with assms(2) step_issue(1) have "w \<noteq> w'" by auto
    moreover obtain t where "open_generation (generations c) w' = (Ok t, generations c')"
      using step_issue(2) Ok issue_Ok [of fill now c w' ttl ms i c'] by auto
    ultimately show ?thesis by (metis ledger.open_frame)
  next
    case (Err e)
    with step_issue issue_Err [of fill now c w' ttl ms e c'] show ?thesis
      by (simp add: same_admissions_def)
  qed
next
  case (step_fence w' r)
  with assms(2) show ?thesis
    by (cases r) (auto simp: fence_def split: prod.splits
        dest: ledger.open_frame open_generation_failed)
next
  case (step_admit now q r)
  then show ?thesis by (cases r) (auto simp: admit_Err elim!: admit_Ok)
next
  case (step_call now s k r)
  then show ?thesis by (cases r) (auto simp: call_session_Ok dest: call_session_Err)
next
  case (step_close s b)
  then show ?thesis by (auto dest: close_session_eq)
qed

lemma keeps_generation_steps:
  "steps (worker_step fill) c es c' \<Longrightarrow> \<forall>e \<in> set es. \<not> opens_for w e \<Longrightarrow>
     ledger_current (generations c') w = ledger_current (generations c) w"
  by (induction rule: steps.induct) (auto dest: keeps_generation)

section \<open>A worked run\<close>

text \<open>
  A concrete source (a counter in place of randomness) and a run of the controller: one worker is
  issued a ticket, redeems it and makes a call, then is issued a second ticket.
\<close>

definition demo_fill :: "nat secret_source" where
  "demo_fill s n = (Ok (replicate n (of_nat s)), Suc s)"

definition demo_methods :: method_allowlist where
  "demo_methods = \<lparr>methods = {MethodName ''worker.heartbeat''}\<rparr>"

definition demo_ticket :: admission_ticket where
  "demo_ticket =
     \<lparr>ticket_ticket_id = TicketId (encode_hex (replicate 16 0)), ticket_worker_id = WorkerId ''w'',
      ticket_fencing_token = FencingToken 1, ticket_issued_at_ms = 1000,
      ticket_expires_at_ms = 1500, ticket_allowed_methods = demo_methods\<rparr>"

definition demo_issued :: issued_admission where
  "demo_issued = \<lparr>issued_ticket = demo_ticket, issued_secret = AdmissionSecret (replicate 32 1)\<rparr>"

definition demo0 :: "nat admission_controller" where
  "demo0 = \<lparr>secrets = 0, limits = default_limits, generations = ledger_new, pending = Map.empty,
            redeemed = {}, sessions = Map.empty, next_session = 1\<rparr>"

definition demo1 :: "nat admission_controller" where
  "demo1 = demo0\<lparr>secrets := 2, generations := \<lparr>ledger_map = [WorkerId ''w'' \<mapsto> FencingToken 1]\<rparr>,
     pending := [ticket_ticket_id demo_ticket \<mapsto>
       \<lparr>pending_ticket = demo_ticket, pending_secret = AdmissionSecret (replicate 32 1)\<rparr>]\<rparr>"

definition demo2 :: "nat admission_controller" where
  "demo2 = demo1\<lparr>pending := Map.empty, redeemed := {ticket_ticket_id demo_ticket},
     next_session := 2, sessions := [SessionId 1 \<mapsto> session_of_ticket demo_ticket]\<rparr>"

definition demo_call :: "nat worker_call" where
  "demo_call = \<lparr>call_call_id = CallId ''c1'', call_method = MethodName ''worker.heartbeat'',
     call_payload = 0\<rparr>"

definition demo3 :: "nat admission_controller" where
  "demo3 = demo2\<lparr>sessions := [SessionId 1 \<mapsto>
     (session_of_ticket demo_ticket)\<lparr>accepted_calls := {CallId ''c1''}\<rparr>]\<rparr>"

lemmas demo_defs = demo_fill_def demo_methods_def demo_ticket_def demo_issued_def demo0_def
  demo1_def demo2_def demo_call_def demo3_def

lemma demo_issue:
  "issue demo_fill 1000 demo0 (WorkerId ''w'') 500 demo_methods = Some (Ok demo_issued, demo1)"
proof -
  have "ticket_id_new (encode_hex (replicate 16 0)) = Ok (TicketId (encode_hex (replicate 16 0)))"
    by (simp add: result_simps encode_hex_identifier del: encode_hex.simps)
  then show ?thesis
    by (simp add: issue_def demo_defs Let_def TICKET_ID_BYTES_def ADMISSION_SECRET_BYTES_def
        checked_add_def open_generation_def ledger_new_def fencing_token_new_def
        del: encode_hex.simps)
qed

lemma demo_admit:
  "\<exists>a. admit 1100 demo1 (admission_request_of demo_issued) = Some (Ok a, demo2)"
  by (auto simp: admit_def admit_check_def demo_defs admission_request_of_def Let_def
      ledger_verify_def ledger_current_def checked_add_def session_of_ticket_def
      simp del: encode_hex.simps)

lemma demo_call_ok: "\<exists>a. call_session 1200 demo2 (SessionId 1) demo_call = (Ok a, demo3)"
  by (auto simp: call_session_Ok demo_defs session_of_ticket_def ledger_verify_def
      ledger_current_def admits_def simp del: encode_hex.simps)

lemma demo_init: "controller_init demo0"
  unfolding controller_init_def controller_new_def
  by (rule exI [of _ 0], rule exI [of _ default_limits])
     (simp add: demo0_def default_limits_def payload_limits_new_def validate_limits_def
       DEFAULT_MAX_ADMISSION_BYTES_def DEFAULT_MAX_CALL_BYTES_def)

type_synonym demo_event = "nat worker_event"

lemma demo_steps:
  "\<exists>e. worker_step demo_fill demo0 (e :: demo_event) demo1"
  "\<exists>e. worker_step demo_fill demo1 (e :: demo_event) demo2"
  "\<exists>e. worker_step demo_fill demo2 (e :: demo_event) demo3"
  using demo_issue demo_admit demo_call_ok by (blast intro: worker_step.intros)+

lemma demo_reach:
  "reach controller_init (worker_step demo_fill :: _ \<Rightarrow> demo_event \<Rightarrow> _ \<Rightarrow> bool) demo0"
  "reach controller_init (worker_step demo_fill :: _ \<Rightarrow> demo_event \<Rightarrow> _ \<Rightarrow> bool) demo1"
  "reach controller_init (worker_step demo_fill :: _ \<Rightarrow> demo_event \<Rightarrow> _ \<Rightarrow> bool) demo2"
  "reach controller_init (worker_step demo_fill :: _ \<Rightarrow> demo_event \<Rightarrow> _ \<Rightarrow> bool) demo3"
  using demo_steps by (blast intro: reach.intros demo_init)+

section \<open>Properties of the controller\<close>

text \<open>
  Property C1. No split brain: in every reachable controller, if two sessions of one worker can
  each have a call accepted (at any two clock readings), they are the same session. A worker that
  was partitioned or restarted can never act beside its successor.
\<close>

theorem single_live_session:
  assumes reach: "reach controller_init (worker_step fill) c"
    and "call_session now c s k = (Ok a, c1)" and "call_session now' c s' k' = (Ok a', c2)"
    and "sessions c s = Some st" and "sessions c s' = Some st'"
    and "state_worker_id st = state_worker_id st'"
  shows "s = s'"
proof -
  from assms(2-5) have "ledger_verify (generations c) (state_worker_id st) (state_fencing_token st) = Ok ()"
    "ledger_verify (generations c) (state_worker_id st') (state_fencing_token st') = Ok ()"
    by (auto simp: call_session_Ok)
  with assms(6) have "token_get (state_fencing_token st) = token_get (state_fencing_token st')"
    using ledger.verify_unique by metis
  then have "session_grant st = session_grant st'"
    using assms(6)
    by (cases "state_fencing_token st"; cases "state_fencing_token st'") (simp add: session_grant_def)
  with worker.reach_inv [OF reach] assms(4,5) show ?thesis
    unfolding controller_inv_def grants_unique_def by blast
qed

theorem single_live_session_witness:
  "\<exists>a b. fst (call_session 1200 demo2 (SessionId 1) demo_call) = Ok a \<and>
     fst (call_session 1300 demo2 (SessionId 1) demo_call) = Ok b \<and>
     (\<forall>s c' st. call_session 1300 demo2 s demo_call = (Ok b, c') \<and> sessions demo2 s = Some st \<and>
        state_worker_id st = WorkerId ''w'' \<longrightarrow> s = SessionId 1)"
proof -
  obtain a where a: "call_session 1200 demo2 (SessionId 1) demo_call = (Ok a, demo3)"
    using demo_call_ok by blast
  obtain b where b: "fst (call_session 1300 demo2 (SessionId 1) demo_call) = Ok b"
    by (simp add: call_session_def demo_defs session_of_ticket_def ledger_verify_def
      ledger_current_def admits_def del: encode_hex.simps)
  have st: "sessions demo2 (SessionId 1) = Some (session_of_ticket demo_ticket)"
    "state_worker_id (session_of_ticket demo_ticket) = WorkerId ''w''"
    by (simp_all add: demo_defs session_of_ticket_def)
  show ?thesis
    using a b single_live_session [OF demo_reach(3) _ a _ st(1)] st(2) by auto
qed

text \<open>
  Property C20. Eviction is immediate and permanent: once a new generation is opened for a worker
  (by issuing a ticket or by fencing), every session and every unredeemed ticket the worker had
  before is refused, at every clock reading and after any further steps of the controller.
\<close>

theorem evicted_worker_locked_out:
  assumes reach: "reach controller_init (worker_step fill) c"
    and step: "worker_step fill c e c1" and opens: "opens_for w e"
    and later: "steps (worker_step fill) c1 es c2"
  shows "(sessions c s = Some st \<and> state_worker_id st = w \<longrightarrow>
      \<not> is_ok (fst (call_session now c2 s k))) \<and>
    (pending c t = Some p \<and> ticket_worker_id (pending_ticket p) = w \<and> req_ticket_id q = t \<longrightarrow>
      (\<exists>rejection. admit now c2 q = Some (Err rejection, c2)))"
proof (rule conjI)
  have inv: "controller_inv c" by (rule worker.reach_inv [OF reach])
  have gone: "superseded (w, tok) c2" if "issued_grant (generations c) (w, tok)" for tok
    using fenced.stable_steps [OF later] opens_for_supersedes [OF step opens that] by blast
  show "sessions c s = Some st \<and> state_worker_id st = w \<longrightarrow>
      \<not> is_ok (fst (call_session now c2 s k))"
  proof
    assume st: "sessions c s = Some st \<and> state_worker_id st = w"
    then have "holds_session s st c" using inv by (simp add: holds_session_def)
    then have "holds_session s st c2"
      using kept.stable_step [OF _ step] kept.stable_steps [OF later] by blast
    then obtain st' where st': "sessions c2 s = Some st'" "session_grant st' = session_grant st"
      by (auto simp: holds_session_def session_grows_def)
    moreover have "issued_grant (generations c) (w, state_fencing_token st)"
      using inv st by (auto simp: controller_inv_def sessions_ok_def session_grant_def)
    ultimately show "\<not> is_ok (fst (call_session now c2 s k))"
      using st gone superseded_not_verified
      by (cases "call_session now c2 s k")
         (fastforce simp: result_simps call_session_Ok session_grant_def)
  qed
  show "pending c t = Some p \<and> ticket_worker_id (pending_ticket p) = w \<and> req_ticket_id q = t \<longrightarrow>
      (\<exists>rejection. admit now c2 q = Some (Err rejection, c2))"
  proof
    assume p: "pending c t = Some p \<and> ticket_worker_id (pending_ticket p) = w \<and> req_ticket_id q = t"
    then have old: "pending c2 t = Some p \<or> t \<in> redeemed c2"
      using waiting.stable_step [OF _ step] waiting.stable_steps [OF later] by blast
    have "superseded (w, ticket_fencing_token (pending_ticket p)) c2"
      using inv p gone by (auto simp: controller_inv_def pending_ok_def pending_grant_def)
    with old p have "admit_check now c2 q \<noteq> Ok p'" for p'
      using superseded_not_verified by (fastforce simp: admit_check_Ok)
    then show "\<exists>rejection. admit now c2 q = Some (Err rejection, c2)"
      by (cases "admit_check now c2 q") (auto simp: admit_Err)
  qed
qed

theorem evicted_worker_locked_out_witness:
  "\<not> is_ok (fst (call_session 1200 (snd (fence demo2 (WorkerId ''w''))) (SessionId 1) demo_call))"
proof -
  obtain t c1 where f: "fence demo2 (WorkerId ''w'') = (Ok t, c1)"
    by (simp add: fence_def demo_defs open_generation_def checked_add_def fencing_token_new_def
        del: encode_hex.simps)
  have "worker_step demo_fill demo2 (Fence (WorkerId ''w'') (Ok t) :: demo_event) c1"
    using f by (rule worker_step.step_fence)
  from evicted_worker_locked_out [OF demo_reach(3) this _ steps.steps_nil, of "WorkerId ''w''"
      "SessionId 1" "session_of_ticket demo_ticket"]
  show ?thesis using f by (simp add: demo2_def demo1_def demo_ticket_def session_of_ticket_def)
qed

text \<open>
  Property C21. A ticket is redeemed at most once: after a successful admission, every later
  presentation of that ticket, by any request and after any steps, is refused as already redeemed
  and changes nothing.
\<close>

theorem ticket_single_use:
  assumes "admit now c q = Some (Ok a, c1)" and "steps (worker_step fill) c1 es c2"
    and "req_ticket_id q' = req_ticket_id q"
  shows "admit now' c2 q' = Some (Err (TicketAlreadyRedeemed (req_ticket_id q)), c2)"
proof -
  have "req_ticket_id q \<in> redeemed c1" using assms(1) by (auto elim!: admit_Ok)
  then have "req_ticket_id q \<in> redeemed c2"
    using spent.stable_steps [OF assms(2)] by blast
  with assms(3) show ?thesis by (simp add: admit_Err admit_check_def)
qed

theorem ticket_single_use_witness:
  "admit 1200 demo3 (admission_request_of demo_issued) =
     Some (Err (TicketAlreadyRedeemed (ticket_ticket_id demo_ticket)), demo3)"
proof -
  obtain a where a: "admit 1100 demo1 (admission_request_of demo_issued) = Some (Ok a, demo2)"
    using demo_admit by blast
  obtain e where e: "worker_step demo_fill demo2 (e :: demo_event) demo3"
    using demo_steps(3) by blast
  have "steps (worker_step demo_fill) demo2 [e] demo3"
    using e by (auto intro: steps.intros)
  from ticket_single_use [OF a this refl, of 1200]
  show ?thesis by (simp add: admission_request_of_def demo_issued_def)
qed

text \<open>
  Property C29. A call identifier is accepted at most once per session: after a call is accepted,
  a call with the same identifier on the same session is refused for ever, whatever happens in
  between (from any reachable controller).
\<close>

theorem call_not_replayed:
  assumes "reach controller_init (worker_step fill) c" and "call_session now c s k = (Ok a, c1)"
    and "steps (worker_step fill) c1 es c2" and "call_call_id k' = call_call_id k"
  shows "\<not> is_ok (fst (call_session now' c2 s k'))"
proof -
  have "controller_inv c1"
    using worker.reach_inv [OF assms(1)] call_session_inv assms(2) by blast
  moreover from assms(2) obtain st where "sessions c1 s = Some st" and in1: "call_call_id k \<in> accepted_calls st"
    by (auto simp: call_session_Ok)
  ultimately have "holds_session s st c1" by (simp add: holds_session_def)
  then have "holds_session s st c2" by (rule kept.stable_steps [OF assms(3)])
  then obtain st' where "sessions c2 s = Some st'" "call_call_id k \<in> accepted_calls st'"
    using in1 by (auto simp: holds_session_def session_grows_def)
  with assms(4) show ?thesis
    by (cases "call_session now' c2 s k'") (auto simp: result_simps call_session_Ok)
qed

theorem call_not_replayed_witness:
  "\<not> is_ok (fst (call_session 1250 demo3 (SessionId 1) demo_call))"
proof -
  obtain a where "call_session 1200 demo2 (SessionId 1) demo_call = (Ok a, demo3)"
    using demo_call_ok by blast
  from call_not_replayed [OF demo_reach(3) this steps.steps_nil refl] show ?thesis .
qed

text \<open>
  The decision on a call, on every branch: a call is accepted exactly when its session
  exists and is open, holds the worker's current generation, has not expired, has not seen the call
  identifier and allows the method; acceptance records the identifier and changes nothing else, and
  a refused call changes nothing at all.
\<close>

theorem call_decision:
  "(is_ok (fst (call_session now c s k)) \<longleftrightarrow>
     (\<exists>st u. sessions c s = Some st \<and> \<not> closed st \<and>
        current_generation c (state_worker_id st) = Some u \<and>
        token_get (state_fencing_token st) = token_get u \<and>
        now < state_expires_at_ms st \<and> call_call_id k \<notin> accepted_calls st \<and>
        call_method k \<in> methods (state_allowed_methods st)))
   \<and> snd (call_session now c s k) =
       (if is_ok (fst (call_session now c s k))
        then c\<lparr>sessions := (sessions c)(s := map_option
               (\<lambda>st. st\<lparr>accepted_calls := insert (call_call_id k) (accepted_calls st)\<rparr>) (sessions c s))\<rparr>
        else c)"
  by (cases "sessions c s")
     (auto simp: call_session_def ledger_verify_def current_generation_def admits_def
       split: option.splits)

text \<open>
  Property C38. An honest worker gets in: after a ticket is issued, if no new generation is opened
  for that worker, the ticket has not been redeemed and the clock is inside the ticket's window,
  then presenting the issued credential is admitted (provided the 64-bit handle counter is not at
  its end), and the session carries exactly the ticket's worker, generation, expiry and methods.
\<close>

theorem honest_worker_admitted:
  assumes "issue fill now c w ttl ms = Some (Ok i, c1)"
    and "steps (worker_step fill) c1 es c2" and "\<forall>e \<in> set es. \<not> opens_for w e"
    and "ticket_ticket_id (issued_ticket i) \<notin> redeemed c2" and "unat (next_session c2) < 2 ^ 64 - 1"
    and "now \<le> now'" and "unat now' < unat now + unat ttl"
  shows "\<exists>c3. admit now' c2 (admission_request_of i) =
    Some (Ok \<lparr>admitted_session = SessionId (next_session c2), admitted_worker_id = w,
              admitted_fencing_token = ticket_fencing_token (issued_ticket i),
              admitted_expires_at_ms = now + ttl, admitted_allowed_methods = ms\<rparr>, c3)"
proof -
  let ?t = "issued_ticket i"
  let ?p = "\<lparr>pending_ticket = ?t, pending_secret = issued_secret i\<rparr>"
  from issue_Ok [OF assms(1)] obtain g where
    opened: "open_generation (generations c) w = (Ok (ticket_fencing_token ?t), g)"
    and expiry: "checked_add now ttl = Some (ticket_expires_at_ms ?t)"
    and ticket: "ticket_worker_id ?t = w" "ticket_issued_at_ms ?t = now" "ticket_allowed_methods ?t = ms"
    and c1: "generations c1 = g" "pending c1 (ticket_ticket_id ?t) = Some ?p"
    by auto
  have "pending c2 (ticket_ticket_id ?t) = Some ?p"
    using waiting.stable_steps [OF assms(2)] c1(2) assms(4) by blast
  moreover have "ledger_current (generations c2) w = Some (ticket_fencing_token ?t)"
    using keeps_generation_steps [OF assms(2,3)] ledger.open_installs [OF opened] c1(1) by simp
  then have "ledger_verify (generations c2) w (ticket_fencing_token ?t) = Ok ()"
    by (simp add: ledger.verify_iff)
  moreover have "now' < ticket_expires_at_ms ?t"
    using expiry assms(7) by (simp add: checked_add_eq_Some word_less_nat_alt)
  moreover have "ticket_expires_at_ms ?t = now + ttl"
    using expiry by (simp add: checked_add_def split: if_splits)
  moreover have "secret_eq (issued_secret i) (issued_secret i)" by (cases "issued_secret i") simp
  ultimately have "admit_check now' c2 (admission_request_of i) = Ok ?p"
    using ticket assms(4,6) by (simp add: admit_check_Ok admission_request_of_def)
  moreover obtain n where "checked_add (next_session c2) 1 = Some n"
    using assms(5) by (auto simp: checked_add_def)
  ultimately show ?thesis
    using ticket \<open>ticket_expires_at_ms ?t = now + ttl\<close> by (simp add: admit_def Let_def)
qed

theorem honest_worker_admitted_witness:
  "\<exists>c3. admit 1400 demo1 (admission_request_of demo_issued) =
    Some (Ok \<lparr>admitted_session = SessionId 1, admitted_worker_id = WorkerId ''w'',
              admitted_fencing_token = FencingToken 1, admitted_expires_at_ms = 1500,
              admitted_allowed_methods = demo_methods\<rparr>, c3)"
  using honest_worker_admitted [OF demo_issue steps.steps_nil, of 1400]
  by (simp add: demo_defs word_le_nat_alt del: encode_hex.simps)

text \<open>
  Frame caps are enforced before anything is parsed: an admission or call frame longer
  than its cap is refused with both sizes and without any effect, whatever the decoder would have
  made of it; and a frame within its cap is handled exactly as the request it decodes to.
\<close>

theorem frame_caps_before_parsing:
  "(max_admission_bytes (limits c) < length frame \<longrightarrow>
      admit_encoded parse now c frame =
        Some (Err (AdmissionPayloadTooLarge (max_admission_bytes (limits c)) (length frame)), c))
   \<and> (max_call_bytes (limits c) < length frame \<longrightarrow>
      call_encoded parse' now c s frame =
        (Err (CallPayloadTooLarge (max_call_bytes (limits c)) (length frame)), c))
   \<and> (length frame \<le> max_admission_bytes (limits c) \<and> parse frame = Ok q \<longrightarrow>
      admit_encoded parse now c frame = admit now c q)
   \<and> (length frame \<le> max_call_bytes (limits c) \<and> parse' frame = Ok f \<longrightarrow>
      call_encoded parse' now c s frame = call_session now c s (worker_call_of_frame f))"
  by (simp add: admit_encoded_def call_encoded_def)

theorem frame_caps_before_parsing_witness:
  "admit_encoded (\<lambda>_. Ok (admission_request_of demo_issued)) 1100 demo1 (replicate 8193 0) =
     Some (Err (AdmissionPayloadTooLarge 8192 8193), demo1)"
proof -
  have "max_admission_bytes (limits demo1) = 8192"
    by (simp add: demo1_def demo0_def default_limits_def payload_limits_new_def
        DEFAULT_MAX_ADMISSION_BYTES_def)
  with conjunct1 [OF frame_caps_before_parsing [of demo1 "replicate 8193 0"
        "\<lambda>_. Ok (admission_request_of demo_issued)" 1100 "\<lambda>_. Err []" "SessionId 1"]]
  show ?thesis by simp
qed

text \<open>
  Issuing never panics and fails without a trace: if the randomness source keeps to
  the buffer it was given, \<open>issue\<close> always returns; an error leaves the ledger, tickets and sessions
  as they were, and success adds exactly one pending ticket under an identity that was never
  pending or redeemed, with a time window of \<open>ttl\<close> and the worker's new generation.
\<close>

theorem issue_total_and_atomic:
  assumes fill: "\<And>s n bytes s'. fill s n = (Ok bytes, s') \<Longrightarrow> length bytes = n"
  shows "\<exists>r c'. issue fill now c w ttl ms = Some (r, c') \<and>
    (case r of
       Err e \<Rightarrow> same_admissions c c'
     | Ok i \<Rightarrow> ticket_ticket_id (issued_ticket i) \<notin> dom (pending c) \<union> redeemed c \<and>
         pending c' = (pending c)(ticket_ticket_id (issued_ticket i) \<mapsto>
           \<lparr>pending_ticket = issued_ticket i, pending_secret = issued_secret i\<rparr>) \<and>
         current_generation c' w = Some (ticket_fencing_token (issued_ticket i)) \<and>
         unat (ticket_expires_at_ms (issued_ticket i)) = unat now + unat ttl \<and>
         sessions c' = sessions c \<and> redeemed c' = redeemed c)"
proof -
  have "ticket_id_new (encode_hex bytes) = Ok (TicketId (encode_hex bytes))"
    if "fill s TICKET_ID_BYTES = (Ok bytes, s')" for s bytes s'
    using fill [OF that] encode_hex_identifier [of bytes]
    by (cases bytes) (auto simp: TICKET_ID_BYTES_def result_simps)
  then have "issue fill now c w ttl ms \<noteq> None"
    by (auto simp: issue_def Let_def split: if_splits option.splits prod.splits result.splits)
  then obtain r c' where run: "issue fill now c w ttl ms = Some (r, c')" by auto
  show ?thesis
  proof (cases r)
    case (Ok i)
    with issue_Ok [of fill now c w ttl ms i c'] run show ?thesis
      by (auto simp: current_generation_def checked_add_eq_Some dest: ledger.open_installs)
  next
    case (Err e)
    with run issue_Err [of fill now c w ttl ms e c'] show ?thesis by simp
  qed
qed

theorem issue_total_and_atomic_witness:
  "\<exists>r c'. issue demo_fill 5 demo1 (WorkerId ''v'') 10 demo_methods = Some (r, c')"
  using issue_total_and_atomic [of demo_fill 5 demo1 "WorkerId ''v''" 10 demo_methods]
  by (auto simp: demo_fill_def)

end
