(* ===== verification/Suspend_Admission.thy ===== *)
theory Suspend_Admission
  imports Claw_Prelude
begin

text \<open>
  The process-wide admission fence (crates/claw-platform/src/suspend/admission.rs). The mutex of
  the code makes each operation one atomic update of \<open>AdmissionState\<close>. A root-work lease is its
  identifier and a suspend lease its generation; dropping a lease is an operation of its own.
  Counters are 64-bit and wrap, as the release profile has it.
\<close>

section \<open>Phases, refusals and the fence\<close>

definition ROOT_WORK_RETRY_AFTER_MS :: u64 where
  "ROOT_WORK_RETRY_AFTER_MS = 1000"

definition SUSPEND_CONTROL_METHODS :: "string list" where
  "SUSPEND_CONTROL_METHODS =
     [''gateway.suspend.prepare'', ''gateway.suspend.status'', ''gateway.suspend.resume'']"

definition is_method_allowed_during_suspension :: "string \<Rightarrow> bool" where
  "is_method_allowed_during_suspension method \<longleftrightarrow> method \<in> set SUSPEND_CONTROL_METHODS"

definition count_of :: "nat \<Rightarrow> u64" where
  "count_of len = (if len < 2 ^ 64 then of_nat len else - 1)"

datatype admission_phase = Accepting | Preparing | Prepared

fun phase_as_str :: "admission_phase \<Rightarrow> string" where
  "phase_as_str Accepting = ''accepting''"
| "phase_as_str Preparing = ''preparing''"
| "phase_as_str Prepared = ''prepared''"

fun phase_is_closed :: "admission_phase \<Rightarrow> bool" where
  "phase_is_closed Accepting = False"
| "phase_is_closed _ = True"

datatype refusal_reason = GatewaySuspending | GatewayRestarting

fun refusal_as_str :: "refusal_reason \<Rightarrow> string" where
  "refusal_as_str GatewaySuspending = ''gateway-suspending''"
| "refusal_as_str GatewayRestarting = ''gateway-restarting''"

fun is_reversible :: "refusal_reason \<Rightarrow> bool" where
  "is_reversible GatewaySuspending = True"
| "is_reversible GatewayRestarting = False"

record admission_refusal =
  refusal_reason :: refusal_reason
  refusal_phase :: admission_phase
  refusal_retry_after_ms :: u64

record work_admission =
  phase :: admission_phase
  restart_draining :: bool
  suspend_generation :: u64
  next_root_id :: u64
  active_root_work :: "u64 set"

definition refusal :: "work_admission \<Rightarrow> admission_refusal option" where
  "refusal a =
     (if restart_draining a
      then Some \<lparr>refusal_reason = GatewayRestarting, refusal_phase = phase a,
                 refusal_retry_after_ms = ROOT_WORK_RETRY_AFTER_MS\<rparr>
      else if phase_is_closed (phase a)
      then Some \<lparr>refusal_reason = GatewaySuspending, refusal_phase = phase a,
                 refusal_retry_after_ms = ROOT_WORK_RETRY_AFTER_MS\<rparr>
      else None)"

definition work_admission_new :: work_admission where
  "work_admission_new =
     \<lparr>phase = Accepting, restart_draining = False, suspend_generation = 0, next_root_id = 1,
      active_root_work = {}\<rparr>"

definition is_closed :: "work_admission \<Rightarrow> bool" where
  "is_closed a \<longleftrightarrow> refusal a \<noteq> None"

definition active_root_count :: "work_admission \<Rightarrow> u64" where
  "active_root_count a = count_of (card (active_root_work a))"

definition active_root_work_excluding :: "work_admission \<Rightarrow> u64 \<Rightarrow> u64" where
  "active_root_work_excluding a lease =
     (let total = count_of (card (active_root_work a)) in
      if lease \<in> active_root_work a then saturating_sub total 1 else total)"

definition mark_restart_draining :: "work_admission \<Rightarrow> work_admission" where
  "mark_restart_draining a =
     (let a = a\<lparr>restart_draining := True\<rparr> in
      if phase_is_closed (phase a)
      then a\<lparr>phase := Accepting, suspend_generation := suspend_generation a + 1\<rparr>
      else a)"

definition try_begin_root_work :: "work_admission \<Rightarrow> (u64, admission_refusal) result \<times> work_admission" where
  "try_begin_root_work a =
     (case refusal a of
        Some r \<Rightarrow> (Err r, a)
      | None \<Rightarrow>
          (let root = next_root_id a in
           (Ok root, a\<lparr>next_root_id := next_root_id a + 1,
                     active_root_work := insert root (active_root_work a)\<rparr>)))"

definition try_begin_suspend :: "work_admission \<Rightarrow> u64 option \<times> work_admission" where
  "try_begin_suspend a =
     (if restart_draining a \<or> phase_is_closed (phase a) then (None, a)
      else (let a = a\<lparr>phase := Preparing, suspend_generation := suspend_generation a + 1\<rparr> in
            (Some (suspend_generation a), a)))"

definition release_root_work :: "u64 \<Rightarrow> work_admission \<Rightarrow> work_admission" where
  "release_root_work root a = a\<lparr>active_root_work := active_root_work a - {root}\<rparr>"

definition fence_transition ::
  "u64 \<Rightarrow> admission_phase \<Rightarrow> admission_phase \<Rightarrow> work_admission \<Rightarrow> bool \<times> work_admission" where
  "fence_transition generation expected next a =
     (if suspend_generation a \<noteq> generation \<or> phase a \<noteq> expected then (False, a)
      else (True, a\<lparr>phase := next\<rparr>))"

definition is_generation_active :: "u64 \<Rightarrow> work_admission \<Rightarrow> bool" where
  "is_generation_active generation a \<longleftrightarrow>
     suspend_generation a = generation \<and> phase_is_closed (phase a)"

text \<open>\<open>SuspendLease\<close>: commit, rollback, release, the activity test and \<open>Drop\<close>.\<close>

definition lease_commit :: "u64 \<Rightarrow> work_admission \<Rightarrow> bool \<times> work_admission" where
  "lease_commit lease a = fence_transition lease Preparing Prepared a"

definition lease_rollback :: "u64 \<Rightarrow> work_admission \<Rightarrow> bool \<times> work_admission" where
  "lease_rollback lease a = fence_transition lease Preparing Accepting a"

definition lease_release :: "u64 \<Rightarrow> work_admission \<Rightarrow> bool \<times> work_admission" where
  "lease_release lease a = fence_transition lease Prepared Accepting a"

definition lease_is_active :: "u64 \<Rightarrow> work_admission \<Rightarrow> bool" where
  "lease_is_active lease a = is_generation_active lease a"

definition lease_drop :: "u64 \<Rightarrow> work_admission \<Rightarrow> work_admission" where
  "lease_drop lease a =
     (case lease_release lease a of
        (True, a') \<Rightarrow> a'
      | (False, a') \<Rightarrow> snd (lease_rollback lease a'))"

lemmas fence_defs = refusal_def mark_restart_draining_def try_begin_root_work_def
  try_begin_suspend_def release_root_work_def fence_transition_def is_generation_active_def
  lease_commit_def lease_rollback_def lease_release_def lease_is_active_def lease_drop_def Let_def

section \<open>The fence shared by many threads\<close>

text \<open>
  Steps of the fence, in any order and by any holder: root requests come and go, a suspension
  begins, a lease is committed, rolled back, released or dropped, and a restart drain arrives.
\<close>

datatype fence_event =
    BeginRoot "(u64, admission_refusal) result"
  | ReleaseRoot u64
  | BeginSuspend "u64 option"
  | Commit u64 bool
  | Rollback u64 bool
  | Release u64 bool
  | DropLease u64
  | Drain

inductive fence_step :: "work_admission \<Rightarrow> fence_event \<Rightarrow> work_admission \<Rightarrow> bool" where
  begin_root: "try_begin_root_work a = (r, a') \<Longrightarrow> fence_step a (BeginRoot r) a'"
| release_root: "fence_step a (ReleaseRoot root) (release_root_work root a)"
| begin_suspend: "try_begin_suspend a = (r, a') \<Longrightarrow> fence_step a (BeginSuspend r) a'"
| commit: "lease_commit g a = (b, a') \<Longrightarrow> fence_step a (Commit g b) a'"
| rollback: "lease_rollback g a = (b, a') \<Longrightarrow> fence_step a (Rollback g b) a'"
| release: "lease_release g a = (b, a') \<Longrightarrow> fence_step a (Release g b) a'"
| drop: "fence_step a (DropLease g) (lease_drop g a)"
| drain: "fence_step a Drain (mark_restart_draining a)"

section \<open>What the fence guarantees\<close>

lemma phase_not_closed [simp]: "\<not> phase_is_closed p \<longleftrightarrow> p = Accepting"
  by (cases p) auto

lemma is_closed_iff: "is_closed a \<longleftrightarrow> restart_draining a \<or> phase a \<noteq> Accepting"
  by (auto simp: is_closed_def refusal_def)

lemma fence_step_draining: "restart_draining a \<Longrightarrow> fence_step a e a' \<Longrightarrow> restart_draining a'"
  by (erule fence_step.cases)
     (auto simp: fence_defs split: if_splits option.splits)

interpretation draining: stable_predicate fence_step restart_draining
  by unfold_locales (rule fence_step_draining)

text \<open>A drained fence is open in phase but admits nobody, whatever leases do to it.\<close>

lemma fence_step_drained_phase:
  "restart_draining a \<and> phase a = Accepting \<Longrightarrow> fence_step a e a' \<Longrightarrow>
     restart_draining a' \<and> phase a' = Accepting"
  by (erule fence_step.cases)
     (auto simp: fence_defs split: if_splits option.splits)

interpretation drained: stable_predicate fence_step "\<lambda>a. restart_draining a \<and> phase a = Accepting"
  by unfold_locales (rule fence_step_drained_phase)

text \<open>
  A restart drain is one way: after \<open>mark_restart_draining\<close>, whatever root requests,
  suspensions and leases do, the fence refuses every root request as restarting, refuses every
  suspension, and no lease is active or able to commit.
\<close>

theorem restart_drain_is_final:
  assumes "steps fence_step (mark_restart_draining a) es b"
  shows "refusal b = Some \<lparr>refusal_reason = GatewayRestarting, refusal_phase = Accepting,
                           refusal_retry_after_ms = 1000\<rparr> \<and>
    try_begin_suspend b = (None, b) \<and> \<not> lease_is_active g b \<and> lease_commit g b = (False, b)"
proof -
  have "restart_draining (mark_restart_draining a) \<and> phase (mark_restart_draining a) = Accepting"
    by (auto simp: mark_restart_draining_def Let_def)
  then have "restart_draining b \<and> phase b = Accepting"
    by (rule drained.stable_steps [OF assms])
  then show ?thesis by (simp add: fence_defs ROOT_WORK_RETRY_AFTER_MS_def)
qed

theorem restart_drain_is_final_witness:
  "try_begin_suspend (mark_restart_draining (snd (try_begin_suspend work_admission_new))) =
     (None, mark_restart_draining (snd (try_begin_suspend work_admission_new)))"
  using restart_drain_is_final [OF steps.steps_nil] by blast

text \<open>
  The fence decides root work exactly: a request is admitted if and only if the fence
  is accepting and not draining; an admitted request gets the next identifier and is counted, and a
  refused one changes nothing and is told the reason, the phase and the retry delay.
\<close>

theorem root_work_decision:
  "case try_begin_root_work a of
     (Ok root, a') \<Rightarrow> phase a = Accepting \<and> \<not> restart_draining a \<and> root = next_root_id a \<and>
        a' = a\<lparr>next_root_id := next_root_id a + 1, active_root_work := insert root (active_root_work a)\<rparr>
   | (Err r, a') \<Rightarrow> a' = a \<and> \<not> (phase a = Accepting \<and> \<not> restart_draining a) \<and>
        refusal_reason r = (if restart_draining a then GatewayRestarting else GatewaySuspending) \<and>
        refusal_phase r = phase a \<and> refusal_retry_after_ms r = 1000"
  by (auto simp: fence_defs ROOT_WORK_RETRY_AFTER_MS_def)

text \<open>
  A lease that no longer matches the fence changes nothing, and stays without effect as long as the
  generation counter has not come round to it again.
\<close>

lemma stale_lease_inert:
  assumes "suspend_generation a \<noteq> g"
  shows "lease_commit g a = (False, a)" "lease_rollback g a = (False, a)"
    "lease_release g a = (False, a)" "lease_drop g a = a" "\<not> lease_is_active g a"
  using assms by (simp_all add: fence_defs)

text \<open>The generation counter moves only forward, by one at a suspension or a superseding drain.\<close>

lemma fence_step_generation:
  "fence_step a e a' \<Longrightarrow>
     suspend_generation a' = suspend_generation a \<or>
     (suspend_generation a' = suspend_generation a + 1 \<and> (e = Drain \<or> (\<exists>g. e = BeginSuspend g)))"
  by (erule fence_step.cases) (auto simp: fence_defs split: if_splits option.splits)

definition bumps :: "fence_event list \<Rightarrow> nat" where
  "bumps es = length (filter (\<lambda>e. case e of Drain \<Rightarrow> True | BeginSuspend _ \<Rightarrow> True | _ \<Rightarrow> False) es)"

lemma fence_steps_generation:
  "steps fence_step a es b \<Longrightarrow>
     \<exists>n \<le> bumps es. suspend_generation b = suspend_generation a + of_nat n"
proof (induction rule: steps.induct)
  case (steps_nil s)
  show ?case by (intro exI [of _ 0]) simp
next
  case (steps_cons s e t es u)
  then obtain n where n: "n \<le> bumps es" "suspend_generation u = suspend_generation t + of_nat n"
    by blast
  from fence_step_generation [OF steps_cons.hyps(1)] show ?case
  proof
    assume "suspend_generation t = suspend_generation s"
    then show ?thesis
      using n by (intro exI [of _ n]) (auto simp: bumps_def split: fence_event.splits)
  next
    assume "suspend_generation t = suspend_generation s + 1 \<and> (e = Drain \<or> (\<exists>g. e = BeginSuspend g))"
    then show ?thesis
      using n by (intro exI [of _ "Suc n"]) (auto simp: bumps_def)
  qed
qed

text \<open>
  A superseded lease can never touch the fence again: once the fence has moved on by
  one generation from a lease, that lease can neither commit, roll back, release nor (when dropped)
  reopen it, after any further steps that start fewer than \<open>2 ^ 64 - 1\<close> suspensions or drains.
\<close>

theorem superseded_lease_inert:
  assumes "suspend_generation a = g + 1" and "steps fence_step a es b" and "bumps es < 2 ^ 64 - 1"
  shows "lease_commit g b = (False, b) \<and> lease_rollback g b = (False, b) \<and>
    lease_release g b = (False, b) \<and> lease_drop g b = b \<and> \<not> lease_is_active g b"
proof -
  from fence_steps_generation [OF assms(2)] obtain n where
    n: "n \<le> bumps es" "suspend_generation b = g + 1 + of_nat n"
    using assms(1) by auto
  have "(of_nat (n + 1) :: u64) \<noteq> 0"
    using n(1) assms(3) by (simp add: word_of_nat_eq_0_iff nat_dvd_not_less del: of_nat_add of_nat_Suc)
  then have "suspend_generation b \<noteq> g"
    using n(2) by (simp add: add.assoc add.commute)
  then show ?thesis by (simp add: stale_lease_inert)
qed

theorem superseded_lease_inert_witness:
  "lease_release 1 (mark_restart_draining (snd (try_begin_suspend work_admission_new))) =
     (False, mark_restart_draining (snd (try_begin_suspend work_admission_new)))"
  using superseded_lease_inert [OF _ steps.steps_nil, of
      "mark_restart_draining (snd (try_begin_suspend work_admission_new))" 1]
  by (simp add: fence_defs work_admission_new_def bumps_def)

end
