(* ===== verification/Claw_Text.thy ===== *)
theory Claw_Text
  imports Claw_Prelude
begin

text \<open>
  Rust \<open>str\<close> where the code looks at characters rather than bytes: a list of Unicode scalar
  values, with the standard library's whitespace, trimming, UTF-16 length and number formatting.
\<close>

type_synonym ustr = "nat list"

definition lit :: "string \<Rightarrow> ustr" where
  "lit s = map of_char s"

definition len_utf16 :: "nat \<Rightarrow> nat" where
  "len_utf16 c = (if c < 0x10000 then 1 else 2)"

definition utf16_length :: "ustr \<Rightarrow> nat" where
  "utf16_length s = sum_list (map len_utf16 s)"

text \<open>\<open>char::is_whitespace\<close>: the Unicode \<open>White_Space\<close> property.\<close>

definition char_is_whitespace :: "nat \<Rightarrow> bool" where
  "char_is_whitespace c \<longleftrightarrow>
     9 \<le> c \<and> c \<le> 13 \<or> c = 0x20 \<or> c = 0x85 \<or> c = 0xA0 \<or> c = 0x1680 \<or>
     0x2000 \<le> c \<and> c \<le> 0x200A \<or> c = 0x2028 \<or> c = 0x2029 \<or> c = 0x202F \<or> c = 0x205F \<or> c = 0x3000"

definition str_trim :: "ustr \<Rightarrow> ustr" where
  "str_trim s = rev (dropWhile char_is_whitespace (rev (dropWhile char_is_whitespace s)))"

text \<open>\<open>{}\<close> and \<open>{:x}\<close> of an unsigned integer, and zero padding to a width.\<close>

fun show_base :: "nat \<Rightarrow> nat \<Rightarrow> string" where
  "show_base b n =
     (if b < 2 \<or> n < b then [''0123456789abcdef'' ! n]
      else show_base b (n div b) @ [''0123456789abcdef'' ! (n mod b)])"

declare show_base.simps [simp del]

definition show_dec :: "nat \<Rightarrow> string" where
  "show_dec n = show_base 10 n"

definition zero_pad :: "nat \<Rightarrow> string \<Rightarrow> string" where
  "zero_pad w s = replicate (w - length s) (CHR ''0'') @ s"

definition show_hex_padded :: "nat \<Rightarrow> nat \<Rightarrow> string" where
  "show_hex_padded w n = zero_pad w (show_base 16 n)"

lemma utf16_length_simps [simp]:
  "utf16_length [] = 0" "utf16_length (c # s) = len_utf16 c + utf16_length s"
  "utf16_length (s @ t) = utf16_length s + utf16_length t"
  by (simp_all add: utf16_length_def)

lemma len_utf16_pos: "0 < len_utf16 c"
  by (simp add: len_utf16_def)

lemma utf16_length_ge: "length s \<le> utf16_length s"
  by (induction s) (simp_all add: len_utf16_def)

lemma dropWhile_rev_dropWhile_hd:
  assumes "\<not> P (hd xs)" "xs \<noteq> []"
  shows "dropWhile P (rev xs) \<noteq> [] \<and> last (dropWhile P (rev xs)) = hd xs"
proof -
  obtain x ys where xs: "xs = x # ys" using assms(2) by (cases xs) auto
  with assms(1) have "dropWhile P (rev ys @ [x]) = dropWhile P (rev ys) @ [x]"
    by (simp add: dropWhile_append)
  with xs show ?thesis by simp
qed

text \<open>Trimming leaves a string whose ends are not whitespace, so it is idempotent.\<close>

lemma str_trim_ends:
  assumes "str_trim s \<noteq> []"
  shows "\<not> char_is_whitespace (hd (str_trim s)) \<and> \<not> char_is_whitespace (last (str_trim s))"
proof -
  let ?front = "dropWhile char_is_whitespace s"
  have front: "?front \<noteq> []" using assms unfolding str_trim_def by force
  then have hd: "\<not> char_is_whitespace (hd ?front)" by (rule hd_dropWhile)
  from dropWhile_rev_dropWhile_hd [where P = char_is_whitespace, OF hd front]
  have "hd (str_trim s) = hd ?front" by (simp add: str_trim_def hd_rev)
  moreover have "last (str_trim s) = hd (dropWhile char_is_whitespace (rev ?front))"
    using assms by (simp add: str_trim_def last_rev)
  moreover have "\<not> char_is_whitespace (hd (dropWhile char_is_whitespace (rev ?front)))"
    by (rule hd_dropWhile) (use assms in \<open>simp only: str_trim_def rev_is_Nil_conv not_False_eq_True\<close>)
  ultimately show ?thesis using hd by simp
qed

lemma str_trim_eq_Nil: "str_trim s = [] \<longleftrightarrow> (\<forall>c \<in> set s. char_is_whitespace c)"
proof
  assume "str_trim s = []"
  then have front: "\<forall>c \<in> set (dropWhile char_is_whitespace s). char_is_whitespace c"
    by (simp add: str_trim_def)
  then have "dropWhile char_is_whitespace s = []"
    by (metis hd_dropWhile list.set_sel(1))
  then show "\<forall>c \<in> set s. char_is_whitespace c"
    by simp
next
  assume "\<forall>c \<in> set s. char_is_whitespace c"
  then show "str_trim s = []"
    by (auto simp: str_trim_def dest: set_dropWhileD)
qed

lemma str_trim_idem [simp]: "str_trim (str_trim s) = str_trim s"
proof (cases "str_trim s")
  case Nil
  then show ?thesis by (simp only: Nil) (simp add: str_trim_def)
next
  case (Cons c t)
  have "dropWhile char_is_whitespace (str_trim s) = str_trim s"
    using str_trim_ends [of s] Cons by simp
  moreover have "dropWhile char_is_whitespace (rev (str_trim s)) = rev (str_trim s)"
    using str_trim_ends [of s] Cons by (metis dropWhile_eq_self_iff hd_rev list.distinct(1) rev_is_Nil_conv)
  ultimately show ?thesis by (metis rev_rev_ident str_trim_def)
qed

text \<open>Reading a number back, and hence: different numbers print differently, padded or not.\<close>

definition digit_val :: "char \<Rightarrow> nat" where
  "digit_val c = length (takeWhile ((\<noteq>) c) ''0123456789abcdef'')"

definition read_base :: "nat \<Rightarrow> string \<Rightarrow> nat" where
  "read_base b s = foldl (\<lambda>acc c. acc * b + digit_val c) 0 s"

lemma digit_val_digit: "d < 16 \<Longrightarrow> digit_val (''0123456789abcdef'' ! d) = d"
proof -
  have "\<forall>d \<in> set [0..<16]. digit_val (''0123456789abcdef'' ! d) = d"
    by code_simp
  then show "d < 16 \<Longrightarrow> digit_val (''0123456789abcdef'' ! d) = d" by simp
qed

lemma read_show_base:
  assumes "2 \<le> b" "b \<le> 16"
  shows "read_base b (show_base b n) = n"
proof (induction n rule: less_induct)
  case (less n)
  show ?case
  proof (cases "n < b")
    case True
    then show ?thesis
      using assms by (subst show_base.simps) (simp add: read_base_def digit_val_digit)
  next
    case False
    then have "n div b < n" using assms by (simp add: div_less_dividend)
    moreover have "n mod b < 16"
      using assms mod_less_divisor [of b n] by linarith
    ultimately show ?thesis
      using less.IH [of "n div b"] False assms
      by (subst show_base.simps) (simp add: read_base_def digit_val_digit)
  qed
qed

lemma read_base_zero_pad: "read_base b (zero_pad w s) = read_base b s"
proof -
  have "foldl (\<lambda>acc c. acc * b + digit_val c) 0 (replicate k (CHR ''0'')) = 0" for k
    by (induction k) (simp_all add: digit_val_def)
  then show ?thesis by (simp add: read_base_def zero_pad_def)
qed

lemma show_hex_padded_inj:
  assumes "show_hex_padded w m = show_hex_padded w n"
  shows "m = n"
proof -
  have "read_base 16 (show_hex_padded w k) = k" for k
    by (simp add: show_hex_padded_def read_base_zero_pad read_show_base)
  with assms show ?thesis by metis
qed

lemma show_base_digits:
  assumes "2 \<le> b" "b \<le> 16"
  shows "set (show_base b n) \<subseteq> set ''0123456789abcdef''"
proof (induction n rule: less_induct)
  case (less n)
  have digit: "''0123456789abcdef'' ! d \<in> set ''0123456789abcdef''" if "d < 16" for d
    using that by (intro nth_mem) simp
  have small: "n mod b < 16"
    using assms mod_less_divisor [of b n] by linarith
  show ?case
  proof (cases "n < b")
    case True
    with assms digit [of n] show ?thesis by (subst show_base.simps) simp
  next
    case False
    then have "n div b < n" using assms by (simp add: div_less_dividend)
    with less.IH [of "n div b"] False assms digit [OF small] show ?thesis
      by (subst show_base.simps) simp
  qed
qed

lemma dash_not_in_show_hex: "CHR ''-'' \<notin> set (show_hex_padded w n)"
proof -
  have "CHR ''-'' \<notin> set ''0123456789abcdef''" by simp
  with show_base_digits [of 16 n] have "CHR ''-'' \<notin> set (show_base 16 n)" by fastforce
  then show ?thesis by (simp add: show_hex_padded_def zero_pad_def)
qed

lemma lit_inject [simp]: "lit s = lit t \<longleftrightarrow> s = t"
  by (simp add: lit_def inj_map_eq_map inj_def)

text \<open>A separator that the first part cannot contain splits a text in one way.\<close>

lemma append_sep_inject:
  assumes "x \<notin> set a" "x \<notin> set b"
  shows "a @ x # c = b @ x # d \<longleftrightarrow> a = b \<and> c = d"
proof
  assume eq: "a @ x # c = b @ x # d"
  have "takeWhile ((\<noteq>) x) (a @ x # c) = a" "takeWhile ((\<noteq>) x) (b @ x # d) = b"
    using assms by (auto simp: takeWhile_append)
  with eq show "a = b \<and> c = d" by auto
qed simp

end
