(* ===== verification/Suspend_Activity.thy ===== *)
theory Suspend_Activity
  imports Claw_Text
begin

text \<open>
  The activity snapshot a suspension is decided from
  (crates/claw-platform/src/suspend/active_work.rs): the thirteen counters, the blockers rendered
  from them in reporting order, and the idleness test. The inspector port is its two readings, the
  counters and the running tasks.
\<close>

section \<open>Tasks, blockers and counters\<close>

definition MAX_REPORTED_TASK_BLOCKERS :: nat where
  "MAX_REPORTED_TASK_BLOCKERS = 8"

definition MAX_REPORTED_TASK_TITLE_UTF16 :: nat where
  "MAX_REPORTED_TASK_TITLE_UTF16 = 80"

datatype task_runtime = Subagent | Acp | Cli | Cron

fun runtime_as_str :: "task_runtime \<Rightarrow> string" where
  "runtime_as_str Subagent = ''subagent''"
| "runtime_as_str Acp = ''acp''"
| "runtime_as_str Cli = ''cli''"
| "runtime_as_str Cron = ''cron''"

record task_blocker =
  task_id :: ustr
  runtime :: task_runtime
  run_id :: "ustr option"
  label :: "ustr option"
  title :: "ustr option"

definition task_blocker_new :: "ustr \<Rightarrow> task_runtime \<Rightarrow> task_blocker" where
  "task_blocker_new tid rt = \<lparr>task_id = tid, runtime = rt, run_id = None, label = None, title = None\<rparr>"

definition with_run_id :: "ustr \<Rightarrow> task_blocker \<Rightarrow> task_blocker" where
  "with_run_id r t = t\<lparr>run_id := Some r\<rparr>"

definition with_label :: "ustr \<Rightarrow> task_blocker \<Rightarrow> task_blocker" where
  "with_label l t = t\<lparr>label := Some l\<rparr>"

definition with_title :: "ustr \<Rightarrow> task_blocker \<Rightarrow> task_blocker" where
  "with_title tt t = t\<lparr>title := Some tt\<rparr>"

text \<open>The longest prefix of at most \<open>limit\<close> UTF-16 units; \<open>units\<close> have been taken already.\<close>

fun truncate_utf16_from :: "nat \<Rightarrow> ustr \<Rightarrow> nat \<Rightarrow> ustr" where
  "truncate_utf16_from units [] limit = []"
| "truncate_utf16_from units (c # s) limit =
     (let next = units + len_utf16 c in
      if limit < next then [] else c # truncate_utf16_from next s limit)"

definition truncate_utf16 :: "ustr \<Rightarrow> nat \<Rightarrow> ustr" where
  "truncate_utf16 input limit = truncate_utf16_from 0 input limit"

fun join_spaces :: "ustr list \<Rightarrow> ustr" where
  "join_spaces [] = []"
| "join_spaces [p] = p"
| "join_spaces (p # ps) = p @ lit '' '' @ join_spaces ps"

definition present :: "ustr option \<Rightarrow> ustr option" where
  "present v = (case v of Some s \<Rightarrow> if s = [] then None else Some s | None \<Rightarrow> None)"

definition describe :: "task_blocker \<Rightarrow> ustr" where
  "describe t =
     join_spaces
       ([lit ''taskId='' @ task_id t]
        @ (case present (run_id t) of Some r \<Rightarrow> [lit ''runId='' @ r] | None \<Rightarrow> [])
        @ [lit ''status=running'', lit ''runtime='' @ lit (runtime_as_str (runtime t))]
        @ (case present (label t) of Some l \<Rightarrow> [lit ''label='' @ l] | None \<Rightarrow> [])
        @ (case present (title t) of
             Some tt \<Rightarrow> [lit ''title='' @ truncate_utf16 tt MAX_REPORTED_TASK_TITLE_UTF16]
           | None \<Rightarrow> []))"

datatype blocker_kind =
    Queue | Reply | EmbeddedRun | BackgroundExec | CronRun | Task | RootRequest
  | SessionAdmission | SessionMutation | ChatRun | QueuedTurn | TerminalPersistence | TerminalSession

fun kind_as_str :: "blocker_kind \<Rightarrow> string" where
  "kind_as_str Queue = ''queue''"
| "kind_as_str Reply = ''reply''"
| "kind_as_str EmbeddedRun = ''embedded-run''"
| "kind_as_str BackgroundExec = ''background-exec''"
| "kind_as_str CronRun = ''cron-run''"
| "kind_as_str Task = ''task''"
| "kind_as_str RootRequest = ''root-request''"
| "kind_as_str SessionAdmission = ''session-admission''"
| "kind_as_str SessionMutation = ''session-mutation''"
| "kind_as_str ChatRun = ''chat-run''"
| "kind_as_str QueuedTurn = ''queued-turn''"
| "kind_as_str TerminalPersistence = ''terminal-persistence''"
| "kind_as_str TerminalSession = ''terminal-session''"

record blocker =
  kind :: blocker_kind
  count :: u64
  message :: ustr
  task :: "task_blocker option"

record active_work_counts =
  queue_size :: u64
  pending_replies :: u64
  embedded_runs :: u64
  background_exec_sessions :: u64
  cron_runs :: u64
  active_tasks :: u64
  root_requests :: u64
  session_admissions :: u64
  session_mutations :: u64
  chat_runs :: u64
  queued_turns :: u64
  terminal_persistence :: u64
  terminal_sessions :: u64

definition total_active :: "active_work_counts \<Rightarrow> u64" where
  "total_active c =
     saturating_add (saturating_add (saturating_add (saturating_add (saturating_add (saturating_add
       (saturating_add (saturating_add (saturating_add (saturating_add (saturating_add (saturating_add
         (queue_size c) (pending_replies c)) (embedded_runs c)) (background_exec_sessions c))
         (cron_runs c)) (active_tasks c)) (root_requests c)) (session_admissions c))
         (session_mutations c)) (chat_runs c)) (queued_turns c)) (terminal_persistence c))
         (terminal_sessions c)"

definition counts_is_idle :: "active_work_counts \<Rightarrow> bool" where
  "counts_is_idle c \<longleftrightarrow> total_active c = 0"

text \<open>\<open>IdleInspector\<close>: the default counters.\<close>

definition idle_inspector_counts :: active_work_counts where
  "idle_inspector_counts =
     \<lparr>queue_size = 0, pending_replies = 0, embedded_runs = 0, background_exec_sessions = 0,
      cron_runs = 0, active_tasks = 0, root_requests = 0, session_admissions = 0,
      session_mutations = 0, chat_runs = 0, queued_turns = 0, terminal_persistence = 0,
      terminal_sessions = 0\<rparr>"

record active_work_snapshot =
  snapshot_counts :: active_work_counts
  snapshot_blockers :: "blocker list"

text \<open>The closure \<open>push\<close>: a counter's row, if the counter is not zero.\<close>

definition push_row :: "u64 \<Rightarrow> blocker_kind \<Rightarrow> string \<Rightarrow> blocker list" where
  "push_row n k text =
     (if 0 < n
      then [\<lparr>kind = k, count = n, message = lit (show_dec (unat n) @ text), task = None\<rparr>]
      else [])"

definition task_rows :: "u64 \<Rightarrow> task_blocker list \<Rightarrow> blocker list" where
  "task_rows n tasks =
     (if tasks = []
      then [\<lparr>kind = Task, count = n,
             message = lit (show_dec (unat n) @ '' active background task run(s)''), task = None\<rparr>]
      else (let shown = min (length tasks) MAX_REPORTED_TASK_BLOCKERS;
                omitted = saturating_sub n (of_nat shown) in
            map (\<lambda>t. \<lparr>kind = Task, count = 1, message = describe t, task = Some t\<rparr>) (take shown tasks)
            @ (if 0 < omitted
               then [\<lparr>kind = Task, count = omitted,
                      message = lit (show_dec (unat omitted)
                        @ '' additional active background task run(s)''), task = None\<rparr>]
               else [])))"

definition capture :: "active_work_counts \<Rightarrow> task_blocker list \<Rightarrow> active_work_snapshot" where
  "capture c tasks =
     \<lparr>snapshot_counts = c,
      snapshot_blockers =
        push_row (queue_size c) Queue '' queued or active operation(s)''
        @ push_row (pending_replies c) Reply '' pending reply delivery operation(s)''
        @ push_row (embedded_runs c) EmbeddedRun '' active embedded run(s)''
        @ push_row (background_exec_sessions c) BackgroundExec '' active background exec session(s)''
        @ push_row (cron_runs c) CronRun '' active cron run(s)''
        @ push_row (root_requests c) RootRequest '' active gateway request(s)''
        @ push_row (session_admissions c) SessionAdmission '' admitted session turn(s)''
        @ push_row (session_mutations c) SessionMutation '' active session lifecycle mutation(s)''
        @ push_row (chat_runs c) ChatRun '' active chat run(s)''
        @ push_row (queued_turns c) QueuedTurn '' queued chat turn(s)''
        @ push_row (terminal_persistence c) TerminalPersistence '' pending terminal session write(s)''
        @ push_row (terminal_sessions c) TerminalSession '' open terminal session(s)''
        @ (if 0 < active_tasks c then task_rows (active_tasks c) tasks else [])\<rparr>"

definition active_count :: "active_work_snapshot \<Rightarrow> u64" where
  "active_count s = total_active (snapshot_counts s)"

definition snapshot_is_idle :: "active_work_snapshot \<Rightarrow> bool" where
  "snapshot_is_idle s \<longleftrightarrow> counts_is_idle (snapshot_counts s)"

section \<open>Truncation\<close>

lemma truncate_from_prefix: "\<exists>rest. s = truncate_utf16_from u s limit @ rest"
  by (induction u s limit rule: truncate_utf16_from.induct) (auto simp: Let_def)

lemma truncate_from_length:
  "u \<le> limit \<Longrightarrow> u + utf16_length (truncate_utf16_from u s limit) \<le> limit"
  by (induction u s limit rule: truncate_utf16_from.induct) (auto simp: Let_def add.assoc)

lemma truncate_from_maximal:
  "truncate_utf16_from u s limit \<noteq> s \<Longrightarrow>
     \<exists>c rest. s = truncate_utf16_from u s limit @ c # rest \<and>
       limit < u + utf16_length (truncate_utf16_from u s limit) + len_utf16 c"
  by (induction u s limit rule: truncate_utf16_from.induct) (auto simp: Let_def add.assoc)

text \<open>
  Truncating a reported title to UTF-16 units keeps a prefix of whole characters that
  fits, and it is the longest one: one more character would not fit (so a surrogate pair is never
  split, and a string that fits is unchanged).
\<close>

theorem truncate_utf16_longest_prefix:
  "utf16_length (truncate_utf16 s limit) \<le> limit \<and>
   (truncate_utf16 s limit = s \<or>
    (\<exists>c rest. s = truncate_utf16 s limit @ c # rest \<and>
       limit < utf16_length (truncate_utf16 s limit) + len_utf16 c))"
  using truncate_from_length [of 0 limit s] truncate_from_maximal [of 0 s limit]
  by (auto simp: truncate_utf16_def)

section \<open>Idleness and the blockers\<close>

lemma saturating_add_eq_0: "saturating_add a b = (0 :: u64) \<longleftrightarrow> a = 0 \<and> b = 0"
  by (auto simp: word_unat_eq_iff unat_saturating_add min_def split: if_splits)

lemma push_row_eq_Nil [simp]: "push_row n k t = [] \<longleftrightarrow> n = 0"
  by (auto simp: push_row_def word_gt_0)

lemma task_rows_not_Nil: "task_rows n tasks \<noteq> []"
  by (auto simp: task_rows_def Let_def MAX_REPORTED_TASK_BLOCKERS_def)

lemma push_row_counts: "b \<in> set (push_row n k t) \<Longrightarrow> 0 < count b"
  by (auto simp: push_row_def split: if_splits)

lemma task_rows_counts: "0 < n \<Longrightarrow> b \<in> set (task_rows n tasks) \<Longrightarrow> 0 < count b"
  by (auto simp: task_rows_def Let_def split: if_splits)

lemma task_rows_length: "length (task_rows n tasks) \<le> Suc MAX_REPORTED_TASK_BLOCKERS"
  by (auto simp: task_rows_def Let_def)

lemma push_row_bound: "m \<le> b \<Longrightarrow> length (push_row n k t) + m \<le> Suc b"
  by (simp add: push_row_def)

text \<open>An idle snapshot is one without blockers.\<close>

lemma snapshot_idle_no_blockers:
  "snapshot_is_idle (capture c tasks) \<longleftrightarrow> snapshot_blockers (capture c tasks) = []"
  by (auto simp: capture_def snapshot_is_idle_def counts_is_idle_def total_active_def
      saturating_add_eq_0 task_rows_not_Nil word_gt_0)

text \<open>
  A refusal always says why: a snapshot is idle exactly when it has no blockers, every
  blocker it reports stands for at least one unit of work, and however many tasks are running it
  reports at most 21 rows (twelve counters, eight tasks and one summary).
\<close>

theorem snapshot_idle_iff_no_blockers:
  "(snapshot_is_idle (capture c tasks) \<longleftrightarrow> snapshot_blockers (capture c tasks) = []) \<and>
   (\<forall>b \<in> set (snapshot_blockers (capture c tasks)). 0 < count b) \<and>
   length (snapshot_blockers (capture c tasks)) \<le> 21"
proof (intro conjI)
  have task_part: "length (if 0 < active_tasks c then task_rows (active_tasks c) tasks else []) \<le> 9"
    using task_rows_length [of "active_tasks c" tasks] by (simp add: MAX_REPORTED_TASK_BLOCKERS_def)
  show "snapshot_is_idle (capture c tasks) \<longleftrightarrow> snapshot_blockers (capture c tasks) = []"
    by (rule snapshot_idle_no_blockers)
  show "\<forall>b \<in> set (snapshot_blockers (capture c tasks)). 0 < count b"
    by (auto simp: capture_def dest: push_row_counts task_rows_counts split: if_splits)
  show "length (snapshot_blockers (capture c tasks)) \<le> 21"
    unfolding capture_def active_work_snapshot.simps length_append
    by (rule order_trans, (rule push_row_bound)+, rule task_part) simp
qed

theorem snapshot_idle_iff_no_blockers_witness:
  "\<not> snapshot_is_idle
      (capture (idle_inspector_counts\<lparr>active_tasks := 10\<rparr>) [task_blocker_new [116] Cron])"
  unfolding snapshot_idle_iff_no_blockers [THEN conjunct1]
  by (simp add: capture_def task_rows_not_Nil)

end
