(* ===== verification/Suspend_Coordinator.thy ===== *)
theory Suspend_Coordinator
  imports Suspend_Admission Suspend_Activity
begin

text \<open>
  The cooperative suspension coordinator (crates/claw-platform/src/suspend/coordinator.rs) over the
  admission fence and the host's ports.

  The coordinator runs under its own lock, so its operations do not overlap; the fence has a
  separate lock, so requests and a restart drain act on it between any two accesses of an operation.
  That interference is a parameter: \<open>noise i\<close> lists what other threads do to the fence at program
  point \<open>i\<close> of an operation. The ports (scheduler, inspector, clock, identifiers) are functions on a
  host state of any type.
\<close>

section \<open>Constants, ports and tokens\<close>

definition SUSPEND_TTL_MS :: u64 where
  "SUSPEND_TTL_MS = 2 * 60000"

definition SUSPEND_RETRY_AFTER_MS :: u64 where
  "SUSPEND_RETRY_AFTER_MS = 20000"

definition SCHEDULER_RECOVERY_RETRY_MS :: u64 where
  "SCHEDULER_RECOVERY_RETRY_MS = 1000"

definition MAX_SUSPENSION_TOKEN_LEN :: nat where
  "MAX_SUSPENSION_TOKEN_LEN = 128"

definition is_valid_suspension_token :: "ustr \<Rightarrow> bool" where
  "is_valid_suspension_token token \<longleftrightarrow>
     1 \<le> utf16_length token \<and> utf16_length token \<le> MAX_SUSPENSION_TOKEN_LEN \<and>
     (\<exists>c \<in> set token. \<not> char_is_whitespace c)"

datatype scheduler_error = SchedulerError ustr

record 'h ports =
  port_pause :: "'h \<Rightarrow> (unit, scheduler_error) result \<times> 'h"
  port_resume :: "'h \<Rightarrow> (unit, scheduler_error) result \<times> 'h"
  port_counts :: "'h \<Rightarrow> active_work_counts \<times> 'h"
  port_tasks :: "'h \<Rightarrow> task_blocker list \<times> 'h"
  port_now_ms :: "'h \<Rightarrow> u64 \<times> 'h"
  port_next_id :: "'h \<Rightarrow> ustr \<times> 'h"

text \<open>\<open>NoopScheduler\<close>, for hosts without timers of their own.\<close>

definition noop_pause :: "'h \<Rightarrow> (unit, scheduler_error) result \<times> 'h" where
  "noop_pause h = (Ok (), h)"

definition noop_resume :: "'h \<Rightarrow> (unit, scheduler_error) result \<times> 'h" where
  "noop_resume h = (Ok (), h)"

text \<open>\<open>ProcessSuspensionIds\<close>: a per-process seed and an atomic counter.\<close>

record process_suspension_ids =
  seed :: u64
  counter :: u64

definition process_next_id :: "process_suspension_ids \<Rightarrow> ustr \<times> process_suspension_ids" where
  "process_next_id s =
     (lit (show_hex_padded 16 (unat (seed s)) @ ''-'' @ show_hex_padded 8 (unat (counter s))),
      s\<lparr>counter := counter s + 1\<rparr>)"

section \<open>Outcomes\<close>

datatype busy_reason = ActiveWork | GatewayDraining

fun busy_as_str :: "busy_reason \<Rightarrow> string" where
  "busy_as_str ActiveWork = ''active-work''"
| "busy_as_str GatewayDraining = ''gateway-draining''"

datatype prepare_outcome =
    PrepareReady ustr u64 u64 "blocker list"
  | PrepareBusy busy_reason u64 u64 "blocker list"
  | PrepareConflict u64
  | PrepareRecovering u64

fun prepare_as_str :: "prepare_outcome \<Rightarrow> string" where
  "prepare_as_str (PrepareReady _ _ _ _) = ''ready''"
| "prepare_as_str (PrepareBusy _ _ _ _) = ''busy''"
| "prepare_as_str (PrepareConflict _) = ''conflict''"
| "prepare_as_str (PrepareRecovering _) = ''recovering''"

fun outcome_suspension_id :: "prepare_outcome \<Rightarrow> ustr option" where
  "outcome_suspension_id (PrepareReady sid _ _ _) = Some sid"
| "outcome_suspension_id _ = None"

fun outcome_blockers :: "prepare_outcome \<Rightarrow> blocker list" where
  "outcome_blockers (PrepareReady _ _ _ bs) = bs"
| "outcome_blockers (PrepareBusy _ _ _ bs) = bs"
| "outcome_blockers _ = []"

datatype status_outcome =
    StatusRunning
  | StatusReady u64
  | StatusConflict u64
  | StatusRecovering u64

fun status_as_str :: "status_outcome \<Rightarrow> string" where
  "status_as_str StatusRunning = ''running''"
| "status_as_str (StatusReady _) = ''ready''"
| "status_as_str (StatusConflict _) = ''conflict''"
| "status_as_str (StatusRecovering _) = ''recovering''"

datatype resume_outcome =
    Resumed
  | AlreadyRunning
  | Mismatch
  | ResumeRecovering u64

fun resume_is_running :: "resume_outcome \<Rightarrow> bool" where
  "resume_is_running Resumed = True"
| "resume_is_running AlreadyRunning = True"
| "resume_is_running _ = False"

fun resumed_flag :: "resume_outcome \<Rightarrow> bool option" where
  "resumed_flag Resumed = Some True"
| "resumed_flag AlreadyRunning = Some False"
| "resumed_flag _ = None"

section \<open>State and interference\<close>

record held_suspension =
  held_request_id :: ustr
  held_suspension_id :: ustr
  held_expires_at_ms :: u64
  held_snapshot :: active_work_snapshot
  held_lease :: u64

datatype coordinator_state =
    Idle
  | Held held_suspension
  | Recovering u64 u64

record 'h suspend_coordinator =
  admission :: work_admission
  host :: 'h
  ttl_ms :: u64
  coord_state :: coordinator_state

definition coordinator_new :: "work_admission \<Rightarrow> 'h \<Rightarrow> 'h suspend_coordinator" where
  "coordinator_new a h = \<lparr>admission = a, host = h, ttl_ms = SUSPEND_TTL_MS, coord_state = Idle\<rparr>"

definition with_ttl_ms :: "u64 \<Rightarrow> 'h suspend_coordinator \<Rightarrow> 'h suspend_coordinator" where
  "with_ttl_ms ttl c = c\<lparr>ttl_ms := ttl\<rparr>"

text \<open>What other threads do to the fence.\<close>

datatype other_event = OtherBegin | OtherEnd u64 | OtherDrain

fun other_step :: "other_event \<Rightarrow> work_admission \<Rightarrow> work_admission" where
  "other_step OtherBegin a = snd (try_begin_root_work a)"
| "other_step (OtherEnd root) a = release_root_work root a"
| "other_step OtherDrain a = mark_restart_draining a"

definition interfere :: "other_event list \<Rightarrow> work_admission \<Rightarrow> work_admission" where
  "interfere es a = fold other_step es a"

type_synonym noise = "nat \<Rightarrow> other_event list"

section \<open>The operations\<close>

definition enter_recovery :: "'h ports \<Rightarrow> u64 \<Rightarrow> 'h \<Rightarrow> coordinator_state \<times> 'h" where
  "enter_recovery P lease h =
     (case port_now_ms P h of
        (now, h) \<Rightarrow> (Recovering lease (saturating_add now SCHEDULER_RECOVERY_RETRY_MS), h))"

definition capture_host :: "'h ports \<Rightarrow> 'h \<Rightarrow> active_work_snapshot \<times> 'h" where
  "capture_host P h =
     (case port_counts P h of
        (c, h) \<Rightarrow>
          (if 0 < active_tasks c
           then (case port_tasks P h of (ts, h) \<Rightarrow> (capture c ts, h))
           else (capture c [], h)))"

definition busy :: "busy_reason \<Rightarrow> active_work_snapshot \<Rightarrow> prepare_outcome" where
  "busy reason s = PrepareBusy reason SUSPEND_RETRY_AFTER_MS (active_count s) (snapshot_blockers s)"

text \<open>
  Release the lease and drop it, with interference in between: the tail of every branch of
  \<open>normalize\<close> and \<open>resume\<close> that gives the fence back.
\<close>

definition give_back :: "noise \<Rightarrow> u64 \<Rightarrow> work_admission \<Rightarrow> work_admission" where
  "give_back noise lease a =
     lease_drop lease (interfere (noise 2) (snd (lease_release lease (interfere (noise 1) a))))"

definition normalize :: "'h ports \<Rightarrow> noise \<Rightarrow> 'h suspend_coordinator \<Rightarrow> bool \<times> 'h suspend_coordinator" where
  "normalize P noise c =
     (case coord_state c of
        Idle \<Rightarrow> (True, c)
      | Recovering lease retry_at_ms \<Rightarrow>
          (if \<not> lease_is_active lease (admission c)
           then (True, c\<lparr>coord_state := Idle,
                         admission := lease_drop lease (interfere (noise 1) (admission c))\<rparr>)
           else (case port_now_ms P (host c) of
             (now, h) \<Rightarrow>
               (if now < retry_at_ms then (False, c\<lparr>host := h\<rparr>)
                else (case port_resume P h of
                  (Ok _, h) \<Rightarrow>
                    (True, c\<lparr>host := h, coord_state := Idle,
                             admission := give_back noise lease (admission c)\<rparr>)
                | (Err _, h) \<Rightarrow>
                    (case enter_recovery P lease h of
                       (st, h) \<Rightarrow> (False, c\<lparr>host := h, coord_state := st\<rparr>))))))
      | Held held \<Rightarrow>
          (if \<not> lease_is_active (held_lease held) (admission c)
           then (True, c\<lparr>coord_state := Idle,
                         admission := lease_drop (held_lease held) (interfere (noise 1) (admission c))\<rparr>)
           else (case port_now_ms P (host c) of
             (now, h) \<Rightarrow>
               (if held_expires_at_ms held \<le> now
                then (case port_resume P h of
                  (Ok _, h) \<Rightarrow>
                    (True, c\<lparr>host := h, coord_state := Idle,
                             admission := give_back noise (held_lease held) (admission c)\<rparr>)
                | (Err _, h) \<Rightarrow>
                    (case enter_recovery P (held_lease held) h of
                       (st, h) \<Rightarrow> (False, c\<lparr>host := h, coord_state := st\<rparr>)))
                else (True, c\<lparr>host := h\<rparr>)))))"

text \<open>The part of \<open>prepare\<close> after \<open>normalize\<close> has answered that nothing is held.\<close>

definition prepare_fresh ::
  "'h ports \<Rightarrow> noise \<Rightarrow> ustr \<Rightarrow> 'h suspend_coordinator \<Rightarrow> prepare_outcome \<times> 'h suspend_coordinator" where
  "prepare_fresh P noise request_id c =
     (case try_begin_suspend (interfere (noise 3) (admission c)) of
        (None, a) \<Rightarrow>
          (case capture_host P (host c) of
             (s, h) \<Rightarrow> (busy GatewayDraining s, c\<lparr>admission := a, host := h\<rparr>))
      | (Some lease, a) \<Rightarrow>
          (case port_pause P (host c) of
             (Err _, h) \<Rightarrow>
               (PrepareRecovering SCHEDULER_RECOVERY_RETRY_MS,
                c\<lparr>host := h,
                  admission := lease_drop lease (interfere (noise 5)
                    (snd (lease_rollback lease (interfere (noise 4) a))))\<rparr>)
           | (Ok _, h) \<Rightarrow>
               (case capture_host P h of
                  (snapshot, h) \<Rightarrow>
                    (if \<not> snapshot_is_idle snapshot
                     then (case port_resume P h of
                       (Err _, h) \<Rightarrow>
                         (case enter_recovery P lease h of
                            (st, h) \<Rightarrow>
                              (PrepareRecovering SCHEDULER_RECOVERY_RETRY_MS,
                               c\<lparr>host := h, coord_state := st, admission := interfere (noise 4) a\<rparr>))
                     | (Ok _, h) \<Rightarrow>
                         (busy ActiveWork snapshot,
                          c\<lparr>host := h,
                            admission := lease_drop lease (interfere (noise 5)
                              (snd (lease_rollback lease (interfere (noise 4) a))))\<rparr>))
                     else (case lease_commit lease (interfere (noise 4) a) of
                       (False, a) \<Rightarrow>
                         (busy GatewayDraining snapshot,
                          c\<lparr>host := h, admission := lease_drop lease (interfere (noise 5) a)\<rparr>)
                     | (True, a) \<Rightarrow>
                         (case port_next_id P h of
                            (sid, h) \<Rightarrow>
                              (case port_now_ms P h of
                                 (now, h) \<Rightarrow>
                                   (let expires_at_ms = saturating_add now (ttl_ms c) in
                                    (PrepareReady sid expires_at_ms (active_count snapshot)
                                       (snapshot_blockers snapshot),
                                     c\<lparr>host := h, admission := interfere (noise 5) a,
                                       coord_state := Held
                                         \<lparr>held_request_id = request_id, held_suspension_id = sid,
                                          held_expires_at_ms = expires_at_ms,
                                          held_snapshot = snapshot, held_lease = lease\<rparr>\<rparr>)))))))))"

definition prepare ::
  "'h ports \<Rightarrow> noise \<Rightarrow> ustr \<Rightarrow> 'h suspend_coordinator \<Rightarrow> prepare_outcome \<times> 'h suspend_coordinator" where
  "prepare P noise request c =
     (let request_id = str_trim request in
      case normalize P noise c of
        (False, c) \<Rightarrow> (PrepareRecovering SCHEDULER_RECOVERY_RETRY_MS, c)
      | (True, c) \<Rightarrow>
          (case coord_state c of
             Held held \<Rightarrow>
               (if held_request_id held \<noteq> request_id then (PrepareConflict (held_expires_at_ms held), c)
                else (case port_now_ms P (host c) of
                  (now, h) \<Rightarrow>
                    (let held = held\<lparr>held_expires_at_ms := saturating_add now (ttl_ms c)\<rparr> in
                     (PrepareReady (held_suspension_id held) (held_expires_at_ms held)
                        (active_count (held_snapshot held)) (snapshot_blockers (held_snapshot held)),
                      c\<lparr>host := h, coord_state := Held held\<rparr>))))
           | _ \<Rightarrow> prepare_fresh P noise request_id c))"

definition status ::
  "'h ports \<Rightarrow> noise \<Rightarrow> ustr \<Rightarrow> 'h suspend_coordinator \<Rightarrow> status_outcome \<times> 'h suspend_coordinator" where
  "status P noise suspension c =
     (let suspension_id = str_trim suspension in
      case normalize P noise c of
        (False, c) \<Rightarrow> (StatusRecovering SCHEDULER_RECOVERY_RETRY_MS, c)
      | (True, c) \<Rightarrow>
          (case coord_state c of
             Held held \<Rightarrow>
               (if held_suspension_id held = suspension_id
                then (StatusReady (held_expires_at_ms held), c)
                else (StatusConflict (held_expires_at_ms held), c))
           | _ \<Rightarrow> (StatusRunning, c)))"

text \<open>The second pass of interference in \<open>resume\<close> starts at program point 10.\<close>

definition resume ::
  "'h ports \<Rightarrow> noise \<Rightarrow> ustr \<Rightarrow> 'h suspend_coordinator \<Rightarrow> resume_outcome \<times> 'h suspend_coordinator" where
  "resume P noise suspension c =
     (let suspension_id = str_trim suspension in
      case normalize P noise c of
        (False, c) \<Rightarrow> (ResumeRecovering SCHEDULER_RECOVERY_RETRY_MS, c)
      | (True, c) \<Rightarrow>
          (case coord_state c of
             Held held \<Rightarrow>
               (if held_suspension_id held = suspension_id
                then (case port_resume P (host c) of
                  (Ok _, h) \<Rightarrow>
                    (Resumed, c\<lparr>host := h, coord_state := Idle,
                       admission := give_back (\<lambda>i. noise (10 + i)) (held_lease held) (admission c)\<rparr>)
                | (Err _, h) \<Rightarrow>
                    (case enter_recovery P (held_lease held) h of
                       (st, h) \<Rightarrow> (ResumeRecovering SCHEDULER_RECOVERY_RETRY_MS,
                                   c\<lparr>host := h, coord_state := st\<rparr>)))
                else (Mismatch, c))
           | _ \<Rightarrow> (AlreadyRunning, c)))"

definition poll :: "'h ports \<Rightarrow> noise \<Rightarrow> 'h suspend_coordinator \<Rightarrow> bool \<times> 'h suspend_coordinator" where
  "poll P noise c = normalize P noise c"

definition is_recovering :: "'h suspend_coordinator \<Rightarrow> bool" where
  "is_recovering c = (case coord_state c of Recovering _ _ \<Rightarrow> True | _ \<Rightarrow> False)"

section \<open>The system: coordinator, fence and everybody else\<close>

datatype coord_event =
    Prepare ustr prepare_outcome
  | Status ustr status_outcome
  | Resume ustr resume_outcome
  | Poll bool
  | Other other_event

inductive coord_step ::
  "'h ports \<Rightarrow> 'h suspend_coordinator \<Rightarrow> coord_event \<Rightarrow> 'h suspend_coordinator \<Rightarrow> bool"
  for P :: "'h ports"
where
  prepare_step: "prepare P noise r c = (out, c') \<Longrightarrow> coord_step P c (Prepare r out) c'"
| status_step: "status P noise s c = (out, c') \<Longrightarrow> coord_step P c (Status s out) c'"
| resume_step: "resume P noise s c = (out, c') \<Longrightarrow> coord_step P c (Resume s out) c'"
| poll_step: "poll P noise c = (b, c') \<Longrightarrow> coord_step P c (Poll b) c'"
| other_step: "coord_step P c (Other e) (c\<lparr>admission := other_step e (admission c)\<rparr>)"

definition coord_init :: "'h suspend_coordinator \<Rightarrow> bool" where
  "coord_init c \<longleftrightarrow> phase (admission c) = Accepting \<and> coord_state c = Idle"

section \<open>Who owns the fence\<close>

text \<open>
  A lease owns the fence until it gives it back or a restart drain takes it. What other threads do
  cannot close an open fence, and can change an owned one only by draining.
\<close>

definition owns :: "u64 \<Rightarrow> work_admission \<Rightarrow> bool" where
  "owns lease a \<longleftrightarrow> suspend_generation a = lease \<and> phase a \<noteq> Accepting \<and> \<not> restart_draining a"

definition drained_away :: "u64 \<Rightarrow> work_admission \<Rightarrow> bool" where
  "drained_away lease a \<longleftrightarrow>
     restart_draining a \<and> phase a = Accepting \<and> suspend_generation a = lease + 1"

definition owned_at :: "admission_phase \<Rightarrow> u64 \<Rightarrow> work_admission \<Rightarrow> bool" where
  "owned_at p lease a \<longleftrightarrow> (owns lease a \<and> phase a = p) \<or> drained_away lease a"

lemmas owner_defs = owns_def drained_away_def owned_at_def

lemma phase_closed_iff: "phase_is_closed p \<longleftrightarrow> p \<noteq> Accepting"
  by (cases p) auto

lemma other_step_owned_at: "owned_at p lease a \<Longrightarrow> owned_at p lease (other_step e a)"
  by (cases e) (auto simp: owner_defs fence_defs split: option.splits if_splits)

lemma other_step_open: "phase a = Accepting \<Longrightarrow> phase (other_step e a) = Accepting"
  by (cases e) (auto simp: fence_defs split: option.splits if_splits)

lemma other_step_draining:
  "restart_draining a \<Longrightarrow> restart_draining (other_step e a)"
  by (cases e) (auto simp: fence_defs split: option.splits if_splits)

lemma interfere_owned_at: "owned_at p lease a \<Longrightarrow> owned_at p lease (interfere es a)"
  unfolding interfere_def by (induction es arbitrary: a) (auto simp: other_step_owned_at)

lemma interfere_open: "phase a = Accepting \<Longrightarrow> phase (interfere es a) = Accepting"
  unfolding interfere_def by (induction es arbitrary: a) (auto simp: other_step_open)

lemma interfere_draining: "restart_draining a \<Longrightarrow> restart_draining (interfere es a)"
  unfolding interfere_def by (induction es arbitrary: a) (auto simp: other_step_draining)

lemma begin_owned:
  "try_begin_suspend a = (Some lease, a') \<Longrightarrow> owned_at Preparing lease a'"
  by (auto simp: try_begin_suspend_def owner_defs Let_def split: if_splits)

lemma begin_refused:
  "try_begin_suspend a = (None, a') \<Longrightarrow> a' = a \<and> (restart_draining a \<or> phase a \<noteq> Accepting)"
  by (auto simp: try_begin_suspend_def Let_def split: if_splits)

lemma commit_owned:
  "owned_at Preparing lease a \<Longrightarrow> lease_commit lease a = (b, a') \<Longrightarrow>
     (b \<and> owned_at Prepared lease a' \<and> phase a' = Prepared) \<or> (\<not> b \<and> a' = a \<and> drained_away lease a)"
  by (auto simp: owner_defs fence_defs split: if_splits)

lemma drop_open: "phase a = Accepting \<Longrightarrow> phase (lease_drop lease a) = Accepting"
  by (auto simp: fence_defs split: if_splits)

lemma release_open: "phase a = Accepting \<Longrightarrow> phase (snd (lease_release lease a)) = Accepting"
  by (auto simp: fence_defs split: if_splits)

lemma rollback_owned: "owned_at Preparing lease a \<Longrightarrow> phase (snd (lease_rollback lease a)) = Accepting"
  by (auto simp: owner_defs fence_defs split: if_splits)

text \<open>Giving a lease back opens the fence from either closed phase.\<close>

lemma release_owned:
  "owned_at p lease a \<Longrightarrow>
     phase (snd (lease_release lease a)) = Accepting \<or> owned_at p lease (snd (lease_release lease a))"
  by (auto simp: owner_defs fence_defs split: if_splits)

lemma drop_owned: "owned_at p lease a \<Longrightarrow> phase (lease_drop lease a) = Accepting"
  by (cases p) (auto simp: owner_defs fence_defs split: if_splits)

lemma give_back_open:
  assumes "owned_at p lease a"
  shows "phase (give_back noise lease a) = Accepting"
proof -
  have "owned_at p lease (interfere (noise 1) a)"
    using assms by (rule interfere_owned_at)
  then have "phase (snd (lease_release lease (interfere (noise 1) a))) = Accepting \<or>
      owned_at p lease (snd (lease_release lease (interfere (noise 1) a)))"
    by (rule release_owned)
  then show ?thesis
    unfolding give_back_def by (auto intro: drop_open interfere_open drop_owned interfere_owned_at)
qed

lemma rollback_open:
  assumes "owned_at Preparing lease a"
  shows "phase (lease_drop lease (interfere es (snd (lease_rollback lease (interfere fs a))))) = Accepting"
  by (intro drop_open interfere_open rollback_owned interfere_owned_at assms)

lemma inactive_open: "owned_at p lease a \<Longrightarrow> \<not> lease_is_active lease a \<Longrightarrow> phase a = Accepting"
  by (auto simp: owner_defs fence_defs)

section \<open>The coordinator's invariant\<close>

definition coord_inv :: "'h suspend_coordinator \<Rightarrow> bool" where
  "coord_inv c \<longleftrightarrow>
     (case coord_state c of
        Idle \<Rightarrow> phase (admission c) = Accepting
      | Held held \<Rightarrow> owned_at Prepared (held_lease held) (admission c) \<and>
          active_count (held_snapshot held) = 0 \<and> snapshot_blockers (held_snapshot held) = []
      | Recovering lease _ \<Rightarrow> \<exists>p. owned_at p lease (admission c))"

text \<open>An idle capture reports nothing, on any host.\<close>

lemma capture_host_idle:
  assumes "capture_host P h = (s, h')" and "snapshot_is_idle s"
  shows "active_count s = 0 \<and> snapshot_blockers s = []"
proof -
  obtain c ts where "s = capture c ts"
    using assms(1) by (auto simp: capture_host_def split: prod.splits if_splits)
  with assms(2) show ?thesis
    using snapshot_idle_no_blockers [of c ts] by (simp add: snapshot_is_idle_def counts_is_idle_def active_count_def)
qed

lemma normalize_spec:
  assumes "normalize P noise c = (b, c')" and "coord_inv c"
  shows "coord_inv c' \<and> ttl_ms c' = ttl_ms c \<and>
    (b \<longleftrightarrow> (case coord_state c' of Recovering _ _ \<Rightarrow> False | _ \<Rightarrow> True)) \<and>
    (\<forall>held. coord_state c' = Held held \<longrightarrow> coord_state c = Held held \<and> admission c' = admission c \<and>
       lease_is_active (held_lease held) (admission c))"
proof (cases "coord_state c")
  case Idle
  with assms show ?thesis by (auto simp: normalize_def)
next
  case (Held held)
  with assms(2) have own: "owned_at Prepared (held_lease held) (admission c)"
    by (simp add: coord_inv_def)
  then have some_phase: "\<exists>p. owned_at p (held_lease held) (admission c)" by blast
  from assms Held give_back_open [OF own] show ?thesis
    by (auto simp: normalize_def coord_inv_def enter_recovery_def own some_phase
        intro!: drop_open interfere_open inactive_open [OF own]
        split: if_splits prod.splits result.splits)
next
  case (Recovering lease retry)
  with assms(2) obtain p where own: "owned_at p lease (admission c)"
    by (auto simp: coord_inv_def)
  from assms Recovering give_back_open [OF own] own show ?thesis
    by (auto simp: normalize_def coord_inv_def enter_recovery_def
        intro!: drop_open interfere_open inactive_open [OF own]
        split: if_splits prod.splits result.splits)
qed

text \<open>The six ways a fresh preparation can end.\<close>

lemma prepare_fresh_cases:
  assumes "prepare_fresh P noise r c = (out, c')"
  obtains (refused) a s h where
      "try_begin_suspend (interfere (noise 3) (admission c)) = (None, a)"
      "capture_host P (host c) = (s, h)" "out = busy GatewayDraining s"
      "c' = c\<lparr>admission := a, host := h\<rparr>"
  | (pause_failed) lease a e h where
      "try_begin_suspend (interfere (noise 3) (admission c)) = (Some lease, a)"
      "port_pause P (host c) = (Err e, h)" "out = PrepareRecovering SCHEDULER_RECOVERY_RETRY_MS"
      "c' = c\<lparr>host := h, admission := lease_drop lease (interfere (noise 5)
                  (snd (lease_rollback lease (interfere (noise 4) a))))\<rparr>"
  | (resume_failed) lease a h1 s h2 e h3 now h4 where
      "try_begin_suspend (interfere (noise 3) (admission c)) = (Some lease, a)"
      "port_pause P (host c) = (Ok (), h1)" "capture_host P h1 = (s, h2)" "\<not> snapshot_is_idle s"
      "port_resume P h2 = (Err e, h3)" "port_now_ms P h3 = (now, h4)"
      "out = PrepareRecovering SCHEDULER_RECOVERY_RETRY_MS"
      "c' = c\<lparr>host := h4,
              coord_state := Recovering lease (saturating_add now SCHEDULER_RECOVERY_RETRY_MS),
              admission := interfere (noise 4) a\<rparr>"
  | (busy_work) lease a h1 s h2 h3 where
      "try_begin_suspend (interfere (noise 3) (admission c)) = (Some lease, a)"
      "port_pause P (host c) = (Ok (), h1)" "capture_host P h1 = (s, h2)" "\<not> snapshot_is_idle s"
      "port_resume P h2 = (Ok (), h3)" "out = busy ActiveWork s"
      "c' = c\<lparr>host := h3, admission := lease_drop lease (interfere (noise 5)
                  (snd (lease_rollback lease (interfere (noise 4) a))))\<rparr>"
  | (commit_lost) lease a h1 s h2 a2 where
      "try_begin_suspend (interfere (noise 3) (admission c)) = (Some lease, a)"
      "port_pause P (host c) = (Ok (), h1)" "capture_host P h1 = (s, h2)" "snapshot_is_idle s"
      "lease_commit lease (interfere (noise 4) a) = (False, a2)" "out = busy GatewayDraining s"
      "c' = c\<lparr>host := h2, admission := lease_drop lease (interfere (noise 5) a2)\<rparr>"
  | (ready) lease a h1 s h2 a2 sid h3 now h4 where
      "try_begin_suspend (interfere (noise 3) (admission c)) = (Some lease, a)"
      "port_pause P (host c) = (Ok (), h1)" "capture_host P h1 = (s, h2)" "snapshot_is_idle s"
      "lease_commit lease (interfere (noise 4) a) = (True, a2)"
      "port_next_id P h2 = (sid, h3)" "port_now_ms P h3 = (now, h4)"
      "out = PrepareReady sid (saturating_add now (ttl_ms c)) (active_count s) (snapshot_blockers s)"
      "c' = c\<lparr>host := h4, admission := interfere (noise 5) a2,
              coord_state := Held \<lparr>held_request_id = r, held_suspension_id = sid,
                held_expires_at_ms = saturating_add now (ttl_ms c), held_snapshot = s,
                held_lease = lease\<rparr>\<rparr>"
proof -
  obtain l a where begin_eq: "try_begin_suspend (interfere (noise 3) (admission c)) = (l, a)"
    by (cases "try_begin_suspend (interfere (noise 3) (admission c))")
  obtain s0 h0 where capture0: "capture_host P (host c) = (s0, h0)"
    by (cases "capture_host P (host c)")
  obtain rp h1 where pause: "port_pause P (host c) = (rp, h1)" by (cases "port_pause P (host c)")
  obtain s h2 where cap: "capture_host P h1 = (s, h2)" by (cases "capture_host P h1")
  obtain rr h3 where res: "port_resume P h2 = (rr, h3)" by (cases "port_resume P h2")
  note unfolded = assms [unfolded prepare_fresh_def enter_recovery_def Let_def begin_eq prod.case]
  show thesis
  proof (cases l)
    case None
    with unfolded begin_eq capture0 show thesis by (auto intro: refused)
  next
    case (Some lease)
    show thesis
    proof (cases rp)
      case (Err e)
      with unfolded begin_eq Some pause show thesis by (auto intro: pause_failed)
    next
      case (Ok u)
      with pause have paused: "port_pause P (host c) = (Ok (), h1)" by simp
      note unfolded2 = unfolded [unfolded Some option.case paused result.case cap prod.case]
      obtain now h4 where clock: "port_now_ms P h3 = (now, h4)" by (cases "port_now_ms P h3")
      obtain b a2 where commit: "lease_commit lease (interfere (noise 4) a) = (b, a2)"
        by (cases "lease_commit lease (interfere (noise 4) a)")
      obtain sid k3 where ident: "port_next_id P h2 = (sid, k3)" by (cases "port_next_id P h2")
      obtain now2 k4 where clock2: "port_now_ms P k3 = (now2, k4)" by (cases "port_now_ms P k3")
      note begun = begin_eq [unfolded Some]
      show thesis
      proof (cases "snapshot_is_idle s")
        case busy: False
        show thesis
        proof (cases rr)
          case Ok
          with unfolded2 busy res show thesis by (intro busy_work [OF begun paused cap]) auto
        next
          case Err
          with unfolded2 busy res clock show thesis
            by (intro resume_failed [OF begun paused cap _ _ clock]) auto
        qed
      next
        case idle: True
        show thesis
        proof (cases b)
          case True
          with unfolded2 idle commit ident clock2 show thesis
            by (intro ready [OF begun paused cap _ _ ident clock2]) auto
        next
          case False
          with unfolded2 idle commit show thesis by (intro commit_lost [OF begun paused cap]) auto
        qed
      qed
    qed
  qed
qed

lemma prepare_fresh_inv:
  assumes "prepare_fresh P noise r c = (out, c')" and "coord_inv c" and "coord_state c = Idle"
  shows "coord_inv c'"
proof -
  have open_fence: "phase (interfere (noise 3) (admission c)) = Accepting"
    using assms(2,3) by (simp add: coord_inv_def interfere_open)
  note closing = coord_inv_def assms(3)
  from assms(1) show ?thesis
  proof (cases rule: prepare_fresh_cases)
    case refused
    with open_fence begin_refused show ?thesis by (fastforce simp: closing)
  next
    case pause_failed
    with rollback_open [OF begin_owned] show ?thesis by (simp add: closing)
  next
    case (resume_failed lease a)
    have "owned_at Preparing lease (interfere (noise 4) a)"
      using begin_owned [OF resume_failed(1)] by (rule interfere_owned_at)
    with resume_failed show ?thesis by (auto simp: closing)
  next
    case busy_work
    with rollback_open [OF begin_owned] show ?thesis by (simp add: closing)
  next
    case (commit_lost lease a h1 s h2 a2)
    have "drained_away lease a2"
      using commit_owned [OF interfere_owned_at [OF begin_owned [OF commit_lost(1)]] commit_lost(5)] by auto
    then have "phase (lease_drop lease (interfere (noise 5) a2)) = Accepting"
      by (intro drop_open interfere_open) (simp add: drained_away_def)
    with commit_lost show ?thesis by (simp add: closing)
  next
    case (ready lease a h1 s h2 a2)
    have "owned_at Prepared lease a2"
      using commit_owned [OF interfere_owned_at [OF begin_owned [OF ready(1)]] ready(5)] by auto
    then have "owned_at Prepared lease (interfere (noise 5) a2)"
      by (rule interfere_owned_at)
    with ready capture_host_idle [OF ready(3,4)] show ?thesis by (simp add: closing)
  qed
qed

lemma coord_inv_step:
  assumes "coord_inv c" and "coord_step P c e c'"
  shows "coord_inv c'"
  using assms(2,1)
proof cases
  case (prepare_step noise r out)
  obtain b d where n: "normalize P noise c = (b, d)" by (cases "normalize P noise c")
  note d = normalize_spec [OF n assms(1)]
  show ?thesis
  proof (cases "coord_state d")
    case (Held held)
    with prepare_step(2) n d show ?thesis
      by (auto simp: prepare_def Let_def coord_inv_def split: bool.splits if_splits prod.splits)
  next
    case Idle
    with prepare_step(2) n d have "prepare_fresh P noise (str_trim r) d = (out, c')"
      by (auto simp: prepare_def Let_def)
    with d Idle show ?thesis by (blast intro: prepare_fresh_inv)
  next
    case (Recovering lease retry)
    with prepare_step(2) n d show ?thesis by (auto simp: prepare_def Let_def)
  qed
next
  case (status_step noise s out)
  obtain b d where n: "normalize P noise c = (b, d)" by (cases "normalize P noise c")
  from status_step(2) n normalize_spec [OF n assms(1)] show ?thesis
    by (auto simp: status_def Let_def split: bool.splits coordinator_state.splits if_splits)
next
  case (resume_step noise s out)
  obtain b d where n: "normalize P noise c = (b, d)" by (cases "normalize P noise c")
  from resume_step(2) n normalize_spec [OF n assms(1)] show ?thesis
    by (auto simp: resume_def Let_def coord_inv_def enter_recovery_def intro: give_back_open
        split: bool.splits coordinator_state.splits if_splits prod.splits result.splits)
next
  case (poll_step noise b)
  then show ?thesis using normalize_spec [of P noise c b c'] assms(1) by (simp add: poll_def)
next
  case (other_step e)
  then show ?thesis using assms(1)
    by (auto simp: coord_inv_def intro: other_step_owned_at other_step_open
        split: coordinator_state.splits)
qed

interpretation coord: invariant_system coord_init "coord_step P" coord_inv for P
  by unfold_locales (simp add: coord_init_def coord_inv_def, rule coord_inv_step)

section \<open>What the coordinator guarantees about the fence\<close>

lemma lease_drop_reopens:
  "\<not> restart_draining a \<Longrightarrow> \<not> restart_draining (lease_drop (suspend_generation a) a) \<and>
    phase (lease_drop (suspend_generation a) a) = Accepting"
  by (cases "phase a") (simp_all add: lease_drop_def lease_release_def lease_rollback_def fence_transition_def)

text \<open>
  Property C16. The fence is never left closed with nobody to reopen it. In every reachable state a
  fence that refuses root requests does so for one of two reasons: the host drains for a restart, which
  is one way; or the coordinator holds, or is recovering, the very lease whose generation closed the
  fence, and giving that lease up opens it. A coordinator that holds nothing has a closed fence exactly
  while the host drains for a restart.
\<close>

theorem closed_fence_has_owner:
  assumes "reach coord_init (coord_step P) c"
  shows "(is_closed (admission c) \<longrightarrow> restart_draining (admission c) \<or>
      (\<exists>lease. (case coord_state c of Idle \<Rightarrow> False | Held held \<Rightarrow> lease = held_lease held | Recovering l _ \<Rightarrow> lease = l) \<and>
         lease_is_active lease (admission c) \<and> \<not> is_closed (lease_drop lease (admission c)))) \<and>
    (phase (admission c) \<noteq> Accepting \<longrightarrow> \<not> restart_draining (admission c)) \<and>
    (coord_state c = Idle \<longrightarrow> is_closed (admission c) = restart_draining (admission c))"
  using coord.reach_inv [OF assms] lease_drop_reopens [of "admission c"]
  by (auto simp: coord_inv_def owner_defs lease_is_active_def is_generation_active_def is_closed_iff
      phase_closed_iff split: coordinator_state.splits)


section \<open>The scheduler\<close>

text \<open>
  What the port's documentation promises of a scheduler, for any reading \<open>paused\<close> of the host: a
  resume that succeeds leaves it running, a pause that fails has not paused it, and the other ports
  do not touch it.
\<close>

definition scheduler_laws :: "'h ports \<Rightarrow> ('h \<Rightarrow> bool) \<Rightarrow> bool" where
  "scheduler_laws P paused \<longleftrightarrow>
     (\<forall>h u h'. port_resume P h = (Ok u, h') \<longrightarrow> \<not> paused h') \<and>
     (\<forall>h e h'. port_pause P h = (Err e, h') \<longrightarrow> paused h' = paused h) \<and>
     (\<forall>h x h'. port_counts P h = (x, h') \<longrightarrow> paused h' = paused h) \<and>
     (\<forall>h x h'. port_tasks P h = (x, h') \<longrightarrow> paused h' = paused h) \<and>
     (\<forall>h x h'. port_now_ms P h = (x, h') \<longrightarrow> paused h' = paused h) \<and>
     (\<forall>h x h'. port_next_id P h = (x, h') \<longrightarrow> paused h' = paused h)"

lemma capture_host_paused:
  assumes "scheduler_laws P paused" and "capture_host P h = (s, h')"
  shows "paused h' = paused h"
proof -
  have counts: "paused h' = paused h" if "port_counts P h = (x, h')" for h x h'
    using assms(1) that unfolding scheduler_laws_def by blast
  have tasks: "paused h' = paused h" if "port_tasks P h = (x, h')" for h x h'
    using assms(1) that unfolding scheduler_laws_def by blast
  show ?thesis
    using assms(2) by (auto simp: capture_host_def counts tasks split: prod.splits if_splits)
qed

definition running_inv :: "('h \<Rightarrow> bool) \<Rightarrow> 'h suspend_coordinator \<Rightarrow> bool" where
  "running_inv paused c \<longleftrightarrow>
     coord_inv c \<and> (coord_state c = Idle \<and> \<not> restart_draining (admission c) \<longrightarrow> \<not> paused (host c))"

lemma lease_keeps_draining [simp]:
  "restart_draining (lease_drop lease a) = restart_draining a"
  "restart_draining (snd (lease_release lease a)) = restart_draining a"
  "restart_draining (snd (lease_rollback lease a)) = restart_draining a"
  by (auto simp: fence_defs)

lemma inactive_draining: "owned_at p lease a \<Longrightarrow> \<not> lease_is_active lease a \<Longrightarrow> restart_draining a"
  by (auto simp: owner_defs fence_defs)

lemma normalize_running:
  assumes laws: "scheduler_laws P paused" and inv: "running_inv paused c"
    and "normalize P noise c = (b, c')"
  shows "running_inv paused c'"
proof -
  have c: "coord_inv c" using inv by (simp add: running_inv_def)
  have resumed: "\<not> paused h'" if "port_resume P h = (Ok u, h')" for h u h'
    using laws that unfolding scheduler_laws_def by blast
  have drained: "restart_draining (interfere es (admission c))"
    if "owned_at p lease (admission c)" "\<not> lease_is_active lease (admission c)" for p lease es
    using inactive_draining [OF that] by (rule interfere_draining)
  have "coord_state c' = Idle \<and> \<not> restart_draining (admission c') \<longrightarrow> \<not> paused (host c')"
    using assms(3) c inv drained
    by (cases "coord_state c")
       (auto simp: normalize_def enter_recovery_def running_inv_def coord_inv_def dest: resumed
         split: if_splits prod.splits result.splits)
  then show ?thesis
    using normalize_spec [OF assms(3) c] by (simp add: running_inv_def)
qed

lemma prepare_fresh_running:
  assumes laws: "scheduler_laws P paused" and inv: "running_inv paused c"
    and idle: "coord_state c = Idle" and eq: "prepare_fresh P noise r c = (out, c')"
  shows "running_inv paused c'"
proof -
  have c: "coord_inv c" using inv by (simp add: running_inv_def)
  have running: "\<not> paused (host c) \<or> restart_draining (interfere (noise 3) (admission c))"
    using inv idle interfere_draining [of "admission c"] by (auto simp: running_inv_def)
  have "coord_state c' = Idle \<and> \<not> restart_draining (admission c') \<longrightarrow> \<not> paused (host c')"
    using eq
  proof (cases rule: prepare_fresh_cases)
    case refused
    then show ?thesis
      using running begin_refused [OF refused(1)] capture_host_paused [OF laws refused(2)] by auto
  next
    case (pause_failed lease a e h)
    have "\<not> restart_draining (interfere (noise 3) (admission c))"
      using pause_failed(1) by (auto simp: try_begin_suspend_def Let_def split: if_splits)
    moreover have "paused h = paused (host c)"
      using laws pause_failed(2) unfolding scheduler_laws_def by blast
    ultimately show ?thesis using running pause_failed(4) by simp
  next
    case resume_failed
    then show ?thesis by simp
  next
    case (busy_work lease a h1 s h2 h3)
    have "\<not> paused h3" using laws busy_work(5) unfolding scheduler_laws_def by blast
    then show ?thesis using busy_work(7) by simp
  next
    case (commit_lost lease a h1 s h2 a2)
    have "drained_away lease a2"
      using commit_owned [OF interfere_owned_at [OF begin_owned [OF commit_lost(1)]] commit_lost(5)] by auto
    then have "restart_draining (interfere (noise 5) a2)"
      by (intro interfere_draining) (simp add: drained_away_def)
    then show ?thesis using commit_lost(7) by simp
  next
    case ready
    then show ?thesis by simp
  qed
  then show ?thesis
    using prepare_fresh_inv [OF eq c idle] by (simp add: running_inv_def)
qed

lemma running_step:
  assumes laws: "scheduler_laws P paused" and inv: "running_inv paused c"
    and step: "coord_step P c e c'"
  shows "running_inv paused c'"
proof -
  have c: "coord_inv c" using inv by (simp add: running_inv_def)
  have resumed: "\<not> paused h'" if "port_resume P h = (Ok u, h')" for h u h'
    using laws that unfolding scheduler_laws_def by blast
  have c': "coord_inv c'" by (rule coord_inv_step [OF c step])
  from step show ?thesis
  proof cases
    case (prepare_step noise r out)
    obtain b d where n: "normalize P noise c = (b, d)" by (cases "normalize P noise c")
    note d = normalize_running [OF laws inv n]
    show ?thesis
    proof (cases "b \<and> coord_state d = Idle")
      case True
      with prepare_step(2) n have "prepare_fresh P noise (str_trim r) d = (out, c')"
        by (simp add: prepare_def Let_def)
      then show ?thesis using prepare_fresh_running [OF laws d] True by blast
    next
      case False
      with prepare_step(2) n d normalize_spec [OF n c] c' show ?thesis
        by (auto simp: prepare_def Let_def running_inv_def
            split: bool.splits coordinator_state.splits if_splits prod.splits)
    qed
  next
    case (status_step noise s out)
    obtain b d where n: "normalize P noise c = (b, d)" by (cases "normalize P noise c")
    from status_step(2) n normalize_running [OF laws inv n] show ?thesis
      by (auto simp: status_def Let_def split: bool.splits coordinator_state.splits if_splits)
  next
    case (resume_step noise s out)
    obtain b d where n: "normalize P noise c = (b, d)" by (cases "normalize P noise c")
    from resume_step(2) n normalize_running [OF laws inv n] c' show ?thesis
      by (auto simp: resume_def Let_def running_inv_def enter_recovery_def dest: resumed
          split: bool.splits coordinator_state.splits if_splits prod.splits result.splits)
  next
    case (poll_step noise b)
    then show ?thesis using normalize_running [OF laws inv] by (simp add: poll_def)
  next
    case (other_step e)
    then show ?thesis
      using inv c' other_step_draining [of "admission c" e] by (auto simp: running_inv_def)
  qed
qed

text \<open>The clause of a start state that the scheduler property adds.\<close>

definition running_init :: "('h \<Rightarrow> bool) \<Rightarrow> 'h suspend_coordinator \<Rightarrow> bool" where
  "running_init paused c \<longleftrightarrow> coord_init c \<and> \<not> paused (host c)"

lemma reach_running:
  assumes laws: "scheduler_laws P paused" and "reach (running_init paused) (coord_step P) c"
  shows "running_inv paused c"
  using assms(2)
proof (induction rule: reach.induct)
  case (reach_init c)
  then show ?case by (simp add: running_init_def running_inv_def coord_init_def coord_inv_def)
next
  case (reach_step c e c')
  then show ?case using running_step [OF laws] by blast
qed

text \<open>
  Property C34. No work is admitted to a host whose scheduler is stopped: for any scheduler that
  keeps its contract, in every state reachable from a running host, if the fence admits root work
  then the scheduler is running.
\<close>

theorem admitting_host_is_scheduled:
  assumes "scheduler_laws P paused" and "reach (running_init paused) (coord_step P) c"
    and "try_begin_root_work (admission c) = (Ok root, a)"
  shows "\<not> paused (host c)"
proof -
  have inv: "running_inv paused c" by (rule reach_running [OF assms(1,2)])
  have "phase (admission c) = Accepting" "\<not> restart_draining (admission c)"
    using assms(3) by (auto simp: fence_defs split: if_splits option.splits)
  moreover have "coord_state c = Idle" if "phase (admission c) = Accepting" "\<not> restart_draining (admission c)"
    using inv that by (auto simp: running_inv_def coord_inv_def owner_defs split: coordinator_state.splits)
  ultimately show ?thesis using inv by (auto simp: running_inv_def)
qed

section \<open>Expiry, renewal and resumption\<close>

text \<open>
  A suspension nobody resumes ends by itself: in a reachable state whose held lease has
  reached its deadline, the next poll (or any request, since each starts the same way) resumes the
  scheduler and reopens the fence, unless the scheduler refuses, and then the coordinator keeps the
  lease and retries a second later.
\<close>

theorem abandoned_lease_expires:
  assumes "reach coord_init (coord_step P) c" and "coord_state c = Held held"
    and "lease_is_active (held_lease held) (admission c)"
    and "port_now_ms P (host c) = (now, h)" and "held_expires_at_ms held \<le> now"
  shows "case port_resume P h of
      (Ok _, h') \<Rightarrow> (\<exists>c'. poll P noise c = (True, c') \<and> coord_state c' = Idle \<and>
         phase (admission c') = Accepting \<and> host c' = h')
    | (Err _, h') \<Rightarrow> (\<exists>c'. poll P noise c = (False, c') \<and> admission c' = admission c \<and>
         coord_state c' = Recovering (held_lease held) (saturating_add (fst (port_now_ms P h')) 1000))"
proof -
  have "owned_at Prepared (held_lease held) (admission c)"
    using coord.reach_inv [OF assms(1)] assms(2) by (simp add: coord_inv_def)
  then show ?thesis
    using assms(2-5) give_back_open [of Prepared "held_lease held" "admission c" noise]
    by (auto simp: poll_def normalize_def enter_recovery_def SCHEDULER_RECOVERY_RETRY_MS_def
        split: prod.splits result.splits)
qed

text \<open>
  Resume releases exactly the suspension it names: in a reachable state the answers
  resumed and already-running mean that nothing is held and the fence is open; mismatch leaves the
  lease that is held, under another identifier, as it was; recovering means the fence is kept.
  A live lease quoted by its own identifier is always released when the scheduler resumes.
\<close>

theorem resume_releases_named_suspension:
  assumes "reach coord_init (coord_step P) c" and "resume P noise s c = (out, c')"
  shows "(case out of
        Resumed \<Rightarrow> coord_state c' = Idle \<and> phase (admission c') = Accepting
      | AlreadyRunning \<Rightarrow> coord_state c' = Idle \<and> phase (admission c') = Accepting
      | Mismatch \<Rightarrow> coord_state c' = coord_state c \<and> admission c' = admission c \<and>
          (\<exists>held. coord_state c = Held held \<and> held_suspension_id held \<noteq> str_trim s)
      | ResumeRecovering retry \<Rightarrow> is_recovering c' \<and> retry = 1000) \<and>
    (\<forall>held now h h'. coord_state c = Held held \<and> held_suspension_id held = str_trim s \<and>
       lease_is_active (held_lease held) (admission c) \<and> port_now_ms P (host c) = (now, h) \<and>
       now < held_expires_at_ms held \<and> port_resume P h = (Ok (), h') \<longrightarrow> out = Resumed)"
proof
  have inv: "coord_inv c" by (rule coord.reach_inv [OF assms(1)])
  have inv': "coord_inv c'"
    using coord_inv_step [OF inv coord_step.resume_step [OF assms(2)]] .
  obtain b d where n: "normalize P noise c = (b, d)" by (cases "normalize P noise c")
  note d = normalize_spec [OF n inv]
  show "case out of
        Resumed \<Rightarrow> coord_state c' = Idle \<and> phase (admission c') = Accepting
      | AlreadyRunning \<Rightarrow> coord_state c' = Idle \<and> phase (admission c') = Accepting
      | Mismatch \<Rightarrow> coord_state c' = coord_state c \<and> admission c' = admission c \<and>
          (\<exists>held. coord_state c = Held held \<and> held_suspension_id held \<noteq> str_trim s)
      | ResumeRecovering retry \<Rightarrow> is_recovering c' \<and> retry = 1000"
    using assms(2) n d inv'
    by (cases "coord_state d")
       (auto simp: resume_def Let_def coord_inv_def enter_recovery_def is_recovering_def
         SCHEDULER_RECOVERY_RETRY_MS_def split: if_splits prod.splits result.splits)
  show "\<forall>held now h h'. coord_state c = Held held \<and> held_suspension_id held = str_trim s \<and>
       lease_is_active (held_lease held) (admission c) \<and> port_now_ms P (host c) = (now, h) \<and>
       now < held_expires_at_ms held \<and> port_resume P h = (Ok (), h') \<longrightarrow> out = Resumed"
    using assms(2)
    by (auto simp: resume_def normalize_def Let_def simp flip: not_le)
qed

text \<open>
  A process never mints the same suspension identifier twice: identifiers minted from
  different counter values or different seeds differ.
\<close>

theorem suspension_ids_unique:
  "fst (process_next_id s) = fst (process_next_id t) \<longleftrightarrow> seed s = seed t \<and> counter s = counter t"
  by (auto simp: process_next_id_def append_sep_inject dash_not_in_show_hex word_unat_eq_iff
      dest: show_hex_padded_inj)

section \<open>A concrete host\<close>

text \<open>
  A host whose clock jumps 130 s at every reading, with a scheduler flag and no activity: the
  contract of the scheduler holds of it, and a prepared suspension expires before the next poll.
\<close>

definition quiet_ports :: "(u64 \<times> bool) ports" where
  "quiet_ports =
     \<lparr>port_pause = \<lambda>h. (Ok (), (fst h, True)), port_resume = \<lambda>h. (Ok (), (fst h, False)),
      port_counts = \<lambda>h. (idle_inspector_counts, h), port_tasks = \<lambda>h. ([], h),
      port_now_ms = \<lambda>h. (fst h, (fst h + 130000, snd h)), port_next_id = \<lambda>h. (lit ''s1'', h)\<rparr>"

definition quiet_start :: "(u64 \<times> bool) suspend_coordinator" where
  "quiet_start = coordinator_new work_admission_new (0, False)"

definition quiet_held :: "(u64 \<times> bool) suspend_coordinator" where
  "quiet_held = snd (prepare quiet_ports (\<lambda>_. []) (lit ''r1'') quiet_start)"

lemmas quiet_defs = quiet_ports_def quiet_start_def quiet_held_def idle_inspector_counts_def
  coordinator_new_def work_admission_new_def prepare_def prepare_fresh_def normalize_def
  capture_host_def snapshot_is_idle_def capture_def counts_is_idle_def total_active_def
  saturating_add_def active_count_def push_row_def interfere_def fence_defs
  SUSPEND_TTL_MS_def lit_def str_trim_def char_is_whitespace_def

lemma quiet_init: "coord_init quiet_start"
  by (simp add: quiet_start_def coordinator_new_def coord_init_def work_admission_new_def)

lemma quiet_ready:
  "prepare quiet_ports (\<lambda>_. []) (lit ''r1'') quiet_start =
     (PrepareReady (lit ''s1'') 120000 0 [], quiet_held)"
  by (simp add: quiet_defs)

lemma quiet_held_eq:
  "host quiet_held = (130000, True) \<and>
   (\<exists>held. coord_state quiet_held = Held held \<and> held_expires_at_ms held = 120000 \<and>
      held_suspension_id held = lit ''s1'' \<and> lease_is_active (held_lease held) (admission quiet_held))"
  by (simp add: quiet_defs)

lemma quiet_held_reachable: "reach coord_init (coord_step quiet_ports) quiet_held"
  using quiet_init quiet_ready by (blast intro: reach.intros coord_step.prepare_step)


lemma quiet_start_running: "reach (running_init snd) (coord_step quiet_ports) quiet_start"
proof (rule reach.reach_init)
  show "running_init snd quiet_start"
    using quiet_init by (simp add: running_init_def quiet_start_def coordinator_new_def)
qed

lemma quiet_laws: "scheduler_laws quiet_ports snd"
  by (simp add: scheduler_laws_def quiet_ports_def)

theorem closed_fence_has_owner_witness:
  "coord_state quiet_held \<noteq> Idle \<and> phase (admission quiet_held) = Prepared"
proof -
  have "phase (admission quiet_held) = Prepared" by (simp add: quiet_defs)
  with closed_fence_has_owner [OF quiet_held_reachable] show ?thesis by (auto simp: is_closed_iff)
qed


theorem admitting_host_is_scheduled_witness:
  "is_ok (fst (try_begin_root_work (admission quiet_start))) \<and> \<not> snd (host quiet_start)"
proof -
  have "try_begin_root_work (admission quiet_start) = (Ok 1, snd (try_begin_root_work (admission quiet_start)))"
    by (simp add: quiet_defs)
  from this admitting_host_is_scheduled [OF quiet_laws quiet_start_running this]
  show ?thesis by (metis fst_conv is_ok.simps(1))
qed

theorem abandoned_lease_expires_witness:
  "\<exists>c'. poll quiet_ports (\<lambda>_. [OtherBegin]) quiet_held = (True, c') \<and> coord_state c' = Idle \<and>
     phase (admission c') = Accepting \<and> host c' = (260000, False)"
proof -
  obtain held where held: "coord_state quiet_held = Held held" "held_expires_at_ms held = 120000"
    "lease_is_active (held_lease held) (admission quiet_held)" "host quiet_held = (130000, True)"
    using quiet_held_eq by blast
  then have "port_now_ms quiet_ports (host quiet_held) = (130000, (260000, True))"
    by (simp add: quiet_ports_def)
  from abandoned_lease_expires [OF quiet_held_reachable held(1,3) this, of "\<lambda>_. [OtherBegin]"] held(2)
  show ?thesis by (simp add: quiet_ports_def)
qed

theorem resume_releases_named_suspension_witness:
  "\<exists>c'. resume quiet_ports (\<lambda>_. []) (lit '' s1 '') quiet_held = (AlreadyRunning, c') \<and>
     coord_state c' = Idle \<and> phase (admission c') = Accepting"
proof -
  have "fst (resume quiet_ports (\<lambda>_. []) (lit '' s1 '') quiet_held) = AlreadyRunning"
    by (simp add: quiet_defs resume_def)
  then obtain c' where "resume quiet_ports (\<lambda>_. []) (lit '' s1 '') quiet_held = (AlreadyRunning, c')"
    by (cases "resume quiet_ports (\<lambda>_. []) (lit '' s1 '') quiet_held") auto
  from this resume_releases_named_suspension [OF quiet_held_reachable this] show ?thesis by auto
qed

end
