(* ===== verification/Provider_Error.thy ===== *)
theory Provider_Error
  imports Claw_Text
begin

text \<open>
  The provider error taxonomy (crates/claw-provider-sdk/src/error.rs): the closed kinds with the
  two predicates the reliability policies act on, the sanitized error value, and the parser of the
  \<open>Retry-After\<close> header. A \<open>Duration\<close> is its number of nanoseconds.
\<close>

section \<open>Kinds, classes and operations\<close>

definition MAX_DETAIL_CHARS :: nat where
  "MAX_DETAIL_CHARS = 512"

datatype error_kind =
    Authentication | RateLimit | Quota | Transport | Protocol | Server | InvalidRequest | Cancelled
  | Timeout | CircuitOpen | Unsupported

datatype failure_class =
    FAuthentication | FRateLimited | FQuota | FUnavailable | FInvalidResponse | FInvalidRequest
  | FCancelled | FUnsupported

definition error_kind_ALL :: "error_kind list" where
  "error_kind_ALL =
     [Authentication, RateLimit, Quota, Transport, Protocol, Server, InvalidRequest, Cancelled,
      Timeout, CircuitOpen, Unsupported]"

definition failure_class_ALL :: "failure_class list" where
  "failure_class_ALL =
     [FAuthentication, FRateLimited, FQuota, FUnavailable, FInvalidResponse, FInvalidRequest,
      FCancelled, FUnsupported]"

fun failure_class_as_str :: "failure_class \<Rightarrow> string" where
  "failure_class_as_str FAuthentication = ''authentication''"
| "failure_class_as_str FRateLimited = ''rate_limited''"
| "failure_class_as_str FQuota = ''quota''"
| "failure_class_as_str FUnavailable = ''unavailable''"
| "failure_class_as_str FInvalidResponse = ''invalid_response''"
| "failure_class_as_str FInvalidRequest = ''invalid_request''"
| "failure_class_as_str FCancelled = ''cancelled''"
| "failure_class_as_str FUnsupported = ''unsupported''"

fun class_user_message :: "failure_class \<Rightarrow> string" where
  "class_user_message FAuthentication =
     ''Provider authentication failed. Sign in again or update the credential.''"
| "class_user_message FRateLimited =
     ''The provider is rate limiting requests. Retry after the indicated delay.''"
| "class_user_message FQuota =
     ''The provider account has no remaining quota. Check its plan or billing.''"
| "class_user_message FUnavailable = ''The provider is temporarily unavailable. Try again shortly.''"
| "class_user_message FInvalidResponse =
     ''The provider returned an invalid response. Try another model or provider.''"
| "class_user_message FInvalidRequest =
     ''The provider rejected this request. Check the model and request options.''"
| "class_user_message FCancelled = ''The provider request was cancelled.''"
| "class_user_message FUnsupported = ''The selected provider does not support this operation.''"

fun error_kind_as_str :: "error_kind \<Rightarrow> string" where
  "error_kind_as_str Authentication = ''authentication''"
| "error_kind_as_str RateLimit = ''rate_limit''"
| "error_kind_as_str Quota = ''quota''"
| "error_kind_as_str Transport = ''transport''"
| "error_kind_as_str Protocol = ''protocol''"
| "error_kind_as_str Server = ''server''"
| "error_kind_as_str InvalidRequest = ''invalid_request''"
| "error_kind_as_str Cancelled = ''cancelled''"
| "error_kind_as_str Timeout = ''timeout''"
| "error_kind_as_str CircuitOpen = ''circuit_open''"
| "error_kind_as_str Unsupported = ''unsupported''"

definition is_retryable :: "error_kind \<Rightarrow> bool" where
  "is_retryable k \<longleftrightarrow> k \<in> {RateLimit, Transport, Server, Timeout}"

definition trips_circuit :: "error_kind \<Rightarrow> bool" where
  "trips_circuit k \<longleftrightarrow> k \<in> {Transport, Server, Timeout, Protocol}"

fun kind_failure_class :: "error_kind \<Rightarrow> failure_class" where
  "kind_failure_class Authentication = FAuthentication"
| "kind_failure_class RateLimit = FRateLimited"
| "kind_failure_class Quota = FQuota"
| "kind_failure_class Transport = FUnavailable"
| "kind_failure_class Server = FUnavailable"
| "kind_failure_class Timeout = FUnavailable"
| "kind_failure_class CircuitOpen = FUnavailable"
| "kind_failure_class Protocol = FInvalidResponse"
| "kind_failure_class InvalidRequest = FInvalidRequest"
| "kind_failure_class Cancelled = FCancelled"
| "kind_failure_class Unsupported = FUnsupported"

datatype operation =
    OpStartup | OpPing | OpComplete | OpStreamCompletion | OpEmbed | OpListModels | OpAuthorize
  | OpTransport

fun operation_as_str :: "operation \<Rightarrow> string" where
  "operation_as_str OpStartup = ''startup''"
| "operation_as_str OpPing = ''ping''"
| "operation_as_str OpComplete = ''complete''"
| "operation_as_str OpStreamCompletion = ''stream_completion''"
| "operation_as_str OpEmbed = ''embed''"
| "operation_as_str OpListModels = ''list_models''"
| "operation_as_str OpAuthorize = ''authorize''"
| "operation_as_str OpTransport = ''transport''"

definition kind_for_status :: "u16 \<Rightarrow> error_kind" where
  "kind_for_status s =
     (if s = 401 \<or> s = 403 then Authentication
      else if s = 402 then Quota
      else if s = 408 then Timeout
      else if s = 429 then RateLimit
      else if 500 \<le> s \<and> s \<le> 599 then Server
      else InvalidRequest)"

section \<open>Sanitized errors\<close>

text \<open>\<open>char::is_control\<close>: the general category \<open>Cc\<close>.\<close>

definition char_is_control :: "nat \<Rightarrow> bool" where
  "char_is_control c \<longleftrightarrow> c < 0x20 \<or> 0x7F \<le> c \<and> c \<le> 0x9F"

text \<open>
  The loop of \<open>sanitize\<close>: the characters still to read, those kept so far (with their number), and
  whether reading stopped at the limit.
\<close>

fun sanitize_loop :: "ustr \<Rightarrow> nat \<Rightarrow> nat \<Rightarrow> ustr \<Rightarrow> ustr \<times> bool" where
  "sanitize_loop [] max_chars kept out = (out, False)"
| "sanitize_loop (c # s) max_chars kept out =
     (if max_chars \<le> kept then (out, True)
      else if char_is_control c
      then (if out \<noteq> [] \<and> last out \<noteq> 0x20 then sanitize_loop s max_chars (kept + 1) (out @ [0x20])
            else sanitize_loop s max_chars kept out)
      else sanitize_loop s max_chars (kept + 1) (out @ [c]))"

definition sanitize :: "ustr \<Rightarrow> nat \<Rightarrow> ustr" where
  "sanitize s max_chars =
     (case sanitize_loop s max_chars 0 [] of
        (out, truncated) \<Rightarrow> str_trim out @ (if truncated then [0x2026] else []))"

type_synonym duration = nat

record provider_error =
  err_kind :: error_kind
  err_provider :: ustr
  err_operation :: operation
  err_detail :: ustr
  err_status :: "u16 option"
  err_upstream_code :: "ustr option"
  err_retry_after :: "duration option"

definition provider_error_new :: "error_kind \<Rightarrow> ustr \<Rightarrow> operation \<Rightarrow> ustr \<Rightarrow> provider_error" where
  "provider_error_new k provider op detail =
     \<lparr>err_kind = k, err_provider = sanitize provider 128, err_operation = op,
      err_detail = sanitize detail MAX_DETAIL_CHARS, err_status = None, err_upstream_code = None,
      err_retry_after = None\<rparr>"

definition with_status :: "u16 \<Rightarrow> provider_error \<Rightarrow> provider_error" where
  "with_status s e = e\<lparr>err_status := Some s\<rparr>"

definition with_upstream_code :: "ustr \<Rightarrow> provider_error \<Rightarrow> provider_error" where
  "with_upstream_code code e = e\<lparr>err_upstream_code := Some (sanitize code 128)\<rparr>"

definition with_retry_after :: "duration \<Rightarrow> provider_error \<Rightarrow> provider_error" where
  "with_retry_after d e = e\<lparr>err_retry_after := Some d\<rparr>"

definition error_is_retryable :: "provider_error \<Rightarrow> bool" where
  "error_is_retryable e = is_retryable (err_kind e)"

definition error_failure_class :: "provider_error \<Rightarrow> failure_class" where
  "error_failure_class e = kind_failure_class (err_kind e)"

definition error_user_message :: "provider_error \<Rightarrow> string" where
  "error_user_message e = class_user_message (error_failure_class e)"

definition error_display :: "provider_error \<Rightarrow> ustr" where
  "error_display e =
     err_provider e @ lit '' '' @ lit (operation_as_str (err_operation e)) @ lit '' failed (''
     @ lit (error_kind_as_str (err_kind e)) @ lit '')''
     @ (case err_status e of Some s \<Rightarrow> lit '' status='' @ lit (show_dec (unat s)) | None \<Rightarrow> [])
     @ (case err_upstream_code e of Some code \<Rightarrow> lit '' code='' @ code | None \<Rightarrow> [])
     @ (if err_detail e \<noteq> [] then lit '': '' @ err_detail e else [])"

section \<open>Retry-After\<close>

text \<open>
  The parser works on UTF-8 bytes. Slicing a \<open>str\<close> off a character boundary panics, which is the
  value \<open>None\<close> of the outer option.
\<close>

definition utf8_char :: "nat \<Rightarrow> nat list" where
  "utf8_char c =
     (if c < 0x80 then [c]
      else if c < 0x800 then [0xC0 + c div 64, 0x80 + c mod 64]
      else if c < 0x10000 then [0xE0 + c div 4096, 0x80 + c div 64 mod 64, 0x80 + c mod 64]
      else [0xF0 + c div 262144, 0x80 + c div 4096 mod 64, 0x80 + c div 64 mod 64, 0x80 + c mod 64])"

definition utf8 :: "ustr \<Rightarrow> nat list" where
  "utf8 s = concat (map utf8_char s)"

definition is_char_boundary :: "nat list \<Rightarrow> nat \<Rightarrow> bool" where
  "is_char_boundary bs i \<longleftrightarrow>
     i = 0 \<or> i = length bs \<or> i < length bs \<and> \<not> (0x80 \<le> bs ! i \<and> bs ! i < 0xC0)"

definition str_slice :: "nat list \<Rightarrow> nat \<Rightarrow> nat \<Rightarrow> nat list option" where
  "str_slice bs a b =
     (if a \<le> b \<and> is_char_boundary bs a \<and> is_char_boundary bs b then Some (take (b - a) (drop a bs))
      else None)"

text \<open>The two ways to leave the parser: a panic, or \<open>return None\<close>.\<close>

definition or_panic :: "'a option \<Rightarrow> ('a \<Rightarrow> 'b option option) \<Rightarrow> 'b option option" where
  "or_panic x k = (case x of None \<Rightarrow> None | Some v \<Rightarrow> k v)"

definition or_return :: "'a option \<Rightarrow> ('a \<Rightarrow> 'b option option) \<Rightarrow> 'b option option" where
  "or_return x k = (case x of None \<Rightarrow> Some None | Some v \<Rightarrow> k v)"

definition byte_is_digit :: "nat \<Rightarrow> bool" where
  "byte_is_digit b \<longleftrightarrow> 48 \<le> b \<and> b \<le> 57"

definition read_digits :: "nat list \<Rightarrow> nat" where
  "read_digits bs = foldl (\<lambda>acc b. acc * 10 + (b - 48)) 0 bs"

definition parse_fixed_number :: "nat list \<Rightarrow> nat option" where
  "parse_fixed_number bs =
     (if bs = [] \<or> \<not> (\<forall>b \<in> set bs. byte_is_digit b) then None
      else if read_digits bs < 2 ^ 32 then Some (read_digits bs) else None)"

definition days_from_civil :: "int \<Rightarrow> int \<Rightarrow> int \<Rightarrow> int" where
  "days_from_civil year month day =
     (let year = (if month \<le> 2 then year - 1 else year);
          era = year div 400;
          year_of_era = year - era * 400;
          day_of_year = (153 * (month + (if month > 2 then -3 else 9)) + 2) div 5 + day - 1;
          day_of_era = year_of_era * 365 + year_of_era div 4 - year_of_era div 100 + day_of_year in
      era * 146097 + day_of_era - 719468)"

definition month_of_name :: "nat list \<Rightarrow> int option" where
  "month_of_name n =
     map_of (zip (map lit [''Jan'', ''Feb'', ''Mar'', ''Apr'', ''May'', ''Jun'', ''Jul'', ''Aug'',
       ''Sep'', ''Oct'', ''Nov'', ''Dec'']) [1..12]) n"

definition i64_checked :: "int \<Rightarrow> int option" where
  "i64_checked x = (if - (2 ^ 63) \<le> x \<and> x < 2 ^ 63 then Some x else None)"

definition parse_imf_fixdate :: "nat list \<Rightarrow> nat option option" where
  "parse_imf_fixdate bs =
     (if length bs \<noteq> 29 \<or> drop 25 bs \<noteq> lit '' GMT'' then Some None
      else if bs ! 3 \<noteq> 44 \<or> bs ! 4 \<noteq> 32 then Some None
      else or_panic (str_slice bs 5 7) (\<lambda>ds. or_return (parse_fixed_number ds) (\<lambda>day.
        if bs ! 7 \<noteq> 32 \<or> bs ! 11 \<noteq> 32 \<or> bs ! 16 \<noteq> 32 then Some None
        else or_panic (str_slice bs 8 11) (\<lambda>ms. or_return (month_of_name ms) (\<lambda>month.
          or_panic (str_slice bs 12 16) (\<lambda>ys. or_return (parse_fixed_number ys) (\<lambda>year.
            if bs ! 19 \<noteq> 58 \<or> bs ! 22 \<noteq> 58 then Some None
            else or_panic (str_slice bs 17 19) (\<lambda>hs. or_return (parse_fixed_number hs) (\<lambda>hour.
              or_panic (str_slice bs 20 22) (\<lambda>mis. or_return (parse_fixed_number mis) (\<lambda>minute.
                or_panic (str_slice bs 23 25) (\<lambda>ss. or_return (parse_fixed_number ss) (\<lambda>second.
                  if day = 0 \<or> day > 31 \<or> hour > 23 \<or> minute > 59 \<or> second > 60 \<or> year < 1970
                  then Some None
                  else or_return (i64_checked (days_from_civil (int year) month (int day) * 86400))
                    (\<lambda>day_secs. or_return
                      (i64_checked (day_secs + (int hour * 3600 + int minute * 60 + int second)))
                      (\<lambda>seconds. Some (if 0 \<le> seconds then Some (nat seconds) else None))))))))))))))))"

text \<open>\<open>now\<close> is the system time, in nanoseconds from the Unix epoch, before it when negative.\<close>

definition parse_retry_after :: "ustr \<Rightarrow> int \<Rightarrow> duration option option" where
  "parse_retry_after value now =
     (let bs = utf8 (str_trim value) in
      if bs = [] then Some None
      else if \<forall>b \<in> set bs. byte_is_digit b
      then Some (if read_digits bs < 2 ^ 64 then Some (read_digits bs * 1000000000) else None)
      else or_panic (parse_imf_fixdate bs) (\<lambda>parsed. or_return parsed (\<lambda>target.
        if now < 0 then Some None
        else Some (Some ((target - nat (now div 1000000000)) * 1000000000)))))"

section \<open>Sanitized text\<close>

lemma sanitize_loop_bound:
  "kept = length out \<Longrightarrow> length out \<le> m \<Longrightarrow> \<forall>c \<in> set out. \<not> char_is_control c \<Longrightarrow>
     length (fst (sanitize_loop s m kept out)) \<le> m \<and>
     (\<forall>c \<in> set (fst (sanitize_loop s m kept out)). \<not> char_is_control c)"
proof (induction s m kept out rule: sanitize_loop.induct)
  case (2 c s m kept out)
  have blank: "\<not> char_is_control 0x20" by (simp add: char_is_control_def)
  show ?case
  proof (cases "m \<le> kept")
    case True
    with 2(4-6) show ?thesis by simp
  next
    case room: False
    show ?thesis
    proof (cases "char_is_control c")
      case control: True
      show ?thesis
      proof (cases "out \<noteq> [] \<and> last out \<noteq> 0x20")
        case True
        with 2(1) [OF room control True] 2(4-6) blank room control show ?thesis by simp
      next
        case False
        with 2(2) [OF room control False] 2(4-6) room control show ?thesis by auto
      qed
    next
      case False
      with 2(3) [OF room False] 2(4-6) room show ?thesis by simp
    qed
  qed
qed simp

lemma set_str_trim: "set (str_trim s) \<subseteq> set s"
  by (auto simp: str_trim_def dest!: set_dropWhileD)

lemma length_str_trim: "length (str_trim s) \<le> length s"
proof -
  have "length (str_trim s) \<le> length (dropWhile char_is_whitespace s)"
    using length_dropWhile_le [of char_is_whitespace "rev (dropWhile char_is_whitespace s)"]
    by (simp add: str_trim_def)
  also have "\<dots> \<le> length s" by (rule length_dropWhile_le)
  finally show ?thesis .
qed

text \<open>
  Text from an upstream response cannot forge a log line or grow an error: whatever the
  input, the sanitized text has no control character and at most one character more than the limit
  (the ellipsis that marks a cut), and it neither starts nor ends with white space.
\<close>

theorem sanitize_safe:
  "length (sanitize s m) \<le> m + 1 \<and> (\<forall>c \<in> set (sanitize s m). \<not> char_is_control c) \<and>
   (sanitize s m \<noteq> [] \<longrightarrow> \<not> char_is_whitespace (hd (sanitize s m)) \<and>
     \<not> char_is_whitespace (last (sanitize s m)))"
proof -
  obtain out cut where loop: "sanitize_loop s m 0 [] = (out, cut)"
    by (cases "sanitize_loop s m 0 []")
  have kept: "length out \<le> m" "\<forall>c \<in> set out. \<not> char_is_control c"
    using sanitize_loop_bound [of 0 "[]" m s] loop by auto
  have eq: "sanitize s m = str_trim out @ (if cut then [0x2026] else [])"
    by (simp add: sanitize_def loop)
  have mark: "\<not> char_is_control 0x2026" "\<not> char_is_whitespace 0x2026"
    by (simp_all add: char_is_control_def char_is_whitespace_def)
  have "length (sanitize s m) \<le> m + 1"
    using kept(1) length_str_trim [of out] by (simp add: eq)
  moreover have "\<forall>c \<in> set (sanitize s m). \<not> char_is_control c"
    using kept(2) set_str_trim [of out] mark by (auto simp: eq)
  moreover have "\<not> char_is_whitespace (hd (sanitize s m)) \<and> \<not> char_is_whitespace (last (sanitize s m))"
    if "sanitize s m \<noteq> []"
    using str_trim_ends [of out] mark that by (cases "str_trim out = []") (auto simp: eq split: if_splits)
  ultimately show ?thesis by blast
qed

theorem sanitize_safe_witness:
  "length (sanitize [10, 72, 105, 13, 10, 88] 3) \<le> 4"
  using sanitize_safe [of "[10, 72, 105, 13, 10, 88]" 3] by simp

section \<open>The calendar\<close>

definition is_leap :: "int \<Rightarrow> bool" where
  "is_leap y \<longleftrightarrow> 4 dvd y \<and> (\<not> 100 dvd y \<or> 400 dvd y)"

definition month_days :: "int \<Rightarrow> int \<Rightarrow> int" where
  "month_days y m =
     (if m = 2 then (if is_leap y then 29 else 28) else if m \<in> {4, 6, 9, 11} then 30 else 31)"

text \<open>Days from 1 January 1970 to 1 January of year \<open>1970 + n\<close>, year by year.\<close>

fun days_to_year :: "nat \<Rightarrow> int" where
  "days_to_year 0 = 0"
| "days_to_year (Suc n) = days_to_year n + (if is_leap (1970 + int n) then 366 else 365)"

definition days_before_month :: "int \<Rightarrow> int \<Rightarrow> int" where
  "days_before_month y m = sum_list (map (month_days y) [1..m - 1])"

text \<open>Days of the proleptic calendar before the end of year \<open>y\<close>, in closed form.\<close>

definition days_through :: "int \<Rightarrow> int" where
  "days_through y = 365 * y + y div 4 - y div 100 + y div 400"

lemma div_succ: "0 < k \<Longrightarrow> (y :: int) div k = (y - 1) div k + (if k dvd y then 1 else 0)"
proof -
  assume k: "0 < k"
  define q r where "q = y div k" and "r = y mod k"
  have y: "y = k * q + r" and r: "0 \<le> r" "r < k"
    using k by (simp_all add: q_def r_def)
  show ?thesis
  proof (cases "r = 0")
    case True
    then have "y - 1 = k * (q - 1) + (k - 1)" using y by (simp add: algebra_simps)
    then have "(y - 1) div k = q - 1" using k by (intro int_div_pos_eq [where r = "k - 1"]) auto
    with True show ?thesis by (simp add: q_def r_def dvd_eq_mod_eq_0)
  next
    case False
    then have "(y - 1) div k = q"
      using y r by (intro int_div_pos_eq [where r = "r - 1"]) auto
    with False show ?thesis by (simp add: q_def r_def dvd_eq_mod_eq_0)
  qed
qed

lemma leap_count:
  fixes y d4 d100 d400 e4 e100 e400 :: int
  assumes "p400 \<longrightarrow> p100" and "p100 \<longrightarrow> p4"
    and "d4 = e4 + (if p4 then 1 else 0)" and "d100 = e100 + (if p100 then 1 else 0)"
    and "d400 = e400 + (if p400 then 1 else 0)"
  shows "365 * y + d4 - d100 + d400
         = 365 * (y - 1) + e4 - e100 + e400 + (if p4 \<and> (\<not> p100 \<or> p400) then 366 else 365)"
  using assms by (cases p4; cases p100; cases p400) simp_all

lemma days_through_succ: "days_through y = days_through (y - 1) + (if is_leap y then 366 else 365)"
  unfolding days_through_def is_leap_def
proof (rule leap_count)
  show "400 dvd y \<longrightarrow> 100 dvd y" "100 dvd y \<longrightarrow> 4 dvd y"
    using dvd_trans [of 100 400 y] dvd_trans [of 4 100 y] by simp_all
qed (rule div_succ, simp)+

lemma days_to_year_closed: "days_to_year n = days_through (1969 + int n) - 719162"
proof (induction n)
  case 0
  show ?case by (simp add: days_through_def)
next
  case (Suc n)
  then show ?case using days_through_succ [of "1970 + int n"] by (simp add: algebra_simps)
qed

lemma days_from_civil_closed:
  "days_from_civil y m d =
     (if m \<le> 2 then days_through (y - 1) + (153 * (m + 9) + 2) div 5 + d - 719469
      else days_through y + (153 * (m - 3) + 2) div 5 + d - 719469)"
proof -
  have era: "y' div 400 * 146097 + ((y' - y' div 400 * 400) * 365 + (y' - y' div 400 * 400) div 4
      - (y' - y' div 400 * 400) div 100) = days_through y'" for y' :: int
  proof -
    define e r where "e = y' div 400" and "r = y' - y' div 400 * 400"
    have y': "y' = r + 400 * e" by (simp add: e_def r_def)
    have "y' div 4 = r div 4 + 100 * e" "y' div 100 = r div 100 + 4 * e"
      unfolding y' by (simp_all add: div_plus_div_distrib_dvd_right)
    then show ?thesis
      unfolding days_through_def e_def [symmetric] r_def [symmetric] by (simp add: y' algebra_simps)
  qed
  show ?thesis
    using era [of "y - 1"] era [of y] by (simp add: days_from_civil_def Let_def algebra_simps)
qed

lemma month_cases:
  assumes "1 \<le> m" "m \<le> (12 :: int)"
  shows "m \<in> {1, 2, 3, 4, 5, 6, 7, 8, 9, 10, 11, 12}"
  using assms by simp presburger

lemma days_before_month_closed:
  assumes "1 \<le> m" "m \<le> 12"
  shows "days_before_month y m =
     (if m \<le> 2 then (153 * (m + 9) + 2) div 5 - 306
      else (153 * (m - 3) + 2) div 5 + 59 + (if is_leap y then 1 else 0))"
  using month_cases [OF assms]
  by (elim insertE emptyE) (simp_all add: days_before_month_def month_days_def upto_rec1 [of 1])

text \<open>
  The date arithmetic agrees with the calendar: for every year from 1970 on and every
  month, \<open>days_from_civil\<close> is the number of days obtained by counting whole years, with their leap
  days, and then whole months from 1 January 1970.
\<close>

theorem days_from_civil_counts_days:
  assumes "1 \<le> m" "m \<le> 12"
  shows "days_from_civil (1970 + int n) m d =
     days_to_year n + days_before_month (1970 + int n) m + (d - 1)"
  using days_through_succ [of "1970 + int n"]
  by (simp add: days_from_civil_closed days_before_month_closed [OF assms] days_to_year_closed
      algebra_simps)

theorem days_from_civil_counts_days_witness:
  "days_from_civil 2024 3 1 = days_to_year 54 + days_before_month 2024 3 \<and>
   days_from_civil 2024 3 1 = 19783"
  using days_from_civil_counts_days [of 3 54 1] by (simp add: days_from_civil_def)

section \<open>Reading a Retry-After header\<close>

lemma slice_ascii:
  assumes "\<forall>b \<in> set bs. b < 128" and "a \<le> b" and "b \<le> length bs"
  shows "str_slice bs a b = Some (take (b - a) (drop a bs))"
proof -
  have "is_char_boundary bs i" if "i \<le> length bs" for i
  proof (cases "i = length bs")
    case False
    with that have "bs ! i < 128" using assms(1) by (simp add: nth_mem)
    then show ?thesis using False that by (simp add: is_char_boundary_def)
  qed (simp add: is_char_boundary_def)
  with assms(2,3) show ?thesis by (simp add: str_slice_def)
qed

lemma or_simps [simp]:
  "or_panic (Some x) k = k x" "or_panic None k = None"
  "or_return (Some x) k = k x" "or_return None k = Some None"
  by (simp_all add: or_panic_def or_return_def)

lemma or_return_total: "(\<And>x. k x \<noteq> None) \<Longrightarrow> or_return o1 k \<noteq> None"
  by (cases o1) simp_all

lemma parse_imf_fixdate_total:
  assumes "\<forall>b \<in> set bs. b < 128"
  shows "parse_imf_fixdate bs \<noteq> None"
proof (cases "length bs = 29")
  case True
  then show ?thesis
    unfolding parse_imf_fixdate_def
    by (simp add: slice_ascii [OF assms] or_return_total del: not_None_eq)
qed (simp add: parse_imf_fixdate_def)

lemma utf8_ascii: "\<forall>c \<in> set s. c < 128 \<Longrightarrow> utf8 s = s"
  by (induction s) (auto simp: utf8_def utf8_char_def)

text \<open>
  Reading a \<open>Retry-After\<close> header of visible ASCII (the only text the transport passes
  on) never panics, whatever it contains, and a run of digits that fits 64 bits is that many seconds.
\<close>

theorem retry_after_total_on_ascii:
  assumes "\<forall>c \<in> set hdr. c < 128"
  shows "parse_retry_after hdr now \<noteq> None \<and>
    (str_trim hdr \<noteq> [] \<and> (\<forall>b \<in> set (str_trim hdr). byte_is_digit b) \<and>
     read_digits (str_trim hdr) < 2 ^ 64 \<longrightarrow>
       parse_retry_after hdr now = Some (Some (read_digits (str_trim hdr) * 1000000000)))"
proof -
  have ascii: "\<forall>c \<in> set (str_trim hdr). c < 128"
    using assms set_str_trim [of hdr] by blast
  have "or_panic (parse_imf_fixdate (str_trim hdr)) (\<lambda>parsed. or_return parsed (\<lambda>target.
      if now < 0 then Some None
      else Some (Some ((target - nat (now div 1000000000)) * 1000000000)))) \<noteq> None"
    using parse_imf_fixdate_total [OF ascii]
    by (cases "parse_imf_fixdate (str_trim hdr)") (auto intro!: or_return_total simp del: not_None_eq)
  then show ?thesis
    by (auto simp: parse_retry_after_def utf8_ascii [OF ascii] Let_def)
qed

theorem retry_after_total_on_ascii_witness:
  "parse_retry_after (lit '' 12 '') 0 = Some (Some 12000000000)"
proof -
  have trimmed: "str_trim (lit '' 12 '') = [49, 50]"
    by (simp add: str_trim_def lit_def char_is_whitespace_def)
  have "\<forall>c \<in> set (lit '' 12 ''). c < 128" by (simp add: lit_def)
  from retry_after_total_on_ascii [OF this, of 0] show ?thesis
    unfolding trimmed by (simp add: byte_is_digit_def read_digits_def)
qed

text \<open>Outside ASCII the reader can panic: it slices the day before checking what follows it.\<close>

theorem retry_after_panics_off_boundary:
  "parse_retry_after (lit ''Sun, '' @ [0x20AC] @ lit ''xxxxxxxxxxxxxxxxx GMT'') now = None"
proof -
  let ?s = "lit ''Sun, '' @ [0x20AC] @ lit ''xxxxxxxxxxxxxxxxx GMT''"
  have trimmed: "str_trim ?s = ?s"
    by (simp add: str_trim_def lit_def char_is_whitespace_def)
  have bytes: "utf8 ?s = [83, 117, 110, 44, 32, 226, 130, 172] @ lit ''xxxxxxxxxxxxxxxxx GMT''"
    by (simp add: utf8_def utf8_char_def lit_def)
  show ?thesis
    unfolding parse_retry_after_def trimmed bytes
    by (simp add: parse_imf_fixdate_def str_slice_def is_char_boundary_def lit_def byte_is_digit_def)
qed

text \<open>The printed form of a date, to read back.\<close>

definition two_digits :: "nat \<Rightarrow> nat list" where
  "two_digits n = [48 + n div 10, 48 + n mod 10]"

definition month_name :: "nat \<Rightarrow> nat list" where
  "month_name m = lit ([''Jan'', ''Feb'', ''Mar'', ''Apr'', ''May'', ''Jun'', ''Jul'', ''Aug'',
     ''Sep'', ''Oct'', ''Nov'', ''Dec''] ! (m - 1))"

definition imf_fixdate :: "nat \<Rightarrow> nat \<Rightarrow> nat \<Rightarrow> nat \<Rightarrow> nat \<Rightarrow> nat \<Rightarrow> nat list" where
  "imf_fixdate y m d h mi s =
     lit ''Sun, '' @ two_digits d @ [32] @ month_name m @ [32] @ two_digits (y div 100)
     @ two_digits (y mod 100) @ [32] @ two_digits h @ [58] @ two_digits mi @ [58] @ two_digits s
     @ lit '' GMT''"

definition epoch_seconds :: "nat \<Rightarrow> nat \<Rightarrow> nat \<Rightarrow> nat \<Rightarrow> nat \<Rightarrow> nat \<Rightarrow> int" where
  "epoch_seconds y m d h mi s =
     (days_to_year (y - 1970) + days_before_month (int y) (int m) + (int d - 1)) * 86400
     + int h * 3600 + int mi * 60 + int s"

lemma digit_bounds: "n < 100 \<Longrightarrow> n div 10 \<le> 9 \<and> n mod 10 \<le> (9 :: nat)"
  by auto

lemma two_digits_parse: "n < 100 \<Longrightarrow> parse_fixed_number (two_digits n) = Some n"
  using digit_bounds [of n]
  by (simp add: parse_fixed_number_def two_digits_def byte_is_digit_def read_digits_def)

lemma four_digits_parse:
  assumes "y < 10000"
  shows "parse_fixed_number (two_digits (y div 100) @ two_digits (y mod 100)) = Some y"
proof -
  have high: "y div 100 < 100" and low: "y mod 100 < 100" using assms by auto
  have "read_digits (two_digits p @ two_digits q) = p * 100 + q" for p q
    using div_mult_mod_eq [of p 10] div_mult_mod_eq [of q 10]
    by (simp add: read_digits_def two_digits_def algebra_simps)
  then have "read_digits (two_digits (y div 100) @ two_digits (y mod 100)) = y"
    by simp
  with assms digit_bounds [OF high] digit_bounds [OF low] show ?thesis
    by (simp add: parse_fixed_number_def byte_is_digit_def two_digits_def)
qed

lemma nat_month_cases:
  assumes "1 \<le> m" "m \<le> 12"
  shows "m \<in> {1, 2, 3, 4, 5, 6, 7, 8, 9, 10, 11, 12 :: nat}"
  using assms by simp presburger

lemma month_name_parse:
  assumes "1 \<le> m" "m \<le> 12"
  shows "length (month_name m) = 3 \<and> month_of_name (month_name m) = Some (int m) \<and>
    (\<forall>b \<in> set (month_name m). 65 \<le> b \<and> b < 128)"
  using nat_month_cases [OF assms]
  by (elim insertE emptyE) (simp_all add: month_name_def month_of_name_def lit_def upto_rec1 [of 1])

lemma days_to_year_nonneg: "0 \<le> days_to_year n"
  by (induction n) auto

lemma days_to_year_bound: "days_to_year n \<le> 366 * int n"
  by (induction n) auto

lemma days_before_month_bounds:
  assumes "1 \<le> m" "m \<le> 12"
  shows "0 \<le> days_before_month y m \<and> days_before_month y m \<le> 335"
  using month_cases [OF assms]
  by (elim insertE emptyE) (simp_all add: days_before_month_closed)

lemma epoch_days:
  assumes "1970 \<le> y" "1 \<le> m" "m \<le> 12"
  shows "days_from_civil (int y) (int m) (int d) =
    days_to_year (y - 1970) + days_before_month (int y) (int m) + (int d - 1)"
proof -
  have "int y = 1970 + int (y - 1970)" using assms(1) by simp
  then show ?thesis
    using days_from_civil_closed days_through_succ [of "int y"] days_to_year_closed [of "y - 1970"]
      days_before_month_closed [of "int m" "int y"] assms by (simp add: algebra_simps)
qed

lemma epoch_seconds_civil:
  assumes "1970 \<le> y" "1 \<le> m" "m \<le> 12"
  shows "epoch_seconds y m d h mi s =
    days_from_civil (int y) (int m) (int d) * 86400 + (int h * 3600 + int mi * 60 + int s)"
  by (simp add: epoch_seconds_def epoch_days [OF assms])

lemma parse_imf_fixdate_prints:
  assumes date: "1970 \<le> y" "y < 10000" "1 \<le> m" "m \<le> 12" "1 \<le> d" "d \<le> 31"
    and time: "h \<le> 23" "mi \<le> 59" "s \<le> 60"
  shows "parse_imf_fixdate (imf_fixdate y m d h mi s) = Some (Some (nat (epoch_seconds y m d h mi s)))"
proof -
  obtain a b c where name: "month_name m = [a, b, c]" and ascii: "a < 128" "b < 128" "c < 128"
    using month_name_parse [OF date(3,4)] by (auto simp: length_Suc_conv numeral_3_eq_3)
  let ?bs = "imf_fixdate y m d h mi s"
  have bs: "?bs = [83, 117, 110, 44, 32, 48 + d div 10, 48 + d mod 10, 32, a, b, c, 32,
      48 + y div 100 div 10, 48 + y div 100 mod 10, 48 + y mod 100 div 10, 48 + y mod 100 mod 10, 32,
      48 + h div 10, 48 + h mod 10, 58, 48 + mi div 10, 48 + mi mod 10, 58,
      48 + s div 10, 48 + s mod 10, 32, 71, 77, 84]"
    by (simp add: imf_fixdate_def name two_digits_def lit_def)
  have small: "d < 100" "h < 100" "mi < 100" "s < 100" "y div 100 < 100" "y mod 100 < 100"
    using assms by auto
  have all_ascii: "\<forall>x \<in> set ?bs. x < 128"
    using small [THEN digit_bounds] ascii unfolding bs by simp
  have fields:
    "parse_fixed_number [48 + d div 10, 48 + d mod 10] = Some d"
    "parse_fixed_number [48 + h div 10, 48 + h mod 10] = Some h"
    "parse_fixed_number [48 + mi div 10, 48 + mi mod 10] = Some mi"
    "parse_fixed_number [48 + s div 10, 48 + s mod 10] = Some s"
    "parse_fixed_number [48 + y div 100 div 10, 48 + y div 100 mod 10, 48 + y mod 100 div 10,
       48 + y mod 100 mod 10] = Some y"
    "month_of_name [a, b, c] = Some (int m)"
    using two_digits_parse [of d] two_digits_parse [of h] two_digits_parse [of mi]
      two_digits_parse [of s] four_digits_parse [of y] month_name_parse [OF date(3,4)] name assms
    by (simp_all add: two_digits_def)
  have days: "0 \<le> days_from_civil (int y) (int m) (int d)"
    "days_from_civil (int y) (int m) (int d) \<le> 5000000"
    using epoch_days [OF date(1,3,4)] days_to_year_nonneg days_to_year_bound [of "y - 1970"]
      days_before_month_bounds [of "int m" "int y"] date by auto
  note secs = epoch_seconds_civil [OF date(1,3,4), of d h mi s]
  have "i64_checked (days_from_civil (int y) (int m) (int d) * 86400) =
      Some (days_from_civil (int y) (int m) (int d) * 86400)"
    "i64_checked (epoch_seconds y m d h mi s) = Some (epoch_seconds y m d h mi s)"
    "0 \<le> epoch_seconds y m d h mi s"
    using days time by (simp_all add: i64_checked_def secs)
  moreover have "drop 25 ?bs = lit '' GMT''" "length ?bs = 29"
    unfolding bs by (simp_all add: lit_def)
  moreover have "?bs ! 3 = 44" "?bs ! 4 = 32" "?bs ! 7 = 32" "?bs ! 11 = 32" "?bs ! 16 = 32"
    "?bs ! 19 = 58" "?bs ! 22 = 58"
    unfolding bs by simp_all
  moreover have "take 2 (drop 5 ?bs) = [48 + d div 10, 48 + d mod 10]"
    "take 3 (drop 8 ?bs) = [a, b, c]"
    "take 4 (drop 12 ?bs) = [48 + y div 100 div 10, 48 + y div 100 mod 10, 48 + y mod 100 div 10,
       48 + y mod 100 mod 10]"
    "take 2 (drop 17 ?bs) = [48 + h div 10, 48 + h mod 10]"
    "take 2 (drop 20 ?bs) = [48 + mi div 10, 48 + mi mod 10]"
    "take 2 (drop 23 ?bs) = [48 + s div 10, 48 + s mod 10]"
    unfolding bs by simp_all
  ultimately show ?thesis
    using date time fields
    by (simp add: parse_imf_fixdate_def slice_ascii [OF all_ascii] secs [symmetric])
qed

text \<open>
  A \<open>Retry-After\<close> date is read exactly: the printed form of any date from 1970 to 9999
  at any time of day is read as the time from now until then, counted by the calendar, or zero when
  it has passed.
\<close>

theorem retry_after_date_roundtrip:
  assumes "1970 \<le> y" "y < 10000" "1 \<le> m" "m \<le> 12" "1 \<le> d" "d \<le> 31"
    and "h \<le> 23" "mi \<le> 59" "s \<le> 60" and "0 \<le> now"
  shows "parse_retry_after (imf_fixdate y m d h mi s) now =
     Some (Some (nat (epoch_seconds y m d h mi s - now div 1000000000) * 1000000000))"
proof -
  let ?bs = "imf_fixdate y m d h mi s"
  have "\<forall>b \<in> set (month_name m). b < 128"
    using month_name_parse [OF assms(3,4)] by auto
  moreover have "d < 100" "h < 100" "mi < 100" "s < 100" "y div 100 < 100" "y mod 100 < 100"
    using assms by auto
  note this [THEN digit_bounds]
  ultimately have ascii: "\<forall>b \<in> set ?bs. b < 128"
    by (auto simp: imf_fixdate_def two_digits_def lit_def)
  have trimmed: "str_trim ?bs = ?bs"
    by (simp add: imf_fixdate_def str_trim_def lit_def char_is_whitespace_def)
  have "83 \<in> set ?bs" by (simp add: imf_fixdate_def lit_def)
  then have not_digits: "?bs \<noteq> []" "\<not> (\<forall>b \<in> set ?bs. byte_is_digit b)"
    by (auto simp: byte_is_digit_def intro!: bexI [of _ 83])
  have "nat (epoch_seconds y m d h mi s) - nat (now div 1000000000) =
      nat (epoch_seconds y m d h mi s - now div 1000000000)"
    using assms(10) pos_imp_zdiv_nonneg_iff [of 1000000000 now] by linarith
  with not_digits show ?thesis
    using parse_imf_fixdate_prints [OF assms(1-9)] assms(10)
    unfolding parse_retry_after_def trimmed utf8_ascii [OF ascii] Let_def by auto
qed

theorem retry_after_date_roundtrip_witness:
  "parse_retry_after (imf_fixdate 1994 11 6 8 49 37) 1000000000 = Some (Some 784111776000000000)"
proof -
  have "epoch_seconds 1994 11 6 8 49 37 = 784111777"
    by (subst epoch_seconds_civil) (simp_all add: days_from_civil_def)
  with retry_after_date_roundtrip [of 1994 11 6 8 49 37 1000000000] show ?thesis by simp
qed

end
