(* ===== verification/Provider_Circuit.thy ===== *)
theory Provider_Circuit
  imports Provider_Error "HOL-Library.Multiset"
begin

text \<open>
  The circuit breaker of a provider (crates/claw-provider-sdk/src/circuit.rs). Each method holds the
  breaker's mutex for its whole body, so it is one update of the state; permits are the admissions
  they carry, and dropping an unreported permit is an operation.
\<close>

section \<open>State and operations\<close>

record breaker_config =
  failure_threshold :: u32
  open_duration :: duration
  half_open_probes :: u32
  success_threshold :: u32

definition breaker_config_default :: breaker_config where
  "breaker_config_default =
     \<lparr>failure_threshold = 5, open_duration = 30 * 1000000000, half_open_probes = 1,
      success_threshold = 1\<rparr>"

datatype circuit_state = Closed | Open | HalfOpen

record breaker_state =
  cstate :: circuit_state
  consecutive_failures :: u32
  consecutive_successes :: u32
  opened_at_millis :: u64
  probes_in_flight :: u32
  probe_epoch :: u64

record permit_admission =
  probe :: bool
  permit_epoch :: u64

record circuit_breaker =
  breaker_provider :: ustr
  breaker_cfg :: breaker_config
  breaker_inner :: breaker_state

definition circuit_breaker_new :: "ustr \<Rightarrow> breaker_config \<Rightarrow> circuit_breaker" where
  "circuit_breaker_new provider config =
     \<lparr>breaker_provider = provider, breaker_cfg = config,
      breaker_inner = \<lparr>cstate = Closed, consecutive_failures = 0, consecutive_successes = 0,
        opened_at_millis = 0, probes_in_flight = 0, probe_epoch = 0\<rparr>\<rparr>"

definition open_window :: "breaker_config \<Rightarrow> u64" where
  "open_window config =
     (let millis = open_duration config div 1000000 in if millis < 2 ^ 64 then of_nat millis else - 1)"

definition refresh :: "breaker_config \<Rightarrow> u64 \<Rightarrow> breaker_state \<Rightarrow> breaker_state" where
  "refresh config now i =
     (if cstate i = Open \<and> open_window config \<le> saturating_sub now (opened_at_millis i)
      then i\<lparr>cstate := HalfOpen, probes_in_flight := 0, consecutive_successes := 0,
             probe_epoch := saturating_add (probe_epoch i) 1\<rparr>
      else i)"

definition breaker_state_at :: "u64 \<Rightarrow> circuit_breaker \<Rightarrow> circuit_state \<times> circuit_breaker" where
  "breaker_state_at now b =
     (let i = refresh (breaker_cfg b) now (breaker_inner b) in (cstate i, b\<lparr>breaker_inner := i\<rparr>))"

definition rejection :: "circuit_breaker \<Rightarrow> operation \<Rightarrow> string \<Rightarrow> provider_error" where
  "rejection b op detail = provider_error_new CircuitOpen (breaker_provider b) op (lit detail)"

definition breaker_admit ::
  "operation \<Rightarrow> u64 \<Rightarrow> circuit_breaker \<Rightarrow> (permit_admission, provider_error) result \<times> circuit_breaker" where
  "breaker_admit op now b =
     (let i = refresh (breaker_cfg b) now (breaker_inner b) in
      case cstate i of
        Closed \<Rightarrow> (Ok \<lparr>probe = False, permit_epoch = probe_epoch i\<rparr>, b\<lparr>breaker_inner := i\<rparr>)
      | HalfOpen \<Rightarrow>
          (if half_open_probes (breaker_cfg b) \<le> probes_in_flight i
           then (Err (rejection b op ''half-open probe budget exhausted''), b\<lparr>breaker_inner := i\<rparr>)
           else (Ok \<lparr>probe = True, permit_epoch = probe_epoch i\<rparr>,
                 b\<lparr>breaker_inner := i\<lparr>probes_in_flight := probes_in_flight i + 1\<rparr>\<rparr>))
      | Open \<Rightarrow>
          (Err (rejection b op ''circuit is open after repeated failures''), b\<lparr>breaker_inner := i\<rparr>))"

text \<open>The unowned reports, which act whatever admitted the call.\<close>

definition record_success :: "u64 \<Rightarrow> circuit_breaker \<Rightarrow> circuit_breaker" where
  "record_success now b =
     (let i = (breaker_inner b)\<lparr>consecutive_failures := 0\<rparr>;
          i = i\<lparr>probes_in_flight := saturating_sub (probes_in_flight i) 1\<rparr> in
      b\<lparr>breaker_inner :=
         (case cstate i of
            HalfOpen \<Rightarrow>
              (let i = i\<lparr>consecutive_successes := consecutive_successes i + 1\<rparr> in
               if success_threshold (breaker_cfg b) \<le> consecutive_successes i
               then i\<lparr>cstate := Closed, consecutive_successes := 0, probes_in_flight := 0\<rparr> else i)
          | Closed \<Rightarrow> i\<lparr>consecutive_successes := 0\<rparr>
          | Open \<Rightarrow> i)\<rparr>)"

definition record_failure :: "error_kind \<Rightarrow> u64 \<Rightarrow> circuit_breaker \<Rightarrow> circuit_breaker" where
  "record_failure k now b =
     (let i = (breaker_inner b)\<lparr>probes_in_flight := saturating_sub (probes_in_flight (breaker_inner b)) 1\<rparr> in
      b\<lparr>breaker_inner :=
         (if \<not> trips_circuit k then i
          else let i = i\<lparr>consecutive_successes := 0\<rparr> in
            (case cstate i of
               HalfOpen \<Rightarrow> i\<lparr>cstate := Open, opened_at_millis := now, probes_in_flight := 0\<rparr>
             | Closed \<Rightarrow>
                 (let i = i\<lparr>consecutive_failures := consecutive_failures i + 1\<rparr> in
                  if failure_threshold (breaker_cfg b) \<le> consecutive_failures i
                  then i\<lparr>cstate := Open, opened_at_millis := now, consecutive_failures := 0\<rparr> else i)
             | Open \<Rightarrow> i\<lparr>opened_at_millis := now\<rparr>))\<rparr>)"

definition permit_success :: "permit_admission \<Rightarrow> u64 \<Rightarrow> circuit_breaker \<Rightarrow> circuit_breaker" where
  "permit_success a now b =
     (let i = breaker_inner b in
      if probe a \<and> cstate i = HalfOpen \<and> probe_epoch i = permit_epoch a
      then (let i = i\<lparr>probes_in_flight := saturating_sub (probes_in_flight i) 1,
                      consecutive_failures := 0,
                      consecutive_successes := saturating_add (consecutive_successes i) 1\<rparr> in
            b\<lparr>breaker_inner :=
               (if success_threshold (breaker_cfg b) \<le> consecutive_successes i
                then i\<lparr>cstate := Closed, consecutive_successes := 0, probes_in_flight := 0\<rparr> else i)\<rparr>)
      else if \<not> probe a \<and> cstate i = Closed \<and> probe_epoch i = permit_epoch a
      then b\<lparr>breaker_inner := i\<lparr>consecutive_failures := 0, consecutive_successes := 0\<rparr>\<rparr>
      else b)"

definition permit_failure :: "permit_admission \<Rightarrow> error_kind \<Rightarrow> u64 \<Rightarrow> circuit_breaker \<Rightarrow> circuit_breaker" where
  "permit_failure a k now b =
     (let i = breaker_inner b in
      if probe a
      then (if cstate i \<noteq> HalfOpen \<or> probe_epoch i \<noteq> permit_epoch a then b
            else (let i = i\<lparr>probes_in_flight := saturating_sub (probes_in_flight i) 1\<rparr> in
                  if \<not> trips_circuit k then b\<lparr>breaker_inner := i\<rparr>
                  else b\<lparr>breaker_inner := i\<lparr>consecutive_successes := 0, cstate := Open,
                          opened_at_millis := now, probes_in_flight := 0\<rparr>\<rparr>))
      else if cstate i \<noteq> Closed \<or> probe_epoch i \<noteq> permit_epoch a \<or> \<not> trips_circuit k then b
      else (let i = i\<lparr>consecutive_successes := 0,
                      consecutive_failures := saturating_add (consecutive_failures i) 1\<rparr> in
            b\<lparr>breaker_inner :=
               (if failure_threshold (breaker_cfg b) \<le> consecutive_failures i
                then i\<lparr>cstate := Open, opened_at_millis := now, consecutive_failures := 0\<rparr> else i)\<rparr>))"

definition abandon_probe :: "permit_admission \<Rightarrow> circuit_breaker \<Rightarrow> circuit_breaker" where
  "abandon_probe a b =
     (let i = breaker_inner b in
      if probe a \<and> cstate i = HalfOpen \<and> probe_epoch i = permit_epoch a
      then b\<lparr>breaker_inner := i\<lparr>probes_in_flight := saturating_sub (probes_in_flight i) 1\<rparr>\<rparr>
      else b)"

lemmas breaker_defs = refresh_def breaker_admit_def permit_success_def permit_failure_def
  abandon_probe_def record_success_def record_failure_def Let_def

section \<open>The breaker with its callers\<close>

text \<open>
  The breaker together with the permits its callers hold. A permit is acquired, then reported or
  dropped exactly once, in any order and at any time. A result can also be recorded without a permit,
  by whoever shares the breaker, at any time.
\<close>

type_synonym breaker_system = "circuit_breaker \<times> permit_admission multiset"

datatype breaker_event =
    Acquired u64 permit_admission | Refused u64 provider_error | Observed u64 circuit_state
  | Succeeded permit_admission | Failed permit_admission error_kind | Dropped permit_admission
  | SuccessRecorded u64 | FailureRecorded error_kind u64

inductive breaker_step :: "breaker_system \<Rightarrow> breaker_event \<Rightarrow> breaker_system \<Rightarrow> bool" where
  acquired: "breaker_admit op now b = (Ok a, b') \<Longrightarrow>
    breaker_step (b, held) (Acquired now a) (b', add_mset a held)"
| refused: "breaker_admit op now b = (Err e, b') \<Longrightarrow> breaker_step (b, held) (Refused now e) (b', held)"
| observed: "breaker_state_at now b = (s, b') \<Longrightarrow> breaker_step (b, held) (Observed now s) (b', held)"
| succeeded: "a \<in># held \<Longrightarrow>
    breaker_step (b, held) (Succeeded a) (permit_success a now b, held - {#a#})"
| failed: "a \<in># held \<Longrightarrow>
    breaker_step (b, held) (Failed a k) (permit_failure a k now b, held - {#a#})"
| dropped: "a \<in># held \<Longrightarrow> breaker_step (b, held) (Dropped a) (abandon_probe a b, held - {#a#})"
| success_recorded: "breaker_step (b, held) (SuccessRecorded now) (record_success now b, held)"
| failure_recorded: "breaker_step (b, held) (FailureRecorded k now) (record_failure k now b, held)"

text \<open>How often a history records a result without a permit.\<close>

fun is_unowned :: "breaker_event \<Rightarrow> bool" where
  "is_unowned (SuccessRecorded _) = True"
| "is_unowned (FailureRecorded _ _) = True"
| "is_unowned _ = False"

definition unowned :: "breaker_event list \<Rightarrow> nat" where
  "unowned es = length (filter is_unowned es)"

text \<open>The probes of the current epoch that are still out.\<close>

definition current_probes :: "breaker_system \<Rightarrow> nat" where
  "current_probes s =
     size (filter_mset (\<lambda>a. probe a \<and> permit_epoch a = probe_epoch (breaker_inner (fst s))) (snd s))"

section \<open>The probe budget\<close>

definition breaker_inv :: "breaker_config \<Rightarrow> nat \<Rightarrow> breaker_system \<Rightarrow> bool" where
  "breaker_inv config n s \<longleftrightarrow>
     (let i = breaker_inner (fst s) in
      breaker_cfg (fst s) = config \<and> (\<forall>a \<in># snd s. permit_epoch a \<le> probe_epoch i) \<and>
      (cstate i = HalfOpen \<longrightarrow> probes_in_flight i \<le> half_open_probes config \<and>
         (probe_epoch i \<noteq> - 1 \<longrightarrow> unat (probes_in_flight i) \<le> current_probes s \<and>
            current_probes s \<le> unat (probes_in_flight i) + n)))"

lemma saturating_succ_max: "saturating_add e 1 \<noteq> (- 1 :: 'a::len word) \<Longrightarrow> e < saturating_add e 1"
proof -
  assume "saturating_add e 1 \<noteq> - 1"
  then have "unat e + 1 < 2 ^ LENGTH('a)" "saturating_add e 1 = e + 1"
    by (auto simp: saturating_add_def split: if_splits)
  then show ?thesis by (simp add: word_less_nat_alt unat_word_ariths)
qed

lemma succ_below:
  fixes x y :: "'a::len word"
  assumes "x < y"
  shows "x + 1 \<le> y \<and> unat (x + 1) = Suc (unat x)"
proof -
  have le: "Suc (unat x) \<le> unat y" using assms by (simp add: word_less_nat_alt)
  then have "Suc (unat x) < 2 ^ LENGTH('a)" using unat_bound [of y] by linarith
  then have "unat (x + 1) = Suc (unat x)" by (simp add: unat_word_ariths)
  with le show ?thesis by (simp add: word_le_nat_alt)
qed

lemma filter_mset_eq_empty: "filter_mset P M = {#} \<longleftrightarrow> (\<forall>x \<in># M. \<not> P x)"
  by (induction M) auto

lemma refresh_inv:
  assumes "breaker_inv config n (b, held)"
  shows "breaker_inv config n (b\<lparr>breaker_inner := refresh config now (breaker_inner b)\<rparr>, held)"
proof (cases "cstate (breaker_inner b) = Open \<and>
    open_window config \<le> saturating_sub now (opened_at_millis (breaker_inner b))")
  case True
  let ?e = "probe_epoch (breaker_inner b)"
  have old: "\<forall>a \<in># held. permit_epoch a \<le> ?e"
    using assms by (simp add: breaker_inv_def Let_def)
  then have le: "\<forall>a \<in># held. permit_epoch a \<le> saturating_add ?e 1"
    using le_saturating_add [of ?e 1] by (auto intro: order_trans)
  have none: "filter_mset (\<lambda>a. probe a \<and> permit_epoch a = saturating_add ?e 1) held = {#}"
    if "saturating_add ?e 1 \<noteq> - 1"
    using old saturating_succ_max [OF that] by (auto simp: filter_mset_eq_empty)
  have "size (filter_mset (\<lambda>a. probe a \<and> permit_epoch a = saturating_add ?e 1) held) \<le> n"
    if "saturating_add ?e 1 \<noteq> - 1"
    by (simp only: none [OF that] size_empty le0)
  then show ?thesis
    using True assms le by (auto simp: breaker_inv_def refresh_def Let_def current_probes_def)
next
  case False
  then have "refresh config now (breaker_inner b) = breaker_inner b"
    by (auto simp: refresh_def)
  with assms show ?thesis by simp
qed

lemma inv_config: "breaker_inv config n (b, held) \<Longrightarrow> breaker_cfg b = config"
  by (simp add: breaker_inv_def Let_def)

lemma breaker_admit_inv:
  assumes "breaker_inv config n (b, held)" and "breaker_admit op now b = (r, b')"
  shows "breaker_inv config n (b', case r of Ok a \<Rightarrow> add_mset a held | Err _ \<Rightarrow> held)"
proof -
  define i where "i = refresh config now (breaker_inner b)"
  have inv: "breaker_inv config n (b\<lparr>breaker_inner := i\<rparr>, held)"
    unfolding i_def by (rule refresh_inv [OF assms(1)])
  have admit: "breaker_admit op now b = (case cstate i of
        Closed \<Rightarrow> (Ok \<lparr>probe = False, permit_epoch = probe_epoch i\<rparr>, b\<lparr>breaker_inner := i\<rparr>)
      | HalfOpen \<Rightarrow>
          (if half_open_probes config \<le> probes_in_flight i
           then (Err (rejection b op ''half-open probe budget exhausted''), b\<lparr>breaker_inner := i\<rparr>)
           else (Ok \<lparr>probe = True, permit_epoch = probe_epoch i\<rparr>,
                 b\<lparr>breaker_inner := i\<lparr>probes_in_flight := probes_in_flight i + 1\<rparr>\<rparr>))
      | Open \<Rightarrow>
          (Err (rejection b op ''circuit is open after repeated failures''), b\<lparr>breaker_inner := i\<rparr>))"
    unfolding breaker_admit_def inv_config [OF assms(1)] i_def Let_def by (rule refl)
  have room: "probes_in_flight i + 1 \<le> half_open_probes config \<and>
      unat (probes_in_flight i + 1) = Suc (unat (probes_in_flight i))"
    if "\<not> half_open_probes config \<le> probes_in_flight i"
    using that succ_below [of "probes_in_flight i" "half_open_probes config"] by (simp add: not_le)
  show ?thesis
  proof (cases "cstate i")
    case HalfOpen
    with assms(2) inv admit room show ?thesis
      by (auto simp: breaker_inv_def Let_def current_probes_def split: if_splits)
  next
    case Closed
    with assms(2) inv admit show ?thesis by (auto simp: breaker_inv_def Let_def)
  next
    case Open
    with assms(2) inv admit show ?thesis by (auto simp: breaker_inv_def Let_def)
  qed
qed

text \<open>A report or drop of a current probe gives its slot back.\<close>

lemma slot_back:
  assumes "breaker_inv config n (b, held)" and "a \<in># held" and "probe a"
    and "cstate (breaker_inner b) = HalfOpen" and "probe_epoch (breaker_inner b) = permit_epoch a"
  shows "saturating_sub (probes_in_flight (breaker_inner b)) 1 \<le> half_open_probes config \<and>
    (permit_epoch a \<noteq> - 1 \<longrightarrow>
       unat (saturating_sub (probes_in_flight (breaker_inner b)) 1) \<le>
         size (filter_mset (\<lambda>p. probe p \<and> permit_epoch p = permit_epoch a) (held - {#a#})) \<and>
       size (filter_mset (\<lambda>p. probe p \<and> permit_epoch p = permit_epoch a) (held - {#a#})) \<le>
         unat (saturating_sub (probes_in_flight (breaker_inner b)) 1) + n)"
proof -
  obtain rest where rest: "held = add_mset a rest"
    using assms(2) by (blast dest: multi_member_split)
  from assms show ?thesis
    unfolding rest by (auto simp: breaker_inv_def Let_def current_probes_def word_le_nat_alt unat_saturating_sub)
qed

text \<open>A permit that leaves without being a current probe takes no slot with it.\<close>

lemma no_slot:
  assumes "\<not> (probe a \<and> permit_epoch a = e)"
  shows "size (filter_mset (\<lambda>p. probe p \<and> permit_epoch p = e) (held - {#a#})) =
    size (filter_mset (\<lambda>p. probe p \<and> permit_epoch p = e) held)"
proof -
  have "filter_mset (\<lambda>p. probe p \<and> permit_epoch p = e) {#a#} = {#}"
    using assms by simp
  then show ?thesis by (simp only: filter_diff_mset diff_empty)
qed

lemma held_le:
  assumes "breaker_inv config n (b, held)"
  shows "\<forall>p \<in># held - {#a#}. permit_epoch p \<le> probe_epoch (breaker_inner b)"
  using assms by (auto simp: breaker_inv_def Let_def dest: in_diffD)

lemma report_inv:
  assumes inv: "breaker_inv config n (b, held)" and a: "a \<in># held"
  shows "breaker_inv config n (permit_success a now b, held - {#a#})"
    and "breaker_inv config n (permit_failure a k now b, held - {#a#})"
    and "breaker_inv config n (abandon_probe a b, held - {#a#})"
proof -
  note facts = inv held_le [OF inv, of a]
  have all: "breaker_inv config n (permit_success a now b, held - {#a#}) \<and>
      breaker_inv config n (permit_failure a k now b, held - {#a#}) \<and>
      breaker_inv config n (abandon_probe a b, held - {#a#})"
  proof (cases "probe a \<and> cstate (breaker_inner b) = HalfOpen \<and>
      probe_epoch (breaker_inner b) = permit_epoch a")
    case True
    then show ?thesis
      using facts slot_back [OF inv a] by (auto simp: breaker_inv_def breaker_defs current_probes_def)
  next
    case False
    then have "cstate (breaker_inner b) = HalfOpen \<Longrightarrow>
        \<not> (probe a \<and> permit_epoch a = probe_epoch (breaker_inner b))" by auto
    then show ?thesis
      using facts False no_slot [of a "probe_epoch (breaker_inner b)" held]
      by (auto simp: breaker_inv_def breaker_defs current_probes_def)
  qed
  then show "breaker_inv config n (permit_success a now b, held - {#a#})"
    "breaker_inv config n (permit_failure a k now b, held - {#a#})"
    "breaker_inv config n (abandon_probe a b, held - {#a#})" by blast+
qed

text \<open>A result recorded without a permit frees at most one slot that is still taken.\<close>

lemma unowned_inv:
  assumes "breaker_inv config n (b, held)"
  shows "breaker_inv config (Suc n) (record_success now b, held)"
    and "breaker_inv config (Suc n) (record_failure k now b, held)"
proof -
  let ?i = "breaker_inner b"
  have less: "unat (saturating_sub (probes_in_flight ?i) 1) = unat (probes_in_flight ?i) - 1"
    by (simp add: unat_saturating_sub)
  have "breaker_inv config (Suc n) (b\<lparr>breaker_inner := j\<rparr>, held)"
    if "probe_epoch j = probe_epoch ?i" and "cstate j = HalfOpen \<longrightarrow> cstate ?i = HalfOpen \<and>
        probes_in_flight j = saturating_sub (probes_in_flight ?i) 1" for j
    using assms that less by (auto simp: breaker_inv_def Let_def current_probes_def word_le_nat_alt)
  then show "breaker_inv config (Suc n) (record_success now b, held)"
    and "breaker_inv config (Suc n) (record_failure k now b, held)"
    by (cases "cstate ?i"; simp add: record_success_def record_failure_def Let_def)+
qed

lemma breaker_step_inv:
  assumes "breaker_inv config (unowned es) s" and "breaker_step s e t"
  shows "breaker_inv config (unowned (es @ [e])) t"
  using assms(2,1)
proof cases
  case (acquired op now b a b' held)
  then show ?thesis using breaker_admit_inv [of config _ b held op now "Ok a" b'] assms(1) by (simp add: unowned_def)
next
  case (refused op now b x b' held)
  then show ?thesis using breaker_admit_inv [of config _ b held op now "Err x" b'] assms(1) by (simp add: unowned_def)
next
  case (observed now b st b' held)
  then show ?thesis
    using refresh_inv [of config _ b held now] inv_config [of config _ b held] assms(1)
    by (simp add: breaker_state_at_def Let_def unowned_def)
qed (use assms(1) report_inv unowned_inv in \<open>auto simp: unowned_def\<close>)

interpretation breaker: history_invariant breaker_step "\<lambda>es. breaker_inv config (unowned es)" for config
  by unfold_locales (rule breaker_step_inv)

lemma breaker_inv_new: "breaker_inv config n (circuit_breaker_new provider config, {#})"
  by (simp add: breaker_inv_def circuit_breaker_new_def Let_def)

text \<open>
  Property C18. The half-open budget. In every history of the breaker and its permits, results
  recorded without a permit included, the probes it counts while half open stay within the configured
  budget, and every counted probe is an outstanding permit of the current recovery epoch. The
  outstanding permits exceed the count by at most the number of results recorded without a permit, so
  that with permits alone the count is exact and the outstanding probes never exceed the budget (as
  long as fewer than \<open>2 ^ 64 - 1\<close> recovery epochs have passed).
\<close>

theorem probe_budget_exact:
  assumes "steps breaker_step (circuit_breaker_new provider config, {#}) es (b, held)"
    and "cstate (breaker_inner b) = HalfOpen" and "probe_epoch (breaker_inner b) \<noteq> - 1"
  shows "probes_in_flight (breaker_inner b) \<le> half_open_probes config \<and>
    unat (probes_in_flight (breaker_inner b)) \<le> current_probes (b, held) \<and>
    current_probes (b, held) \<le> unat (probes_in_flight (breaker_inner b)) + unowned es \<and>
    (unowned es = 0 \<longrightarrow> current_probes (b, held) = unat (probes_in_flight (breaker_inner b)) \<and>
      current_probes (b, held) \<le> unat (half_open_probes config))"
  using breaker.hinv_steps [OF assms(1), of config "[]"] breaker_inv_new [of config _ provider] assms(2,3)
  by (simp add: breaker_inv_def Let_def word_le_nat_alt)

text \<open>When an event looks at the clock to admit, refuse or report the state.\<close>

fun admission_time :: "breaker_event \<Rightarrow> u64 option" where
  "admission_time (Acquired now _) = Some now"
| "admission_time (Refused now _) = Some now"
| "admission_time (Observed now _) = Some now"
| "admission_time _ = None"

definition within_window :: "circuit_breaker \<Rightarrow> breaker_event \<Rightarrow> bool" where
  "within_window b e \<longleftrightarrow> \<not> is_unowned e \<and>
     (case admission_time e of
        Some now \<Rightarrow> saturating_sub now (opened_at_millis (breaker_inner b)) < open_window (breaker_cfg b)
      | None \<Rightarrow> True)"

lemma open_step:
  assumes "breaker_step (b, held) e (b', held')" and "cstate (breaker_inner b) = Open"
    and "within_window b e"
  shows "b' = b \<and> (\<forall>now a. e \<noteq> Acquired now a)"
  using assms
  by cases (auto simp: breaker_defs breaker_state_at_def within_window_def split: if_splits)

text \<open>
  An open circuit stays shut for its whole window: from the moment it is open, whatever
  callers do with permits (new calls, late successes and failures of older permits, dropped permits,
  state queries) at times that are still within the window, no call is admitted and the breaker, its
  deadline included, does not change. Failures recorded without a permit would move the deadline.
\<close>

theorem open_circuit_admits_nothing:
  assumes "steps breaker_step (b, held) es (b', held')" and "cstate (breaker_inner b) = Open"
    and "\<forall>e \<in> set es. within_window b e"
  shows "b' = b \<and> (\<forall>now a. Acquired now a \<notin> set es)"
  using assms
proof (induction "(b, held)" es "(b', held')" arbitrary: held rule: steps.induct)
  case (steps_cons e t es)
  obtain b1 held1 where t: "t = (b1, held1)" by (cases t)
  from steps_cons.hyps(1) steps_cons.prems have "b1 = b \<and> (\<forall>now a. e \<noteq> Acquired now a)"
    unfolding t by (intro open_step) auto
  with steps_cons.hyps(3) [of held1] steps_cons.prems t show ?case by auto
qed auto

text \<open>
  A stale result cannot disturb a recovery: the report of a permit admitted in an
  earlier epoch, or of an ordinary permit while the circuit is not closed, leaves the breaker exactly
  as it is, whatever the result and whenever it arrives.
\<close>

theorem stale_result_inert:
  assumes "permit_epoch a \<noteq> probe_epoch (breaker_inner b) \<or>
    cstate (breaker_inner b) \<noteq> (if probe a then HalfOpen else Closed)"
  shows "permit_success a now b = b \<and> permit_failure a k now b = b \<and> abandon_probe a b = b"
  using assms by (auto simp: breaker_defs split: if_splits)

section \<open>Tripping and recovering\<close>

text \<open>Consecutive tripping failures of ordinary calls, at the given times.\<close>

definition fail_at :: "permit_admission \<Rightarrow> error_kind \<Rightarrow> u64 list \<Rightarrow> circuit_breaker \<Rightarrow> circuit_breaker" where
  "fail_at a k ts b = fold (\<lambda>now b. permit_failure a k now b) ts b"

lemma fail_at_below:
  assumes "cstate (breaker_inner b) = Closed" and "permit_epoch a = probe_epoch (breaker_inner b)"
    and "\<not> probe a" and "trips_circuit k"
    and "unat (consecutive_failures (breaker_inner b)) + length ts < unat (failure_threshold (breaker_cfg b))"
  shows "breaker_inner (fail_at a k ts b) =
      (breaker_inner b)\<lparr>
        consecutive_successes := (if ts = [] then consecutive_successes (breaker_inner b) else 0),
        consecutive_failures := consecutive_failures (breaker_inner b) + of_nat (length ts)\<rparr> \<and>
    breaker_cfg (fail_at a k ts b) = breaker_cfg b"
  using assms
proof (induction ts arbitrary: b)
  case Nil
  then show ?case by (simp add: fail_at_def)
next
  case (Cons now ts)
  let ?i = "breaker_inner b"
  let ?b = "b\<lparr>breaker_inner := ?i\<lparr>consecutive_successes := 0,
      consecutive_failures := consecutive_failures ?i + 1\<rparr>\<rparr>"
  have lt: "consecutive_failures ?i < failure_threshold (breaker_cfg b)"
    using Cons.prems(5) by (simp add: word_less_nat_alt)
  have bound: "unat (consecutive_failures ?i) + 1 < 2 ^ 32"
    using Cons.prems(5) unat_bound [of "failure_threshold (breaker_cfg b)"] by simp
  then have succ: "saturating_add (consecutive_failures ?i) 1 = consecutive_failures ?i + 1"
    "unat (consecutive_failures ?i + 1) = Suc (unat (consecutive_failures ?i))"
    by (simp_all add: saturating_add_def unat_word_ariths)
  then have below: "\<not> failure_threshold (breaker_cfg b) \<le> consecutive_failures ?i + 1"
    using Cons.prems(5) by (simp add: word_le_nat_alt)
  have one: "permit_failure a k now b = ?b"
    using Cons.prems(1-4) below by (simp add: permit_failure_def succ Let_def)
  have "breaker_inner (fail_at a k ts ?b) = (breaker_inner ?b)\<lparr>
        consecutive_successes := (if ts = [] then consecutive_successes (breaker_inner ?b) else 0),
        consecutive_failures := consecutive_failures (breaker_inner ?b) + of_nat (length ts)\<rparr> \<and>
      breaker_cfg (fail_at a k ts ?b) = breaker_cfg ?b"
    by (rule Cons.IH) (use Cons.prems succ in simp_all)
  then show ?case by (simp add: fail_at_def one add.assoc)
qed

text \<open>
  The circuit opens at the configured number of consecutive failures, not before: from a
  closed breaker with no failures, fewer tripping failures than the threshold leave it closed and
  counting, and the failure that reaches the threshold opens it at that moment.
\<close>

theorem trips_at_threshold:
  assumes "cstate (breaker_inner b) = Closed" and "consecutive_failures (breaker_inner b) = 0"
    and "permit_epoch a = probe_epoch (breaker_inner b)" and "\<not> probe a" and "trips_circuit k"
    and "Suc (length ts) = unat (failure_threshold (breaker_cfg b))"
  shows "cstate (breaker_inner (fail_at a k ts b)) = Closed \<and>
    unat (consecutive_failures (breaker_inner (fail_at a k ts b))) = length ts \<and>
    cstate (breaker_inner (fail_at a k (ts @ [now]) b)) = Open \<and>
    opened_at_millis (breaker_inner (fail_at a k (ts @ [now]) b)) = now"
proof -
  let ?c = "fail_at a k ts b"
  have c: "breaker_inner ?c = (breaker_inner b)\<lparr>
        consecutive_successes := (if ts = [] then consecutive_successes (breaker_inner b) else 0),
        consecutive_failures := of_nat (length ts)\<rparr>" "breaker_cfg ?c = breaker_cfg b"
    using fail_at_below [of b a k ts] assms by auto
  have small: "Suc (length ts) < 2 ^ 32"
    using assms(6) unat_bound [of "failure_threshold (breaker_cfg b)"] by simp
  then have count: "unat (of_nat (length ts) :: u32) = length ts"
    by (simp add: unat_of_nat)
  have "unat (saturating_add (of_nat (length ts) :: u32) 1) = Suc (length ts)"
    using small by (simp add: unat_saturating_add count)
  then have "failure_threshold (breaker_cfg b) \<le> saturating_add (of_nat (length ts)) 1"
    using assms(6) by (simp add: word_le_nat_alt)
  then have "cstate (breaker_inner (permit_failure a k now ?c)) = Open \<and>
      opened_at_millis (breaker_inner (permit_failure a k now ?c)) = now"
    using assms c by (simp add: permit_failure_def Let_def)
  moreover have "fail_at a k (ts @ [now]) b = permit_failure a k now ?c"
    by (simp add: fail_at_def)
  ultimately show ?thesis using assms(1) c count by simp
qed

text \<open>
  An open circuit recovers: once its window has elapsed, with a positive probe budget,
  the next call is admitted as a probe of a new epoch, and if one success is enough its success
  closes the circuit, while a tripping failure opens it again from that moment.
\<close>

theorem open_circuit_recovers:
  assumes "cstate (breaker_inner b) = Open"
    and "open_window (breaker_cfg b) \<le> saturating_sub now (opened_at_millis (breaker_inner b))"
    and "0 < half_open_probes (breaker_cfg b)" and "success_threshold (breaker_cfg b) \<le> 1"
  shows "\<exists>a b'. breaker_admit op now b = (Ok a, b') \<and> probe a \<and>
    cstate (breaker_inner (permit_success a later b')) = Closed \<and>
    (trips_circuit k \<longrightarrow> cstate (breaker_inner (permit_failure a k later b')) = Open \<and>
       opened_at_millis (breaker_inner (permit_failure a k later b')) = later)"
  using assms
  by (auto simp: breaker_defs saturating_add_def word_gt_0)

text \<open>Without a probe budget nothing recovers: every later call is refused.\<close>

lemma no_probes_no_recovery:
  assumes "half_open_probes (breaker_cfg b) = 0" and "cstate (breaker_inner b) \<noteq> Closed"
  shows "\<exists>e b'. breaker_admit op now b = (Err e, b') \<and> cstate (breaker_inner b') \<noteq> Closed \<and>
    breaker_cfg b' = breaker_cfg b"
  using assms by (cases "cstate (breaker_inner b)") (auto simp: breaker_defs)

section \<open>A concrete run\<close>

text \<open>The default configuration with a threshold of two, tripped by two timeouts at 10 and 20.\<close>

definition demo_breaker :: circuit_breaker where
  "demo_breaker = circuit_breaker_new (lit ''p'') (breaker_config_default\<lparr>failure_threshold := 2\<rparr>)"

definition demo_permit :: permit_admission where
  "demo_permit = \<lparr>probe = False, permit_epoch = 0\<rparr>"

definition demo_open :: circuit_breaker where
  "demo_open = fail_at demo_permit Timeout [10, 20] demo_breaker"

definition demo_half_open :: circuit_breaker where
  "demo_half_open = snd (breaker_admit OpComplete 30020 demo_open)"

lemmas demo_breaker_defs = demo_breaker_def demo_permit_def
  circuit_breaker_new_def breaker_config_default_def breaker_defs trips_circuit_def
  saturating_add_def saturating_sub_def open_window_def word_le_nat_alt

lemma demo_after_one:
  "permit_failure demo_permit Timeout 10 demo_breaker =
     \<lparr>breaker_provider = lit ''p'',
      breaker_cfg = \<lparr>failure_threshold = 2, open_duration = 30000000000, half_open_probes = 1,
        success_threshold = 1\<rparr>,
      breaker_inner = \<lparr>cstate = Closed, consecutive_failures = 1, consecutive_successes = 0,
        opened_at_millis = 0, probes_in_flight = 0, probe_epoch = 0\<rparr>\<rparr>"
  by (simp add: demo_breaker_defs)

lemma demo_open_eq:
  "demo_open =
     \<lparr>breaker_provider = lit ''p'',
      breaker_cfg = \<lparr>failure_threshold = 2, open_duration = 30000000000, half_open_probes = 1,
        success_threshold = 1\<rparr>,
      breaker_inner = \<lparr>cstate = Open, consecutive_failures = 0, consecutive_successes = 0,
        opened_at_millis = 20, probes_in_flight = 0, probe_epoch = 0\<rparr>\<rparr>"
  unfolding demo_open_def fail_at_def
  by (simp add: demo_after_one) (simp add: permit_failure_def demo_permit_def trips_circuit_def
      saturating_add_def)

lemma demo_probe:
  "breaker_admit OpComplete 30020 demo_open = (Ok \<lparr>probe = True, permit_epoch = 1\<rparr>, demo_half_open)"
  "cstate (breaker_inner demo_half_open) = HalfOpen" "probe_epoch (breaker_inner demo_half_open) = 1"
  "probes_in_flight (breaker_inner demo_half_open) = 1"
  unfolding demo_half_open_def demo_open_eq by (simp_all add: demo_breaker_defs)

lemma demo_open_state:
  "cstate (breaker_inner demo_open) = Open" "opened_at_millis (breaker_inner demo_open) = 20"
  "open_window (breaker_cfg demo_open) = 30000" "half_open_probes (breaker_cfg demo_open) = 1"
  "success_threshold (breaker_cfg demo_open) = 1" "probe_epoch (breaker_inner demo_open) = 0"
  by (simp_all add: demo_open_eq open_window_def)

lemma demo_admitted: "breaker_admit OpComplete 0 demo_breaker = (Ok demo_permit, demo_breaker)"
  by (simp add: demo_breaker_defs)

lemma demo_run:
  "steps breaker_step (demo_breaker, {#})
     [Acquired 0 demo_permit, Acquired 0 demo_permit, Failed demo_permit Timeout, Failed demo_permit Timeout,
      Acquired 30020 \<lparr>probe = True, permit_epoch = 1\<rparr>]
     (demo_half_open, {#\<lparr>probe = True, permit_epoch = 1\<rparr>#})"
proof -
  have one: "breaker_step (demo_breaker, {#}) (Acquired 0 demo_permit) (demo_breaker, {#demo_permit#})"
    and two: "breaker_step (demo_breaker, {#demo_permit#}) (Acquired 0 demo_permit) (demo_breaker, {#demo_permit, demo_permit#})"
    by (rule breaker_step.acquired [OF demo_admitted])+
  have three: "breaker_step (demo_breaker, {#demo_permit, demo_permit#}) (Failed demo_permit Timeout)
      (permit_failure demo_permit Timeout 10 demo_breaker, {#demo_permit#})"
    using breaker_step.failed [of demo_permit "{#demo_permit, demo_permit#}" demo_breaker Timeout 10] by simp
  have four: "breaker_step (permit_failure demo_permit Timeout 10 demo_breaker, {#demo_permit#}) (Failed demo_permit Timeout)
      (demo_open, {#})"
    using breaker_step.failed [of demo_permit "{#demo_permit#}" _ Timeout 20] by (simp add: demo_open_def fail_at_def)
  have five: "breaker_step (demo_open, {#}) (Acquired 30020 \<lparr>probe = True, permit_epoch = 1\<rparr>)
      (demo_half_open, {#\<lparr>probe = True, permit_epoch = 1\<rparr>#})"
    by (rule breaker_step.acquired [OF demo_probe(1)])
  show ?thesis
    by (rule steps_cons, rule one, rule steps_cons, rule two, rule steps_cons, rule three, rule steps_cons, rule four,
        rule steps_single, rule five)
qed

theorem probe_budget_exact_witness:
  "current_probes (demo_half_open, {#\<lparr>probe = True, permit_epoch = 1\<rparr>#}) = 1"
  using probe_budget_exact [OF demo_run [unfolded demo_breaker_def]] by (simp add: demo_probe unowned_def)

text \<open>
  A result recorded without a permit while half open frees a slot that is still taken: with a budget of
  one probe and that probe still out, a rejected request recorded this way lets a second probe in.
\<close>

lemma unowned_report_exceeds_budget:
  "half_open_probes (breaker_cfg demo_half_open) = 1 \<and> probes_in_flight (breaker_inner demo_half_open) = 1 \<and>
   is_ok (fst (breaker_admit OpComplete 30022 (record_failure InvalidRequest 30021 demo_half_open)))"
  unfolding demo_half_open_def demo_open_eq by (simp add: demo_breaker_defs)

theorem open_circuit_admits_nothing_witness:
  "\<exists>e. breaker_admit OpPing 30019 demo_open = (Err e, demo_open)"
proof -
  obtain r b' where r: "breaker_admit OpPing 30019 demo_open = (r, b')"
    by (cases "breaker_admit OpPing 30019 demo_open")
  have window: "within_window demo_open (Acquired 30019 a)" "within_window demo_open (Refused 30019 e)" for a e
    by (simp_all add: within_window_def demo_open_state saturating_sub_def)
  show ?thesis
  proof (cases r)
    case (Ok a)
    have "steps breaker_step (demo_open, {#}) [Acquired 30019 a] (b', {#a#})"
      using breaker_step.acquired r Ok by (blast intro: steps.intros)
    from open_circuit_admits_nothing [OF this demo_open_state(1)] window show ?thesis by auto
  next
    case (Err e)
    have "steps breaker_step (demo_open, {#}) [Refused 30019 e] (b', {#})"
      using breaker_step.refused r Err by (blast intro: steps.intros)
    from open_circuit_admits_nothing [OF this demo_open_state(1)] window r Err show ?thesis by auto
  qed
qed

theorem stale_result_inert_witness:
  "permit_failure demo_permit Server 40000 demo_half_open = demo_half_open"
  using stale_result_inert [of demo_permit demo_half_open] by (simp add: demo_probe demo_permit_def)

theorem trips_at_threshold_witness:
  "cstate (breaker_inner (fail_at demo_permit Timeout ([10] @ [20]) demo_breaker)) = Open"
  using trips_at_threshold [of demo_breaker demo_permit Timeout "[10]" 20]
  by (simp add: demo_breaker_def demo_permit_def circuit_breaker_new_def breaker_config_default_def
      trips_circuit_def)

theorem open_circuit_recovers_witness:
  "\<exists>a b'. breaker_admit OpPing 30020 demo_open = (Ok a, b') \<and>
     cstate (breaker_inner (permit_success a 30100 b')) = Closed"
  using open_circuit_recovers [of demo_open 30020 OpPing 30100 Server]
  by (simp add: demo_open_state saturating_sub_def) blast

end
