(* ===== verification/Provider_Retry.thy ===== *)
theory Provider_Retry
  imports Provider_Error Complex_Main
begin

text \<open>
  The retry policy and executor (crates/claw-provider-sdk/src/retry.rs). The caller's world is an
  environment: what each attempt returns, and what the cancellation token says before an attempt,
  after a failed one and during its backoff. A jitter sample is a float of which the code only tests
  whether it is finite and where it lies; the rounded product of a duration and a fraction is a
  parameter.
\<close>

section \<open>Policy and delays\<close>

datatype jitter_mode = NoJitter | FullJitter | EqualJitter

record retry_policy =
  max_attempts :: u32
  initial_backoff :: duration
  max_backoff :: duration
  multiplier_centi :: u32
  jitter :: jitter_mode
  respect_retry_after :: bool
  max_retry_after :: duration

definition retry_policy_default :: retry_policy where
  "retry_policy_default =
     \<lparr>max_attempts = 4, initial_backoff = 500 * 1000000, max_backoff = 30 * 1000000000,
      multiplier_centi = 200, jitter = FullJitter, respect_retry_after = True,
      max_retry_after = 120 * 1000000000\<rparr>"

definition retry_policy_never :: retry_policy where
  "retry_policy_never =
     \<lparr>max_attempts = 1, initial_backoff = 0, max_backoff = 0, multiplier_centi = 100,
      jitter = NoJitter, respect_retry_after = False, max_retry_after = 0\<rparr>"

text \<open>One step of the exponential growth, in 128-bit nanoseconds.\<close>

definition scaled_backoff :: "retry_policy \<Rightarrow> duration \<Rightarrow> nat" where
  "scaled_backoff p delay = min (delay * unat (multiplier_centi p)) (2 ^ 128 - 1) div 100"

fun backoff_loop :: "retry_policy \<Rightarrow> nat \<Rightarrow> duration \<Rightarrow> duration" where
  "backoff_loop p 0 delay = min delay (max_backoff p)"
| "backoff_loop p (Suc n) delay =
     (let scaled = scaled_backoff p delay in
      if max_backoff p \<le> scaled then max_backoff p
      else if scaled = delay then min delay (max_backoff p)
      else backoff_loop p n (min scaled (2 ^ 64 - 1)))"

definition base_backoff :: "retry_policy \<Rightarrow> u32 \<Rightarrow> duration" where
  "base_backoff p attempt =
     (if attempt = 0 then 0 else backoff_loop p (unat attempt - 1) (initial_backoff p))"

datatype f64 = NaN | Infinite bool | Finite rat

definition scale :: "(duration \<Rightarrow> rat \<Rightarrow> duration option) \<Rightarrow> duration \<Rightarrow> f64 \<Rightarrow> duration" where
  "scale product d fraction =
     (case fraction of
        NaN \<Rightarrow> 0
      | Infinite _ \<Rightarrow> 0
      | Finite x \<Rightarrow>
          (if x \<le> 0 then 0
           else if 1 \<le> x then d
           else min (case product d x of Some y \<Rightarrow> y | None \<Rightarrow> d) d))"

definition delay_for ::
  "(duration \<Rightarrow> rat \<Rightarrow> duration option) \<Rightarrow> retry_policy \<Rightarrow> u32 \<Rightarrow> duration option \<Rightarrow> f64 \<Rightarrow> duration" where
  "delay_for product p attempt retry_after sample =
     (case (respect_retry_after p, retry_after) of
        (True, Some hint) \<Rightarrow> min hint (max_retry_after p)
      | _ \<Rightarrow>
          (let base = base_backoff p attempt in
           case jitter p of
             NoJitter \<Rightarrow> base
           | FullJitter \<Rightarrow> scale product base sample
           | EqualJitter \<Rightarrow> (let half = base div 2 in half + scale product half sample)))"

section \<open>The executor\<close>

record 'a attempt_env =
  cancelled_before :: "u32 \<Rightarrow> bool"
  attempt_result :: "u32 \<Rightarrow> ('a, provider_error) result"
  cancelled_after :: "u32 \<Rightarrow> bool"
  cancelled_in_sleep :: "u32 \<Rightarrow> bool"
  jitter_sample :: "u32 \<Rightarrow> f64"
  float_product :: "duration \<Rightarrow> rat \<Rightarrow> duration option"

text \<open>What the executor did, in order.\<close>

datatype retry_event = Attempted u32 | Slept duration

definition cancelled_error :: "ustr \<Rightarrow> operation \<Rightarrow> string \<Rightarrow> provider_error" where
  "cancelled_error provider op detail = provider_error_new Cancelled provider op (lit detail)"

definition run_exit ::
  "ustr \<Rightarrow> operation \<Rightarrow> provider_error option \<Rightarrow> ('a, provider_error) result" where
  "run_exit provider op last_error =
     Err (case last_error of Some e \<Rightarrow> e | None \<Rightarrow> cancelled_error provider op ''cancelled during backoff'')"

text \<open>The loop over the attempts that are left, \<open>attempt\<close> being the next one.\<close>

fun run_loop ::
  "'a attempt_env \<Rightarrow> retry_policy \<Rightarrow> ustr \<Rightarrow> operation \<Rightarrow> u32 \<Rightarrow> nat \<Rightarrow> u32 \<Rightarrow> provider_error option \<Rightarrow>
     ('a, provider_error) result \<times> retry_event list"
where
  "run_loop env p provider op attempts 0 attempt last_error = (run_exit provider op last_error, [])"
| "run_loop env p provider op attempts (Suc n) attempt last_error =
     (if cancelled_before env attempt
      then (Err (cancelled_error provider op ''cancelled before attempt''), [])
      else (case attempt_result env attempt of
        Ok v \<Rightarrow> (Ok v, [Attempted attempt])
      | Err e \<Rightarrow>
          (if \<not> (error_is_retryable e \<and> attempt < attempts) then (Err e, [Attempted attempt])
           else (let delay = delay_for (float_product env) p attempt (err_retry_after e)
                               (jitter_sample env attempt) in
             if cancelled_after env attempt then (run_exit provider op (Some e), [Attempted attempt])
             else if delay \<noteq> 0 \<and> cancelled_in_sleep env attempt
             then (run_exit provider op (Some e), [Attempted attempt])
             else (case run_loop env p provider op attempts n (attempt + 1) (Some e) of
               (r, trace) \<Rightarrow>
                 (r, Attempted attempt # (if delay \<noteq> 0 then [Slept delay] else []) @ trace))))))"

definition run_retry ::
  "'a attempt_env \<Rightarrow> retry_policy \<Rightarrow> ustr \<Rightarrow> operation \<Rightarrow> ('a, provider_error) result \<times> retry_event list" where
  "run_retry env p provider op =
     (let attempts = max (max_attempts p) 1 in
      run_loop env p provider op attempts (unat attempts) 1 None)"

section \<open>Delays\<close>

lemma backoff_loop_le: "backoff_loop p n d \<le> max_backoff p"
  by (induction p n d rule: backoff_loop.induct) (auto simp: Let_def)

lemma base_backoff_le: "base_backoff p attempt \<le> max_backoff p"
  by (simp add: base_backoff_def backoff_loop_le)

lemma scale_le: "scale product d f \<le> d"
  by (cases f) (auto simp: scale_def)

lemma delay_for_le: "delay_for product p attempt hint sample \<le> max (max_backoff p) (max_retry_after p)"
proof -
  have "b div 2 + scale product (b div 2) sample \<le> b" for b
    using scale_le [of product "b div 2" sample] by linarith
  then show ?thesis
    using base_backoff_le [of p attempt] scale_le [of product "base_backoff p attempt" sample]
    by (auto simp: delay_for_def Let_def le_max_iff_disj
        intro: order_trans split: bool.splits option.splits jitter_mode.splits)
qed

text \<open>
  No delay is ever longer than the policy allows: whatever the attempt, the hint, the
  jitter sample (even one that is not a number) and the rounding of the floating-point product, a
  respected \<open>Retry-After\<close> hint is honoured exactly up to its ceiling, and any other delay is at most
  the exponential delay, which is at most the backoff ceiling; equal jitter keeps at least half of it.
\<close>

theorem delay_bounds:
  "delay_for product p attempt retry_after sample \<le> max (max_backoff p) (max_retry_after p) \<and>
   (case (respect_retry_after p, retry_after) of
      (True, Some hint) \<Rightarrow> delay_for product p attempt retry_after sample = min hint (max_retry_after p)
    | _ \<Rightarrow> delay_for product p attempt retry_after sample \<le> base_backoff p attempt \<and>
        base_backoff p attempt \<le> max_backoff p \<and>
        (if jitter p = EqualJitter
         then base_backoff p attempt div 2 \<le> delay_for product p attempt retry_after sample else True))"
proof -
  have half: "b div 2 + scale product (b div 2) sample \<le> b" for b
    using scale_le [of product "b div 2" sample] by linarith
  show ?thesis
    using base_backoff_le [of p attempt] scale_le [of product "base_backoff p attempt" sample]
      half [of "base_backoff p attempt"]
    by (auto simp: delay_for_def Let_def split: bool.splits option.splits jitter_mode.splits)
qed

text \<open>The loop without its shortcut for a multiplier that makes no progress.\<close>

fun plain_backoff :: "retry_policy \<Rightarrow> nat \<Rightarrow> duration \<Rightarrow> duration" where
  "plain_backoff p 0 delay = min delay (max_backoff p)"
| "plain_backoff p (Suc n) delay =
     (if max_backoff p \<le> scaled_backoff p delay then max_backoff p
      else plain_backoff p n (min (scaled_backoff p delay) (2 ^ 64 - 1)))"

lemma plain_backoff_fixpoint:
  "scaled_backoff p d = d \<Longrightarrow> d < 2 ^ 64 \<Longrightarrow> \<not> max_backoff p \<le> d \<Longrightarrow> plain_backoff p n d = d"
  by (induction n) auto

lemma backoff_loop_plain: "d < 2 ^ 64 \<Longrightarrow> backoff_loop p n d = plain_backoff p n d"
proof (induction p n d rule: backoff_loop.induct)
  case (2 p n d)
  show ?case
  proof (cases "max_backoff p \<le> scaled_backoff p d \<or> scaled_backoff p d \<noteq> d")
    case True
    with 2 show ?thesis by (auto simp: Let_def)
  next
    case False
    with 2(2) plain_backoff_fixpoint [of p d "Suc n"] show ?thesis by (auto simp: Let_def)
  qed
qed simp

text \<open>Exponential growth as a power, when nothing overflows and the multiplier is whole.\<close>

lemma plain_backoff_power:
  assumes "unat (multiplier_centi p) = 100 * k" and "1 \<le> k" and "max_backoff p < 2 ^ 64"
  shows "d \<le> max_backoff p \<Longrightarrow> plain_backoff p n d = min (d * k ^ n) (max_backoff p)"
proof (induction n arbitrary: d)
  case (Suc n)
  have "d * (100 * k) < 2 ^ 64 * 2 ^ 32"
    using Suc.prems assms(3) unat_bound [of "multiplier_centi p"] assms(1)
    by (intro mult_strict_mono') auto
  then have scaled: "scaled_backoff p d = d * k"
    by (simp add: scaled_backoff_def assms(1) min_absorb1 mult.commute mult.left_commute)
  show ?case
  proof (cases "max_backoff p \<le> d * k")
    case True
    also have "d * k \<le> d * k * k ^ n"
      using mult_le_mono2 [OF one_le_power [OF assms(2)], of "d * k" n] by simp
    finally have "max_backoff p \<le> d * (k * k ^ n)" by (simp add: mult.assoc)
    with True show ?thesis by (simp add: scaled min_absorb2)
  next
    case False
    with Suc.IH [of "d * k"] assms(3) show ?thesis by (simp add: scaled mult.assoc min_absorb1)
  qed
qed simp

text \<open>
  The backoff is the exponential it claims to be: for a whole multiplier and a ceiling
  below 584 years, the delay before each further attempt is the initial delay times that power of the
  multiplier, cut at the ceiling. The shortcut the loop takes when a step makes no progress is
  invisible.
\<close>

theorem base_backoff_exponential:
  assumes "unat (multiplier_centi p) = 100 * k" and "1 \<le> k"
    and "initial_backoff p \<le> max_backoff p" and "max_backoff p < 2 ^ 64" and "attempt \<noteq> 0"
  shows "base_backoff p attempt = min (initial_backoff p * k ^ (unat attempt - 1)) (max_backoff p)"
proof -
  have "initial_backoff p < 2 ^ 64" using assms(3,4) by linarith
  then show ?thesis
    using plain_backoff_power [OF assms(1,2,4,3)] assms(5)
    by (simp add: base_backoff_def backoff_loop_plain)
qed

theorem base_backoff_exponential_witness:
  "base_backoff retry_policy_default 4 = 4000000000 \<and>
   base_backoff retry_policy_default 100 = 30000000000"
proof -
  have d: "unat (multiplier_centi retry_policy_default) = 100 * 2" "(1 :: nat) \<le> 2"
    "initial_backoff retry_policy_default \<le> max_backoff retry_policy_default"
    "max_backoff retry_policy_default < 2 ^ 64"
    by (simp_all add: retry_policy_default_def)
  show ?thesis
    using base_backoff_exponential [OF d, of 4] base_backoff_exponential [OF d, of 100]
    by (simp add: retry_policy_default_def)
qed

section \<open>The executor's run\<close>

definition attempts_of :: "retry_event list \<Rightarrow> u32 list" where
  "attempts_of tr = List.map_filter (\<lambda>e. case e of Attempted n \<Rightarrow> Some n | Slept _ \<Rightarrow> None) tr"

definition sleeps_of :: "retry_event list \<Rightarrow> duration list" where
  "sleeps_of tr = List.map_filter (\<lambda>e. case e of Attempted _ \<Rightarrow> None | Slept d \<Rightarrow> Some d) tr"

lemma trace_simps [simp]:
  "attempts_of [] = []" "sleeps_of [] = []"
  "attempts_of (Attempted n # tr) = n # attempts_of tr" "attempts_of (Slept d # tr) = attempts_of tr"
  "sleeps_of (Attempted n # tr) = sleeps_of tr" "sleeps_of (Slept d # tr) = d # sleeps_of tr"
  by (simp_all add: attempts_of_def sleeps_of_def List.map_filter_def)

text \<open>
  Why a run stopped after attempt \<open>a\<close>: it succeeded, its error is final, it was the last one, or
  the caller cancelled after it or during its backoff.
\<close>

definition stops_at :: "'a attempt_env \<Rightarrow> u32 \<Rightarrow> u32 \<Rightarrow> bool" where
  "stops_at env attempts a \<longleftrightarrow>
     (case attempt_result env a of
        Ok _ \<Rightarrow> True
      | Err e \<Rightarrow> \<not> error_is_retryable e \<or> a = attempts \<or> cancelled_after env a \<or> cancelled_in_sleep env a)"

definition fails_retryably :: "'a attempt_env \<Rightarrow> u32 \<Rightarrow> bool" where
  "fails_retryably env a \<longleftrightarrow> (case attempt_result env a of Ok _ \<Rightarrow> False | Err e \<Rightarrow> error_is_retryable e)"

text \<open>The attempts \<open>first\<close>, \<open>first + 1\<close>, \<dots>, \<open>k\<close> of them.\<close>

definition attempts_from :: "u32 \<Rightarrow> nat \<Rightarrow> u32 list" where
  "attempts_from first k = map (\<lambda>i. first + of_nat i) [0..<k]"

lemma attempts_from_Suc: "attempts_from a (Suc k) = a # attempts_from (a + 1) k"
  unfolding attempts_from_def upt_conv_Cons [OF zero_less_Suc]
  by (simp add: map_Suc_upt [symmetric] o_def add.assoc del: upt_Suc)

definition run_stop ::
  "'a attempt_env \<Rightarrow> retry_policy \<Rightarrow> ustr \<Rightarrow> operation \<Rightarrow> u32 \<Rightarrow> nat \<Rightarrow> u32 \<Rightarrow> nat \<Rightarrow>
     ('a, provider_error) result \<times> retry_event list \<Rightarrow> bool" where
  "run_stop env p provider op attempts n a k out \<longleftrightarrow>
     k \<le> n \<and> attempts_of (snd out) = attempts_from a k \<and>
     (\<forall>i < k - 1. fails_retryably env (a + of_nat i)) \<and>
     (\<forall>d \<in> set (sleeps_of (snd out)). 0 < d \<and> d \<le> max (max_backoff p) (max_retry_after p)) \<and>
     length (sleeps_of (snd out)) \<le> k \<and>
     ((0 < k \<and> fst out = attempt_result env (a + of_nat (k - 1)) \<and>
         stops_at env attempts (a + of_nat (k - 1)) \<and> length (sleeps_of (snd out)) < k) \<or>
      (k < n \<and> cancelled_before env (a + of_nat k) \<and> (\<forall>i < k. fails_retryably env (a + of_nat i)) \<and>
         fst out = Err (cancelled_error provider op ''cancelled before attempt'')))"

lemma run_stop_here:
  assumes "fst out = attempt_result env a" and "snd out = [Attempted a]" and "stops_at env attempts a"
  shows "run_stop env p provider op attempts (Suc m) a 1 out"
  using assms by (simp add: run_stop_def attempts_from_def)

lemma run_stop_later:
  assumes later: "run_stop env p provider op attempts m (a + 1) k (r, tr)"
    and failed: "fails_retryably env a"
    and delay: "delay \<le> max (max_backoff p) (max_retry_after p)"
  shows "run_stop env p provider op attempts (Suc m) a (Suc k)
    (r, Attempted a # (if delay \<noteq> 0 then [Slept delay] else []) @ tr)"
proof -
  have shift: "a + 1 + of_nat i = a + of_nat (Suc i)" for i
    by (simp add: add.assoc)
  have before: "fails_retryably env (a + of_nat i)"
    if "i < Suc j" "\<forall>i < j. fails_retryably env (a + 1 + of_nat i)" for i j
    using that failed shift by (cases i) auto
  have pred: "0 < k \<Longrightarrow> a + 1 + of_nat (k - 1) = a + of_nat k"
    using shift [of "k - 1"] by simp
  have prefix: "\<forall>i < k. fails_retryably env (a + of_nat i)"
  proof (cases k)
    case (Suc j)
    then show ?thesis
      using later before [of _ j] by (auto simp: run_stop_def)
  qed simp
  show ?thesis
  proof (cases "0 < k \<and> r = attempt_result env (a + 1 + of_nat (k - 1)) \<and>
      stops_at env attempts (a + 1 + of_nat (k - 1)) \<and> length (sleeps_of tr) < k")
    case True
    with later prefix delay pred show ?thesis
      by (auto simp: run_stop_def attempts_from_Suc)
  next
    case False
    with later have stop: "k < m" "cancelled_before env (a + of_nat (Suc k))"
      "\<forall>i < k. fails_retryably env (a + 1 + of_nat i)"
      "r = Err (cancelled_error provider op ''cancelled before attempt'')"
      by (auto simp: run_stop_def shift)
    have "\<forall>i < Suc k. fails_retryably env (a + of_nat i)"
      using before [OF _ stop(3)] by blast
    with later prefix delay stop show ?thesis
      by (auto simp: run_stop_def attempts_from_Suc)
  qed
qed

lemma run_loop_spec:
  assumes "unat a + n = Suc (unat attempts)" and "0 < n"
  shows "\<exists>k. run_stop env p provider op attempts n a k
    (run_loop env p provider op attempts n a last_error)"
  using assms
proof (induction n arbitrary: a last_error)
  case (Suc m)
  show ?case
  proof (cases "cancelled_before env a")
    case True
    then show ?thesis
      by (intro exI [of _ 0]) (simp add: run_stop_def attempts_from_def)
  next
    case running: False
    show ?thesis
    proof (cases "attempt_result env a")
      case (Ok v)
      with running show ?thesis
        by (intro exI [of _ 1] run_stop_here) (simp_all add: stops_at_def)
    next
      case (Err e)
      let ?delay = "delay_for (float_product env) p a (err_retry_after e) (jitter_sample env a)"
      have bound: "?delay \<le> max (max_backoff p) (max_retry_after p)"
        by (rule delay_for_le)
      have le: "unat a \<le> unat attempts" using Suc.prems by simp
      show ?thesis
      proof (cases "error_is_retryable e \<and> a < attempts \<and> \<not> cancelled_after env a \<and>
          \<not> (?delay \<noteq> 0 \<and> cancelled_in_sleep env a)")
        case True
        have succ: "unat (a + 1) = Suc (unat a)"
          using True unat_bound [of attempts] by (auto simp: word_less_nat_alt unat_word_ariths)
        have "unat (a + 1) + m = Suc (unat attempts)" "0 < m"
          using Suc.prems succ True by (auto simp: word_less_nat_alt)
        moreover obtain r tr where
          rest: "run_loop env p provider op attempts m (a + 1) (Some e) = (r, tr)"
          by (cases "run_loop env p provider op attempts m (a + 1) (Some e)")
        ultimately obtain k where "run_stop env p provider op attempts m (a + 1) k (r, tr)"
          using Suc.IH [of "a + 1" "Some e"] by auto
        then have "run_stop env p provider op attempts (Suc m) a (Suc k)
            (r, Attempted a # (if ?delay \<noteq> 0 then [Slept ?delay] else []) @ tr)"
          by (rule run_stop_later) (use True Err bound in \<open>simp_all add: fails_retryably_def\<close>)
        moreover have "run_loop env p provider op attempts (Suc m) a last_error =
            (r, Attempted a # (if ?delay \<noteq> 0 then [Slept ?delay] else []) @ tr)"
          using True running Err rest by (auto simp: Let_def)
        ultimately show ?thesis by metis
      next
        case False
        then have "stops_at env attempts a"
          using Err le by (auto simp: stops_at_def word_less_nat_alt word_unat_eq_iff)
        with False running Err show ?thesis
          by (intro exI [of _ 1] run_stop_here) (auto simp: Let_def run_exit_def)
      qed
    qed
  qed
qed simp

text \<open>
  A run is exactly the documented one: it makes attempts 1, 2, \<dots>, \<open>k\<close> in order, never
  more than the policy allows (and at least one is always allowed); every attempt before the last
  failed with a retryable error; every sleep is positive and within the ceilings; and it returns what
  the last attempt returned, which succeeded, is final, was the last allowed or was followed by a
  cancellation, or else the caller had cancelled before the next attempt and it says so.
\<close>

theorem retry_run_exact:
  "\<exists>k \<le> unat (max (max_attempts p) 1).
     let (r, tr) = run_retry env p provider op in
     attempts_of tr = attempts_from 1 k \<and>
     (\<forall>i < k - 1. fails_retryably env (1 + of_nat i)) \<and>
     (\<forall>d \<in> set (sleeps_of tr). 0 < d \<and> d \<le> max (max_backoff p) (max_retry_after p)) \<and>
     length (sleeps_of tr) \<le> k \<and>
     ((0 < k \<and> r = attempt_result env (of_nat k) \<and>
         stops_at env (max (max_attempts p) 1) (of_nat k)) \<or>
      (cancelled_before env (of_nat (Suc k)) \<and> (\<forall>i < k. fails_retryably env (1 + of_nat i)) \<and>
         r = Err (cancelled_error provider op ''cancelled before attempt'')))"
proof -
  let ?n = "max (max_attempts p) 1"
  have "1 \<le> ?n" by simp
  then have "0 < unat ?n" by (simp add: word_le_nat_alt)
  then obtain k where stop: "run_stop env p provider op ?n (unat ?n) 1 k (run_retry env p provider op)"
    using run_loop_spec [of 1 "unat ?n" ?n env p provider op None] by (auto simp: run_retry_def Let_def)
  have last: "0 < k \<Longrightarrow> 1 + of_nat (k - 1) = (of_nat k :: u32)"
    by (cases k) simp_all
  show ?thesis
    using stop last unfolding run_stop_def
    by (intro exI [of _ k]) (auto simp: Let_def split: prod.splits)
qed

text \<open>
  A cancellation noticed after a retryable failure does not turn the result into a cancellation: the
  caller gets that failure.
\<close>

lemma cancel_in_backoff_returns_failure:
  assumes "\<not> cancelled_before env 1" and "attempt_result env 1 = Err e" and "error_is_retryable e"
    and "1 < max_attempts p" and "cancelled_after env 1"
  shows "fst (run_retry env p provider op) = Err e"
proof -
  have "max (max_attempts p) 1 = max_attempts p" using assms(4) by (simp add: max_absorb1 less_imp_le)
  moreover obtain n where "unat (max_attempts p) = Suc n"
    using assms(4) by (cases "unat (max_attempts p)") (auto simp: word_less_nat_alt)
  ultimately show ?thesis
    using assms by (simp add: run_retry_def Let_def run_exit_def)
qed

text \<open>The environment of one transient failure and then a success.\<close>

definition flaky_env :: "nat attempt_env" where
  "flaky_env =
     \<lparr>cancelled_before = \<lambda>_. False,
      attempt_result = \<lambda>a. if a = 1 then Err (provider_error_new Server [] OpPing []) else Ok 7,
      cancelled_after = \<lambda>_. False, cancelled_in_sleep = \<lambda>_. False,
      jitter_sample = \<lambda>_. Finite 1, float_product = \<lambda>d _. Some d\<rparr>"

lemma flaky_facts:
  "\<not> cancelled_before flaky_env a" "\<not> stops_at flaky_env (max (max_attempts retry_policy_default) 1) 1"
  "a \<noteq> 1 \<Longrightarrow> attempt_result flaky_env a = Ok 7"
  by (simp_all add: flaky_env_def stops_at_def error_is_retryable_def provider_error_new_def
      is_retryable_def retry_policy_default_def max_def word_le_nat_alt)

theorem retry_run_exact_witness:
  "fst (run_retry flaky_env retry_policy_default [] OpPing) = Ok 7"
proof -
  obtain r tr where run: "run_retry flaky_env retry_policy_default [] OpPing = (r, tr)"
    by (cases "run_retry flaky_env retry_policy_default [] OpPing")
  obtain k where "r = attempt_result flaky_env (of_nat k)"
    "stops_at flaky_env (max (max_attempts retry_policy_default) 1) (of_nat k)"
    using retry_run_exact [of retry_policy_default flaky_env "[]" OpPing] flaky_facts(1)
    unfolding run by auto
  with flaky_facts(2,3) show ?thesis unfolding run by (metis fst_conv)
qed

end
