(* ===== verification/Provider_Sse.thy ===== *)
theory Provider_Sse
  imports Claw_Prelude "HOL-Library.Sublist"
begin

text \<open>
  The incremental decoders of a provider stream (crates/claw-provider-sdk/src/sse.rs): server-sent
  events and newline-delimited payloads. A \<open>String\<close> is its UTF-8 bytes, and \<open>from_utf8\<close> is the
  check that they are well formed: everything the decoders look for is ASCII, and an ASCII byte of a
  well-formed string is always a character of its own. A \<open>Duration\<close> is its number of milliseconds.
\<close>

section \<open>Bytes and text\<close>

definition ascii :: "string \<Rightarrow> u8 list" where
  "ascii s = map of_char s"

definition is_continuation :: "u8 \<Rightarrow> bool" where
  "is_continuation b \<longleftrightarrow> 0x80 \<le> b \<and> b \<le> 0xBF"

text \<open>\<open>String::from_utf8\<close> succeeds: the well-formed sequences of the Unicode standard, table 3-7.\<close>

fun utf8_valid :: "u8 list \<Rightarrow> bool" where
  "utf8_valid [] = True"
| "utf8_valid [a] = (a < 0x80)"
| "utf8_valid [a, b] =
     (if a < 0x80 then utf8_valid [b] else 0xC2 \<le> a \<and> a \<le> 0xDF \<and> is_continuation b)"
| "utf8_valid [a, b, c] =
     (if a < 0x80 then utf8_valid [b, c]
      else if a \<le> 0xDF then 0xC2 \<le> a \<and> is_continuation b \<and> utf8_valid [c]
      else a \<le> 0xEF \<and> (if a = 0xE0 then 0xA0 \<le> b else True) \<and> (if a = 0xED then b \<le> 0x9F else True) \<and>
        is_continuation b \<and> is_continuation c)"
| "utf8_valid (a # b # c # d # s) =
     (if a < 0x80 then utf8_valid (b # c # d # s)
      else if a \<le> 0xDF then 0xC2 \<le> a \<and> is_continuation b \<and> utf8_valid (c # d # s)
      else if a \<le> 0xEF
      then (if a = 0xE0 then 0xA0 \<le> b else True) \<and> (if a = 0xED then b \<le> 0x9F else True) \<and>
        is_continuation b \<and> is_continuation c \<and> utf8_valid (d # s)
      else a \<le> 0xF4 \<and> (if a = 0xF0 then 0x90 \<le> b else True) \<and> (if a = 0xF4 then b \<le> 0x8F else True) \<and>
        is_continuation b \<and> is_continuation c \<and> is_continuation d \<and> utf8_valid s)"

lemma utf8_valid_ascii: "a < 0x80 \<Longrightarrow> utf8_valid (a # s) = utf8_valid s"
  by (cases "a # s" rule: utf8_valid.cases) auto

lemma utf8_valid_prefix: "list_all (\<lambda>b. b < 0x80) p \<Longrightarrow> utf8_valid (p @ s) = utf8_valid s"
  by (induction p) (simp_all add: utf8_valid_ascii)

definition LF :: u8 where "LF = 0x0A"

definition CR :: u8 where "CR = 0x0D"

definition COLON :: u8 where "COLON = 0x3A"

definition SPACE :: u8 where "SPACE = 0x20"

text \<open>\<open>split_once\<close> at the first occurrence.\<close>

fun split_once :: "u8 \<Rightarrow> u8 list \<Rightarrow> (u8 list \<times> u8 list) option" where
  "split_once sep [] = None"
| "split_once sep (b # bs) =
     (if b = sep then Some ([], bs)
      else (case split_once sep bs of None \<Rightarrow> None | Some (l, r) \<Rightarrow> Some (b # l, r)))"

definition strip_space :: "u8 list \<Rightarrow> u8 list" where
  "strip_space v = (case v of [] \<Rightarrow> [] | b # bs \<Rightarrow> if b = SPACE then bs else v)"

definition digit_byte :: "u8 \<Rightarrow> bool" where
  "digit_byte b \<longleftrightarrow> 0x30 \<le> b \<and> b \<le> 0x39"

text \<open>\<open>parse::<u64>\<close> of digits: \<open>None\<close> when the number does not fit.\<close>

definition parse_digits :: "u8 list \<Rightarrow> nat option" where
  "parse_digits bs =
     (let n = fold (\<lambda>b n. 10 * n + (unat b - 0x30)) bs 0 in if n < 2 ^ 64 then Some n else None)"

section \<open>Server-sent events\<close>

definition DEFAULT_MAX_LINE_BYTES :: nat where
  "DEFAULT_MAX_LINE_BYTES = 1048576"

definition DEFAULT_MAX_EVENT_BYTES :: nat where
  "DEFAULT_MAX_EVENT_BYTES = 8388608"

definition BOM :: "u8 list" where
  "BOM = [0xEF, 0xBB, 0xBF]"

datatype stream_decode_error = LineTooLong nat | EventTooLarge nat | InvalidUtf8

record sse_event =
  ev_event :: "u8 list"
  ev_data :: "u8 list"
  ev_id :: "u8 list option"
  ev_retry :: "nat option"

record sse_decoder =
  line :: "u8 list"
  data :: "u8 list"
  event :: "u8 list"
  last_id :: "u8 list option"
  retry :: "nat option"
  saw_data_field :: bool
  pending_cr :: bool
  checked_bom :: bool
  bom_progress :: nat
  max_line_bytes :: nat
  max_event_bytes :: nat

definition with_limits :: "nat \<Rightarrow> nat \<Rightarrow> sse_decoder" where
  "with_limits l e =
     \<lparr>line = [], data = [], event = [], last_id = None, retry = None, saw_data_field = False,
      pending_cr = False, checked_bom = False, bom_progress = 0, max_line_bytes = max l 1,
      max_event_bytes = max e 1\<rparr>"

definition sse_new :: sse_decoder where
  "sse_new = with_limits DEFAULT_MAX_LINE_BYTES DEFAULT_MAX_EVENT_BYTES"

definition dispatch :: "sse_event list \<Rightarrow> sse_decoder \<Rightarrow> sse_event list \<times> sse_decoder" where
  "dispatch evs d =
     (evs @ [\<lparr>ev_event = (if event d = [] then ascii ''message'' else event d), ev_data = data d,
              ev_id = last_id d, ev_retry = retry d\<rparr>],
      d\<lparr>data := [], event := [], saw_data_field := False\<rparr>)"

text \<open>One field of an event, with its value.\<close>

definition sse_field :: "u8 list \<Rightarrow> u8 list \<Rightarrow> sse_decoder \<Rightarrow> (unit, stream_decode_error) result \<times> sse_decoder" where
  "sse_field field val d =
     (if field = ascii ''event'' then (Ok (), d\<lparr>event := val\<rparr>)
      else if field = ascii ''data''
      then (if length (data d) + length val + 1 > max_event_bytes d
            then (Err (EventTooLarge (max_event_bytes d)), d)
            else (Ok (), d\<lparr>data := data d @ (if saw_data_field d then [LF] else []) @ val, saw_data_field := True\<rparr>))
      else if field = ascii ''id'' then (Ok (), if 0 \<in> set val then d else d\<lparr>last_id := Some val\<rparr>)
      else if field = ascii ''retry''
      then (Ok (), if val \<noteq> [] \<and> list_all digit_byte val
                   then (case parse_digits val of Some n \<Rightarrow> d\<lparr>retry := Some n\<rparr> | None \<Rightarrow> d) else d)
      else (Ok (), d))"

definition line_field :: "u8 list \<Rightarrow> u8 list \<times> u8 list" where
  "line_field l = (case split_once COLON l of Some (f, v) \<Rightarrow> (f, strip_space v) | None \<Rightarrow> (l, []))"

definition end_line ::
  "sse_event list \<Rightarrow> sse_decoder \<Rightarrow> (sse_event list, stream_decode_error) result \<times> sse_decoder" where
  "end_line evs d =
     (let l = line d; d = d\<lparr>line := []\<rparr> in
      if \<not> utf8_valid l then (Err InvalidUtf8, d)
      else if l = []
      then (if saw_data_field d then (case dispatch evs d of (evs, d) \<Rightarrow> (Ok evs, d))
            else (Ok evs, d\<lparr>event := []\<rparr>))
      else if hd l = COLON then (Ok evs, d)
      else (case line_field l of
              (field, val) \<Rightarrow>
                (case sse_field field val d of
                   (Ok _, d) \<Rightarrow> (Ok evs, d)
                 | (Err e, d) \<Rightarrow> (Err e, d))))"

text \<open>The loop of \<open>push\<close> over the bytes that are left of a chunk.\<close>

fun push_loop ::
  "u8 list \<Rightarrow> sse_event list \<Rightarrow> sse_decoder \<Rightarrow> (sse_event list, stream_decode_error) result \<times> sse_decoder" where
  "push_loop [] evs d = (Ok evs, d)"
| "push_loop (b # bs) evs d =
     (let d' = d\<lparr>pending_cr := False\<rparr> in
      if pending_cr d \<and> b = LF then push_loop bs evs d'
      else if b = CR
      then (case end_line evs (d'\<lparr>pending_cr := True\<rparr>) of
              (Ok evs, d) \<Rightarrow> push_loop bs evs d
            | (Err e, d) \<Rightarrow> (Err e, d))
      else if b = LF
      then (case end_line evs d' of
              (Ok evs, d) \<Rightarrow> push_loop bs evs d
            | (Err e, d) \<Rightarrow> (Err e, d))
      else if length (line d') \<ge> max_line_bytes d' then (Err (LineTooLong (max_line_bytes d')), d')
      else push_loop bs evs (d'\<lparr>line := line d' @ [b]\<rparr>))"

text \<open>The loop of \<open>strip_byte_order_mark\<close>: the rest of the chunk and the decoder.\<close>

fun strip_bom_loop :: "u8 list \<Rightarrow> sse_decoder \<Rightarrow> u8 list \<times> sse_decoder" where
  "strip_bom_loop [] d = ([], if bom_progress d = length BOM then d\<lparr>checked_bom := True\<rparr> else d)"
| "strip_bom_loop (b # bs) d =
     (if bom_progress d < length BOM
      then (if b = BOM ! bom_progress d then strip_bom_loop bs (d\<lparr>bom_progress := bom_progress d + 1\<rparr>)
            else (b # bs, d\<lparr>checked_bom := True, bom_progress := 0, line := line d @ take (bom_progress d) BOM\<rparr>))
      else (b # bs, d\<lparr>checked_bom := True\<rparr>))"

definition strip_byte_order_mark :: "u8 list \<Rightarrow> sse_decoder \<Rightarrow> u8 list \<times> sse_decoder" where
  "strip_byte_order_mark chunk d = (if checked_bom d then (chunk, d) else strip_bom_loop chunk d)"

definition sse_push ::
  "u8 list \<Rightarrow> sse_decoder \<Rightarrow> (sse_event list, stream_decode_error) result \<times> sse_decoder" where
  "sse_push chunk d = (case strip_byte_order_mark chunk d of (rest, d) \<Rightarrow> push_loop rest [] d)"

definition sse_finish ::
  "sse_decoder \<Rightarrow> (sse_event list, stream_decode_error) result \<times> sse_decoder" where
  "sse_finish d =
     (let d = d\<lparr>line := []\<rparr> in
      if saw_data_field d then (case dispatch [] d of (evs, d) \<Rightarrow> (Ok evs, d)) else (Ok [], d))"

section \<open>Newline-delimited payloads\<close>

record line_decoder =
  buffer :: "u8 list"
  line_limit :: nat

definition line_decoder_new :: "nat \<Rightarrow> line_decoder" where
  "line_decoder_new l = \<lparr>buffer = [], line_limit = max l 1\<rparr>"

definition trim_end_cr :: "u8 list \<Rightarrow> u8 list" where
  "trim_end_cr l = rev (dropWhile ((=) CR) (rev l))"

fun line_push ::
  "u8 list \<Rightarrow> u8 list list \<Rightarrow> line_decoder \<Rightarrow> (u8 list list, stream_decode_error) result \<times> line_decoder" where
  "line_push [] ls d = (Ok ls, d)"
| "line_push (b # bs) ls d =
     (if b = LF
      then (let l = buffer d; d = d\<lparr>buffer := []\<rparr> in
            if \<not> utf8_valid l then (Err InvalidUtf8, d)
            else line_push bs (if trim_end_cr l \<noteq> [] then ls @ [trim_end_cr l] else ls) d)
      else if length (buffer d) \<ge> line_limit d then (Err (LineTooLong (line_limit d)), d)
      else line_push bs ls (d\<lparr>buffer := buffer d @ [b]\<rparr>))"

definition line_finish :: "line_decoder \<Rightarrow> (u8 list option, stream_decode_error) result \<times> line_decoder" where
  "line_finish d =
     (if buffer d = [] then (Ok None, d)
      else (let l = buffer d; d = d\<lparr>buffer := []\<rparr> in
            if \<not> utf8_valid l then (Err InvalidUtf8, d)
            else if trim_end_cr l = [] then (Ok None, d) else (Ok (Some (trim_end_cr l)), d)))"

section \<open>Chunks do not matter\<close>

text \<open>
  Feeding chunks one after the other, up to the first error: what the pushes have handed out, the error
  if there was one, and the decoder. A push that fails hands out nothing, but what earlier pushes
  handed out is with the caller.
\<close>

fun feed ::
  "(u8 list \<Rightarrow> 'd \<Rightarrow> ('e list, stream_decode_error) result \<times> 'd) \<Rightarrow> u8 list list \<Rightarrow> 'd
    \<Rightarrow> 'e list \<times> stream_decode_error option \<times> 'd" where
  "feed push [] d = ([], None, d)"
| "feed push (c # cs) d =
     (case push c d of
        (Ok new, d) \<Rightarrow> (case feed push cs d of (evs, failed, d) \<Rightarrow> (new @ evs, failed, d))
      | (Err e, d) \<Rightarrow> ([], Some e, d))"

definition sse_feed :: "u8 list list \<Rightarrow> sse_decoder \<Rightarrow> sse_event list \<times> stream_decode_error option \<times> sse_decoder" where
  "sse_feed = feed sse_push"

definition line_feed :: "u8 list list \<Rightarrow> line_decoder \<Rightarrow> u8 list list \<times> stream_decode_error option \<times> line_decoder" where
  "line_feed = feed (\<lambda>chunk. line_push chunk [])"

text \<open>The stream one byte at a time, which withholds nothing.\<close>

abbreviation bytewise :: "u8 list \<Rightarrow> u8 list list" where
  "bytewise bs \<equiv> map (\<lambda>b. [b]) bs"

text \<open>Everything a step emits is appended to what was emitted before.\<close>

definition emitted_after ::
  "'e list \<Rightarrow> ('e list, stream_decode_error) result \<times> 'd \<Rightarrow> ('e list, stream_decode_error) result \<times> 'd" where
  "emitted_after evs r = (case r of (Ok new, d) \<Rightarrow> (Ok (evs @ new), d) | (Err e, d) \<Rightarrow> (Err e, d))"

lemma emitted_after_simps [simp]:
  "emitted_after evs (Ok new, d) = (Ok (evs @ new), d)" "emitted_after evs (Err e, d) = (Err e, d)"
  by (simp_all add: emitted_after_def)

lemma emitted_after_append: "emitted_after (a @ b) r = emitted_after a (emitted_after b r)"
  by (simp add: emitted_after_def split: prod.split result.split)

lemma sse_field_frame:
  "sse_field f v d = (r, d') \<Longrightarrow> checked_bom d' = checked_bom d \<and> bom_progress d' = bom_progress d \<and>
     max_line_bytes d' = max_line_bytes d \<and> max_event_bytes d' = max_event_bytes d \<and> line d' = line d \<and>
     pending_cr d' = pending_cr d"
  by (auto simp: sse_field_def split: if_splits option.splits)

lemma end_line_emits: "end_line evs d = emitted_after evs (end_line [] d)"
  by (simp add: end_line_def emitted_after_def dispatch_def Let_def split: prod.split result.split)

lemma end_line_frame:
  assumes "end_line evs d = (r, d')"
  shows "checked_bom d' = checked_bom d \<and> bom_progress d' = bom_progress d \<and>
     max_line_bytes d' = max_line_bytes d \<and> max_event_bytes d' = max_event_bytes d \<and> line d' = [] \<and>
     pending_cr d' = pending_cr d"
proof -
  obtain f v where fv: "line_field (line d) = (f, v)" by fastforce
  obtain r1 d1 where f: "sse_field f v (d\<lparr>line := []\<rparr>) = (r1, d1)" by fastforce
  from sse_field_frame [OF f] show ?thesis
    using assms by (cases r1) (auto simp: end_line_def dispatch_def Let_def fv f split: if_splits)
qed

lemma push_loop_emits: "push_loop bs evs d = emitted_after evs (push_loop bs [] d)"
proof (induction bs arbitrary: evs d)
  case Nil
  show ?case by (simp add: emitted_after_def)
next
  case (Cons b bs)
  have ended: "(case end_line evs d0 of (Ok evs, d) \<Rightarrow> push_loop bs evs d | (Err e, d) \<Rightarrow> (Err e, d)) =
      emitted_after evs (case end_line [] d0 of (Ok evs, d) \<Rightarrow> push_loop bs evs d | (Err e, d) \<Rightarrow> (Err e, d))" for d0
  proof -
    obtain r d1 where e: "end_line [] d0 = (r, d1)" by fastforce
    show ?thesis
    proof (cases r)
      case (Ok new)
      have "push_loop bs (evs @ new) d1 = emitted_after evs (push_loop bs new d1)"
        unfolding Cons [of "evs @ new" d1] Cons [of new d1] by (rule emitted_after_append)
      then show ?thesis unfolding end_line_emits [of evs d0] e by (simp add: Ok emitted_after_def)
    next
      case (Err x)
      then show ?thesis unfolding end_line_emits [of evs d0] e by (simp add: emitted_after_def)
    qed
  qed
  show ?case
    using Cons [of evs] ended by (simp add: Let_def)
qed

lemma push_loop_append:
  "push_loop (xs @ ys) evs d =
     (case push_loop xs evs d of (Ok evs, d) \<Rightarrow> push_loop ys evs d | (Err e, d) \<Rightarrow> (Err e, d))"
  by (induction xs arbitrary: evs d) (simp_all add: Let_def split: prod.split result.split)

lemma push_loop_frame:
  "push_loop bs evs d = (r, d') \<Longrightarrow> checked_bom d' = checked_bom d \<and> bom_progress d' = bom_progress d \<and>
     max_line_bytes d' = max_line_bytes d \<and> max_event_bytes d' = max_event_bytes d"
proof (induction bs arbitrary: evs d)
  case (Cons b bs)
  then show ?case
    by (auto simp: Let_def split: if_splits prod.splits result.splits dest: end_line_frame)
qed simp

text \<open>A byte-order mark is stripped the same way wherever the first chunks are cut.\<close>

lemma strip_bom_loop_frame:
  "strip_bom_loop xs d = (rest, d') \<Longrightarrow> checked_bom d' \<or> rest = []"
  by (induction xs d rule: strip_bom_loop.induct) (auto split: if_splits)

lemma strip_bom_loop_append:
  assumes "strip_bom_loop xs d = (rest, d')" and "\<not> checked_bom d" and "bom_progress d < length BOM"
  shows "strip_bom_loop (xs @ ys) d = (if checked_bom d' then (rest @ ys, d') else strip_bom_loop ys d')"
  using assms
proof (induction xs d rule: strip_bom_loop.induct)
  case (1 d)
  then show ?case by auto
next
  case (2 b bs d)
  show ?case
  proof (cases "b = BOM ! bom_progress d")
    case next_byte: True
    let ?d = "d\<lparr>bom_progress := bom_progress d + 1\<rparr>"
    have step: "strip_bom_loop (b # zs) d = strip_bom_loop zs ?d" for zs using 2(4) next_byte by simp
    then have run: "strip_bom_loop bs ?d = (rest, d')" using 2(2) by simp
    show ?thesis
    proof (cases "bom_progress ?d < length BOM")
      case True
      have "\<not> checked_bom ?d" using 2(3) by simp
      from 2(1) [OF 2(4) next_byte run this True] show ?thesis unfolding append_Cons step .
    next
      case False
      then have full: "bom_progress ?d = length BOM" using 2(4) by simp
      have strip: "strip_bom_loop zs ?d = (zs, ?d\<lparr>checked_bom := True\<rparr>)" for zs
        using full by (cases zs) simp_all
      show ?thesis using 2(2) unfolding append_Cons step strip by auto
    qed
  next
    case False
    then show ?thesis using 2(2,4) by auto
  qed
qed

definition bom_ok :: "sse_decoder \<Rightarrow> bool" where
  "bom_ok d \<longleftrightarrow> checked_bom d \<or> bom_progress d < length BOM"

lemma strip_bom_loop_ok:
  "strip_bom_loop xs d = (rest, d') \<Longrightarrow> bom_progress d \<le> length BOM \<Longrightarrow> bom_ok d'"
  by (induction xs d rule: strip_bom_loop.induct) (auto simp: bom_ok_def split: if_splits)

lemma sse_push_ok: "sse_push c d = (r, d') \<Longrightarrow> bom_ok d \<Longrightarrow> bom_ok d'"
proof -
  assume run: "sse_push c d = (r, d')" and ok: "bom_ok d"
  obtain rest d1 where strip: "strip_byte_order_mark c d = (rest, d1)" by fastforce
  have "bom_ok d1"
    using strip ok strip_bom_loop_ok [of c d rest d1] by (auto simp: strip_byte_order_mark_def bom_ok_def split: if_splits)
  moreover have "checked_bom d' = checked_bom d1 \<and> bom_progress d' = bom_progress d1"
    using run strip push_loop_frame by (simp add: sse_push_def)
  ultimately show "bom_ok d'" by (simp add: bom_ok_def)
qed

lemma sse_push_append:
  assumes "bom_ok d"
  shows "sse_push (xs @ ys) d =
    (case sse_push xs d of (Ok evs, d) \<Rightarrow> emitted_after evs (sse_push ys d) | (Err e, d) \<Rightarrow> (Err e, d))"
proof -
  obtain rest d1 where strip: "strip_byte_order_mark xs d = (rest, d1)" by fastforce
  show ?thesis
  proof (cases "checked_bom d1")
    case True
    have all: "strip_byte_order_mark (xs @ ys) d = (rest @ ys, d1)"
      using strip True assms strip_bom_loop_append [of xs d rest d1 ys]
      by (auto simp: strip_byte_order_mark_def bom_ok_def split: if_splits)
    obtain r d2 where run: "push_loop rest [] d1 = (r, d2)" by fastforce
    have "checked_bom d2" using push_loop_frame [OF run] True by simp
    then have next_push: "sse_push ys d2 = push_loop ys [] d2" by (simp add: sse_push_def strip_byte_order_mark_def)
    have "sse_push xs d = (r, d2)" "sse_push (xs @ ys) d = push_loop (rest @ ys) [] d1"
      using strip all run by (simp_all add: sse_push_def)
    moreover have "push_loop (rest @ ys) [] d1 =
        (case r of Ok evs \<Rightarrow> push_loop ys evs d2 | Err e \<Rightarrow> (Err e, d2))"
      unfolding push_loop_append [of rest ys "[]" d1] run by (cases r) simp_all
    moreover have "push_loop ys evs d2 = emitted_after evs (sse_push ys d2)" for evs
      unfolding next_push by (rule push_loop_emits)
    ultimately show ?thesis by (cases r) simp_all
  next
    case False
    then have fresh: "\<not> checked_bom d" and strip': "strip_bom_loop xs d = (rest, d1)"
      using strip by (auto simp: strip_byte_order_mark_def split: if_splits)
    have empty: "rest = []" using strip_bom_loop_frame [OF strip'] False by simp
    have "strip_byte_order_mark (xs @ ys) d = strip_byte_order_mark ys d1"
      using strip_bom_loop_append [OF strip' fresh] fresh assms False
      by (simp add: strip_byte_order_mark_def bom_ok_def)
    then show ?thesis
      unfolding sse_push_def strip empty
      by (simp add: emitted_after_def split: prod.split result.split)
  qed
qed

lemma sse_push_nil: "bom_ok d \<Longrightarrow> sse_push [] d = (Ok [], d)"
  by (auto simp: sse_push_def strip_byte_order_mark_def bom_ok_def)

lemma line_push_emits: "line_push bs ls d = emitted_after ls (line_push bs [] d)"
proof (induction bs arbitrary: ls d)
  case (Cons b bs)
  have "line_push bs (ls @ [x]) d0 = emitted_after ls (line_push bs [x] d0)" for x d0
    unfolding Cons [of "ls @ [x]" d0] Cons [of "[x]" d0] by (rule emitted_after_append)
  then show ?case using Cons [of ls] by (simp add: Let_def)
qed simp

lemma line_push_append:
  "line_push (xs @ ys) ls d =
     (case line_push xs ls d of (Ok ls, d) \<Rightarrow> line_push ys ls d | (Err e, d) \<Rightarrow> (Err e, d))"
  by (induction xs arbitrary: ls d) (simp_all add: Let_def)

text \<open>
  What makes a decoder indifferent to how its stream is cut: a push of two pieces at once is the two
  pushes, one after the other.
\<close>

locale chunk_decoder =
  fixes push :: "u8 list \<Rightarrow> 'd \<Rightarrow> ('e list, stream_decode_error) result \<times> 'd"
    and fit :: "'d \<Rightarrow> bool"
  assumes push_nil: "fit d \<Longrightarrow> push [] d = (Ok [], d)"
    and push_both: "fit d \<Longrightarrow> push (xs @ ys) d =
      (case push xs d of (Ok evs, d) \<Rightarrow> emitted_after evs (push ys d) | (Err e, d) \<Rightarrow> (Err e, d))"
    and push_fit: "fit d \<Longrightarrow> push c d = (r, d') \<Longrightarrow> fit d'"
begin

lemma feed_at_once:
  "fit d \<Longrightarrow> feed push cs d = (evs, failed, d') \<Longrightarrow>
     push (concat cs) d = (case failed of None \<Rightarrow> Ok evs | Some e \<Rightarrow> Err e, d')"
proof (induction cs arbitrary: d evs failed d')
  case (Cons c cs)
  obtain r d1 where run: "push c d = (r, d1)" by fastforce
  obtain rest f d2 where more: "feed push cs d1 = (rest, f, d2)" by (cases "feed push cs d1") auto
  have "fit d1" using push_fit [OF Cons(2) run] .
  then show ?case
    using Cons(1) [OF _ more] Cons(2,3) run more
    by (cases r) (auto simp: push_both split: option.splits)
qed (simp add: push_nil)

lemma feed_cut:
  "feed push (xs @ ys) d =
     (case feed push xs d of
        (evs, None, d) \<Rightarrow> (case feed push ys d of (later, failed, d) \<Rightarrow> (evs @ later, failed, d))
      | (evs, Some e, d) \<Rightarrow> (evs, Some e, d))"
proof (induction xs arbitrary: d)
  case Nil
  show ?case by (simp split: prod.split)
next
  case (Cons c xs)
  obtain r d1 where run: "push c d = (r, d1)" by fastforce
  show ?case by (cases r) (simp_all add: run Cons split: prod.split option.split)
qed

text \<open>A push that succeeds hands out what its bytes hand out one by one.\<close>

lemma feed_bytes:
  assumes "fit d" and "push c d = (Ok new, d1)"
  shows "feed push (bytewise c) d = (new, None, d1)"
proof -
  obtain evs failed d' where run: "feed push (bytewise c) d = (evs, failed, d')"
    by (cases "feed push (bytewise c) d") auto
  have "concat (bytewise c) = c" by (induction c) simp_all
  with feed_at_once [OF assms(1) run] assms(2) run show ?thesis by (simp split: option.splits)
qed

lemma feed_delivers_prefix:
  "fit d \<Longrightarrow> prefix (fst (feed push cs d)) (fst (feed push (bytewise (concat cs)) d))"
proof (induction cs arbitrary: d)
  case (Cons c cs)
  obtain r d1 where run: "push c d = (r, d1)" by fastforce
  show ?case
  proof (cases r)
    case (Ok new)
    have "fit d1" using push_fit [OF Cons(2) run] .
    from Cons(1) [OF this] feed_bytes [OF Cons(2), of c new d1] run Ok show ?thesis
      by (auto simp: feed_cut split: prod.splits)
  qed (simp add: run)
qed simp

lemma cuts_irrelevant:
  assumes "fit d" and "concat cs = concat cs'"
    and "feed push cs d = (evs, failed, e)" and "feed push cs' d = (evs', failed', e')"
  shows "failed' = failed \<and> e' = e \<and> (failed = None \<longrightarrow> evs' = evs) \<and>
    prefix evs (fst (feed push (bytewise (concat cs)) d)) \<and> prefix evs' (fst (feed push (bytewise (concat cs)) d))"
  using feed_at_once [OF assms(1,3)] feed_at_once [OF assms(1,4)] assms(2)
    feed_delivers_prefix [OF assms(1), of cs] feed_delivers_prefix [OF assms(1), of cs'] assms(3,4)
  by (auto split: option.splits)

end

interpretation sse: chunk_decoder sse_push bom_ok
  by unfold_locales (erule sse_push_nil, erule sse_push_append, erule (1) sse_push_ok [rotated])

interpretation lines: chunk_decoder "\<lambda>chunk. line_push chunk []" "\<lambda>_. True"
proof unfold_locales
  fix xs ys d
  show "line_push (xs @ ys) [] d =
      (case line_push xs [] d of (Ok evs, d) \<Rightarrow> emitted_after evs (line_push ys [] d) | (Err e, d) \<Rightarrow> (Err e, d))"
  proof -
    obtain r d1 where run: "line_push xs [] d = (r, d1)" by fastforce
    show ?thesis
    proof (cases r)
      case (Ok evs)
      then show ?thesis using line_push_emits [of ys evs d1] by (simp add: line_push_append run)
    qed (simp add: line_push_append run)
  qed
qed simp_all

lemma bom_ok_new: "bom_ok (with_limits l e)"
  by (simp add: bom_ok_def with_limits_def BOM_def)

text \<open>
  Property C28. Where a stream is cut does not matter: feeding a fresh decoder two sequences of chunks
  with the same bytes, empty chunks and cuts inside a code point, a field name, a line ending or the
  byte-order mark included, ends with the same decoder and the same error, if any, and without an error
  hands out the same events. With an error, what was handed out before it is in either case a prefix of
  what the stream fed byte by byte hands out: the events that a failing push had already completed are
  lost with it, so that a finer cut hands out more of them. Likewise for the decoder of
  newline-delimited payloads, in any state.
\<close>

theorem chunk_boundaries_irrelevant:
  assumes "concat cs = concat cs'"
  shows "(case (sse_feed cs (with_limits l e), sse_feed cs' (with_limits l e)) of
       ((evs, failed, d), (evs', failed', d')) \<Rightarrow> failed' = failed \<and> d' = d \<and> (failed = None \<longrightarrow> evs' = evs) \<and>
         prefix evs (fst (sse_feed (bytewise (concat cs)) (with_limits l e))) \<and>
         prefix evs' (fst (sse_feed (bytewise (concat cs)) (with_limits l e)))) \<and>
    (case (line_feed cs ld, line_feed cs' ld) of
       ((ls, failed, d), (ls', failed', d')) \<Rightarrow> failed' = failed \<and> d' = d \<and> (failed = None \<longrightarrow> ls' = ls) \<and>
         prefix ls (fst (line_feed (bytewise (concat cs)) ld)) \<and> prefix ls' (fst (line_feed (bytewise (concat cs)) ld)))"
proof -
  obtain evs failed d evs' failed' d' where runs: "sse_feed cs (with_limits l e) = (evs, failed, d)"
      "sse_feed cs' (with_limits l e) = (evs', failed', d')"
    by (metis prod.exhaust)
  obtain ls lfailed ld1 ls' lfailed' ld2 where lruns: "line_feed cs ld = (ls, lfailed, ld1)" "line_feed cs' ld = (ls', lfailed', ld2)"
    by (metis prod.exhaust)
  note sse = sse.cuts_irrelevant [OF bom_ok_new assms, of l e, folded sse_feed_def, OF runs]
  note lines = lines.cuts_irrelevant [OF TrueI assms, of ld, folded line_feed_def, OF lruns]
  show ?thesis unfolding runs lruns prod.case using sse lines by (rule conjI)
qed

section \<open>Bounded memory\<close>

definition line_cap :: "sse_decoder \<Rightarrow> nat" where
  "line_cap d = max (max_line_bytes d) 2"

definition bounded :: "sse_decoder \<Rightarrow> bool" where
  "bounded d \<longleftrightarrow> length (line d) \<le> line_cap d \<and> length (data d) \<le> max_event_bytes d \<and>
     length (event d) \<le> line_cap d \<and> (\<forall>i. last_id d = Some i \<longrightarrow> length i \<le> line_cap d)"

lemma split_once_length: "split_once sep l = Some (f, v) \<Longrightarrow> length f + length v < length l"
  by (induction l arbitrary: f v) (auto split: if_splits option.splits)

lemma line_field_length: "line_field l = (f, v) \<Longrightarrow> length v \<le> length l"
  using split_once_length [of COLON l]
  by (fastforce simp: line_field_def strip_space_def split: option.splits list.splits if_splits)

lemma sse_field_bounded:
  assumes "bounded d" and "length v \<le> line_cap d" and "sse_field f v d = (r, d')"
  shows "bounded d'"
  using assms by (auto simp: sse_field_def bounded_def line_cap_def split: if_splits option.splits)

lemma end_line_bounded:
  assumes "bounded d" and "end_line evs d = (r, d')"
  shows "bounded d'"
proof -
  obtain f v where fv: "line_field (line d) = (f, v)" by fastforce
  obtain r1 d1 where f: "sse_field f v (d\<lparr>line := []\<rparr>) = (r1, d1)" by fastforce
  have "bounded (d\<lparr>line := []\<rparr>)" "length v \<le> line_cap (d\<lparr>line := []\<rparr>)"
    using assms(1) line_field_length [OF fv] by (auto simp: bounded_def line_cap_def)
  from sse_field_bounded [OF this f] show ?thesis
    using assms by (cases r1) (auto simp: end_line_def dispatch_def bounded_def line_cap_def Let_def fv f split: if_splits)
qed

lemma bounded_flag [simp]: "bounded (d\<lparr>pending_cr := b\<rparr>) = bounded d"
  by (simp add: bounded_def line_cap_def)

lemma push_loop_bounded: "bounded d \<Longrightarrow> push_loop bs evs d = (r, d') \<Longrightarrow> bounded d'"
proof (induction bs arbitrary: evs d)
  case (Cons b bs)
  let ?d = "d\<lparr>pending_cr := False\<rparr>"
  have ended: "bounded d'" if d0: "bounded d0"
    and run: "(case end_line evs d0 of (Ok evs, d) \<Rightarrow> push_loop bs evs d | (Err e, d) \<Rightarrow> (Err e, d)) = (r, d')" for d0
  proof -
    obtain r1 d1 where e: "end_line evs d0 = (r1, d1)" by fastforce
    show ?thesis using run end_line_bounded [OF d0 e] Cons(1) [of d1] by (cases r1) (auto simp: e)
  qed
  have add: "bounded (?d\<lparr>line := line ?d @ [b]\<rparr>)" if "\<not> length (line ?d) \<ge> max_line_bytes ?d"
    using Cons(2) that by (auto simp: bounded_def line_cap_def)
  have base: "bounded ?d" "bounded (?d\<lparr>pending_cr := True\<rparr>)" using Cons(2) by simp_all
  show ?case
    using Cons(1) [OF base(1)] Cons(1) [OF add] ended [OF base(1)] ended [OF base(2)] Cons(2,3)
    by (simp only: push_loop.simps Let_def split: if_splits) auto
qed simp

lemma strip_bom_bounded:
  "strip_bom_loop xs d = (rest, d') \<Longrightarrow> bounded d \<Longrightarrow> line d = [] \<Longrightarrow>
     bounded d' \<and> (checked_bom d' \<or> line d' = []) \<and> (length (line d') \<le> 2)"
proof (induction xs d rule: strip_bom_loop.induct)
  case (2 b bs d)
  then show ?case by (auto simp: bounded_def line_cap_def BOM_def split: if_splits)
qed (auto simp: bounded_def line_cap_def split: if_splits)

definition bom_clear :: "sse_decoder \<Rightarrow> bool" where
  "bom_clear d \<longleftrightarrow> checked_bom d \<or> line d = []"


lemma strip_bom_limits:
  "strip_bom_loop xs d = (rest, d') \<Longrightarrow> max_line_bytes d' = max_line_bytes d \<and> max_event_bytes d' = max_event_bytes d"
  by (induction xs d rule: strip_bom_loop.induct) (auto split: if_splits)

definition within :: "nat \<Rightarrow> nat \<Rightarrow> sse_decoder \<Rightarrow> bool" where
  "within l e d \<longleftrightarrow> bounded d \<and> bom_clear d \<and> bom_ok d \<and> max_line_bytes d = l \<and> max_event_bytes d = e"

lemma sse_push_within:
  assumes "sse_push c d = (r, d')" and "within l e d"
  shows "within l e d'"
proof -
  obtain rest d1 where strip: "strip_byte_order_mark c d = (rest, d1)" by fastforce
  have d1: "bounded d1 \<and> bom_clear d1 \<and> max_line_bytes d1 = l \<and> max_event_bytes d1 = e"
    using strip assms(2) strip_bom_bounded [of c d rest d1] strip_bom_limits [of c d rest d1]
    by (auto simp: strip_byte_order_mark_def within_def bom_clear_def split: if_splits)
  have run: "push_loop rest [] d1 = (r, d')" using assms(1) strip by (simp add: sse_push_def)
  have "bom_clear d'"
  proof (cases "checked_bom d1")
    case True
    then show ?thesis using push_loop_frame [OF run] by (simp add: bom_clear_def)
  next
    case False
    then have "rest = []" using strip strip_bom_loop_frame [of c d rest d1]
      by (auto simp: strip_byte_order_mark_def split: if_splits)
    with run d1 show ?thesis by simp
  qed
  then show ?thesis
    using d1 push_loop_bounded [OF _ run] push_loop_frame [OF run] sse_push_ok [OF assms(1)] assms(2)
    by (simp add: within_def)
qed

lemma sse_feed_within: "sse_feed cs d = (evs, failed, d') \<Longrightarrow> within l e d \<Longrightarrow> within l e d'"
proof (induction cs arbitrary: evs d)
  case (Cons c cs)
  obtain r1 d1 where run: "sse_push c d = (r1, d1)" by fastforce
  show ?case
    using Cons(1) [of d1] Cons(2) sse_push_within [OF run Cons(3)] by (cases r1) (auto simp: sse_feed_def run split: prod.splits)
qed (simp add: sse_feed_def)

text \<open>
  A stream cannot make the decoder grow without limit: after any chunks the pending line,
  the payload of the event in progress, its name and the last id are bounded by the configured
  limits, where a limit below two bytes still leaves room for a partial byte-order mark.
\<close>

theorem sse_memory_bounded:
  assumes "sse_feed cs (with_limits l e) = (evs, failed, d)"
  shows "length (line d) \<le> max l 2 \<and> length (data d) \<le> max e 1 \<and> length (event d) \<le> max l 2 \<and>
    (case last_id d of None \<Rightarrow> True | Some i \<Rightarrow> length i \<le> max l 2)"
proof -
  have "within (max l 1) (max e 1) (with_limits l e)"
    by (simp add: within_def bounded_def line_cap_def bom_clear_def bom_ok_def with_limits_def BOM_def)
  from sse_feed_within [OF assms this] have "bounded d" "line_cap d = max l 2" "max_event_bytes d = max e 1"
    by (simp_all add: within_def line_cap_def)
  then show ?thesis by (simp add: bounded_def split: option.splits)
qed

text \<open>
  What an unfinished event retains is not bounded by the two limits alone, because its name and the
  last id are kept beside its payload; and a partial byte-order mark does not count against the
  limit of a line.
\<close>

lemma sse_retains_more_than_documented:
  "(case sse_feed [ascii ''id:1234567'', [LF], ascii ''event:1234'', [LF], ascii ''data:1234'', [LF], ascii ''data:1234'', [LF],
       ascii ''xxxxxxxxxx''] (with_limits 10 10) of
      (_, failed, d) \<Rightarrow> failed = None \<and> length (line d) + length (data d) + length (event d) + (case last_id d of Some i \<Rightarrow> length i | None \<Rightarrow> 0)
        > max_line_bytes d + max_event_bytes d) \<and>
   (case sse_feed [[0xEF, 0xBB, 0x20]] (with_limits 1 1) of (_, _, d) \<Rightarrow> max_line_bytes d < length (line d))"
  by code_simp

section \<open>Events come back\<close>

text \<open>An event as a sender writes it: its name, one field per line of its payload, a blank line.\<close>

definition encode_line :: "string \<Rightarrow> u8 list \<Rightarrow> u8 list" where
  "encode_line field v = ascii field @ [COLON, SPACE] @ v @ [LF]"

definition sse_encode :: "sse_event \<Rightarrow> u8 list" where
  "sse_encode ev = encode_line ''event'' (ev_event ev) @
     concat (map (encode_line ''data'') (split_on LF (ev_data ev))) @ [LF]"

definition plain :: "nat \<Rightarrow> u8 list \<Rightarrow> bool" where
  "plain n v \<longleftrightarrow> CR \<notin> set v \<and> LF \<notin> set v \<and> utf8_valid v \<and> length v \<le> n"

definition sendable :: "nat \<Rightarrow> nat \<Rightarrow> sse_event \<Rightarrow> bool" where
  "sendable l e ev \<longleftrightarrow> ev_event ev \<noteq> [] \<and> plain (l - 7) (ev_event ev) \<and>
     list_all (plain (l - 6)) (split_on LF (ev_data ev)) \<and> length (ev_data ev) < e \<and>
     ev_id ev = None \<and> ev_retry ev = None"

lemma push_blank:
  assumes "\<not> pending_cr d"
  shows "push_loop (LF # rest) evs d =
    (case end_line evs d of (Ok evs, d) \<Rightarrow> push_loop rest evs d | (Err e, d) \<Rightarrow> (Err e, d))"
proof -
  have "d\<lparr>pending_cr := False\<rparr> = d" "LF \<noteq> CR" using assms by (simp_all add: CR_def LF_def)
  then show ?thesis using assms unfolding push_loop.simps Let_def by (simp only: if_False if_True simp_thms)
qed

lemma push_line:
  assumes "CR \<notin> set l" and "LF \<notin> set l" and "\<not> pending_cr d" and "length (line d) + length l \<le> max_line_bytes d"
  shows "push_loop (l @ LF # rest) evs d =
    (case end_line evs (d\<lparr>line := line d @ l\<rparr>) of (Ok evs, d) \<Rightarrow> push_loop rest evs d | (Err e, d) \<Rightarrow> (Err e, d))"
  using assms
proof (induction l arbitrary: d)
  case Nil
  then show ?case by (simp add: push_blank del: push_loop.simps)
next
  case (Cons b l)
  have d: "d\<lparr>pending_cr := False\<rparr> = d" using Cons(4) by simp
  let ?d = "d\<lparr>line := line d @ [b]\<rparr>"
  have b: "(b = CR) = False" "(b = LF) = False" "(length (line d) \<ge> max_line_bytes d) = False"
    using Cons(2,3,5) by auto
  have "push_loop ((b # l) @ LF # rest) evs d = push_loop (l @ LF # rest) evs ?d"
    unfolding append_Cons push_loop.simps Let_def d by (simp only: b if_False simp_thms)
  also have "\<dots> = (case end_line evs (?d\<lparr>line := line ?d @ l\<rparr>) of (Ok evs, d) \<Rightarrow> push_loop rest evs d | (Err e, d) \<Rightarrow> (Err e, d))"
    using Cons(2,3,4,5) by (intro Cons(1)) simp_all
  finally show ?case by simp
qed

lemma split_once_at: "sep \<notin> set p \<Longrightarrow> split_once sep (p @ sep # q) = Some (p, q)"
  by (induction p) auto

text \<open>A field name of the encoder: ASCII, without a colon or a line end.\<close>

definition field_name :: "string \<Rightarrow> bool" where
  "field_name s \<longleftrightarrow> ascii s \<noteq> [] \<and> list_all (\<lambda>b. b < 0x80 \<and> b \<noteq> COLON \<and> b \<noteq> CR \<and> b \<noteq> LF) (ascii s)"

lemma push_field:
  assumes "field_name f" and "plain n v" and "length (ascii f) + 2 + n \<le> max_line_bytes d"
    and "line d = []" and "\<not> pending_cr d" and "sse_field (ascii f) v d = (Ok (), d')"
  shows "push_loop (encode_line f v @ rest) evs d = push_loop rest evs d'"
proof -
  let ?l = "ascii f @ [COLON, SPACE] @ v"
  have name: "COLON \<notin> set (ascii f)" "CR \<notin> set (ascii f)" "LF \<notin> set (ascii f)" "hd (ascii f) \<noteq> COLON" "ascii f \<noteq> []"
    "list_all (\<lambda>b. b < 0x80) (ascii f)"
    using assms(1) by (auto simp: field_name_def list_all_iff hd_conv_nth)
  have bytes: "COLON < 0x80" "SPACE < 0x80" "COLON \<noteq> CR" "COLON \<noteq> LF" "SPACE \<noteq> CR" "SPACE \<noteq> LF"
    by (simp_all add: COLON_def SPACE_def CR_def LF_def)
  have valid: "utf8_valid ?l"
    using utf8_valid_prefix [OF name(6)] assms(2) bytes(1,2) by (simp add: plain_def utf8_valid_ascii)
  have field: "line_field ?l = (ascii f, v)"
    using split_once_at [OF name(1), of "SPACE # v"] by (simp add: line_field_def strip_space_def)
  have d: "d\<lparr>line := []\<rparr> = d" using assms(4) by simp
  have "end_line evs (d\<lparr>line := ?l\<rparr>) = (Ok evs, d')"
    using valid field name(4,5) assms(6) d by (simp add: end_line_def Let_def)
  moreover have "length (line d) + length ?l \<le> max_line_bytes d"
    using assms(2,3,4) by (simp add: plain_def)
  moreover have "CR \<notin> set ?l" "LF \<notin> set ?l" using name bytes assms(2) by (auto simp: plain_def)
  moreover have "encode_line f v @ rest = ?l @ LF # rest" by (simp add: encode_line_def)
  ultimately show ?thesis
    using push_line [of ?l d rest evs] assms(4,5) by simp
qed

lemma field_names: "field_name ''event''" "field_name ''data''"
  by code_simp+

lemma ascii_fields: "ascii ''data'' \<noteq> ascii ''event''" "length (ascii ''event'') = 5" "length (ascii ''data'') = 4"
  by code_simp+

lemma push_data_lines:
  "\<lbrakk>list_all (plain (l - 6)) ps; 6 \<le> l; max_line_bytes d = l; max_event_bytes d = e; line d = []; \<not> pending_cr d;
    saw_data_field d; length (data d) + length (concat (map ((#) LF) ps)) \<le> e\<rbrakk> \<Longrightarrow>
   push_loop (concat (map (encode_line ''data'') ps) @ rest) evs d =
     push_loop rest evs (d\<lparr>data := data d @ concat (map ((#) LF) ps)\<rparr>)"
proof (induction ps arbitrary: d)
  case (Cons p ps)
  let ?d = "d\<lparr>data := data d @ LF # p\<rparr>"
  have "sse_field (ascii ''data'') p d = (Ok (), ?d)"
    using Cons(5,8,9) ascii_fields by (simp add: sse_field_def)
  moreover have "plain (l - 6) p" "length (ascii ''data'') + 2 + (l - 6) \<le> max_line_bytes d"
    using Cons(2,3,4) ascii_fields by simp_all
  ultimately have "push_loop (encode_line ''data'' p @ concat (map (encode_line ''data'') ps) @ rest) evs d =
      push_loop (concat (map (encode_line ''data'') ps) @ rest) evs ?d"
    using push_field [OF field_names(2)] Cons(6,7) by blast
  also have "\<dots> = push_loop rest evs (?d\<lparr>data := data ?d @ concat (map ((#) LF) ps)\<rparr>)"
    using Cons(2-9) by (intro Cons(1)) simp_all
  finally show ?case by simp
qed simp

lemma split_on_join:
  "split_on sep xs = p # ps \<Longrightarrow> p @ concat (map ((#) sep) ps) = xs"
proof (induction xs arbitrary: p ps)
  case (Cons x xs)
  obtain q qs where q: "split_on sep xs = q # qs" using split_on_not_Nil by (metis neq_Nil_conv)
  from Cons(2) Cons(1) [OF q] show ?case by (auto simp: q split: if_splits)
qed simp

text \<open>A decoder between two events.\<close>

definition between_events :: "nat \<Rightarrow> nat \<Rightarrow> sse_decoder \<Rightarrow> bool" where
  "between_events l e d \<longleftrightarrow> max_line_bytes d = l \<and> max_event_bytes d = e \<and> line d = [] \<and> data d = [] \<and> event d = [] \<and>
     last_id d = None \<and> retry d = None \<and> \<not> saw_data_field d \<and> \<not> pending_cr d"

lemma push_encoded:
  assumes "sendable l e ev" and "between_events l e d" and "7 \<le> l"
  shows "push_loop (sse_encode ev @ rest) evs d = push_loop rest (evs @ [ev]) d"
proof -
  obtain p ps where parts: "split_on LF (ev_data ev) = p # ps" using split_on_not_Nil by (metis neq_Nil_conv)
  note whole = split_on_join [OF parts]
  have d: "max_line_bytes d = l" "max_event_bytes d = e" "line d = []" "\<not> pending_cr d" "data d = []" "event d = []"
    "\<not> saw_data_field d" "last_id d = None" "retry d = None"
    using assms(2) by (simp_all add: between_events_def)
  have ok: "plain (l - 7) (ev_event ev)" "plain (l - 6) p" "list_all (plain (l - 6)) ps" "length (ev_data ev) < e"
      "ev_event ev \<noteq> []" "ev_id ev = None" "ev_retry ev = None"
    using assms(1) by (simp_all add: sendable_def parts)
  let ?d1 = "d\<lparr>event := ev_event ev\<rparr>"
  let ?d2 = "?d1\<lparr>data := p, saw_data_field := True\<rparr>"
  let ?d3 = "?d2\<lparr>data := ev_data ev\<rparr>"
  have "sse_field (ascii ''event'') (ev_event ev) d = (Ok (), ?d1)" by (simp add: sse_field_def)
  then have one: "push_loop (encode_line ''event'' (ev_event ev) @ r) evs d = push_loop r evs ?d1" for r
    using push_field [OF field_names(1) ok(1), of d] d assms(3) ascii_fields by simp
  have "length p < e" using whole ok(4) by (metis le_add1 length_append order.strict_trans1)
  then have "sse_field (ascii ''data'') p ?d1 = (Ok (), ?d2)"
    using d ascii_fields by (simp add: sse_field_def)
  then have two: "push_loop (encode_line ''data'' p @ r) evs ?d1 = push_loop r evs ?d2" for r
    using push_field [OF field_names(2) ok(2), of ?d1] d assms(3) ascii_fields by simp
  have three: "push_loop (concat (map (encode_line ''data'') ps) @ r) evs ?d2 = push_loop r evs ?d3" for r
  proof -
    have "length p + length (concat (map ((#) LF) ps)) \<le> e" using arg_cong [OF whole, of length] ok(4) by simp
    then have "push_loop (concat (map (encode_line ''data'') ps) @ r) evs ?d2 =
        push_loop r evs (?d2\<lparr>data := data ?d2 @ concat (map ((#) LF) ps)\<rparr>)"
      using ok(3) d assms(3) by (intro push_data_lines) simp_all
    then show ?thesis using whole by simp
  qed
  have "push_loop (LF # rest) evs ?d3 = push_loop rest (evs @ [ev]) d"
  proof -
    have "end_line evs ?d3 = (Ok (evs @ [ev]), d)"
      using d ok(5-7) by (simp add: end_line_def dispatch_def Let_def)
    then show ?thesis using push_blank [of ?d3 rest evs] d by (simp del: push_loop.simps)
  qed
  then show ?thesis
    unfolding sse_encode_def parts using one two three by simp
qed

lemma push_encoded_all:
  "\<lbrakk>list_all (sendable l e) evs; between_events l e d; 7 \<le> l\<rbrakk> \<Longrightarrow>
     push_loop (concat (map sse_encode evs)) acc d = (Ok (acc @ evs), d)"
proof (induction evs arbitrary: acc)
  case (Cons ev evs)
  have "push_loop (sse_encode ev @ concat (map sse_encode evs)) acc d = push_loop (concat (map sse_encode evs)) (acc @ [ev]) d"
    using Cons(2-4) by (intro push_encoded) simp_all
  then show ?case using Cons(1) [OF _ Cons(3,4), of "acc @ [ev]"] Cons(2) by simp
qed simp

text \<open>
  Property C39. Events in the wire form of the standard are decoded: take any events with a name and
  without an id or a retry time, whose name and payload lines are valid UTF-8 without line ends and fit
  the limit of a line (at least seven bytes), and whose payload is below the limit of an event (at
  least one). The wire form a sender of the standard gives them, cut into chunks anywhere and fed to a
  fresh decoder, hands out exactly these events, without an error, and leaves a decoder with nothing
  pending.
\<close>

theorem sse_roundtrip:
  assumes "list_all (sendable l e) evs" and "7 \<le> l" and "0 < e" and "concat cs = concat (map sse_encode evs)"
  shows "\<exists>d. sse_feed cs (with_limits l e) = (evs, None, d) \<and> between_events l e d"
proof -
  let ?bytes = "concat (map sse_encode evs)" and ?fresh = "with_limits l e"
  obtain got failed d where fed: "sse_feed cs ?fresh = (got, failed, d)" by (cases "sse_feed cs ?fresh") auto
  have fresh: "between_events l e (?fresh\<lparr>checked_bom := b\<rparr>)" for b
    using assms(2,3) by (auto simp: between_events_def with_limits_def max_def)
  have "\<exists>b. sse_push ?bytes ?fresh = (Ok evs, ?fresh\<lparr>checked_bom := b\<rparr>)"
  proof (cases evs)
    case Nil
    then show ?thesis using sse_push_nil [OF bom_ok_new] by (intro exI [of _ False]) (simp add: with_limits_def)
  next
    case (Cons ev rest)
    have "ascii ''event'' = [0x65, 0x76, 0x65, 0x6E, 0x74]" by code_simp
    then have first: "?bytes = 0x65 # tl ?bytes" by (simp add: Cons sse_encode_def encode_line_def)
    have "strip_byte_order_mark ?bytes ?fresh = (?bytes, ?fresh\<lparr>checked_bom := True\<rparr>)"
      by (subst (1 2) first) (simp add: strip_byte_order_mark_def with_limits_def BOM_def)
    moreover have "push_loop ?bytes [] (?fresh\<lparr>checked_bom := True\<rparr>) = (Ok ([] @ evs), ?fresh\<lparr>checked_bom := True\<rparr>)"
      using assms(1) fresh assms(2) by (rule push_encoded_all)
    ultimately show ?thesis by (auto simp: sse_push_def)
  qed
  moreover have "sse_push ?bytes ?fresh = (case failed of None \<Rightarrow> Ok got | Some x \<Rightarrow> Err x, d)"
    using sse.feed_at_once [OF bom_ok_new, of cs] fed assms(4) by (simp add: sse_feed_def)
  ultimately show ?thesis using fed fresh by (auto split: option.splits)
qed

section \<open>A small stream\<close>

definition demo_event :: sse_event where
  "demo_event = \<lparr>ev_event = ascii ''delta'', ev_data = ascii ''one'' @ [LF] @ ascii ''two'', ev_id = None, ev_retry = None\<rparr>"

lemma demo_sendable: "list_all (sendable 64 64) [demo_event]"
  by code_simp

theorem chunk_boundaries_irrelevant_witness:
  "snd (sse_feed [ascii ''data: a'', [LF], [], [LF]] (with_limits 64 64)) =
     snd (sse_feed [ascii ''data: a'' @ [LF, LF]] (with_limits 64 64))"
  using chunk_boundaries_irrelevant [of "[ascii ''data: a'', [LF], [], [LF]]" "[ascii ''data: a'' @ [LF, LF]]" 64 64 "line_decoder_new 1"]
  by (simp split: prod.splits)

text \<open>An event completed in the chunk that fails is lost; cut behind it, the same bytes hand it out.\<close>

lemma failing_push_loses_events:
  "(let good = ascii ''data: a'' @ [LF, LF]; bad = ascii ''data: 123456'' in
    fst (sse_feed [good @ bad] (with_limits 8 8)) = [] \<and> length (fst (sse_feed [good, bad] (with_limits 8 8))) = 1 \<and>
    snd (sse_feed [good @ bad] (with_limits 8 8)) = snd (sse_feed [good, bad] (with_limits 8 8)))"
  by code_simp

theorem sse_memory_bounded_witness:
  "length (line (snd (snd (sse_feed [ascii ''data'', [COLON]] (with_limits 8 8))))) \<le> max 8 2"
proof -
  obtain evs failed d where fed: "sse_feed [ascii ''data'', [COLON]] (with_limits 8 8) = (evs, failed, d)"
    by (cases "sse_feed [ascii ''data'', [COLON]] (with_limits 8 8)") auto
  from sse_memory_bounded [OF this] show ?thesis by (simp add: fed)
qed

theorem sse_roundtrip_witness:
  "fst (sse_feed [take 3 (sse_encode demo_event), drop 3 (sse_encode demo_event)] (with_limits 64 64)) = [demo_event]"
  using sse_roundtrip [OF demo_sendable, of "[take 3 (sse_encode demo_event), drop 3 (sse_encode demo_event)]"] by auto

end
