(* ===== verification/Composition_Lifecycle.thy ===== *)
theory Composition_Lifecycle
  imports Claw_Prelude
begin

text \<open>
  The daemon-wide lifecycle and its epoch gate
  (crates/claw-application/src/composition/lifecycle.rs). The gate is the value of the shared
  atomic: zero while closed, the epoch being served while open. Handles to it are clones of one
  cell, so reading a handle is reading the lifecycle's gate. Epochs are 64-bit and their increment
  wraps.
\<close>

section \<open>Phases\<close>

datatype lifecycle_phase =
  Created | Initializing | Initialized | Starting | Running | Draining | Stopping | Stopped | Failed

definition phase_ALL :: "lifecycle_phase list" where
  "phase_ALL = [Created, Initializing, Initialized, Starting, Running, Draining, Stopping, Stopped, Failed]"

fun phase_label :: "lifecycle_phase \<Rightarrow> string" where
  "phase_label Created = ''created''"
| "phase_label Initializing = ''initializing''"
| "phase_label Initialized = ''initialized''"
| "phase_label Starting = ''starting''"
| "phase_label Running = ''running''"
| "phase_label Draining = ''draining''"
| "phase_label Stopping = ''stopping''"
| "phase_label Stopped = ''stopped''"
| "phase_label Failed = ''failed''"

definition accepts_work :: "lifecycle_phase \<Rightarrow> bool" where
  "accepts_work p \<longleftrightarrow> p = Running"

definition is_terminal :: "lifecycle_phase \<Rightarrow> bool" where
  "is_terminal p \<longleftrightarrow> p = Stopped"

fun can_transition_to :: "lifecycle_phase \<Rightarrow> lifecycle_phase \<Rightarrow> bool" where
  "can_transition_to Created Initializing = True"
| "can_transition_to Initializing Initialized = True"
| "can_transition_to Initialized Starting = True"
| "can_transition_to Initialized Stopping = True"
| "can_transition_to Starting Running = True"
| "can_transition_to Running Draining = True"
| "can_transition_to Draining Stopping = True"
| "can_transition_to Failed Stopping = True"
| "can_transition_to Stopping Stopped = True"
| "can_transition_to Failed Stopped = True"
| "can_transition_to p Failed = (p \<notin> {Stopped, Failed})"
| "can_transition_to _ _ = False"

record phase_transition_error =
  from_phase :: lifecycle_phase
  to_phase :: lifecycle_phase

definition phase_error_display :: "phase_transition_error \<Rightarrow> string" where
  "phase_error_display e =
     ''illegal lifecycle transition: '' @ phase_label (from_phase e) @ '' -> '' @ phase_label (to_phase e)"

section \<open>The gate and the lifecycle\<close>

datatype run_epoch = RunEpoch u64

type_synonym epoch_gate = u64

definition gate_closed :: epoch_gate where
  "gate_closed = 0"

definition gate_current :: "epoch_gate \<Rightarrow> run_epoch option" where
  "gate_current g = (if g = 0 then None else Some (RunEpoch g))"

fun gate_open :: "run_epoch \<Rightarrow> epoch_gate" where
  "gate_open (RunEpoch e) = e"

definition gate_close :: epoch_gate where
  "gate_close = 0"

record lifecycle =
  lc_phase :: lifecycle_phase
  lc_epoch :: u64
  lc_gate :: epoch_gate

definition lifecycle_new :: lifecycle where
  "lifecycle_new = \<lparr>lc_phase = Created, lc_epoch = 0, lc_gate = gate_closed\<rparr>"

definition active_epoch :: "lifecycle \<Rightarrow> run_epoch option" where
  "active_epoch l = gate_current (lc_gate l)"

text \<open>A refused transition leaves the lifecycle untouched, so it returns only the error.\<close>

definition transition_to ::
  "lifecycle_phase \<Rightarrow> lifecycle \<Rightarrow> (lifecycle, phase_transition_error) result" where
  "transition_to next l =
     (if \<not> can_transition_to (lc_phase l) next
      then Err \<lparr>from_phase = lc_phase l, to_phase = next\<rparr>
      else (let l' = (if next = Running
                      then l\<lparr>lc_epoch := lc_epoch l + 1, lc_gate := gate_open (RunEpoch (lc_epoch l + 1))\<rparr>
                      else if lc_phase l = Running then l\<lparr>lc_gate := gate_close\<rparr>
                      else l)
            in Ok (l'\<lparr>lc_phase := next\<rparr>)))"

section \<open>Histories of a lifecycle\<close>

inductive lifecycle_step :: "lifecycle \<Rightarrow> lifecycle_phase \<Rightarrow> lifecycle \<Rightarrow> bool" where
  advance: "transition_to next l = Ok l' \<Longrightarrow> lifecycle_step l next l'"

inductive_simps lifecycle_step_iff: "lifecycle_step l next l'"

lemma can_transition_to_Running: "can_transition_to p Running \<longleftrightarrow> p = Starting"
  by (cases p) auto

text \<open>Only a lifecycle that has not served yet can still reach \<open>Running\<close>.\<close>

fun before_run :: "lifecycle_phase \<Rightarrow> bool" where
  "before_run Created = True"
| "before_run Initializing = True"
| "before_run Initialized = True"
| "before_run Starting = True"
| "before_run _ = False"

lemma before_run_backwards: "can_transition_to p q \<Longrightarrow> before_run q \<Longrightarrow> before_run p"
  by (cases p; cases q) auto

definition lifecycle_inv :: "lifecycle \<Rightarrow> bool" where
  "lifecycle_inv l \<longleftrightarrow>
     (before_run (lc_phase l) \<longrightarrow> lc_epoch l = 0) \<and>
     (lc_phase l = Running \<longrightarrow> lc_epoch l = 1) \<and>
     lc_gate l = (if lc_phase l = Running then lc_epoch l else 0)"

lemma lifecycle_inv_new: "lifecycle_inv lifecycle_new"
  by (simp add: lifecycle_inv_def lifecycle_new_def gate_closed_def)

lemma transition_to_Ok:
  assumes "transition_to next l = Ok l'"
  shows "can_transition_to (lc_phase l) next" and "lc_phase l' = next"
  using assms by (auto simp: transition_to_def Let_def split: if_splits)

lemma lifecycle_inv_transition:
  assumes "lifecycle_inv l" and "transition_to next l = Ok l'"
  shows "lifecycle_inv l'"
proof (cases "next = Running")
  case True
  then have "lc_phase l = Starting" using transition_to_Ok(1) [OF assms(2)] can_transition_to_Running by simp
  then show ?thesis
    using assms True by (auto simp: lifecycle_inv_def transition_to_def)
next
  case False
  have "before_run next \<Longrightarrow> before_run (lc_phase l)"
    using before_run_backwards transition_to_Ok(1) [OF assms(2)] by blast
  with False show ?thesis
    using assms by (auto simp: lifecycle_inv_def transition_to_def gate_close_def Let_def split: if_splits)
qed

interpretation lifecycle: invariant_system "(=) lifecycle_new" lifecycle_step lifecycle_inv
  by unfold_locales (auto simp: lifecycle_inv_new lifecycle_step_iff intro: lifecycle_inv_transition)

lemma lifecycle_inv_gate:
  "lifecycle_inv l \<Longrightarrow> active_epoch l = (if lc_phase l = Running then Some (RunEpoch 1) else None)"
  by (auto simp: lifecycle_inv_def active_epoch_def gate_current_def)

section \<open>The lifecycle as a single run\<close>

text \<open>
  What users of the gate rely on: there is one run, it is served for one stretch, and once over it
  never comes back.
\<close>

datatype run_spec = NotYet | Serving | Over

inductive run_step :: "run_spec \<Rightarrow> unit \<Rightarrow> run_spec \<Rightarrow> bool" where
  serve: "run_step NotYet () Serving"
| give_up: "run_step NotYet () Over"
| finish: "run_step Serving () Over"

inductive_simps run_step_iff: "run_step r u r'"

definition run_of :: "lifecycle \<Rightarrow> run_spec" where
  "run_of l = (if before_run (lc_phase l) then NotYet else if lc_phase l = Running then Serving else Over)"

lemma run_of_transition:
  assumes "transition_to next l = Ok l'"
  shows "run_of l' = run_of l \<or> run_step (run_of l) () (run_of l')"
proof -
  have "can_transition_to (lc_phase l) next" "lc_phase l' = next"
    using transition_to_Ok [OF assms] by simp_all
  then show ?thesis
    by (cases "lc_phase l"; cases "next") (simp_all add: run_of_def run_step_iff)
qed

interpretation single_run: simulation "(=) lifecycle_new" lifecycle_step "(=) NotYet" run_step run_of
  by unfold_locales
     (auto simp: lifecycle_step_iff run_of_def lifecycle_new_def dest: run_of_transition)

interpretation over: stable_predicate lifecycle_step "\<lambda>l. run_of l = Over"
  by unfold_locales (auto simp: lifecycle_step_iff run_step_iff dest!: run_of_transition)

text \<open>
  Property C37. The lifecycle implements a single run: for every history of transitions, a later
  history is a history of the run that has not started, is served, or is over, in that order and
  never back; the gate shows epoch one exactly while the run is served, which is exactly the phase
  that accepts work; and from the end of the run on, whatever transitions follow, no epoch is shown.
\<close>

theorem lifecycle_refines_single_run:
  assumes "reach ((=) lifecycle_new) lifecycle_step l" and "steps lifecycle_step l nexts l'"
  shows "(\<exists>us. steps run_step (run_of l) us (run_of l')) \<and>
    active_epoch l' = (if run_of l' = Serving then Some (RunEpoch 1) else None) \<and>
    (accepts_work (lc_phase l') \<longleftrightarrow> run_of l' = Serving) \<and>
    (run_of l = Over \<longrightarrow> active_epoch l' = None)"
proof -
  have inv: "lifecycle_inv l'"
    using lifecycle.reach_inv [OF reach_steps [OF assms(2,1)]] .
  have serving: "run_of l' = Serving \<longleftrightarrow> lc_phase l' = Running"
    by (auto simp: run_of_def split: if_splits)
  have "run_of l = Over \<Longrightarrow> run_of l' = Over"
    using over.stable_steps [OF assms(2)] .
  then show ?thesis
    using single_run.steps_abs [OF assms(2,1)] lifecycle_inv_gate [OF inv] serving
    by (auto simp: accepts_work_def)
qed

text \<open>The phase table has the documented seventeen edges, and \<open>Stopped\<close> is its only dead end.\<close>

lemma seventeen_edges:
  "length (filter (\<lambda>(p, q). can_transition_to p q) (List.product phase_ALL phase_ALL)) = 17"
  by code_simp

lemma terminal_iff_no_successor: "is_terminal p \<longleftrightarrow> (\<forall>q. \<not> can_transition_to p q)"
proof (cases "p = Stopped")
  case True
  have "\<not> can_transition_to Stopped q" for q by (cases q) simp_all
  with True show ?thesis by (simp add: is_terminal_def)
next
  case False
  then have "can_transition_to p (if p = Failed then Stopped else Failed)" by (cases p) simp_all
  with False show ?thesis by (auto simp: is_terminal_def)
qed

definition demo_run :: lifecycle where
  "demo_run = \<lparr>lc_phase = Running, lc_epoch = 1, lc_gate = 1\<rparr>"

lemma demo_run_steps: "steps lifecycle_step lifecycle_new [Initializing, Initialized, Starting, Running] demo_run"
  unfolding demo_run_def
  by (rule steps_cons | rule steps_nil | rule advance |
      simp add: transition_to_def lifecycle_new_def gate_closed_def)+

theorem lifecycle_refines_single_run_witness: "active_epoch demo_run = Some (RunEpoch 1)"
proof -
  have "run_of demo_run = Serving" by (simp add: run_of_def demo_run_def)
  then show ?thesis
    using lifecycle_refines_single_run [OF reach.reach_init [of "(=) lifecycle_new", OF refl] demo_run_steps] by simp
qed

end
