(* ===== verification/Composition_Graph.thy ===== *)
theory Composition_Graph
  imports Composition_Lifecycle "HOL-Library.While_Combinator"
begin

text \<open>
  Ordering the daemon's subsystems (crates/claw-application/src/composition/graph.rs, with the
  identifiers of id.rs, the errors of error.rs and the descriptors of subsystem.rs): validated identifiers, dependency edges,
  Kahn's algorithm with the smallest ready node first, and the depth-first search that names a cycle
  when there is no order. The two searches are while loops; \<open>None\<close> is a loop that never ends.
\<close>

section \<open>Identifiers and descriptors\<close>

definition MAX_SUBSYSTEM_ID_BYTES :: nat where
  "MAX_SUBSYSTEM_ID_BYTES = 64"

datatype subsystem_id = SubsystemId string

fun id_as_str :: "subsystem_id \<Rightarrow> string" where
  "id_as_str (SubsystemId s) = s"

datatype subsystem_error_kind = Unavailable | Invalid | Conflict | NotFound | Denied | Cancelled | Internal

fun subsystem_error_kind_label :: "subsystem_error_kind \<Rightarrow> string" where
  "subsystem_error_kind_label Unavailable = ''unavailable''"
| "subsystem_error_kind_label Invalid = ''invalid''"
| "subsystem_error_kind_label Conflict = ''conflict''"
| "subsystem_error_kind_label NotFound = ''not found''"
| "subsystem_error_kind_label Denied = ''denied''"
| "subsystem_error_kind_label Cancelled = ''cancelled''"
| "subsystem_error_kind_label Internal = ''internal''"

record subsystem_error =
  failing_subsystem :: subsystem_id
  failure_kind :: subsystem_error_kind
  failure_detail :: string

datatype composition_error =
    InvalidSubsystemId string string
  | DuplicateSubsystem subsystem_id
  | UnknownDependency subsystem_id subsystem_id
  | SelfDependency subsystem_id
  | DependencyCycle "subsystem_id list"
  | PhaseRefused phase_transition_error
  | SubsystemFailed subsystem_error

text \<open>\<open>value.contains("--")\<close>.\<close>

fun has_double_hyphen :: "string \<Rightarrow> bool" where
  "has_double_hyphen (a # b # s) = (a = CHR ''-'' \<and> b = CHR ''-'' \<or> has_double_hyphen (b # s))"
| "has_double_hyphen _ = False"

definition subsystem_id_new :: "string \<Rightarrow> (subsystem_id, composition_error) result" where
  "subsystem_id_new v =
     (if v = [] then Err (InvalidSubsystemId v ''must not be empty'')
      else if length v > MAX_SUBSYSTEM_ID_BYTES then Err (InvalidSubsystemId v ''must not exceed 64 bytes'')
      else if \<not> list_all (\<lambda>c. is_ascii_lowercase c \<or> is_ascii_digit c \<or> c = CHR ''-'') v
      then Err (InvalidSubsystemId v ''must use only lowercase ASCII alphanumerics and hyphens'')
      else if hd v = CHR ''-'' \<or> last v = CHR ''-''
      then Err (InvalidSubsystemId v ''must not start or end with a hyphen'')
      else if has_double_hyphen v
      then Err (InvalidSubsystemId v ''must not contain consecutive hyphens'')
      else Ok (SubsystemId v))"

datatype subsystem_kind = Foundation | Capability | Ingress

fun kind_label :: "subsystem_kind \<Rightarrow> string" where
  "kind_label Foundation = ''foundation''"
| "kind_label Capability = ''capability''"
| "kind_label Ingress = ''ingress''"

record subsystem_descriptor =
  desc_id :: subsystem_id
  desc_kind :: subsystem_kind
  desc_dependencies :: "subsystem_id list"

definition descriptor_new :: "subsystem_id \<Rightarrow> subsystem_kind \<Rightarrow> subsystem_descriptor" where
  "descriptor_new i k = \<lparr>desc_id = i, desc_kind = k, desc_dependencies = []\<rparr>"

definition depends_on :: "subsystem_id \<Rightarrow> subsystem_descriptor \<Rightarrow> subsystem_descriptor" where
  "depends_on dep d = d\<lparr>desc_dependencies := desc_dependencies d @ [dep]\<rparr>"

section \<open>Kahn's algorithm\<close>

type_synonym deps = "nat list list"

definition add_dependent :: "nat \<Rightarrow> nat \<Rightarrow> nat list list \<Rightarrow> nat list list" where
  "add_dependent node dep acc = acc[dep := acc ! dep @ [node]]"

fun add_dependents :: "nat \<Rightarrow> deps \<Rightarrow> nat list list \<Rightarrow> nat list list" where
  "add_dependents node [] acc = acc"
| "add_dependents node (edges # rest) acc =
     add_dependents (Suc node) rest (fold (add_dependent node) edges acc)"

definition dependents_of :: "deps \<Rightarrow> nat list list" where
  "dependents_of deps = add_dependents 0 deps (replicate (length deps) [])"

record kahn =
  ready :: "nat list"
  outstanding :: "nat list"
  order :: "nat list"

definition kahn_init :: "deps \<Rightarrow> kahn" where
  "kahn_init deps =
     \<lparr>ready = filter (\<lambda>n. map length deps ! n = 0) [0..<length deps],
      outstanding = map length deps, order = []\<rparr>"

text \<open>One dependent loses an outstanding dependency, and becomes ready with its last one.\<close>

definition release_dependent :: "nat \<Rightarrow> kahn \<Rightarrow> kahn" where
  "release_dependent dep k =
     (let out = (outstanding k)[dep := outstanding k ! dep - 1] in
      k\<lparr>outstanding := out,
        ready := (if out ! dep = 0 then insort_insert dep (ready k) else ready k)\<rparr>)"

definition kahn_step :: "nat list list \<Rightarrow> kahn \<Rightarrow> kahn" where
  "kahn_step dependents k =
     (let node = hd (ready k) in
      fold release_dependent (dependents ! node)
        (k\<lparr>ready := tl (ready k), order := order k @ [node]\<rparr>))"

definition kahn_run :: "deps \<Rightarrow> kahn option" where
  "kahn_run deps = while_option (\<lambda>k. ready k \<noteq> []) (kahn_step (dependents_of deps)) (kahn_init deps)"

section \<open>Finding a cycle\<close>

datatype colour = Unvisited | OnPath | Done

text \<open>
  The vectors \<open>path\<close> and \<open>stack\<close> with their last element first. The position of an on-path node
  on the path is looked up with an \<open>expect\<close> that \<open>dfs_inv\<close> below discharges: the nodes coloured
  on-path are exactly those of the path, which lists each once.
\<close>

record dfs =
  colours :: "colour list"
  path :: "nat list"
  stack :: "(nat \<times> nat) list"
  found :: "nat list option"

definition dfs_step :: "deps \<Rightarrow> dfs \<Rightarrow> dfs" where
  "dfs_step deps s =
     (case stack s of
        [] \<Rightarrow> s
      | (node, cursor) # rest \<Rightarrow>
          (if cursor = length (deps ! node)
           then s\<lparr>colours := (colours s)[node := Done], path := tl (path s), stack := rest\<rparr>
           else (let nxt = deps ! node ! cursor; stack' = (node, cursor + 1) # rest in
             case colours s ! nxt of
               Unvisited \<Rightarrow> s\<lparr>colours := (colours s)[nxt := OnPath], path := nxt # path s,
                              stack := (nxt, 0) # stack'\<rparr>
             | OnPath \<Rightarrow> s\<lparr>stack := stack', found := Some (nxt # rev (takeWhile ((\<noteq>) nxt) (path s)))\<rparr>
             | Done \<Rightarrow> s\<lparr>stack := stack'\<rparr>)))"

definition dfs_run :: "deps \<Rightarrow> colour list \<Rightarrow> nat \<Rightarrow> dfs option" where
  "dfs_run deps cols start =
     while_option (\<lambda>s. stack s \<noteq> [] \<and> found s = None) (dfs_step deps)
       \<lparr>colours = cols[start := OnPath], path = [start], stack = [(start, 0)], found = None\<rparr>"

fun find_cycle_from :: "deps \<Rightarrow> nat list \<Rightarrow> colour list \<Rightarrow> nat list option option" where
  "find_cycle_from deps [] cols = Some None"
| "find_cycle_from deps (start # starts) cols =
     (if cols ! start \<noteq> Unvisited then find_cycle_from deps starts cols
      else (case dfs_run deps cols start of
        None \<Rightarrow> None
      | Some s \<Rightarrow>
          (case found s of
             Some c \<Rightarrow> Some (Some c)
           | None \<Rightarrow> find_cycle_from deps starts (colours s))))"

definition find_cycle :: "deps \<Rightarrow> nat list option option" where
  "find_cycle deps = find_cycle_from deps [0..<length deps] (replicate (length deps) Unvisited)"

definition topological_order :: "deps \<Rightarrow> (nat list, nat list) result option" where
  "topological_order deps =
     (case kahn_run deps of
        None \<Rightarrow> None
      | Some k \<Rightarrow>
          (if length (order k) = length deps then Some (Ok (order k))
           else (case find_cycle deps of
             None \<Rightarrow> None
           | Some (Some c) \<Rightarrow> Some (Err c)
           | Some None \<Rightarrow> Some (Err (filter (\<lambda>n. 0 < outstanding k ! n) [0..<length deps])))))"

section \<open>The plan\<close>

record composition_plan =
  start_order :: "subsystem_id list"
  plan_ingress :: "subsystem_id list"

fun first_duplicate :: "subsystem_id set \<Rightarrow> subsystem_id list \<Rightarrow> subsystem_id option" where
  "first_duplicate seen [] = None"
| "first_duplicate seen (x # xs) = (if x \<in> seen then Some x else first_duplicate (insert x seen) xs)"

fun position_of :: "'a \<Rightarrow> 'a list \<Rightarrow> nat option" where
  "position_of x [] = None"
| "position_of x (y # ys) = (if y = x then Some 0 else map_option Suc (position_of x ys))"

fun edges_of ::
  "subsystem_id list \<Rightarrow> subsystem_id \<Rightarrow> subsystem_id list \<Rightarrow> nat list \<Rightarrow> (nat list, composition_error) result" where
  "edges_of ids own [] edges = Ok edges"
| "edges_of ids own (dep # deps) edges =
     (if dep = own then Err (SelfDependency dep)
      else (case position_of dep ids of
        None \<Rightarrow> Err (UnknownDependency own dep)
      | Some target \<Rightarrow>
          edges_of ids own deps (if target \<in> set edges then edges else edges @ [target])))"

fun all_edges ::
  "subsystem_id list \<Rightarrow> subsystem_descriptor list \<Rightarrow> (deps, composition_error) result" where
  "all_edges ids [] = Ok []"
| "all_edges ids (d # ds) =
     (case edges_of ids (desc_id d) (desc_dependencies d) [] of
        Err e \<Rightarrow> Err e
      | Ok edges \<Rightarrow> (case all_edges ids ds of Err e \<Rightarrow> Err e | Ok rest \<Rightarrow> Ok (edges # rest)))"

definition plan_build :: "subsystem_descriptor list \<Rightarrow> (composition_plan, composition_error) result option" where
  "plan_build descriptors =
     (let ids = map desc_id descriptors in
      case first_duplicate {} ids of
        Some d \<Rightarrow> Some (Err (DuplicateSubsystem d))
      | None \<Rightarrow>
          (case all_edges ids descriptors of
             Err e \<Rightarrow> Some (Err e)
           | Ok deps \<Rightarrow>
               (case topological_order deps of
                  None \<Rightarrow> None
                | Some (Err cycle) \<Rightarrow> Some (Err (DependencyCycle (map ((!) ids) cycle)))
                | Some (Ok ord) \<Rightarrow>
                    Some (Ok \<lparr>start_order = map ((!) ids) ord,
                              plan_ingress = map ((!) ids)
                                (filter (\<lambda>p. desc_kind (descriptors ! p) = Ingress) ord)\<rparr>))))"

definition shutdown_order :: "composition_plan \<Rightarrow> subsystem_id list" where
  "shutdown_order p = rev (start_order p)"

definition quiesce_order :: "composition_plan \<Rightarrow> subsystem_id list" where
  "quiesce_order p = rev (plan_ingress p)"

section \<open>The dependents of a node\<close>

definition wf_deps :: "deps \<Rightarrow> bool" where
  "wf_deps deps \<longleftrightarrow> (\<forall>edges \<in> set deps. distinct edges \<and> (\<forall>d \<in> set edges. d < length deps))"

lemma fold_add_dependent:
  assumes "distinct edges" and "\<forall>d \<in> set edges. d < length acc" and "n < length acc"
  shows "fold (add_dependent node) edges acc ! n = acc ! n @ (if n \<in> set edges then [node] else []) \<and>
    length (fold (add_dependent node) edges acc) = length acc"
  using assms
proof (induction edges arbitrary: acc)
  case (Cons e edges)
  let ?acc = "add_dependent node e acc"
  have one: "?acc ! n = acc ! n @ (if n = e then [node] else [])" "length ?acc = length acc"
    using Cons.prems by (auto simp: add_dependent_def)
  have "fold (add_dependent node) edges ?acc ! n = ?acc ! n @ (if n \<in> set edges then [node] else []) \<and>
    length (fold (add_dependent node) edges ?acc) = length ?acc"
    by (rule Cons.IH) (use Cons.prems one in auto)
  with Cons.prems(1) one show ?case by auto
qed simp

lemma add_dependents_spec:
  assumes "\<forall>edges \<in> set ds. distinct edges \<and> (\<forall>d \<in> set edges. d < length acc)" and "n < length acc"
  shows "add_dependents k ds acc ! n =
    acc ! n @ map ((+) k) (filter (\<lambda>i. n \<in> set (ds ! i)) [0..<length ds])"
  using assms
proof (induction ds arbitrary: k acc)
  case (Cons edges ds)
  let ?acc = "fold (add_dependent k) edges acc"
  have one: "?acc ! n = acc ! n @ (if n \<in> set edges then [k] else [])" "length ?acc = length acc"
    using fold_add_dependent [of edges acc n k] Cons.prems by auto
  have "[0..<length (edges # ds)] = 0 # map Suc [0..<length ds]"
    by (simp add: map_Suc_upt upt_conv_Cons del: upt_Suc)
  then have split: "filter (\<lambda>i. n \<in> set ((edges # ds) ! i)) [0..<length (edges # ds)] =
      (if n \<in> set edges then [0] else []) @ map Suc (filter (\<lambda>i. n \<in> set (ds ! i)) [0..<length ds])"
    by (simp add: filter_map o_def)
  have "add_dependents (Suc k) ds ?acc ! n =
      ?acc ! n @ map ((+) (Suc k)) (filter (\<lambda>i. n \<in> set (ds ! i)) [0..<length ds])"
    by (rule Cons.IH) (use Cons.prems one(2) in auto)
  then show ?case
    unfolding split by (simp add: one(1) o_def)
qed simp

lemma dependents_of_nth:
  assumes "wf_deps deps" and "n < length deps"
  shows "dependents_of deps ! n = filter (\<lambda>i. n \<in> set (deps ! i)) [0..<length deps]"
  using add_dependents_spec [of deps "replicate (length deps) []" n 0] assms
  by (simp add: dependents_of_def wf_deps_def map_idI)

section \<open>Kahn's invariant\<close>

text \<open>A list of nodes in which every node comes after its dependencies.\<close>

definition closed_order :: "deps \<Rightarrow> nat list \<Rightarrow> bool" where
  "closed_order deps xs \<longleftrightarrow>
     distinct xs \<and> (\<forall>i < length xs. xs ! i < length deps \<and> set (deps ! (xs ! i)) \<subseteq> set (take i xs))"

lemma closed_order_append:
  "closed_order deps xs \<Longrightarrow> n < length deps \<Longrightarrow> n \<notin> set xs \<Longrightarrow> set (deps ! n) \<subseteq> set xs \<Longrightarrow>
     closed_order deps (xs @ [n])"
  by (auto simp: closed_order_def nth_append less_Suc_eq)

lemma closed_order_member:
  assumes "closed_order deps xs" and "n \<in> set xs"
  shows "n < length deps \<and> set (deps ! n) \<subseteq> set xs"
proof -
  obtain i where "i < length xs" "xs ! i = n" using assms(2) by (auto simp: in_set_conv_nth)
  with assms(1) show ?thesis
    using set_take_subset [of i xs] unfolding closed_order_def by blast
qed

definition kahn_inv :: "deps \<Rightarrow> kahn \<Rightarrow> bool" where
  "kahn_inv deps k \<longleftrightarrow>
     closed_order deps (order k) \<and> distinct (ready k) \<and> length (outstanding k) = length deps \<and>
     (\<forall>n < length deps. outstanding k ! n = card (set (deps ! n) - set (order k))) \<and>
     set (ready k) = {n. n < length deps \<and> n \<notin> set (order k) \<and> set (deps ! n) \<subseteq> set (order k)}"

lemma fold_release:
  assumes "distinct xs" and "\<forall>x \<in> set xs. x < length (outstanding k)" and "distinct (ready k)"
  shows "order (fold release_dependent xs k) = order k \<and>
    length (outstanding (fold release_dependent xs k)) = length (outstanding k) \<and>
    (\<forall>n < length (outstanding k). outstanding (fold release_dependent xs k) ! n =
       (if n \<in> set xs then outstanding k ! n - 1 else outstanding k ! n)) \<and>
    distinct (ready (fold release_dependent xs k)) \<and>
    set (ready (fold release_dependent xs k)) =
      set (ready k) \<union> {x \<in> set xs. outstanding k ! x - 1 = 0}"
  using assms
proof (induction xs arbitrary: k)
  case (Cons x xs)
  let ?k = "release_dependent x k"
  have k: "order ?k = order k" "length (outstanding ?k) = length (outstanding k)"
    "distinct (ready ?k)"
    "set (ready ?k) = set (ready k) \<union> (if outstanding k ! x - 1 = 0 then {x} else {})"
    "\<And>n. n < length (outstanding k) \<Longrightarrow>
       outstanding ?k ! n = (if n = x then outstanding k ! n - 1 else outstanding k ! n)"
    using Cons.prems
    by (auto simp: release_dependent_def Let_def distinct_insort_insert set_insort_insert)
  have "order (fold release_dependent xs ?k) = order ?k \<and>
    length (outstanding (fold release_dependent xs ?k)) = length (outstanding ?k) \<and>
    (\<forall>n < length (outstanding ?k). outstanding (fold release_dependent xs ?k) ! n =
       (if n \<in> set xs then outstanding ?k ! n - 1 else outstanding ?k ! n)) \<and>
    distinct (ready (fold release_dependent xs ?k)) \<and>
    set (ready (fold release_dependent xs ?k)) =
      set (ready ?k) \<union> {x \<in> set xs. outstanding ?k ! x - 1 = 0}"
    by (rule Cons.IH) (use Cons.prems k in auto)
  with Cons.prems k show ?case by (auto split: if_splits)
qed simp

lemma kahn_inv_init: "wf_deps deps \<Longrightarrow> kahn_inv deps (kahn_init deps)"
  by (auto simp: kahn_inv_def kahn_init_def closed_order_def wf_deps_def distinct_card)

lemma kahn_inv_step:
  assumes wf: "wf_deps deps" and inv: "kahn_inv deps k" and some: "ready k \<noteq> []"
  shows "kahn_inv deps (kahn_step (dependents_of deps) k)"
    and "length (order (kahn_step (dependents_of deps) k)) = Suc (length (order k))"
    and "length (order k) < length deps"
proof -
  define node where "node = hd (ready k)"
  have node: "node < length deps" "node \<notin> set (order k)" "set (deps ! node) \<subseteq> set (order k)"
    using inv some hd_in_set [OF some] by (auto simp: kahn_inv_def node_def)
  note inv' = inv [unfolded kahn_inv_def]
  let ?init = "k\<lparr>ready := tl (ready k), order := order k @ [node]\<rparr>"
  let ?xs = "filter (\<lambda>i. node \<in> set (deps ! i)) [0..<length deps]"
  let ?after = "fold release_dependent ?xs ?init"
  have step: "kahn_step (dependents_of deps) k = ?after"
    unfolding kahn_step_def Let_def node_def [symmetric] dependents_of_nth [OF wf node(1)] ..
  have fold: "order ?after = order ?init \<and> length (outstanding ?after) = length (outstanding ?init) \<and>
    (\<forall>n < length (outstanding ?init). outstanding ?after ! n =
       (if n \<in> set ?xs then outstanding ?init ! n - 1 else outstanding ?init ! n)) \<and>
    distinct (ready ?after) \<and>
    set (ready ?after) = set (ready ?init) \<union> {x \<in> set ?xs. outstanding ?init ! x - 1 = 0}"
    by (rule fold_release) (use inv' in \<open>auto simp: distinct_tl\<close>)
  have out: "outstanding k ! n = card (set (deps ! n) - set (order k))" if "n < length deps" for n
    using inv' that by blast
  have less: "card (set (deps ! n) - set (order k @ [node])) =
      (if node \<in> set (deps ! n) then card (set (deps ! n) - set (order k)) - 1
       else card (set (deps ! n) - set (order k)))" for n
  proof -
    have "set (deps ! n) - set (order k @ [node]) = (set (deps ! n) - set (order k)) - {node}" by auto
    then show ?thesis using node(2) by (simp add: card_Diff_singleton)
  qed
  have zero: "outstanding k ! n - 1 = 0 \<longleftrightarrow> set (deps ! n) \<subseteq> set (order k @ [node])"
    if "n < length deps" "node \<in> set (deps ! n)" for n
  proof -
    have "outstanding k ! n - 1 = card (set (deps ! n) - set (order k @ [node]))"
      using less [of n] that(2) out [OF that(1)] by simp
    then show ?thesis by (metis List.finite_set Diff_eq_empty_iff card_eq_0_iff finite_Diff)
  qed
  have tl_ready: "set (tl (ready k)) = set (ready k) - {node}"
    using some inv' unfolding node_def by (cases "ready k") auto
  have "closed_order deps (order k @ [node])"
    using inv' node by (intro closed_order_append) auto
  moreover have "set (ready ?after) = {n. n < length deps \<and> n \<notin> set (order k @ [node]) \<and>
      set (deps ! n) \<subseteq> set (order k @ [node])}"
  proof -
    have "set (ready ?after) = (set (ready k) - {node}) \<union>
        {n. n < length deps \<and> node \<in> set (deps ! n) \<and> set (deps ! n) \<subseteq> set (order k @ [node])}"
      using fold tl_ready zero by auto
    moreover have "n \<notin> set (order k @ [node])" if "n < length deps" "node \<in> set (deps ! n)" for n
      using that node inv' closed_order_member [of deps "order k" n] by auto
    ultimately show ?thesis using inv' by auto
  qed
  ultimately show "kahn_inv deps (kahn_step (dependents_of deps) k)"
    unfolding step kahn_inv_def using fold inv' less out by auto
  show "length (order (kahn_step (dependents_of deps) k)) = Suc (length (order k))"
    unfolding step using fold by simp
  have "insert node (set (order k)) \<subseteq> {..<length deps}"
    using node inv' closed_order_member [of deps "order k"] by auto
  then have "card (insert node (set (order k))) \<le> length deps"
    by (metis card_lessThan card_mono finite_lessThan)
  then show "length (order k) < length deps"
    using node(2) inv' by (simp add: closed_order_def distinct_card)
qed

text \<open>The loop ends, with nothing ready.\<close>

lemma kahn_run_ends:
  assumes "wf_deps deps"
  shows "\<exists>k. kahn_run deps = Some k \<and> kahn_inv deps k \<and> ready k = []"
proof -
  have "\<exists>k. kahn_run deps = Some k"
    unfolding kahn_run_def
    by (rule measure_while_option_Some [where P = "kahn_inv deps" and f = "\<lambda>k. length deps - length (order k)"])
       (use kahn_inv_step [OF assms] kahn_inv_init [OF assms] in \<open>force+\<close>)
  then obtain k where k: "kahn_run deps = Some k" by blast
  have "kahn_inv deps k"
    using while_option_rule [of "kahn_inv deps", OF _ k [unfolded kahn_run_def]]
      kahn_inv_step(1) [OF assms] kahn_inv_init [OF assms] by blast
  moreover have "ready k = []"
    using while_option_stop [OF k [unfolded kahn_run_def]] by simp
  ultimately show ?thesis using k by blast
qed

text \<open>If a complete order exists at all, Kahn's algorithm finds one.\<close>

lemma kahn_complete:
  assumes "kahn_inv deps k" and "ready k = []"
    and "closed_order deps fin" and "set fin = {..<length deps}"
  shows "length (order k) = length deps"
proof (rule ccontr)
  assume short: "length (order k) \<noteq> length deps"
  have closed: "closed_order deps (order k)" using assms(1) by (simp add: kahn_inv_def)
  have sub: "set (order k) \<subseteq> set fin"
    using closed_order_member [OF closed] assms(4) by auto
  have "card (set (order k)) = length (order k)"
    using closed by (simp add: closed_order_def distinct_card)
  then have "set (order k) \<noteq> set fin"
    unfolding assms(4) using short card_lessThan [of "length deps"] by metis
  with sub obtain n where n: "n \<in> set fin" "n \<notin> set (order k)" by blast
  then obtain i where i: "i < length fin" "fin ! i \<notin> set (order k)" by (auto simp: in_set_conv_nth)
  define j where "j = (LEAST i. i < length fin \<and> fin ! i \<notin> set (order k))"
  have j: "j < length fin \<and> fin ! j \<notin> set (order k)"
    unfolding j_def by (rule LeastI [of _ i]) (simp add: i)
  have below: "fin ! i \<in> set (order k)" if "i < j" for i
    using not_less_Least [of i "\<lambda>i. i < length fin \<and> fin ! i \<notin> set (order k)"] that j
    unfolding j_def by auto
  have "set (take j fin) \<subseteq> set (order k)"
    using j below by (auto simp: in_set_conv_nth)
  moreover have "fin ! j < length deps \<and> set (deps ! (fin ! j)) \<subseteq> set (take j fin)"
    using assms(3) j by (simp add: closed_order_def)
  ultimately have "fin ! j \<in> set (ready k)"
    using assms(1) j by (auto simp: kahn_inv_def)
  then show False using assms(2) by simp
qed

section \<open>The search finds a cycle, and only a real one\<close>

text \<open>
  A cycle, each node depending on the next and the last on the first, without repetition.
\<close>

definition is_cycle :: "deps \<Rightarrow> nat list \<Rightarrow> bool" where
  "is_cycle deps c \<longleftrightarrow>
     c \<noteq> [] \<and> distinct c \<and> (\<forall>n \<in> set c. n < length deps) \<and>
     (\<forall>i. Suc i < length c \<longrightarrow> c ! Suc i \<in> set (deps ! (c ! i))) \<and> hd c \<in> set (deps ! last c)"

text \<open>
  Below the top of the stack, every node waits for the one above it, and all the dependencies it has
  passed before that are done.
\<close>

fun waiting_for :: "deps \<Rightarrow> colour list \<Rightarrow> nat \<Rightarrow> (nat \<times> nat) list \<Rightarrow> bool" where
  "waiting_for deps cols v [] = True"
| "waiting_for deps cols v ((u, c) # rest) =
     (0 < c \<and> c \<le> length (deps ! u) \<and> deps ! u ! (c - 1) = v \<and>
      (\<forall>j < c - 1. cols ! (deps ! u ! j) = Done) \<and> waiting_for deps cols u rest)"

fun stack_ok :: "deps \<Rightarrow> colour list \<Rightarrow> (nat \<times> nat) list \<Rightarrow> bool" where
  "stack_ok deps cols [] = True"
| "stack_ok deps cols ((v, c) # rest) =
     (c \<le> length (deps ! v) \<and> (\<forall>j < c. cols ! (deps ! v ! j) = Done) \<and> waiting_for deps cols v rest)"

definition dfs_inv :: "deps \<Rightarrow> nat list \<Rightarrow> nat set \<Rightarrow> dfs \<Rightarrow> bool" where
  "dfs_inv deps fin seen s \<longleftrightarrow>
     length (colours s) = length deps \<and> path s = map fst (stack s) \<and> distinct (path s) \<and>
     set (path s) = {n. n < length deps \<and> colours s ! n = OnPath} \<and>
     set fin = {n. n < length deps \<and> colours s ! n = Done} \<and> closed_order deps fin \<and>
     (\<forall>n \<in> seen. n < length deps \<longrightarrow> colours s ! n \<noteq> Unvisited) \<and>
     stack_ok deps (colours s) (stack s)"

text \<open>Recolouring a node that is not done keeps the stack in order.\<close>

lemma waiting_for_recolour:
  "waiting_for deps cols v st \<Longrightarrow> cols ! n \<noteq> Done \<or> x = Done \<Longrightarrow> n < length cols \<Longrightarrow>
     waiting_for deps (cols[n := x]) v st"
  by (induction deps cols v st rule: waiting_for.induct) (auto simp: nth_list_update)

lemma waiting_path:
  assumes "waiting_for deps cols v st"
  shows "Suc i < length (v # map fst st) \<Longrightarrow>
    (v # map fst st) ! i \<in> set (deps ! ((v # map fst st) ! Suc i))"
  using assms
proof (induction deps cols v st arbitrary: i rule: waiting_for.induct)
  case (2 deps cols v u c rest)
  then have "v \<in> set (deps ! u)" by (auto simp: in_set_conv_nth intro: exI [of _ "c - 1"])
  with 2 show ?case by (cases i) auto
qed simp

text \<open>The cycle that is cut out of the path when a dependency is met on it.\<close>

lemma cut_cycle:
  assumes waiting: "waiting_for deps cols v st" and nxt: "nxt \<in> set (deps ! v)"
    and on: "nxt \<in> set (v # map fst st)" and dist: "distinct (v # map fst st)"
    and range: "\<forall>n \<in> set (v # map fst st). n < length deps"
  shows "is_cycle deps (nxt # rev (takeWhile ((\<noteq>) nxt) (v # map fst st)))"
proof -
  let ?p = "v # map fst st"
  obtain front rest where front: "?p = front @ nxt # rest" "nxt \<notin> set front"
    using split_list_first [OF on] by blast
  have tw: "takeWhile ((\<noteq>) nxt) ?p = front"
    unfolding front(1) using front(2) by (auto simp: takeWhile_append)
  define q where "q = front @ [nxt]"
  have pre: "?p = q @ rest" using front(1) by (simp add: q_def)
  have c: "nxt # rev (takeWhile ((\<noteq>) nxt) ?p) = rev q" unfolding tw q_def by simp
  have ne: "q \<noteq> []" by (simp add: q_def)
  have edge: "q ! i \<in> set (deps ! (q ! Suc i))" if "Suc i < length q" for i
    using waiting_path [OF waiting, of i] that unfolding pre by (auto simp: nth_append)
  have "hd q = v" using ne pre by (metis hd_append2 list.sel(1))
  then have wrap: "hd (rev q) \<in> set (deps ! last (rev q))"
    using nxt ne by (simp add: hd_rev last_rev) (simp add: q_def)
  have "rev q ! Suc i \<in> set (deps ! (rev q ! i))" if "Suc i < length (rev q)" for i
  proof -
    have "Suc (length q - Suc (Suc i)) = length q - Suc i" using that by simp
    then show ?thesis
      using edge [of "length q - Suc (Suc i)"] that by (simp add: rev_nth)
  qed
  moreover have "distinct (rev q)" using dist unfolding pre by simp
  moreover have "\<forall>n \<in> set (rev q). n < length deps" using range unfolding pre by simp
  ultimately show ?thesis unfolding c is_cycle_def using ne wrap by auto
qed

text \<open>What the invariant says of a stack with a top.\<close>

lemma dfs_inv_top:
  assumes "dfs_inv deps fin seen s" and "stack s = (v, c) # rest"
  obtains ps where "map fst rest = ps" "path s = v # ps" "distinct (v # ps)"
    "\<And>n. n \<in> set ps \<longleftrightarrow> n \<noteq> v \<and> n < length deps \<and> colours s ! n = OnPath"
    "v < length deps" "colours s ! v = OnPath" "length (colours s) = length deps"
    "\<And>n. n \<in> set fin \<longleftrightarrow> n < length deps \<and> colours s ! n = Done" "closed_order deps fin"
    "\<And>n. n \<in> seen \<Longrightarrow> n < length deps \<Longrightarrow> colours s ! n \<noteq> Unvisited"
    "c \<le> length (deps ! v)" "\<And>j. j < c \<Longrightarrow> colours s ! (deps ! v ! j) = Done"
    "waiting_for deps (colours s) v rest"
proof
  note inv = assms(1) [unfolded dfs_inv_def]
  have path: "path s = v # map fst rest" and ok: "stack_ok deps (colours s) ((v, c) # rest)"
    using inv assms(2) by simp_all
  have "distinct (path s)" using inv by blast
  then have dist: "distinct (v # map fst rest)" unfolding path .
  have on: "set (v # map fst rest) = {n. n < length deps \<and> colours s ! n = OnPath}"
    using inv path by metis
  have "v \<in> set (v # map fst rest)" by simp
  then show "v < length deps" "colours s ! v = OnPath" unfolding on by simp_all
  show "n \<in> set (map fst rest) \<longleftrightarrow> n \<noteq> v \<and> n < length deps \<and> colours s ! n = OnPath" for n
    using on dist by (metis (mono_tags, lifting) distinct.simps(2) mem_Collect_eq set_ConsD list.set_intros(2))
  show "path s = v # map fst rest" "distinct (v # map fst rest)" by (rule path, rule dist)
  show "length (colours s) = length deps" "closed_order deps fin"
    "n \<in> set fin \<longleftrightarrow> n < length deps \<and> colours s ! n = Done"
    "n \<in> seen \<Longrightarrow> n < length deps \<Longrightarrow> colours s ! n \<noteq> Unvisited" for n
    using inv by simp_all
  show "c \<le> length (deps ! v)" "j < c \<Longrightarrow> colours s ! (deps ! v ! j) = Done"
    "waiting_for deps (colours s) v rest" for j
    using ok by simp_all
qed simp

text \<open>Finishing the top node: everything it depends on is done.\<close>

lemma dfs_finish:
  assumes inv: "dfs_inv deps fin seen s" and wf: "wf_deps deps"
    and st: "stack s = (v, length (deps ! v)) # rest"
  shows "dfs_inv deps (fin @ [v]) seen
    (s\<lparr>colours := (colours s)[v := Done], path := tl (path s), stack := rest\<rparr>)"
proof -
  from inv st obtain ps where f: "map fst rest = ps" "path s = v # ps" "distinct (v # ps)"
    "\<And>n. n \<in> set ps \<longleftrightarrow> n \<noteq> v \<and> n < length deps \<and> colours s ! n = OnPath"
    "v < length deps" "colours s ! v = OnPath" "length (colours s) = length deps"
    "\<And>n. n \<in> set fin \<longleftrightarrow> n < length deps \<and> colours s ! n = Done" "closed_order deps fin"
    "\<And>n. n \<in> seen \<Longrightarrow> n < length deps \<Longrightarrow> colours s ! n \<noteq> Unvisited"
    "\<And>j. j < length (deps ! v) \<Longrightarrow> colours s ! (deps ! v ! j) = Done"
    "waiting_for deps (colours s) v rest"
    by (rule dfs_inv_top) (blast intro: that)
  have "d \<in> set fin" if d: "d \<in> set (deps ! v)" for d
  proof -
    obtain j where "j < length (deps ! v)" "deps ! v ! j = d" using d by (auto simp: in_set_conv_nth)
    moreover have "d < length deps" using wf nth_mem [OF f(5)] d unfolding wf_deps_def by blast
    ultimately show ?thesis using f(8,11) by auto
  qed
  then have closed: "closed_order deps (fin @ [v])"
    using f(5,6,8,9) by (intro closed_order_append) auto
  have w: "waiting_for deps ((colours s)[v := Done]) v rest"
    using f(5,7,12) by (intro waiting_for_recolour) auto
  have "stack_ok deps ((colours s)[v := Done]) rest"
  proof (cases rest)
    case (Cons top below)
    obtain u d where top: "top = (u, d)" by (cases top)
    have "(colours s)[v := Done] ! (deps ! u ! j) = Done" if "j < d" for j
      using w that f(5,7) unfolding Cons top by (cases "j = d - 1") auto
    then show ?thesis using w unfolding Cons top by auto
  qed simp
  then show ?thesis
    unfolding dfs_inv_def using f closed by (auto simp: nth_list_update)
qed

text \<open>Entering an unvisited dependency.\<close>

lemma dfs_enter:
  assumes inv: "dfs_inv deps fin seen s" and st: "stack s = (v, c) # rest"
    and c: "c < length (deps ! v)" and nxt: "deps ! v ! c < length deps"
    and fresh: "colours s ! (deps ! v ! c) = Unvisited"
  shows "dfs_inv deps fin seen (s\<lparr>colours := (colours s)[deps ! v ! c := OnPath],
    path := deps ! v ! c # path s, stack := (deps ! v ! c, 0) # (v, c + 1) # rest\<rparr>)"
proof -
  from inv st obtain ps where f: "map fst rest = ps" "path s = v # ps" "distinct (v # ps)"
    "\<And>n. n \<in> set ps \<longleftrightarrow> n \<noteq> v \<and> n < length deps \<and> colours s ! n = OnPath"
    "v < length deps" "colours s ! v = OnPath" "length (colours s) = length deps"
    "\<And>n. n \<in> set fin \<longleftrightarrow> n < length deps \<and> colours s ! n = Done" "closed_order deps fin"
    "\<And>n. n \<in> seen \<Longrightarrow> n < length deps \<Longrightarrow> colours s ! n \<noteq> Unvisited"
    "\<And>j. j < c \<Longrightarrow> colours s ! (deps ! v ! j) = Done" "waiting_for deps (colours s) v rest"
    by (rule dfs_inv_top) (blast intro: that)
  have "waiting_for deps (colours s) (deps ! v ! c) ((v, c + 1) # rest)"
    using f(11,12) c by simp
  then have "waiting_for deps ((colours s)[deps ! v ! c := OnPath]) (deps ! v ! c) ((v, c + 1) # rest)"
    using fresh nxt f(7) by (intro waiting_for_recolour) auto
  then show ?thesis
    unfolding dfs_inv_def using f nxt fresh by (auto simp: nth_list_update)
qed

lemma dfs_inv_stack:
  "dfs_inv deps fin seen s \<Longrightarrow> map fst st = map fst (stack s) \<Longrightarrow> stack_ok deps (colours s) st \<Longrightarrow>
     dfs_inv deps fin seen (s\<lparr>stack := st\<rparr>)"
  by (cases s) (simp add: dfs_inv_def)

lemma dfs_step_inv:
  assumes wf: "wf_deps deps" and inv: "dfs_inv deps fin seen s" and none: "found s = None"
    and some: "stack s \<noteq> []"
  shows "(found (dfs_step deps s) = None \<and> (\<exists>fin'. dfs_inv deps fin' seen (dfs_step deps s))) \<or>
    (\<exists>c. found (dfs_step deps s) = Some c \<and> is_cycle deps c)"
proof -
  obtain v c rest where st: "stack s = (v, c) # rest"
    using some by (cases "stack s") auto
  from inv st obtain ps where f: "map fst rest = ps" "path s = v # ps" "distinct (v # ps)"
    "\<And>n. n \<in> set ps \<longleftrightarrow> n \<noteq> v \<and> n < length deps \<and> colours s ! n = OnPath"
    "v < length deps" "colours s ! v = OnPath" "c \<le> length (deps ! v)"
    "\<And>j. j < c \<Longrightarrow> colours s ! (deps ! v ! j) = Done" "waiting_for deps (colours s) v rest"
    by (rule dfs_inv_top) (blast intro: that)
  show ?thesis
  proof (cases "c = length (deps ! v)")
    case True
    then show ?thesis
      using dfs_finish [OF inv wf] none st by (auto simp: dfs_step_def)
  next
    case False
    define nxt where "nxt = deps ! v ! c"
    have c: "c < length (deps ! v)" using False f(7) by simp
    have n: "nxt < length deps" "nxt \<in> set (deps ! v)"
      using wf nth_mem [OF f(5)] nth_mem [OF c] unfolding wf_deps_def nxt_def by blast+
    show ?thesis
    proof (cases "colours s ! nxt")
      case Unvisited
      then show ?thesis
        using dfs_enter [OF inv st c] n none False st by (auto simp: dfs_step_def nxt_def Let_def)
    next
      case OnPath
      have "found (dfs_step deps s) = Some (nxt # rev (takeWhile ((\<noteq>) nxt) (path s)))"
        using False OnPath by (simp add: dfs_step_def st nxt_def Let_def)
      moreover have "is_cycle deps (nxt # rev (takeWhile ((\<noteq>) nxt) (v # map fst rest)))"
        by (rule cut_cycle [OF f(9) n(2)]) (use f OnPath n in auto)
      ultimately show ?thesis using f(1,2) by metis
    next
      case Done
      have "colours s ! (deps ! v ! j) = Done" if "j < c + 1" for j
        using that f(8) Done by (cases "j = c") (auto simp: nxt_def)
      then have "stack_ok deps (colours s) ((v, c + 1) # rest)"
        using c f(9) by simp
      then have "dfs_inv deps fin seen (s\<lparr>stack := (v, c + 1) # rest\<rparr>)"
        using dfs_inv_stack [OF inv, of "(v, c + 1) # rest"] st by simp
      then show ?thesis using none False Done st by (auto simp: dfs_step_def nxt_def Let_def)
    qed
  qed
qed

text \<open>The edges still to be followed, which together with the stack bound the search.\<close>

definition edges_left :: "deps \<Rightarrow> dfs \<Rightarrow> nat" where
  "edges_left deps s =
     (\<Sum>n < length deps. if colours s ! n = Unvisited then length (deps ! n) else 0) +
     sum_list (map (\<lambda>(v, c). length (deps ! v) - c) (stack s))"

definition search_bound :: "deps \<Rightarrow> dfs \<Rightarrow> nat" where
  "search_bound deps s = 2 * edges_left deps s + length (stack s)"

lemma unvisited_recolour:
  fixes f :: "nat \<Rightarrow> nat"
  assumes "n < m" and "length cols = m" and "cols ! n = Unvisited" and "x \<noteq> Unvisited"
  shows "(\<Sum>i < m. if cols ! i = Unvisited then f i else 0) =
    f n + (\<Sum>i < m. if cols[n := x] ! i = Unvisited then f i else 0)"
proof -
  have "(\<Sum>i < m. if cols ! i = Unvisited then f i else 0) =
      f n + (\<Sum>i \<in> {..<m} - {n}. if cols ! i = Unvisited then f i else 0)"
    using assms by (subst sum.remove [of _ n]) auto
  moreover have "(\<Sum>i < m. if cols[n := x] ! i = Unvisited then f i else 0) =
      (\<Sum>i \<in> {..<m} - {n}. if cols ! i = Unvisited then f i else 0)"
    using assms by (subst sum.remove [of _ n]) (auto intro!: sum.cong)
  ultimately show ?thesis by simp
qed

lemma dfs_step_bound:
  assumes wf: "wf_deps deps" and inv: "dfs_inv deps fin seen s" and some: "stack s \<noteq> []"
  shows "search_bound deps (dfs_step deps s) < search_bound deps s"
proof -
  obtain v c rest where st: "stack s = (v, c) # rest"
    using some by (cases "stack s") auto
  from inv st have len: "length (colours s) = length deps" and le: "c \<le> length (deps ! v)"
    and v: "v < length deps" "colours s ! v = OnPath"
    by (rule dfs_inv_top, blast)+
  show ?thesis
  proof (cases "c = length (deps ! v)")
    case True
    have "(\<Sum>n < length deps. if (colours s)[v := Done] ! n = Unvisited then length (deps ! n) else 0) =
        (\<Sum>n < length deps. if colours s ! n = Unvisited then length (deps ! n) else 0)"
    proof (rule sum.cong [OF refl])
      fix n
      have "(colours s)[v := Done] ! n = Unvisited \<longleftrightarrow> colours s ! n = Unvisited"
        using v len by (cases "n = v") auto
      then show "(if (colours s)[v := Done] ! n = Unvisited then length (deps ! n) else 0) =
          (if colours s ! n = Unvisited then length (deps ! n) else 0)" by simp
    qed
    with True show ?thesis
      by (simp add: dfs_step_def st search_bound_def edges_left_def)
  next
    case False
    then have "c < length (deps ! v)" using le by simp
    moreover have "deps ! v ! c < length deps"
      using wf nth_mem [OF v(1)] nth_mem [OF \<open>c < length (deps ! v)\<close>] unfolding wf_deps_def by blast
    ultimately show ?thesis
      using unvisited_recolour [of "deps ! v ! c" "length deps" "colours s" OnPath "\<lambda>n. length (deps ! n)"] len
      by (auto simp: dfs_step_def st search_bound_def edges_left_def Let_def split: colour.splits)
  qed
qed

text \<open>Between two searches nothing is on the path, and the done nodes are in a closed order.\<close>

definition between :: "deps \<Rightarrow> nat set \<Rightarrow> colour list \<Rightarrow> bool" where
  "between deps seen cols \<longleftrightarrow>
     length cols = length deps \<and> (\<forall>n < length deps. cols ! n \<noteq> OnPath) \<and>
     (\<forall>n \<in> seen. n < length deps \<longrightarrow> cols ! n \<noteq> Unvisited) \<and>
     (\<exists>fin. closed_order deps fin \<and> set fin = {n. n < length deps \<and> cols ! n = Done})"

lemma dfs_run_spec:
  assumes wf: "wf_deps deps" and btw: "between deps seen cols" and start: "start < length deps"
    and fresh: "cols ! start = Unvisited"
  shows "\<exists>s. dfs_run deps cols start = Some s \<and>
    (case found s of Some c \<Rightarrow> is_cycle deps c | None \<Rightarrow> between deps (insert start seen) (colours s))"
proof -
  let ?P = "\<lambda>s. (found s = None \<and> (\<exists>fin. dfs_inv deps fin (insert start seen) s)) \<or>
    (\<exists>c. found s = Some c \<and> is_cycle deps c)"
  let ?init = "\<lparr>colours = cols[start := OnPath], path = [start], stack = [(start, 0)], found = None\<rparr>"
  obtain fin where "closed_order deps fin" "set fin = {n. n < length deps \<and> cols ! n = Done}"
    using btw by (auto simp: between_def)
  then have "dfs_inv deps fin (insert start seen) ?init"
    using btw start fresh by (auto simp: dfs_inv_def between_def nth_list_update)
  then have init: "?P ?init" by auto
  have step: "?P (dfs_step deps s)" if "?P s" "stack s \<noteq> [] \<and> found s = None" for s
    using that dfs_step_inv [OF wf] by auto
  have "\<exists>s. dfs_run deps cols start = Some s"
    unfolding dfs_run_def
  proof (rule measure_while_option_Some [where P = ?P and f = "search_bound deps"])
    show "?P (dfs_step deps s) \<and> search_bound deps (dfs_step deps s) < search_bound deps s"
      if "?P s" "stack s \<noteq> [] \<and> found s = None" for s
      using step [OF that] that dfs_step_bound [OF wf] by auto
  qed (rule init)
  then obtain s where run: "dfs_run deps cols start = Some s" by blast
  have P: "?P s"
    using while_option_rule [of ?P, OF _ run [unfolded dfs_run_def]] step init by blast
  have stop: "\<not> (stack s \<noteq> [] \<and> found s = None)"
    using while_option_stop [OF run [unfolded dfs_run_def]] .
  show ?thesis
  proof (cases "found s")
    case None
    with P stop obtain fin where "dfs_inv deps fin (insert start seen) s" "stack s = []" by auto
    then have "between deps (insert start seen) (colours s)"
      by (auto simp: dfs_inv_def between_def)
    with run None show ?thesis by auto
  next
    case (Some c)
    with P run show ?thesis by auto
  qed
qed

lemma find_cycle_from_spec:
  assumes "wf_deps deps" and "between deps seen cols" and "\<forall>n \<in> set starts. n < length deps"
  shows "\<exists>r. find_cycle_from deps starts cols = Some r \<and>
    (case r of Some c \<Rightarrow> is_cycle deps c
     | None \<Rightarrow> \<exists>cols'. between deps (seen \<union> set starts) cols')"
  using assms(2,3)
proof (induction starts arbitrary: seen cols)
  case (Cons start starts)
  have seen: "insert start seen \<union> set starts = seen \<union> set (start # starts)" by simp
  show ?case
  proof (cases "cols ! start = Unvisited")
    case True
    obtain s where s: "dfs_run deps cols start = Some s"
      "case found s of Some c \<Rightarrow> is_cycle deps c | None \<Rightarrow> between deps (insert start seen) (colours s)"
      using dfs_run_spec [OF assms(1) Cons.prems(1) _ True] Cons.prems(2) by auto
    show ?thesis
    proof (cases "found s")
      case None
      with s have "between deps (insert start seen) (colours s)" by simp
      from Cons.IH [OF this, unfolded seen] Cons.prems(2) None s True show ?thesis by simp
    next
      case (Some c)
      with s True show ?thesis by simp
    qed
  next
    case False
    then have "between deps (insert start seen) cols"
      using Cons.prems(1) by (auto simp: between_def)
    from Cons.IH [OF this, unfolded seen] Cons.prems(2) False show ?thesis by simp
  qed
qed auto

lemma topological_order_spec:
  assumes wf: "wf_deps deps"
  shows "(\<exists>ord. topological_order deps = Some (Ok ord) \<and> closed_order deps ord \<and>
      set ord = {..<length deps}) \<or>
    (\<exists>c. topological_order deps = Some (Err c) \<and> is_cycle deps c)"
proof -
  obtain k where k: "kahn_run deps = Some k" "kahn_inv deps k" "ready k = []"
    using kahn_run_ends [OF wf] by blast
  have closed: "closed_order deps (order k)" using k(2) by (simp add: kahn_inv_def)
  show ?thesis
  proof (cases "length (order k) = length deps")
    case True
    have "set (order k) \<subseteq> {..<length deps}" using closed_order_member [OF closed] by auto
    moreover have "card (set (order k)) = card {..<length deps}"
      using True closed by (simp add: closed_order_def distinct_card)
    ultimately have "set (order k) = {..<length deps}" by (simp add: card_subset_eq)
    with True k closed show ?thesis by (simp add: topological_order_def)
  next
    case False
    let ?cols = "replicate (length deps) Unvisited"
    have "closed_order deps []" by (simp add: closed_order_def)
    then have "between deps {} ?cols"
      by (auto simp: between_def intro!: exI [of _ "[]"])
    then obtain r where r: "find_cycle deps = Some r"
      "case r of Some c \<Rightarrow> is_cycle deps c
       | None \<Rightarrow> \<exists>cols'. between deps (set [0..<length deps]) cols'"
      using find_cycle_from_spec [OF wf, of "{}" ?cols "[0..<length deps]"]
      unfolding find_cycle_def Un_empty_left by auto
    show ?thesis
    proof (cases r)
      case None
      with r obtain cols' where b: "between deps (set [0..<length deps]) cols'" by auto
      then have all_done: "cols' ! n = Done" if "n < length deps" for n
        using that by (cases "cols' ! n") (auto simp: between_def)
      from b obtain fin where "closed_order deps fin" "set fin = {n. n < length deps \<and> cols' ! n = Done}"
        by (auto simp: between_def)
      then have "closed_order deps fin" "set fin = {..<length deps}"
        using all_done by auto
      from kahn_complete [OF k(2,3) this] False show ?thesis by simp
    next
      case (Some c)
      with r False k show ?thesis by (simp add: topological_order_def)
    qed
  qed
qed

section \<open>From descriptors to edges\<close>

lemma first_duplicate_None:
  "first_duplicate seen xs = None \<longleftrightarrow> distinct xs \<and> set xs \<inter> seen = {}"
  by (induction xs arbitrary: seen) auto

lemma position_of_Some: "position_of x xs = Some i \<Longrightarrow> i < length xs \<and> xs ! i = x"
  by (induction xs arbitrary: i) (auto split: if_splits)

lemma position_of_nth: "distinct xs \<Longrightarrow> i < length xs \<Longrightarrow> position_of (xs ! i) xs = Some i"
proof (induction xs arbitrary: i)
  case (Cons x xs)
  then show ?case by (cases i) auto
qed simp

lemma edges_of_Ok:
  assumes "edges_of ids own ds edges = Ok es"
  shows "own \<notin> set ds \<and> (distinct edges \<longrightarrow> distinct es) \<and>
    set es = set edges \<union> {i. \<exists>d \<in> set ds. position_of d ids = Some i} \<and>
    (\<forall>d \<in> set ds. position_of d ids \<noteq> None)"
  using assms
proof (induction ids own ds edges rule: edges_of.induct)
  case (2 ids own d ds edges)
  then obtain t where t: "d \<noteq> own" "position_of d ids = Some t"
    "edges_of ids own ds (if t \<in> set edges then edges else edges @ [t]) = Ok es"
    by (auto split: if_splits option.splits)
  from 2(1) [OF t(1,2,3)] t(1,2) show ?case by (auto split: if_splits)
qed simp

lemma all_edges_Ok:
  assumes "all_edges ids ds = Ok deps"
  shows "length deps = length ds \<and> (\<forall>i < length ds.
    edges_of ids (desc_id (ds ! i)) (desc_dependencies (ds ! i)) [] = Ok (deps ! i))"
  using assms
proof (induction ds arbitrary: deps)
  case (Cons d ds)
  then obtain e rest where e: "edges_of ids (desc_id d) (desc_dependencies d) [] = Ok e"
    "all_edges ids ds = Ok rest" "deps = e # rest"
    by (auto split: result.splits)
  from Cons.IH [OF e(2)] e show ?case by (auto simp: nth_Cons split: nat.splits)
qed simp

text \<open>
  The graph of a composition whose edges could be resolved: well formed, and an edge is exactly a
  declared dependency.
\<close>

lemma resolved_graph:
  assumes "distinct (map desc_id ds)" and "all_edges (map desc_id ds) ds = Ok deps"
  shows "length deps = length ds" and "wf_deps deps"
    and "\<And>i j. i < length ds \<Longrightarrow> j < length ds \<Longrightarrow>
      j \<in> set (deps ! i) \<longleftrightarrow> desc_id (ds ! j) \<in> set (desc_dependencies (ds ! i))"
    and "\<And>i d. i < length ds \<Longrightarrow> d \<in> set (desc_dependencies (ds ! i)) \<Longrightarrow>
      \<exists>j < length ds. desc_id (ds ! j) = d"
proof -
  let ?ids = "map desc_id ds"
  show len: "length deps = length ds" using all_edges_Ok [OF assms(2)] by blast
  have es: "distinct (deps ! i) \<and>
      set (deps ! i) = {j. \<exists>d \<in> set (desc_dependencies (ds ! i)). position_of d ?ids = Some j} \<and>
      (\<forall>d \<in> set (desc_dependencies (ds ! i)). position_of d ?ids \<noteq> None)"
    if "i < length ds" for i
  proof -
    have "edges_of ?ids (desc_id (ds ! i)) (desc_dependencies (ds ! i)) [] = Ok (deps ! i)"
      using all_edges_Ok [OF assms(2)] that by blast
    from edges_of_Ok [OF this] show ?thesis by simp
  qed
  show "wf_deps deps"
    unfolding wf_deps_def
  proof
    fix edges assume "edges \<in> set deps"
    then obtain i where i: "i < length ds" "deps ! i = edges" using len by (auto simp: in_set_conv_nth)
    then show "distinct edges \<and> (\<forall>d \<in> set edges. d < length deps)"
      using es [OF i(1)] position_of_Some [of _ ?ids] len by auto
  qed
  show "j \<in> set (deps ! i) \<longleftrightarrow> desc_id (ds ! j) \<in> set (desc_dependencies (ds ! i))"
    if i: "i < length ds" and j: "j < length ds" for i j
  proof
    assume "j \<in> set (deps ! i)"
    then obtain d where d: "d \<in> set (desc_dependencies (ds ! i))" "position_of d ?ids = Some j"
      using es [OF i] by blast
    have "?ids ! j = d" using position_of_Some [OF d(2)] by simp
    with d(1) j show "desc_id (ds ! j) \<in> set (desc_dependencies (ds ! i))" by simp
  next
    assume "desc_id (ds ! j) \<in> set (desc_dependencies (ds ! i))"
    moreover have "position_of (desc_id (ds ! j)) ?ids = Some j"
      using position_of_nth [OF assms(1), of j] j by simp
    ultimately show "j \<in> set (deps ! i)" using es [OF i] by blast
  qed
  show "\<exists>j < length ds. desc_id (ds ! j) = d"
    if i: "i < length ds" and d: "d \<in> set (desc_dependencies (ds ! i))" for i d
  proof -
    obtain j where "position_of d ?ids = Some j" using es [OF i] d by blast
    from position_of_Some [OF this] show ?thesis by auto
  qed
qed

section \<open>What a plan guarantees\<close>

definition comes_before :: "'a list \<Rightarrow> 'a \<Rightarrow> 'a \<Rightarrow> bool" where
  "comes_before xs a b \<longleftrightarrow> (\<exists>i j. i < j \<and> j < length xs \<and> xs ! i = a \<and> xs ! j = b)"

lemma closed_order_before:
  assumes "closed_order deps xs" and "v \<in> set xs" and "u \<in> set (deps ! v)"
  shows "comes_before xs u v"
proof -
  obtain j where j: "j < length xs" "xs ! j = v" using assms(2) by (auto simp: in_set_conv_nth)
  then have "u \<in> set (take j xs)" using assms(1,3) by (auto simp: closed_order_def)
  then obtain i where "i < j" "xs ! i = u" using j by (auto simp: in_set_conv_nth)
  with j show ?thesis by (auto simp: comes_before_def)
qed

lemma comes_before_map: "comes_before xs a b \<Longrightarrow> comes_before (map f xs) (f a) (f b)"
  by (fastforce simp: comes_before_def)

lemma comes_before_rev: "comes_before (rev xs) b a \<longleftrightarrow> comes_before xs a b"
proof -
  have rev: "comes_before (rev ys) y x" if "comes_before ys x y" for ys and x y :: 'a
  proof -
    obtain i j where ij: "i < j" "j < length ys" "ys ! i = x" "ys ! j = y"
      using \<open>comes_before ys x y\<close> by (auto simp: comes_before_def)
    then show ?thesis
      unfolding comes_before_def
      by (intro exI [of _ "length ys - 1 - j"] exI [of _ "length ys - 1 - i"]) (auto simp: rev_nth)
  qed
  show ?thesis using rev [of xs a b] rev [of "rev xs" b a] by auto
qed

text \<open>Building either resolves the graph and orders it, or says what is wrong.\<close>

lemma plan_build_cases:
  assumes "distinct (map desc_id ds)" and "all_edges (map desc_id ds) ds = Ok deps"
  shows "(\<exists>ord. plan_build ds = Some (Ok \<lparr>start_order = map (\<lambda>i. desc_id (ds ! i)) ord,
        plan_ingress = map (\<lambda>i. desc_id (ds ! i)) (filter (\<lambda>i. desc_kind (ds ! i) = Ingress) ord)\<rparr>) \<and>
      closed_order deps ord \<and> set ord = {..<length ds}) \<or>
    (\<exists>c. plan_build ds = Some (Err (DependencyCycle (map (\<lambda>i. desc_id (ds ! i)) c))) \<and> is_cycle deps c)"
proof -
  note g = resolved_graph [OF assms]
  have none: "first_duplicate {} (map desc_id ds) = None"
    using assms(1) by (simp add: first_duplicate_None)
  have nth: "map ((!) (map desc_id ds)) xs = map (\<lambda>i. desc_id (ds ! i)) xs"
    if "\<forall>i \<in> set xs. i < length ds" for xs
    using that by (intro map_cong) auto
  from topological_order_spec [OF g(2)] show ?thesis
  proof (elim disjE exE conjE)
    fix ord assume o: "topological_order deps = Some (Ok ord)" "closed_order deps ord"
      "set ord = {..<length deps}"
    then have "map ((!) (map desc_id ds)) ord = map (\<lambda>i. desc_id (ds ! i)) ord"
      "map ((!) (map desc_id ds)) (filter (\<lambda>i. desc_kind (ds ! i) = Ingress) ord) =
         map (\<lambda>i. desc_id (ds ! i)) (filter (\<lambda>i. desc_kind (ds ! i) = Ingress) ord)"
      using g(1) by (auto intro!: nth)
    then have "plan_build ds = Some (Ok \<lparr>start_order = map (\<lambda>i. desc_id (ds ! i)) ord,
        plan_ingress = map (\<lambda>i. desc_id (ds ! i)) (filter (\<lambda>i. desc_kind (ds ! i) = Ingress) ord)\<rparr>)"
      using none assms(2) o(1) by (simp add: plan_build_def Let_def)
    with o(2,3) g(1) show ?thesis by auto
  next
    fix c assume c: "topological_order deps = Some (Err c)" "is_cycle deps c"
    then have "\<forall>i \<in> set c. i < length ds" using g(1) by (simp add: is_cycle_def)
    then have "map ((!) (map desc_id ds)) c = map (\<lambda>i. desc_id (ds ! i)) c" by (rule nth)
    then have "plan_build ds = Some (Err (DependencyCycle (map (\<lambda>i. desc_id (ds ! i)) c)))"
      using c(1) none assms(2) by (simp add: plan_build_def Let_def)
    with c(2) show ?thesis by blast
  qed
qed

lemma plan_build_other:
  assumes "plan_build ds = Some (Ok p) \<or> plan_build ds = Some (Err (DependencyCycle c)) \<or> plan_build ds = None"
  shows "distinct (map desc_id ds) \<and> (\<exists>deps. all_edges (map desc_id ds) ds = Ok deps)"
proof -
  have no_cycle: "edges_of ids own l es \<noteq> Err (DependencyCycle c)" for ids own l es
    by (induction ids own l es rule: edges_of.induct) (auto split: option.splits)
  have "all_edges ids l \<noteq> Err (DependencyCycle c)" for ids l
    using no_cycle by (induction l) (auto split: result.splits)
  then show ?thesis
    using assms by (auto simp: plan_build_def Let_def first_duplicate_None split: option.splits result.splits)
qed

text \<open>
  Property C22. A plan starts everything once, after what it needs: building always ends, and when it
  succeeds the start order lists every subsystem exactly once, each after all its declared
  dependencies; shutdown tears a subsystem down before anything it depends on; and quiescing covers
  exactly the ingress subsystems.
\<close>

theorem start_order_respects_dependencies:
  assumes "plan_build ds = Some (Ok p)"
  shows "distinct (start_order p) \<and> set (start_order p) = desc_id ` set ds \<and>
    length (start_order p) = length ds \<and>
    (\<forall>d \<in> set ds. \<forall>dep \<in> set (desc_dependencies d).
       comes_before (start_order p) dep (desc_id d) \<and> comes_before (shutdown_order p) (desc_id d) dep) \<and>
    set (quiesce_order p) = desc_id ` {d \<in> set ds. desc_kind d = Ingress}"
proof -
  obtain deps where dist: "distinct (map desc_id ds)" and deps: "all_edges (map desc_id ds) ds = Ok deps"
    using plan_build_other assms by blast
  note g = resolved_graph [OF dist deps]
  obtain ord where p: "start_order p = map (\<lambda>i. desc_id (ds ! i)) ord"
      "plan_ingress p = map (\<lambda>i. desc_id (ds ! i)) (filter (\<lambda>i. desc_kind (ds ! i) = Ingress) ord)"
    and ord: "closed_order deps ord" "set ord = {..<length ds}"
    using plan_build_cases [OF dist deps] assms by auto
  have inj: "inj_on (\<lambda>i. desc_id (ds ! i)) {..<length ds}"
    using dist by (auto simp: inj_on_def distinct_conv_nth)
  have dord: "distinct ord" using ord(1) by (simp add: closed_order_def)
  have nodes: "set ds = (!) ds ` {..<length ds}" by (auto simp: in_set_conv_nth)
  have before: "comes_before (start_order p) dep (desc_id d)"
    if d: "d \<in> set ds" and dep: "dep \<in> set (desc_dependencies d)" for d dep
  proof -
    obtain i where i: "i < length ds" "ds ! i = d" using d by (auto simp: in_set_conv_nth)
    obtain j where j: "j < length ds" "desc_id (ds ! j) = dep" using g(4) [OF i(1)] dep i(2) by blast
    have "j \<in> set (deps ! i)" using g(3) [OF i(1) j(1)] dep i(2) j(2) by simp
    then have "comes_before ord j i" using closed_order_before [OF ord(1)] ord(2) i(1) by blast
    from comes_before_map [OF this, of "\<lambda>i. desc_id (ds ! i)"] show ?thesis
      using i j by (simp add: p)
  qed
  have "distinct (start_order p)" unfolding p using dord inj ord(2) by (simp add: distinct_map)
  moreover have "set (start_order p) = desc_id ` set ds" unfolding p nodes using ord(2) by auto
  moreover have "length (start_order p) = length ds"
    unfolding p using distinct_card [OF dord] ord(2) by simp
  moreover have "set (quiesce_order p) = desc_id ` {d \<in> set ds. desc_kind d = Ingress}"
    unfolding quiesce_order_def p nodes using ord(2) by auto
  ultimately show ?thesis
    using before by (auto simp: shutdown_order_def comes_before_rev)
qed

text \<open>A ranking of the nodes rules every cycle out.\<close>

lemma ranked_no_cycle:
  assumes "is_cycle deps c" and "\<And>u v. v < length deps \<Longrightarrow> u \<in> set (deps ! v) \<Longrightarrow> rank u < (rank v :: nat)"
  shows False
proof -
  have down: "rank (c ! i) \<le> rank (c ! 0)" if "i < length c" for i
    using that
  proof (induction i)
    case (Suc i)
    then have "c ! Suc i \<in> set (deps ! (c ! i))" "c ! i < length deps"
      using assms(1) by (auto simp: is_cycle_def)
    from assms(2) [OF this(2,1)] Suc show ?case by simp
  qed simp
  have "c \<noteq> []" "hd c \<in> set (deps ! last c)" "last c < length deps"
    using assms(1) by (auto simp: is_cycle_def)
  then have "rank (c ! 0) < rank (c ! (length c - 1))"
    using assms(2) by (simp add: hd_conv_nth last_conv_nth)
  with down [of "length c - 1"] \<open>c \<noteq> []\<close> show False by simp
qed

lemma cycle_of_ids:
  assumes "is_cycle deps c" and "length deps = length ds" and "distinct (map desc_id ds)"
    and edges: "\<And>i j. i < length ds \<Longrightarrow> j < length ds \<Longrightarrow>
      j \<in> set (deps ! i) \<longleftrightarrow> desc_id (ds ! j) \<in> set (desc_dependencies (ds ! i))"
  shows "c \<noteq> [] \<and> distinct (map (\<lambda>i. desc_id (ds ! i)) c) \<and>
    (\<forall>i < length c. \<exists>d \<in> set ds. desc_id d = map (\<lambda>i. desc_id (ds ! i)) c ! i \<and>
       map (\<lambda>i. desc_id (ds ! i)) c ! (if Suc i = length c then 0 else Suc i) \<in> set (desc_dependencies d))"
proof -
  have nodes: "\<forall>n \<in> set c. n < length ds" and ne: "c \<noteq> []"
    using assms(1,2) by (auto simp: is_cycle_def)
  have "inj_on (\<lambda>i. desc_id (ds ! i)) (set c)"
    using assms(3) nodes by (auto simp: inj_on_def distinct_conv_nth)
  then have "distinct (map (\<lambda>i. desc_id (ds ! i)) c)"
    using assms(1) by (simp add: distinct_map is_cycle_def)
  moreover have "\<exists>d \<in> set ds. desc_id d = map (\<lambda>i. desc_id (ds ! i)) c ! i \<and>
       map (\<lambda>i. desc_id (ds ! i)) c ! (if Suc i = length c then 0 else Suc i) \<in> set (desc_dependencies d)"
    if i: "i < length c" for i
  proof -
    let ?k = "if Suc i = length c then 0 else Suc i"
    have k: "?k < length c" using i ne by auto
    have "c ! ?k \<in> set (deps ! (c ! i))"
    proof (cases "Suc i = length c")
      case True
      then have "length c - 1 = i" by simp
      then have "last c = c ! i" using ne by (simp add: last_conv_nth)
      then show ?thesis using assms(1) True ne by (simp add: is_cycle_def hd_conv_nth)
    next
      case False
      then show ?thesis using assms(1) i by (simp add: is_cycle_def)
    qed
    then have "desc_id (ds ! (c ! ?k)) \<in> set (desc_dependencies (ds ! (c ! i)))"
      using edges [of "c ! i" "c ! ?k"] nodes nth_mem [OF i] nth_mem [OF k] by blast
    moreover have "ds ! (c ! i) \<in> set ds" using nodes nth_mem [OF i] by auto
    ultimately show ?thesis
      using i k by (intro bexI [of _ "ds ! (c ! i)"]) (simp_all only: nth_map simp_thms)
  qed
  ultimately show ?thesis using ne by blast
qed

text \<open>
  Property C36. A refusal for a cycle names a real one, and nothing orderable is refused: building
  never fails to return, a reported cycle is a list of distinct subsystems each declaring the next
  (and the last the first) as a dependency, and a composition with distinct identifiers whose
  dependencies can be resolved and ranked is always given a plan.
\<close>

theorem reported_cycle_is_real:
  "plan_build ds \<noteq> None \<and>
   (\<forall>c. plan_build ds = Some (Err (DependencyCycle c)) \<longrightarrow>
      c \<noteq> [] \<and> distinct c \<and>
      (\<forall>i < length c. \<exists>d \<in> set ds. desc_id d = c ! i \<and>
         c ! (if Suc i = length c then 0 else Suc i) \<in> set (desc_dependencies d))) \<and>
   (distinct (map desc_id ds) \<and> (\<exists>deps. all_edges (map desc_id ds) ds = Ok deps) \<and>
    (\<exists>rank :: subsystem_id \<Rightarrow> nat. \<forall>d \<in> set ds. \<forall>dep \<in> set (desc_dependencies d). rank dep < rank (desc_id d))
    \<longrightarrow> (\<exists>p. plan_build ds = Some (Ok p)))"
proof (intro conjI allI impI)
  show "plan_build ds \<noteq> None"
    using plan_build_other [of ds] plan_build_cases [of ds] by (metis option.distinct(1))
next
  fix c assume c: "plan_build ds = Some (Err (DependencyCycle c))"
  then obtain deps where g: "distinct (map desc_id ds)" "all_edges (map desc_id ds) ds = Ok deps"
    using plan_build_other by blast
  from plan_build_cases [OF g] c obtain ns where
    ns: "c = map (\<lambda>i. desc_id (ds ! i)) ns" "is_cycle deps ns" by auto
  have "ns \<noteq> [] \<and> distinct c \<and> (\<forall>i < length ns. \<exists>d \<in> set ds. desc_id d = c ! i \<and>
      c ! (if Suc i = length ns then 0 else Suc i) \<in> set (desc_dependencies d))"
    unfolding ns(1) by (rule cycle_of_ids [OF ns(2) resolved_graph(1) [OF g] g(1) resolved_graph(3) [OF g]])
  moreover have "length ns = length c" "c \<noteq> [] \<longleftrightarrow> ns \<noteq> []" using ns(1) by simp_all
  ultimately show "c \<noteq> []" "distinct c" "\<And>i. i < length c \<Longrightarrow> \<exists>d \<in> set ds. desc_id d = c ! i \<and>
         c ! (if Suc i = length c then 0 else Suc i) \<in> set (desc_dependencies d)"
    by simp_all
next
  assume "distinct (map desc_id ds) \<and> (\<exists>deps. all_edges (map desc_id ds) ds = Ok deps) \<and>
    (\<exists>rank :: subsystem_id \<Rightarrow> nat. \<forall>d \<in> set ds. \<forall>dep \<in> set (desc_dependencies d). rank dep < rank (desc_id d))"
  then obtain deps and rank :: "subsystem_id \<Rightarrow> nat" where
    g: "distinct (map desc_id ds)" "all_edges (map desc_id ds) ds = Ok deps"
    and rank: "\<forall>d \<in> set ds. \<forall>dep \<in> set (desc_dependencies d). rank dep < rank (desc_id d)" by blast
  note graph = resolved_graph [OF g]
  have less: "rank (desc_id (ds ! u)) < rank (desc_id (ds ! v))"
    if v: "v < length deps" and u: "u \<in> set (deps ! v)" for u v
  proof -
    have "u < length ds" using graph(1,2) v u nth_mem [OF v] unfolding wf_deps_def by auto
    then have "desc_id (ds ! u) \<in> set (desc_dependencies (ds ! v))" using graph(1,3) v u by simp
    then show ?thesis using rank v graph(1) by simp
  qed
  have "\<not> is_cycle deps c" for c
    using ranked_no_cycle [of deps c "\<lambda>i. rank (desc_id (ds ! i))"] less by blast
  then show "\<exists>p. plan_build ds = Some (Ok p)"
    using plan_build_cases [OF g] by blast
qed

section \<open>Two compositions\<close>

text \<open>A gateway over an engine over a store, and the same with the store needing the gateway.\<close>

definition demo_subsystems :: "bool \<Rightarrow> subsystem_descriptor list" where
  "demo_subsystems cyclic =
     [depends_on (SubsystemId ''engine'') (descriptor_new (SubsystemId ''gateway'') Ingress),
      depends_on (SubsystemId ''store'') (descriptor_new (SubsystemId ''engine'') Capability),
      (if cyclic then depends_on (SubsystemId ''gateway'') else id)
        (descriptor_new (SubsystemId ''store'') Foundation)]"

lemma demo_plan:
  "plan_build (demo_subsystems False) =
     Some (Ok \<lparr>start_order = map SubsystemId [''store'', ''engine'', ''gateway''],
               plan_ingress = [SubsystemId ''gateway'']\<rparr>)"
  by code_simp

lemma demo_cycle:
  "plan_build (demo_subsystems True) =
     Some (Err (DependencyCycle (map SubsystemId [''gateway'', ''engine'', ''store''])))"
  by code_simp

theorem start_order_respects_dependencies_witness:
  "comes_before (map SubsystemId [''store'', ''engine'', ''gateway'']) (SubsystemId ''store'') (SubsystemId ''engine'')"
  using start_order_respects_dependencies [OF demo_plan]
  by (simp add: demo_subsystems_def depends_on_def descriptor_new_def)

theorem reported_cycle_is_real_witness:
  "distinct (map SubsystemId [''gateway'', ''engine'', ''store''])"
  using reported_cycle_is_real [of "demo_subsystems True"] demo_cycle by blast

end
