(* ===== verification/Composition_Host.thy ===== *)
theory Composition_Host
  imports Composition_Graph
begin

text \<open>
  Driving a composition through its lifecycle (crates/claw-application/src/composition/host.rs).
  A subsystem is its descriptor; what its five asynchronous methods answer is a parameter that may
  depend on everything called before. An answer \<open>None\<close> is a call that had not finished when the
  caller dropped the future, which is the only way a lifecycle operation stops early; the guard
  \<open>InterruptGuard\<close> then flags the host. The host also carries the calls its subsystems have
  received, each with the state of the epoch gate while it ran.
\<close>

section \<open>Subsystems and what they answer\<close>

text \<open>A socket address is the text it prints.\<close>

record service_handle =
  handle_subsystem :: subsystem_id
  handle_bound :: "string list"
  handle_detail :: "string option"

definition handle_inert :: "subsystem_id \<Rightarrow> service_handle" where
  "handle_inert s = \<lparr>handle_subsystem = s, handle_bound = [], handle_detail = None\<rparr>"

definition handle_listening :: "subsystem_id \<Rightarrow> string list \<Rightarrow> service_handle" where
  "handle_listening s bound = \<lparr>handle_subsystem = s, handle_bound = bound, handle_detail = None\<rparr>"

definition with_detail :: "string \<Rightarrow> service_handle \<Rightarrow> service_handle" where
  "with_detail d h = h\<lparr>handle_detail := Some d\<rparr>"

record drain_report =
  drain_subsystem :: subsystem_id
  drain_completed :: u32
  drain_abandoned :: u32

definition drain_clean :: "subsystem_id \<Rightarrow> u32 \<Rightarrow> drain_report" where
  "drain_clean s completed = \<lparr>drain_subsystem = s, drain_completed = completed, drain_abandoned = 0\<rparr>"

definition drain_partial :: "subsystem_id \<Rightarrow> u32 \<Rightarrow> u32 \<Rightarrow> drain_report" where
  "drain_partial s completed abandoned =
     \<lparr>drain_subsystem = s, drain_completed = completed, drain_abandoned = abandoned\<rparr>"

definition drain_is_clean :: "drain_report \<Rightarrow> bool" where
  "drain_is_clean r \<longleftrightarrow> drain_abandoned r = 0"

record shutdown_report =
  drains :: "drain_report list"
  errors :: "subsystem_error list"

definition report_default :: shutdown_report where
  "report_default = \<lparr>drains = [], errors = []\<rparr>"

definition report_is_clean :: "shutdown_report \<Rightarrow> bool" where
  "report_is_clean r \<longleftrightarrow> errors r = [] \<and> list_all drain_is_clean (drains r)"

definition report_completed :: "shutdown_report \<Rightarrow> u32" where
  "report_completed r = fold (\<lambda>d n. n + drain_completed d) (drains r) 0"

definition report_abandoned :: "shutdown_report \<Rightarrow> u32" where
  "report_abandoned r = fold (\<lambda>d n. n + drain_abandoned d) (drains r) 0"

datatype call = Initialize nat | Start nat | Quiesce nat | Drain nat | Shutdown nat

type_synonym journal = "(call \<times> epoch_gate) list"

text \<open>The answer to the last call of a journal, or \<open>None\<close> when the future is dropped there.\<close>

record subsystems =
  on_initialize :: "journal \<Rightarrow> (unit, subsystem_error) result option"
  on_start :: "journal \<Rightarrow> (service_handle, subsystem_error) result option"
  on_quiesce :: "journal \<Rightarrow> (unit, subsystem_error) result option"
  on_drain :: "journal \<Rightarrow> (drain_report, subsystem_error) result option"
  on_shutdown :: "journal \<Rightarrow> (unit, subsystem_error) result option"

section \<open>The host\<close>

record host =
  descriptors :: "subsystem_descriptor list"
  plan :: composition_plan
  host_lifecycle :: lifecycle
  initialized :: "nat list"
  started :: "nat list"
  interrupted :: bool
  journal :: journal

definition with_lifecycle ::
  "subsystem_descriptor list \<Rightarrow> lifecycle \<Rightarrow> (host, composition_error) result option" where
  "with_lifecycle ds l =
     (case plan_build ds of
        None \<Rightarrow> None
      | Some (Err e) \<Rightarrow> Some (Err e)
      | Some (Ok p) \<Rightarrow>
          Some (Ok \<lparr>descriptors = ds, plan = p, host_lifecycle = l, initialized = [], started = [],
                    interrupted = False, journal = []\<rparr>))"

definition host_new :: "subsystem_descriptor list \<Rightarrow> (host, composition_error) result option" where
  "host_new ds = with_lifecycle ds lifecycle_new"

definition host_phase :: "host \<Rightarrow> lifecycle_phase" where
  "host_phase h = lc_phase (host_lifecycle h)"

definition host_gate :: "host \<Rightarrow> epoch_gate" where
  "host_gate h = lc_gate (host_lifecycle h)"

text \<open>An operation of the host returns, is dropped at an \<open>await\<close>, or panics.\<close>

datatype 'a async = Returned 'a | Dropped | Panicked

type_synonym 'a operation = "host \<Rightarrow> host \<times> 'a async"

definition give :: "'a \<Rightarrow> 'a operation" where
  "give a h = (h, Returned a)"

fun and_then :: "'a operation \<Rightarrow> ('a \<Rightarrow> 'b operation) \<Rightarrow> 'b operation" where
  "and_then m k h =
     (case m h of
        (h', Returned a) \<Rightarrow> k a h'
      | (h', Dropped) \<Rightarrow> (h', Dropped)
      | (h', Panicked) \<Rightarrow> (h', Panicked))"

definition await :: "(journal \<Rightarrow> 'a option) \<Rightarrow> call \<Rightarrow> 'a operation" where
  "await answer c h =
     (let h' = h\<lparr>journal := journal h @ [(c, host_gate h)]\<rparr> in
      case answer (journal h') of Some a \<Rightarrow> (h', Returned a) | None \<Rightarrow> (h', Dropped))"

text \<open>\<open>transition_to(...)\<close> whose error the caller handles, and with \<open>expect\<close>.\<close>

definition transition :: "lifecycle_phase \<Rightarrow> (unit, phase_transition_error) result operation" where
  "transition next h =
     (case transition_to next (host_lifecycle h) of
        Ok l \<Rightarrow> (h\<lparr>host_lifecycle := l\<rparr>, Returned (Ok ()))
      | Err e \<Rightarrow> (h, Returned (Err e)))"

definition transition_expect :: "lifecycle_phase \<Rightarrow> unit operation" where
  "transition_expect next h =
     (case transition_to next (host_lifecycle h) of
        Ok l \<Rightarrow> (h\<lparr>host_lifecycle := l\<rparr>, Returned ())
      | Err e \<Rightarrow> (h, Panicked))"

text \<open>\<open>order\<close>: the positions of identifiers, or a panic for one that is no subsystem's.\<close>

fun positions :: "subsystem_descriptor list \<Rightarrow> subsystem_id list \<Rightarrow> nat list option" where
  "positions ds [] = Some []"
| "positions ds (i # is) =
     (case position_of i (map desc_id ds) of
        None \<Rightarrow> None
      | Some p \<Rightarrow> map_option ((#) p) (positions ds is))"

definition host_order :: "(composition_plan \<Rightarrow> subsystem_id list) \<Rightarrow> nat list operation" where
  "host_order ids h =
     (case positions (descriptors h) (ids (plan h)) of
        Some ps \<Rightarrow> (h, Returned ps)
      | None \<Rightarrow> (h, Panicked))"

text \<open>
  \<open>InterruptGuard\<close>: an armed guard that goes out of scope, because the operation returned with it,
  was dropped or panicked, flags the host. The guarded operation returns whether it disarmed it.
\<close>

fun guarded :: "('a \<times> bool) operation \<Rightarrow> 'a operation" where
  "guarded m h =
     (case m h of
        (h', Returned (a, disarmed)) \<Rightarrow>
          (if disarmed then h' else h'\<lparr>interrupted := True\<rparr>, Returned a)
      | (h', Dropped) \<Rightarrow> (h'\<lparr>interrupted := True\<rparr>, Dropped)
      | (h', Panicked) \<Rightarrow> (h'\<lparr>interrupted := True\<rparr>, Panicked))"

section \<open>Tearing down\<close>

fun push_error :: "('a, subsystem_error) result \<Rightarrow> shutdown_report \<Rightarrow> shutdown_report" where
  "push_error (Ok _) r = r"
| "push_error (Err e) r = r\<lparr>errors := errors r @ [e]\<rparr>"

fun push_drain :: "(drain_report, subsystem_error) result \<Rightarrow> shutdown_report \<Rightarrow> shutdown_report" where
  "push_drain (Ok d) r = r\<lparr>drains := drains r @ [d]\<rparr>"
| "push_drain (Err e) r = r\<lparr>errors := errors r @ [e]\<rparr>"

fun quiesce_loop :: "subsystems \<Rightarrow> nat list \<Rightarrow> shutdown_report \<Rightarrow> shutdown_report operation" where
  "quiesce_loop S [] r h = (h, Returned r)"
| "quiesce_loop S (p # ps) r h =
     (if p \<notin> set (started h) then quiesce_loop S ps r h
      else and_then (await (on_quiesce S) (Quiesce p))
        (\<lambda>a. quiesce_loop S ps (push_error a r)) h)"

fun drain_loop :: "subsystems \<Rightarrow> nat list \<Rightarrow> shutdown_report \<Rightarrow> shutdown_report operation" where
  "drain_loop S [] r h = (h, Returned r)"
| "drain_loop S (p # ps) r h =
     (if p \<notin> set (started h) then drain_loop S ps r h
      else and_then (await (on_drain S) (Drain p))
        (\<lambda>a. drain_loop S ps (push_drain a r)) (h\<lparr>started := filter ((\<noteq>) p) (started h)\<rparr>))"

definition quiesce_and_drain :: "subsystems \<Rightarrow> shutdown_report \<Rightarrow> shutdown_report operation" where
  "quiesce_and_drain S r =
     and_then (host_order quiesce_order) (\<lambda>qs.
     and_then (quiesce_loop S qs r) (\<lambda>r.
     and_then (host_order shutdown_order) (\<lambda>ps.
     drain_loop S ps r)))"

fun stop_loop :: "subsystems \<Rightarrow> nat list \<Rightarrow> shutdown_report \<Rightarrow> shutdown_report operation" where
  "stop_loop S [] r h = (h, Returned r)"
| "stop_loop S (p # ps) r h =
     (if p \<notin> set (initialized h) then stop_loop S ps r h
      else and_then (await (on_shutdown S) (Shutdown p))
        (\<lambda>a. stop_loop S ps (push_error a r)) (h\<lparr>initialized := filter ((\<noteq>) p) (initialized h)\<rparr>))"

definition stop_all :: "subsystems \<Rightarrow> shutdown_report \<Rightarrow> shutdown_report operation" where
  "stop_all S r =
     and_then (host_order shutdown_order) (\<lambda>ps.
     and_then (stop_loop S ps r) (\<lambda>r h.
     (h\<lparr>started := [], initialized := []\<rparr>, Returned r)))"

definition fail_and_tear_down :: "subsystems \<Rightarrow> shutdown_report \<Rightarrow> shutdown_report operation" where
  "fail_and_tear_down S r =
     and_then (\<lambda>h. if host_phase h \<noteq> Failed then transition_expect Failed h else (h, Returned ())) (\<lambda>_.
     and_then (quiesce_and_drain S r) (\<lambda>r.
     and_then (stop_all S r) (\<lambda>r.
     and_then (transition_expect Stopping) (\<lambda>_.
     and_then (transition_expect Stopped) (\<lambda>_.
     give r)))))"

definition abort :: "subsystems \<Rightarrow> unit operation" where
  "abort S = and_then (fail_and_tear_down S report_default) (\<lambda>_. give ())"

section \<open>Starting and stopping\<close>

fun initialize_loop :: "subsystems \<Rightarrow> nat list \<Rightarrow> (unit, subsystem_error) result operation" where
  "initialize_loop S [] h = (h, Returned (Ok ()))"
| "initialize_loop S (p # ps) h =
     and_then (await (on_initialize S) (Initialize p))
       (\<lambda>a. case a of
          Ok _ \<Rightarrow> initialize_loop S ps
        | Err e \<Rightarrow> and_then (abort S) (\<lambda>_. give (Err e)))
       (h\<lparr>initialized := initialized h @ [p]\<rparr>)"

fun start_loop ::
  "subsystems \<Rightarrow> nat list \<Rightarrow> service_handle list \<Rightarrow> (service_handle list, subsystem_error) result operation" where
  "start_loop S [] handles h = (h, Returned (Ok handles))"
| "start_loop S (p # ps) handles h =
     and_then (await (on_start S) (Start p))
       (\<lambda>a. case a of
          Ok handle \<Rightarrow> start_loop S ps (handles @ [handle])
        | Err e \<Rightarrow> and_then (abort S) (\<lambda>_. give (Err e)))
       (h\<lparr>started := started h @ [p]\<rparr>)"

text \<open>
  The guarded part of \<open>start\<close>: a refused transition propagates with the guard still armed, a failed
  subsystem disarms it after the rollback, and success disarms it.
\<close>

definition start_guarded ::
  "subsystems \<Rightarrow> nat list \<Rightarrow> ((service_handle list, composition_error) result \<times> bool) operation" where
  "start_guarded S ord =
     and_then (initialize_loop S ord) (\<lambda>a.
     case a of Err e \<Rightarrow> give (Err (SubsystemFailed e), True) | Ok _ \<Rightarrow>
     and_then (transition Initialized) (\<lambda>t.
     case t of Err e \<Rightarrow> give (Err (PhaseRefused e), False) | Ok _ \<Rightarrow>
     and_then (transition Starting) (\<lambda>t.
     case t of Err e \<Rightarrow> give (Err (PhaseRefused e), False) | Ok _ \<Rightarrow>
     and_then (start_loop S ord []) (\<lambda>a.
     case a of Err e \<Rightarrow> give (Err (SubsystemFailed e), True) | Ok handles \<Rightarrow>
     give (Ok handles, True)))))"

definition host_start :: "subsystems \<Rightarrow> (service_handle list, composition_error) result operation" where
  "host_start S =
     and_then (host_order start_order) (\<lambda>ord.
     and_then (transition Initializing) (\<lambda>t.
     case t of Err e \<Rightarrow> give (Err (PhaseRefused e)) | Ok _ \<Rightarrow>
     and_then (guarded (start_guarded S ord)) (\<lambda>a.
     case a of Err e \<Rightarrow> give (Err e) | Ok handles \<Rightarrow>
     and_then (transition Running) (\<lambda>t.
     case t of Err e \<Rightarrow> give (Err (PhaseRefused e)) | Ok _ \<Rightarrow>
     give (Ok handles)))))"

definition shutdown_guarded ::
  "subsystems \<Rightarrow> shutdown_report \<Rightarrow> ((shutdown_report, composition_error) result \<times> bool) operation" where
  "shutdown_guarded S r =
     and_then (quiesce_and_drain S r) (\<lambda>r.
     and_then (transition Stopping) (\<lambda>t.
     case t of Err e \<Rightarrow> give (Err (PhaseRefused e), False) | Ok _ \<Rightarrow>
     and_then (stop_all S r) (\<lambda>r.
     give (Ok r, True))))"

definition host_shutdown :: "subsystems \<Rightarrow> (shutdown_report, composition_error) result operation" where
  "host_shutdown S h =
     (if interrupted h
      then (let h = h\<lparr>interrupted := False\<rparr> in
            if host_phase h = Stopped then (h, Returned (Ok report_default))
            else and_then (guarded (and_then (fail_and_tear_down S report_default) (\<lambda>r. give (r, True))))
                   (\<lambda>r. give (Ok r)) h)
      else and_then (transition Draining) (\<lambda>t.
           case t of Err e \<Rightarrow> give (Err (PhaseRefused e)) | Ok _ \<Rightarrow>
           and_then (guarded (shutdown_guarded S report_default)) (\<lambda>a.
           case a of Err e \<Rightarrow> give (Err e) | Ok r \<Rightarrow>
           and_then (transition Stopped) (\<lambda>t.
           case t of Err e \<Rightarrow> give (Err (PhaseRefused e)) | Ok _ \<Rightarrow>
           give (Ok r)))) h)"

section \<open>What the loops do\<close>

definition calls :: "host \<Rightarrow> call list" where
  "calls h = map fst (journal h)"

text \<open>Subsystems that answer every call: no future is dropped.\<close>

definition responsive :: "subsystems \<Rightarrow> bool" where
  "responsive S \<longleftrightarrow>
     (\<forall>j. on_initialize S j \<noteq> None \<and> on_start S j \<noteq> None \<and> on_quiesce S j \<noteq> None \<and>
          on_drain S j \<noteq> None \<and> on_shutdown S j \<noteq> None)"

text \<open>An operation that came to its end, or was dropped although the subsystems may drop it.\<close>

fun ended :: "subsystems \<Rightarrow> 'a async \<Rightarrow> bool" where
  "ended S (Returned _) = True"
| "ended S Dropped = (\<not> responsive S)"
| "ended S Panicked = False"

definition noted :: "call list \<Rightarrow> host \<Rightarrow> journal" where
  "noted cs h = journal h @ map (\<lambda>c. (c, host_gate h)) cs"

lemma host_gate_update [simp]:
  "host_gate (h\<lparr>journal := j\<rparr>) = host_gate h" "host_gate (h\<lparr>started := s\<rparr>) = host_gate h"
  "host_gate (h\<lparr>initialized := s\<rparr>) = host_gate h" "host_gate (h\<lparr>interrupted := b\<rparr>) = host_gate h"
  by (simp_all add: host_gate_def)

lemma host_phase_update [simp]:
  "host_phase (h\<lparr>journal := j\<rparr>) = host_phase h" "host_phase (h\<lparr>started := s\<rparr>) = host_phase h"
  "host_phase (h\<lparr>initialized := s\<rparr>) = host_phase h" "host_phase (h\<lparr>interrupted := b\<rparr>) = host_phase h"
  by (simp_all add: host_phase_def)

lemma noted_simps [simp]:
  "noted [] h = journal h"
  "noted cs (h\<lparr>journal := noted ds h\<rparr>) = noted (ds @ cs) h"
  "noted cs (h\<lparr>started := s\<rparr>) = noted cs h"
  "noted cs (h\<lparr>initialized := s\<rparr>) = noted cs h"
  by (simp_all add: noted_def)

lemma map_fst_noted [simp]: "map fst (noted cs h) = map fst (journal h) @ cs"
  by (simp add: noted_def comp_def)

lemma await_cases:
  obtains a where "await answer c h = (h\<lparr>journal := noted [c] h\<rparr>, Returned a)"
      and "answer (noted [c] h) = Some a"
  | "await answer c h = (h\<lparr>journal := noted [c] h\<rparr>, Dropped)" and "answer (noted [c] h) = None"
  by (cases "answer (noted [c] h)") (auto simp: await_def noted_def)

lemma quiesce_loop_effect:
  "\<exists>qs res. quiesce_loop S ps r h = (h\<lparr>journal := noted (map Quiesce qs) h\<rparr>, res) \<and>
     set qs \<subseteq> set ps \<inter> set (started h) \<and> ended S res \<and>
     ((\<exists>r'. res = Returned r') \<longrightarrow> set qs = set ps \<inter> set (started h))"
proof (induction ps arbitrary: r h)
  case Nil
  show ?case by (rule exI [of _ "[]"]) simp
next
  case (Cons p ps)
  show ?case
  proof (cases "p \<in> set (started h)")
    case True
    show ?thesis
    proof (cases rule: await_cases [of "on_quiesce S" "Quiesce p" h])
      case (1 a)
      let ?h = "h\<lparr>journal := noted [Quiesce p] h\<rparr>"
      obtain qs res where "quiesce_loop S ps (push_error a r) ?h = (?h\<lparr>journal := noted (map Quiesce qs) ?h\<rparr>, res)"
        "set qs \<subseteq> set ps \<inter> set (started ?h)" "ended S res"
        "(\<exists>r'. res = Returned r') \<longrightarrow> set qs = set ps \<inter> set (started ?h)" using Cons by blast
      with 1 True show ?thesis by (intro exI [of _ "p # qs"] exI [of _ res]) auto
    next
      case 2
      then have "\<not> responsive S" by (auto simp: responsive_def)
      with 2 True show ?thesis by (intro exI [of _ "[p]"] exI [of _ Dropped]) simp
    qed
  next
    case False
    from Cons [of r h] obtain qs res where "quiesce_loop S ps r h = (h\<lparr>journal := noted (map Quiesce qs) h\<rparr>, res)"
      "set qs \<subseteq> set ps \<inter> set (started h)" "ended S res"
      "(\<exists>r'. res = Returned r') \<longrightarrow> set qs = set ps \<inter> set (started h)" by blast
    with False show ?thesis by (intro exI [of _ qs] exI [of _ res]) auto
  qed
qed

text \<open>
  The other two loops strike a subsystem off a record before they call it: what they call are the
  recorded subsystems among \<open>ps\<close>, in order, all of them unless the future is dropped.
\<close>

lemma filter_strike:
  "filter (\<lambda>q. q \<in> set (filter ((\<noteq>) p) xs)) ps = filter (\<lambda>q. q \<in> set xs) ps" if "p \<notin> set ps"
  using that by (auto intro: filter_cong)

lemma strike_Cons: "filter (\<lambda>q. q \<notin> set (p # ds)) xs = filter (\<lambda>q. q \<notin> set ds) (filter ((\<noteq>) p) xs)"
  by (auto intro: filter_cong)

locale strike_loop =
  fixes rec :: "host \<Rightarrow> nat list"
    and put :: "nat list \<Rightarrow> host \<Rightarrow> host"
    and answer :: "subsystems \<Rightarrow> journal \<Rightarrow> 'a option"
    and mk :: "nat \<Rightarrow> call"
    and push :: "'a \<Rightarrow> shutdown_report \<Rightarrow> shutdown_report"
    and loop :: "subsystems \<Rightarrow> nat list \<Rightarrow> shutdown_report \<Rightarrow> shutdown_report operation"
  assumes loop_Nil: "loop S [] r h = (h, Returned r)"
    and loop_Cons: "loop S (p # ps) r h =
      (if p \<notin> set (rec h) then loop S ps r h
       else and_then (await (answer S) (mk p)) (\<lambda>a. loop S ps (push a r)) (put (filter ((\<noteq>) p) (rec h)) h))"
    and unanswered: "answer S j = None \<Longrightarrow> \<not> responsive S"
    and rec_put: "rec (put xs h) = xs"
    and rec_journal: "rec (h\<lparr>journal := j\<rparr>) = rec h"
    and journal_put: "journal (put xs h) = journal h"
    and gate_put: "host_gate (put xs h) = host_gate h"
    and put_put: "put xs ((put ys h)\<lparr>journal := j\<rparr>) = (put xs h)\<lparr>journal := j\<rparr>"
    and put_rec: "put (rec h) h = h"
begin

lemma noted_put: "noted cs (put xs h) = noted cs h"
  by (simp add: noted_def journal_put gate_put)

lemma noted_put_journal: "noted cs ((put xs h)\<lparr>journal := noted ds h\<rparr>) = noted (ds @ cs) h"
  by (simp add: noted_def gate_put)

lemma loop_effect:
  "distinct ps \<Longrightarrow> \<exists>ds rest res.
     filter (\<lambda>q. q \<in> set (rec h)) ps = ds @ rest \<and>
     loop S ps r h = ((put (filter (\<lambda>q. q \<notin> set ds) (rec h)) h)\<lparr>journal := noted (map mk ds) h\<rparr>, res) \<and>
     ended S res \<and> (rest \<noteq> [] \<longrightarrow> res = Dropped)"
proof (induction ps arbitrary: r h)
  case Nil
  show ?case by (intro exI [of _ "[]"] exI [of _ "Returned r"]) (simp add: loop_Nil put_rec)
next
  case (Cons p ps)
  have dist: "distinct ps" and notin: "p \<notin> set ps" using Cons(2) by simp_all
  show ?case
  proof (cases "p \<in> set (rec h)")
    case True
    let ?h0 = "put (filter ((\<noteq>) p) (rec h)) h"
    let ?rest = "filter (\<lambda>q. q \<in> set (rec h)) ps"
    show ?thesis
    proof (cases rule: await_cases [of "answer S" "mk p" ?h0])
      case (1 a)
      let ?h = "?h0\<lparr>journal := noted [mk p] ?h0\<rparr>"
      have rest: "filter (\<lambda>q. q \<in> set (rec ?h)) ps = ?rest"
        using filter_strike [OF notin] by (simp add: rec_journal rec_put)
      from Cons(1) [OF dist, of ?h "push a r"] obtain ds rest res where
        ds: "filter (\<lambda>q. q \<in> set (rec ?h)) ps = ds @ rest"
        "loop S ps (push a r) ?h =
          ((put (filter (\<lambda>q. q \<notin> set ds) (rec ?h)) ?h)\<lparr>journal := noted (map mk ds) ?h\<rparr>, res)"
        "ended S res" "rest \<noteq> [] \<longrightarrow> res = Dropped"
        by blast
      have "loop S (p # ps) r h =
          ((put (filter (\<lambda>q. q \<notin> set (p # ds)) (rec h)) h)\<lparr>journal := noted (map mk (p # ds)) h\<rparr>, res)"
        using 1(1) True ds(2) unfolding strike_Cons
        by (simp add: loop_Cons rec_journal rec_put noted_put noted_put_journal put_put)
      moreover have "filter (\<lambda>q. q \<in> set (rec h)) (p # ps) = (p # ds) @ rest"
        using True ds(1) rest by simp
      ultimately show ?thesis using ds(3,4) by blast
    next
      case 2
      then have drop: "ended S (Dropped :: shutdown_report async)" using unanswered by simp
      have "loop S (p # ps) r h =
          ((put (filter (\<lambda>q. q \<notin> set [p]) (rec h)) h)\<lparr>journal := noted (map mk [p]) h\<rparr>, Dropped)"
        using 2(1) True unfolding strike_Cons by (simp add: loop_Cons noted_put)
      moreover have "filter (\<lambda>q. q \<in> set (rec h)) (p # ps) = [p] @ ?rest" using True by simp
      ultimately show ?thesis using drop by blast
    qed
  next
    case False
    from Cons(1) [OF dist, of h r] False show ?thesis by (simp add: loop_Cons)
  qed
qed

end

interpretation draining: strike_loop started "\<lambda>xs h. h\<lparr>started := xs\<rparr>" on_drain Drain push_drain drain_loop
  by unfold_locales (auto simp: responsive_def)

interpretation stopping: strike_loop initialized "\<lambda>xs h. h\<lparr>initialized := xs\<rparr>" on_shutdown Shutdown push_error stop_loop
  by unfold_locales (auto simp: responsive_def)

section \<open>What teardown keeps\<close>

fun drained :: "call list \<Rightarrow> nat list" where
  "drained [] = []"
| "drained (Drain p # cs) = p # drained cs"
| "drained (_ # cs) = drained cs"

lemma drained_append [simp]: "drained (cs @ ds) = drained cs @ drained ds"
  by (induction cs rule: drained.induct) simp_all

lemma drained_map [simp]: "drained (map Drain ps) = ps" "drained (map Quiesce ps) = []"
  by (induction ps) simp_all

fun is_drain_call :: "call \<Rightarrow> bool" where
  "is_drain_call (Quiesce _) = True"
| "is_drain_call (Drain _) = True"
| "is_drain_call _ = False"

text \<open>The positions of the subsystems that are told to quiesce, in that order.\<close>

definition quiescing :: "host \<Rightarrow> nat list" where
  "quiescing h = (case positions (descriptors h) (quiesce_order (plan h)) of Some ps \<Rightarrow> ps | None \<Rightarrow> [])"

lemma quiescing_update [simp]:
  "quiescing (h\<lparr>journal := j\<rparr>) = quiescing h" "quiescing (h\<lparr>started := s\<rparr>) = quiescing h"
  "quiescing (h\<lparr>initialized := s\<rparr>) = quiescing h" "quiescing (h\<lparr>interrupted := b\<rparr>) = quiescing h"
  "quiescing (h\<lparr>host_lifecycle := l\<rparr>) = quiescing h"
  by (simp_all add: quiescing_def)

text \<open>
  Only the subsystems of \<open>Q\<close> are told to quiesce, all of them before anything is drained, and none
  after it has itself been drained.
\<close>

definition quiesced_first :: "nat set \<Rightarrow> call list \<Rightarrow> bool" where
  "quiesced_first Q cs \<longleftrightarrow>
     (\<forall>p. Quiesce p \<in> set cs \<longrightarrow> p \<in> Q) \<and>
     (\<forall>as p bs. cs = as @ Drain p # bs \<longrightarrow> (\<forall>q \<in> Q. Quiesce q \<in> set as) \<and> Quiesce p \<notin> set bs)"

lemma quiesced_first_Nil [simp]: "quiesced_first Q []"
  by (simp add: quiesced_first_def)

lemma drained_set: "p \<in> set (drained cs) \<longleftrightarrow> Drain p \<in> set cs"
  by (induction cs rule: drained.induct) auto

lemma append_split_at:
  assumes "xs @ ys = as @ x # bs"
  obtains us where "xs = as @ x # us" and "bs = us @ ys" | us where "as = xs @ us" and "ys = us @ x # bs"
proof -
  obtain us where "xs = as @ us \<and> us @ ys = x # bs \<or> xs @ us = as \<and> ys = us @ x # bs"
    using assms by (auto simp: append_eq_append_conv2)
  then show thesis using that by (cases us) auto
qed

lemma quiesced_first_quiesce:
  assumes "quiesced_first Q cs" and "set qs \<subseteq> Q" and "set qs \<inter> set (drained cs) = {}"
  shows "quiesced_first Q (cs @ map Quiesce qs)"
  unfolding quiesced_first_def
proof (intro conjI allI impI)
  show "p \<in> Q" if "Quiesce p \<in> set (cs @ map Quiesce qs)" for p
    using that assms(1,2) by (auto simp: quiesced_first_def)
next
  fix as p bs assume eq: "cs @ map Quiesce qs = as @ Drain p # bs"
  then obtain vs where cs: "cs = as @ Drain p # vs" and vs: "bs = vs @ map Quiesce qs"
    by (cases rule: append_split_at) (auto simp: map_eq_append_conv)
  then have "p \<notin> set qs" using assms(3) by (auto simp: drained_set)
  then show "\<forall>q \<in> Q. Quiesce q \<in> set as" and "Quiesce p \<notin> set bs"
    using assms(1) cs vs unfolding quiesced_first_def by auto
qed

lemma quiesced_first_drain:
  assumes "quiesced_first Q cs" and "ds \<noteq> [] \<Longrightarrow> \<forall>q \<in> Q. Quiesce q \<in> set cs"
  shows "quiesced_first Q (cs @ map Drain ds)"
  unfolding quiesced_first_def
proof (intro conjI allI impI)
  show "p \<in> Q" if "Quiesce p \<in> set (cs @ map Drain ds)" for p
    using that assms(1) by (auto simp: quiesced_first_def)
next
  fix as p bs assume eq: "cs @ map Drain ds = as @ Drain p # bs"
  then have "(\<forall>q \<in> Q. Quiesce q \<in> set as) \<and> Quiesce p \<notin> set bs"
  proof (cases rule: append_split_at)
    case (1 us)
    moreover from this assms(1) have "(\<forall>q \<in> Q. Quiesce q \<in> set as) \<and> Quiesce p \<notin> set us"
      unfolding quiesced_first_def by blast
    ultimately show ?thesis by auto
  next
    case (2 us)
    then have "Quiesce p \<notin> set (us @ Drain p # bs)" unfolding 2(2) [symmetric] by auto
    moreover have "ds \<noteq> []" using 2(2) by auto
    ultimately show ?thesis using assms(2) 2(1) by simp
  qed
  then show "\<forall>q \<in> Q. Quiesce q \<in> set as" and "Quiesce p \<notin> set bs" by simp_all
qed

lemma drained_quiesced:
  assumes "quiesced_first Q cs" and "drained cs \<noteq> []" and "q \<in> Q"
  shows "Quiesce q \<in> set cs"
proof -
  obtain p where "p \<in> set (drained cs)" using assms(2) by (cases "drained cs") auto
  then obtain as bs where "cs = as @ Drain p # bs" by (auto simp: drained_set dest: split_list)
  then show ?thesis using assms(1,3) by (auto simp: quiesced_first_def)
qed

text \<open>
  The history of a host whose start touched \<open>I\<close> and started \<open>T\<close>: those calls came first, then only
  calls that quiesce and drain, then only shutdowns. What was drained and what is still to be
  drained are together the started subsystems in reverse, and likewise for shutdown; the started
  subsystems that quiesce were told to before anything was drained.
\<close>

definition history :: "nat list \<Rightarrow> nat list \<Rightarrow> nat list \<Rightarrow> host \<Rightarrow> bool" where
  "history ord I T h \<longleftrightarrow>
     (\<exists>qd sh. calls h = map Initialize I @ map Start T @ qd @ map Shutdown sh \<and> list_all is_drain_call qd \<and>
        drained qd @ filter (\<lambda>p. p \<in> set (started h)) (rev ord) = rev T \<and>
        sh @ filter (\<lambda>p. p \<in> set (initialized h)) (rev ord) = rev I \<and>
        (sh \<noteq> [] \<longrightarrow> started h = []) \<and> quiesced_first (set (quiescing h) \<inter> set T) qd) \<and>
     set (started h) \<subseteq> set ord \<and> set (initialized h) \<subseteq> set ord \<and>
     (\<exists>rest. ord = I @ rest) \<and> (\<exists>rest. ord = T @ rest) \<and> (T \<noteq> [] \<longrightarrow> I = ord) \<and>
     (\<forall>x \<in> set (journal h). snd x = 0)"

definition planned :: "nat list \<Rightarrow> host \<Rightarrow> bool" where
  "planned ord h \<longleftrightarrow>
     distinct ord \<and> positions (descriptors h) (start_order (plan h)) = Some ord \<and>
     positions (descriptors h) (shutdown_order (plan h)) = Some (rev ord) \<and>
     positions (descriptors h) (quiesce_order (plan h)) =
       Some (filter (\<lambda>i. desc_kind (descriptors h ! i) = Ingress) (rev ord))"

definition frame :: "host \<Rightarrow> host \<Rightarrow> bool" where
  "frame h h' \<longleftrightarrow> descriptors h' = descriptors h \<and> plan h' = plan h \<and>
     host_lifecycle h' = host_lifecycle h \<and> interrupted h' = interrupted h"

lemma frame_phase: "frame h h' \<Longrightarrow> host_phase h' = host_phase h \<and> host_gate h' = host_gate h"
  by (simp add: frame_def host_phase_def host_gate_def)

lemma frame_trans: "frame h h' \<Longrightarrow> frame h' h'' \<Longrightarrow> frame h h''"
  by (simp add: frame_def)

lemma planned_frame: "planned ord h \<Longrightarrow> descriptors h' = descriptors h \<Longrightarrow> plan h' = plan h \<Longrightarrow> planned ord h'"
  by (simp add: planned_def)

lemma planned_quiescing:
  "planned ord h \<Longrightarrow> quiescing h = filter (\<lambda>i. desc_kind (descriptors h ! i) = Ingress) (rev ord)"
  by (simp add: planned_def quiescing_def)

lemma calls_noted [simp]: "calls (h\<lparr>journal := noted cs h\<rparr>) = calls h @ cs"
  by (simp add: calls_def)

lemma closed_noted:
  "\<forall>x \<in> set (journal h). snd x = 0 \<Longrightarrow> host_gate h = 0 \<Longrightarrow> x \<in> set (noted cs h) \<Longrightarrow> snd x = 0"
  by (auto simp: noted_def)

lemma history_quiesce:
  assumes "history ord I T h" and "host_gate h = 0" and "distinct ord"
    and "set qs \<subseteq> set (quiescing h) \<inter> set (started h)"
  shows "history ord I T (h\<lparr>journal := noted (map Quiesce qs) h\<rparr>)"
    (is "history ord I T ?h")
proof -
  obtain qd sh where h: "calls h = map Initialize I @ map Start T @ qd @ map Shutdown sh" "list_all is_drain_call qd"
    "drained qd @ filter (\<lambda>p. p \<in> set (started h)) (rev ord) = rev T"
    "sh @ filter (\<lambda>p. p \<in> set (initialized h)) (rev ord) = rev I" "sh \<noteq> [] \<longrightarrow> started h = []"
    "quiesced_first (set (quiescing h) \<inter> set T) qd"
    and sub: "set (started h) \<subseteq> set ord" and T: "\<exists>rest. ord = T @ rest"
    using assms(1) unfolding history_def by blast
  have "set (rev T) = set (drained qd) \<union> set (started h)" using sub by (auto simp flip: h(3))
  moreover have "set (drained qd) \<inter> set (started h) = {}"
  proof -
    have "distinct (rev T)" using T assms(3) by auto
    then show ?thesis using sub by (auto simp flip: h(3))
  qed
  ultimately have first: "quiesced_first (set (quiescing h) \<inter> set T) (qd @ map Quiesce qs)"
    using assms(4) by (intro quiesced_first_quiesce [OF h(6)]) auto
  have "map Shutdown sh @ map Quiesce qs = map Quiesce qs @ map Shutdown sh"
    using h(5) assms(4) by (cases sh) auto
  then have "calls (h\<lparr>journal := noted (map Quiesce qs) h\<rparr>) =
      map Initialize I @ map Start T @ (qd @ map Quiesce qs) @ map Shutdown sh"
    using h(1) by simp
  moreover have "list_all is_drain_call (qd @ map Quiesce qs)" using h(2) by (auto simp: list_all_iff)
  moreover have "drained (qd @ map Quiesce qs) @ filter (\<lambda>p. p \<in> set (started ?h)) (rev ord) = rev T"
    using h(3) by simp
  moreover have "sh @ filter (\<lambda>p. p \<in> set (initialized ?h)) (rev ord) = rev I"
    using h(4) by simp
  moreover have "sh \<noteq> [] \<longrightarrow> started ?h = []" using h(5) by simp
  ultimately have "\<exists>qd sh. calls ?h = map Initialize I @ map Start T @ qd @ map Shutdown sh \<and>
      list_all is_drain_call qd \<and> drained qd @ filter (\<lambda>p. p \<in> set (started ?h)) (rev ord) = rev T \<and>
      sh @ filter (\<lambda>p. p \<in> set (initialized ?h)) (rev ord) = rev I \<and> (sh \<noteq> [] \<longrightarrow> started ?h = []) \<and>
      quiesced_first (set (quiescing ?h) \<inter> set T) qd"
    using first by (intro exI [of _ "qd @ map Quiesce qs"] exI [of _ sh]) simp
  with assms(1,2) show ?thesis
    unfolding history_def by (auto dest: closed_noted)
qed

text \<open>Striking off the first recorded subsystems leaves the others in order.\<close>

lemma filter_remaining:
  assumes "filter (\<lambda>p. p \<in> set xs) ps = ds @ rest" and "distinct ps"
  shows "filter (\<lambda>p. p \<in> set (filter (\<lambda>q. q \<notin> set ds) xs)) ps = rest"
proof -
  have "filter (\<lambda>p. p \<in> set (filter (\<lambda>q. q \<notin> set ds) xs)) ps =
      filter (\<lambda>q. q \<notin> set ds) (filter (\<lambda>p. p \<in> set xs) ps)"
    by (auto intro: filter_cong)
  also have "\<dots> = filter (\<lambda>q. q \<notin> set ds) rest" unfolding assms(1) by simp
  also have "\<dots> = rest"
  proof (rule filter_True)
    have "distinct (ds @ rest)" using assms distinct_filter by metis
    then show "\<forall>q \<in> set rest. q \<notin> set ds" by auto
  qed
  finally show ?thesis .
qed

lemma history_drain:
  assumes "history ord I T h" and "host_gate h = 0" and "distinct ord"
    and ds: "filter (\<lambda>q. q \<in> set (started h)) (rev ord) = ds @ rest"
    and quiet: "\<forall>q \<in> set (quiescing h) \<inter> set (started h). Quiesce q \<in> set (calls h)"
  shows "history ord I T (h\<lparr>started := filter (\<lambda>q. q \<notin> set ds) (started h), journal := noted (map Drain ds) h\<rparr>)"
    (is "history ord I T ?h")
proof -
  obtain qd sh where h: "calls h = map Initialize I @ map Start T @ qd @ map Shutdown sh" "list_all is_drain_call qd"
    "drained qd @ filter (\<lambda>p. p \<in> set (started h)) (rev ord) = rev T"
    "sh @ filter (\<lambda>p. p \<in> set (initialized h)) (rev ord) = rev I" "sh \<noteq> [] \<longrightarrow> started h = []"
    "quiesced_first (set (quiescing h) \<inter> set T) qd"
    using assms(1) unfolding history_def by blast
  have told: "Quiesce q \<in> set qd" if "q \<in> set (quiescing h) \<inter> set T" for q
  proof (cases "drained qd = []")
    case True
    then have "set (rev T) \<subseteq> set (started h)" by (auto simp flip: h(3))
    with that quiet have "Quiesce q \<in> set (calls h)" by auto
    then show ?thesis unfolding h(1) by auto
  qed (rule drained_quiesced [OF h(6) _ that])
  have first: "quiesced_first (set (quiescing h) \<inter> set T) (qd @ map Drain ds)"
    using quiesced_first_drain [OF h(6)] told by blast
  have "map Shutdown sh @ map Drain ds = map Drain ds @ map Shutdown sh"
    using h(5) ds by (cases sh) auto
  then have "calls ?h = map Initialize I @ map Start T @ (qd @ map Drain ds) @ map Shutdown sh"
    using h(1) by (simp add: calls_def)
  moreover have "list_all is_drain_call (qd @ map Drain ds)" using h(2) by (auto simp: list_all_iff)
  moreover have "drained (qd @ map Drain ds) @ filter (\<lambda>p. p \<in> set (started ?h)) (rev ord) = rev T"
    using h(3) ds filter_remaining [OF ds] assms(3) by simp
  moreover have "sh @ filter (\<lambda>p. p \<in> set (initialized ?h)) (rev ord) = rev I"
    using h(4) by simp
  moreover have "sh \<noteq> [] \<longrightarrow> started ?h = []" using h(5) by simp
  ultimately have "\<exists>qd sh. calls ?h = map Initialize I @ map Start T @ qd @ map Shutdown sh \<and>
      list_all is_drain_call qd \<and> drained qd @ filter (\<lambda>p. p \<in> set (started ?h)) (rev ord) = rev T \<and>
      sh @ filter (\<lambda>p. p \<in> set (initialized ?h)) (rev ord) = rev I \<and> (sh \<noteq> [] \<longrightarrow> started ?h = []) \<and>
      quiesced_first (set (quiescing ?h) \<inter> set T) qd"
    using first by (intro exI [of _ "qd @ map Drain ds"] exI [of _ sh]) simp
  with assms(1,2) show ?thesis
    unfolding history_def by (auto dest: closed_noted)
qed

lemma history_stop:
  assumes "history ord I T h" and "host_gate h = 0" and "distinct ord" and "started h = []"
    and ds: "filter (\<lambda>q. q \<in> set (initialized h)) (rev ord) = ds @ rest"
  shows "history ord I T (h\<lparr>initialized := filter (\<lambda>q. q \<notin> set ds) (initialized h), journal := noted (map Shutdown ds) h\<rparr>)"
    (is "history ord I T ?h")
proof -
  obtain qd sh where h: "calls h = map Initialize I @ map Start T @ qd @ map Shutdown sh" "list_all is_drain_call qd"
    "drained qd @ filter (\<lambda>p. p \<in> set (started h)) (rev ord) = rev T"
    "sh @ filter (\<lambda>p. p \<in> set (initialized h)) (rev ord) = rev I"
    "quiesced_first (set (quiescing h) \<inter> set T) qd"
    using assms(1) unfolding history_def by blast
  have "calls ?h = map Initialize I @ map Start T @ qd @ map Shutdown (sh @ ds)"
    using h(1) by (simp add: calls_def)
  moreover have "drained qd @ filter (\<lambda>p. p \<in> set (started ?h)) (rev ord) = rev T"
    using h(3) by simp
  moreover have "(sh @ ds) @ filter (\<lambda>p. p \<in> set (initialized ?h)) (rev ord) = rev I"
    using h(4) ds filter_remaining [OF ds] assms(3) by simp
  moreover have "sh @ ds \<noteq> [] \<longrightarrow> started ?h = []" using assms(4) by simp
  ultimately have "\<exists>qd sh. calls ?h = map Initialize I @ map Start T @ qd @ map Shutdown sh \<and>
      list_all is_drain_call qd \<and> drained qd @ filter (\<lambda>p. p \<in> set (started ?h)) (rev ord) = rev T \<and>
      sh @ filter (\<lambda>p. p \<in> set (initialized ?h)) (rev ord) = rev I \<and> (sh \<noteq> [] \<longrightarrow> started ?h = []) \<and>
      quiesced_first (set (quiescing ?h) \<inter> set T) qd"
    using h(2,5) by (intro exI [of _ qd] exI [of _ "sh @ ds"]) simp
  with assms(1,2) show ?thesis
    unfolding history_def by (auto dest: closed_noted)
qed

lemma recorded_empty:
  assumes "filter (\<lambda>q. q \<in> set xs) ps = ds" and "set xs \<subseteq> set ps"
  shows "filter (\<lambda>q. q \<notin> set ds) xs = []"
  using assms by (auto simp: filter_empty_conv)

lemma host_order_planned:
  assumes "planned ord h"
  shows "host_order start_order h = (h, Returned ord)"
    and "host_order shutdown_order h = (h, Returned (rev ord))"
    and "host_order quiesce_order h = (h, Returned (quiescing h))"
  using assms by (auto simp: planned_def host_order_def quiescing_def)

text \<open>Quiescing and draining: everything started is drained, unless the future is dropped.\<close>

lemma quiesce_and_drain_effect:
  assumes plan: "planned ord h" and hist: "history ord I T h" and gate: "host_gate h = 0"
  obtains h' res where "quiesce_and_drain S r h = (h', res)" and "frame h h'" and "history ord I T h'"
    and "initialized h' = initialized h" and "ended S res" and "\<And>r'. res = Returned r' \<Longrightarrow> started h' = []"
proof -
  let ?qs = "quiescing h"
  obtain called res where q: "quiesce_loop S ?qs r h = (h\<lparr>journal := noted (map Quiesce called) h\<rparr>, res)"
    "set called \<subseteq> set ?qs \<inter> set (started h)" "ended S res"
    "(\<exists>r'. res = Returned r') \<longrightarrow> set called = set ?qs \<inter> set (started h)"
    using quiesce_loop_effect by blast
  have dist: "distinct ord" using plan by (simp add: planned_def)
  let ?h1 = "h\<lparr>journal := noted (map Quiesce called) h\<rparr>"
  have h1: "history ord I T ?h1" "planned ord ?h1" "frame h ?h1" "host_gate ?h1 = 0"
    using history_quiesce [OF hist gate dist q(2)] plan gate by (simp_all add: planned_def frame_def)
  have start: "quiesce_and_drain S r h =
      and_then (quiesce_loop S ?qs r) (\<lambda>r. and_then (host_order shutdown_order) (\<lambda>ps. drain_loop S ps r)) h"
    unfolding quiesce_and_drain_def using host_order_planned(3) [OF plan] by simp
  show thesis
  proof (cases res)
    case (Returned r1)
    have "distinct (rev ord)" using dist by simp
    from draining.loop_effect [OF this, of ?h1 S r1] obtain ds rest res2 where
      ds: "filter (\<lambda>q. q \<in> set (started ?h1)) (rev ord) = ds @ rest"
      "drain_loop S (rev ord) r1 ?h1 =
         (?h1\<lparr>started := filter (\<lambda>q. q \<notin> set ds) (started ?h1), journal := noted (map Drain ds) ?h1\<rparr>, res2)"
      "ended S res2" "rest \<noteq> [] \<longrightarrow> res2 = Dropped" by blast
    let ?h2 = "?h1\<lparr>started := filter (\<lambda>q. q \<notin> set ds) (started ?h1), journal := noted (map Drain ds) ?h1\<rparr>"
    have run: "quiesce_and_drain S r h = (?h2, res2)"
      unfolding start using q(1) Returned host_order_planned(2) [OF h1(2)] ds(2) by simp
    have "\<forall>q \<in> set (quiescing ?h1) \<inter> set (started ?h1). Quiesce q \<in> set (calls ?h1)"
      using q(4) Returned by auto
    then have hist2: "history ord I T ?h2" by (rule history_drain [OF h1(1,4) dist ds(1)])
    have "started ?h2 = []" if "res2 = Returned r'" for r'
      using recorded_empty [of "started ?h1" "rev ord" ds] ds(1,4) that h1(1) by (auto simp: history_def)
    moreover have "frame h ?h2" using h1(3) by (simp add: frame_def)
    ultimately show thesis using that [OF run _ hist2 _ ds(3)] by simp
  next
    case Dropped
    then have "quiesce_and_drain S r h = (?h1, Dropped)" unfolding start using q(1) by simp
    then show thesis using that [OF _ h1(3,1)] q(3) Dropped by simp
  next
    case Panicked
    with q(3) show thesis by simp
  qed
qed

text \<open>Stopping: everything initialized is shut down, unless the future is dropped.\<close>

lemma stop_all_effect:
  assumes plan: "planned ord h" and hist: "history ord I T h" and gate: "host_gate h = 0"
    and drained: "started h = []"
  obtains h' res where "stop_all S r h = (h', res)" and "frame h h'" and "history ord I T h'"
    and "started h' = []" and "ended S res" and "\<And>r'. res = Returned r' \<Longrightarrow> initialized h' = []"
proof -
  have dist: "distinct ord" using plan by (simp add: planned_def)
  then have "distinct (rev ord)" by simp
  from stopping.loop_effect [OF this, of h S r] obtain ds rest res where
    ds: "filter (\<lambda>q. q \<in> set (initialized h)) (rev ord) = ds @ rest"
    "stop_loop S (rev ord) r h =
       (h\<lparr>initialized := filter (\<lambda>q. q \<notin> set ds) (initialized h), journal := noted (map Shutdown ds) h\<rparr>, res)"
    "ended S res" "rest \<noteq> [] \<longrightarrow> res = Dropped" by blast
  let ?h1 = "h\<lparr>initialized := filter (\<lambda>q. q \<notin> set ds) (initialized h), journal := noted (map Shutdown ds) h\<rparr>"
  have hist1: "history ord I T ?h1" by (rule history_stop [OF hist gate dist drained ds(1)])
  show thesis
  proof (cases res)
    case (Returned r1)
    have "initialized ?h1 = []"
      using recorded_empty [of "initialized h" "rev ord" ds] ds(1,4) Returned hist by (auto simp: history_def)
    moreover from this have "stop_all S r h = (?h1, res)"
      unfolding stop_all_def using host_order_planned(2) [OF plan] ds(2) Returned drained by simp
    ultimately show thesis using that [of ?h1 res] hist1 drained ds(3) by (simp add: frame_def)
  next
    case Dropped
    then have "stop_all S r h = (?h1, res)"
      unfolding stop_all_def using host_order_planned(2) [OF plan] ds(2) by simp
    then show thesis using that [of ?h1 res] hist1 drained ds(3) Dropped by (simp add: frame_def)
  next
    case Panicked
    with ds(3) show thesis by simp
  qed
qed

section \<open>What the operations keep\<close>

definition same_plan :: "host \<Rightarrow> host \<Rightarrow> bool" where
  "same_plan h h' \<longleftrightarrow> descriptors h' = descriptors h \<and> plan h' = plan h \<and> interrupted h' = interrupted h"

lemma same_plan_trans: "same_plan h h' \<Longrightarrow> same_plan h' h'' \<Longrightarrow> same_plan h h''"
  by (simp add: same_plan_def)

lemma frame_same_plan: "frame h h' \<Longrightarrow> same_plan h h'"
  by (simp add: frame_def same_plan_def)

lemma planned_same: "same_plan h h' \<Longrightarrow> planned ord h \<Longrightarrow> planned ord h'"
  by (simp add: planned_def same_plan_def)

definition released :: "host \<Rightarrow> bool" where
  "released h \<longleftrightarrow> initialized h = [] \<and> started h = []"

abbreviation gated :: "host \<Rightarrow> bool" where
  "gated h \<equiv> lifecycle_inv (host_lifecycle h)"

lemma gated_closed: "gated h \<Longrightarrow> host_phase h \<noteq> Running \<Longrightarrow> host_gate h = 0"
  by (simp add: lifecycle_inv_def host_phase_def host_gate_def)

text \<open>A legal transition changes the lifecycle only.\<close>

lemma transition_effect:
  assumes "gated h" and "can_transition_to (host_phase h) next"
  obtains l where "transition_to next (host_lifecycle h) = Ok l" and "lc_phase l = next" and "lifecycle_inv l"
proof -
  obtain l where l: "transition_to next (host_lifecycle h) = Ok l"
    using assms(2) by (simp add: transition_to_def host_phase_def Let_def)
  with transition_to_Ok(2) [OF l] lifecycle_inv_transition [OF assms(1) l] that show thesis by blast
qed

lemma same_plan_lifecycle [simp]: "same_plan h (h\<lparr>host_lifecycle := l\<rparr>)"
  by (simp add: same_plan_def)

lemma host_phase_lifecycle [simp]: "host_phase (h\<lparr>host_lifecycle := l\<rparr>) = lc_phase l"
  by (simp add: host_phase_def)

lemma history_lifecycle [simp]: "history ord I T (h\<lparr>host_lifecycle := l\<rparr>) = history ord I T h"
  by (simp add: history_def calls_def)

text \<open>
  The teardown through \<open>Failed\<close>: it never panics, ends \<open>Stopped\<close> with everything released, or is
  dropped in \<open>Failed\<close>.
\<close>

lemma fail_and_tear_down_effect:
  assumes plan: "planned ord h" and hist: "history ord I T h" and gated: "gated h" and up: "host_phase h \<noteq> Stopped"
  obtains h' res where "fail_and_tear_down S r h = (h', res)" and "same_plan h h'" and "history ord I T h'"
    and "gated h'" and "ended S res"
    and "\<And>r'. res = Returned r' \<Longrightarrow> host_phase h' = Stopped \<and> released h'"
    and "res = Dropped \<Longrightarrow> host_phase h' = Failed"
proof -
  obtain h1 where h1: "(if host_phase h \<noteq> Failed then transition_expect Failed h else (h, Returned ())) = (h1, Returned ())"
      and p1: "host_phase h1 = Failed" "gated h1" "same_plan h h1" "history ord I T h1"
  proof (cases "host_phase h = Failed")
    case True
    then show thesis using that [of h] gated hist by (simp add: same_plan_def)
  next
    case False
    then have "can_transition_to (host_phase h) Failed" using up by (cases "host_phase h") simp_all
    from transition_effect [OF gated this] obtain l where
      "transition_to Failed (host_lifecycle h) = Ok l" "lc_phase l = Failed" "lifecycle_inv l" .
    then show thesis using that [of "h\<lparr>host_lifecycle := l\<rparr>"] False hist by (simp add: transition_expect_def)
  qed
  have gate1: "host_gate h1 = 0" using gated_closed p1 by simp
  obtain h2 res2 where run2: "quiesce_and_drain S r h1 = (h2, res2)" and h2: "frame h1 h2" "history ord I T h2"
      "ended S res2" "\<And>r'. res2 = Returned r' \<Longrightarrow> started h2 = []"
    using quiesce_and_drain_effect [OF planned_same [OF p1(3) plan] p1(4) gate1] by metis
  have p2: "host_phase h2 = Failed" "gated h2" "same_plan h h2" "planned ord h2" "host_gate h2 = 0"
    using h2(1) p1 plan gate1 by (simp_all add: frame_def same_plan_def planned_def host_phase_def host_gate_def)
  have head: "fail_and_tear_down S r h = and_then (quiesce_and_drain S r) (\<lambda>r. and_then (stop_all S r) (\<lambda>r.
      and_then (transition_expect Stopping) (\<lambda>_. and_then (transition_expect Stopped) (\<lambda>_. give r)))) h1"
    unfolding fail_and_tear_down_def using h1 by (simp del: if_split)
  show thesis
  proof (cases res2)
    case (Returned r2)
    obtain h3 res3 where run3: "stop_all S r2 h2 = (h3, res3)" and h3: "frame h2 h3" "history ord I T h3"
        "started h3 = []" "ended S res3" "\<And>r'. res3 = Returned r' \<Longrightarrow> initialized h3 = []"
      using stop_all_effect [OF p2(4) h2(2) p2(5) h2(4) [OF Returned]] by metis
    have p3: "host_phase h3 = Failed" "gated h3" "same_plan h h3"
      using h3(1) p2 by (simp_all add: frame_def same_plan_def host_phase_def)
    show thesis
    proof (cases res3)
      case fin: (Returned r3)
      have "can_transition_to (host_phase h3) Stopping" using p3(1) by simp
      from transition_effect [OF p3(2) this] obtain l4 where
        l4: "transition_to Stopping (host_lifecycle h3) = Ok l4" "lc_phase l4 = Stopping" "lifecycle_inv l4" .
      then obtain l5 where l5: "transition_to Stopped l4 = Ok l5" "lc_phase l5 = Stopped" "lifecycle_inv l5"
        using transition_effect [of "h3\<lparr>host_lifecycle := l4\<rparr>" Stopped] by auto
      let ?h5 = "h3\<lparr>host_lifecycle := l5\<rparr>"
      have "fail_and_tear_down S r h = (?h5, Returned r3)"
        unfolding head using run2 Returned run3 fin l4(1) l5(1) by (simp add: transition_expect_def give_def)
      then show thesis
        using that [of ?h5 "Returned r3"] p3(3) h3(2,3) l5 h3(5) [OF fin] same_plan_trans [OF p3(3)]
        by (simp add: released_def)
    next
      case Dropped
      then have "fail_and_tear_down S r h = (h3, Dropped)" unfolding head using run2 Returned run3 by simp
      then show thesis using that [of h3 Dropped] p3 h3(2,4) Dropped by simp
    next
      case Panicked
      with h3(4) show thesis by simp
    qed
  next
    case Dropped
    then have "fail_and_tear_down S r h = (h2, Dropped)" unfolding head using run2 by simp
    then show thesis using that [of h2 Dropped] p2 h2(2,3) Dropped by simp
  next
    case Panicked
    with h2(3) show thesis by simp
  qed
qed

lemma abort_effect:
  assumes "planned ord h" and "history ord I T h" and "gated h" and "host_phase h \<noteq> Stopped"
  obtains h' res where "abort S h = (h', res)" and "same_plan h h'" and "history ord I T h'"
    and "gated h'" and "ended S res"
    and "\<And>r'. res = Returned r' \<Longrightarrow> host_phase h' = Stopped \<and> released h'"
    and "res = Dropped \<Longrightarrow> host_phase h' = Failed"
proof -
  obtain h' res where run: "fail_and_tear_down S report_default h = (h', res)" and h': "same_plan h h'" "history ord I T h'"
    "gated h'" "ended S res" "\<And>r'. res = Returned r' \<Longrightarrow> host_phase h' = Stopped \<and> released h'"
    "res = Dropped \<Longrightarrow> host_phase h' = Failed"
    using fail_and_tear_down_effect [OF assms] by metis
  let ?res = "case res of Returned _ \<Rightarrow> Returned () | Dropped \<Rightarrow> Dropped | Panicked \<Rightarrow> Panicked"
  have "abort S h = (h', ?res)" unfolding abort_def using run by (cases res) (simp_all add: give_def)
  then show thesis using that [of h' ?res] h' by (cases res) simp_all
qed

text \<open>A host on its way up: it has called exactly what it has recorded.\<close>

definition coming_up :: "nat list \<Rightarrow> nat list \<Rightarrow> nat list \<Rightarrow> host \<Rightarrow> bool" where
  "coming_up ord I T h \<longleftrightarrow>
     calls h = map Initialize I @ map Start T \<and> initialized h = I \<and> started h = T \<and>
     (\<exists>rest. ord = I @ rest) \<and> (\<exists>rest. ord = T @ rest) \<and> (T \<noteq> [] \<longrightarrow> I = ord) \<and>
     (\<forall>x \<in> set (journal h). snd x = 0)"

lemma filter_prefix:
  assumes "distinct ord" and "\<exists>rest. ord = xs @ rest" shows "filter (\<lambda>p. p \<in> set xs) (rev ord) = rev xs"
proof -
  obtain ys where ord: "ord = xs @ ys" using assms(2) by blast
  with assms(1) have "filter (\<lambda>p. p \<in> set xs) ys = []" by (auto simp: filter_empty_conv)
  then show ?thesis by (simp add: ord flip: rev_filter)
qed

lemma coming_up_history:
  assumes "coming_up ord I T h" and "distinct ord"
  shows "history ord I T h"
proof -
  have "filter (\<lambda>p. p \<in> set I) (rev ord) = rev I" "filter (\<lambda>p. p \<in> set T) (rev ord) = rev T"
    using assms filter_prefix [OF assms(2)] by (simp_all only: coming_up_def)
  moreover have "set I \<subseteq> set ord" "set T \<subseteq> set ord" using assms(1) by (auto simp: coming_up_def)
  moreover from calculation have "\<exists>qd sh. calls h = map Initialize I @ map Start T @ qd @ map Shutdown sh \<and>
      list_all is_drain_call qd \<and> drained qd @ filter (\<lambda>p. p \<in> set (started h)) (rev ord) = rev T \<and>
      sh @ filter (\<lambda>p. p \<in> set (initialized h)) (rev ord) = rev I \<and> (sh \<noteq> [] \<longrightarrow> started h = []) \<and>
      quiesced_first (set (quiescing h) \<inter> set T) qd"
    using assms(1) by (intro exI [of _ "[]"]) (simp add: coming_up_def)
  ultimately show ?thesis
    using assms(1) unfolding history_def coming_up_def by simp
qed

text \<open>
  How a loop of \<open>start\<close> in phase \<open>p\<close> can end: with everything in \<open>J\<close> initialized and \<open>K\<close> started; with
  the error a subsystem answered, after a complete rollback; or dropped, in its phase or in the
  rollback.
\<close>

fun brought_up ::
  "nat list \<Rightarrow> lifecycle_phase \<Rightarrow> nat list \<Rightarrow> nat list \<Rightarrow> host \<Rightarrow> ('a, subsystem_error) result async \<Rightarrow> bool" where
  "brought_up ord p J K h (Returned (Ok _)) = (host_phase h = p \<and> coming_up ord J K h)"
| "brought_up ord p J K h (Returned (Err e)) = (host_phase h = Stopped \<and> released h \<and> (\<exists>I T. history ord I T h))"
| "brought_up ord p J K h Dropped = (host_phase h \<in> {p, Failed} \<and> (\<exists>I T. history ord I T h))"
| "brought_up ord p J K h Panicked = False"

lemma rollback_effect:
  assumes "planned ord h" and "coming_up ord I T h" and "gated h" and "host_phase h \<noteq> Stopped"
  shows "\<exists>h' res. and_then (abort S) (\<lambda>_. give (Err e)) h = (h', res) \<and> same_plan h h' \<and> gated h' \<and> ended S res \<and>
    brought_up ord p J K h' res"
proof -
  have hist: "history ord I T h" using coming_up_history [OF assms(2)] assms(1) by (simp add: planned_def)
  obtain h' res where run: "abort S h = (h', res)" and h': "same_plan h h'" "history ord I T h'"
    "gated h'" "ended S res" "\<And>r'. res = Returned r' \<Longrightarrow> host_phase h' = Stopped \<and> released h'"
    "res = Dropped \<Longrightarrow> host_phase h' = Failed"
    using abort_effect [OF assms(1) hist assms(3,4)] by metis
  then show ?thesis
    by (cases res) (auto simp: give_def)
qed

lemma coming_up_initialize:
  assumes "coming_up ord I [] h" and "ord = I @ p # ps" and "host_gate h = 0"
  shows "coming_up ord (I @ [p]) [] (h\<lparr>initialized := initialized h @ [p], journal := noted [Initialize p] h\<rparr>)"
  using assms unfolding coming_up_def by (auto simp: calls_def dest: closed_noted)

lemma coming_up_start:
  assumes "coming_up ord ord T h" and "ord = T @ p # ps" and "host_gate h = 0"
  shows "coming_up ord ord (T @ [p]) (h\<lparr>started := started h @ [p], journal := noted [Start p] h\<rparr>)"
  using assms unfolding coming_up_def by (auto simp: calls_def dest: closed_noted)

lemma initialize_loop_effect:
  "\<lbrakk>planned ord h; coming_up ord I [] h; gated h; host_phase h = Initializing; ord = I @ ps\<rbrakk> \<Longrightarrow>
   \<exists>h' res. initialize_loop S ps h = (h', res) \<and> same_plan h h' \<and> gated h' \<and> ended S res \<and>
     brought_up ord Initializing ord [] h' res"
proof (induction ps arbitrary: I h)
  case Nil
  then show ?case by (simp add: same_plan_def)
next
  case (Cons p ps)
  let ?h0 = "h\<lparr>initialized := initialized h @ [p]\<rparr>"
  let ?h1 = "?h0\<lparr>journal := noted [Initialize p] ?h0\<rparr>"
  have "host_gate h = 0" using gated_closed [OF Cons(4)] Cons(5) by simp
  then have up: "coming_up ord (I @ [p]) [] ?h1" using coming_up_initialize [OF Cons(3,6)] by simp
  have h1: "planned ord ?h1" "gated ?h1" "host_phase ?h1 = Initializing" "same_plan h ?h1"
    using Cons(2,4,5) by (simp_all add: planned_def same_plan_def)
  show ?case
  proof (cases rule: await_cases [of "on_initialize S" "Initialize p" ?h0])
    case (1 a)
    show ?thesis
    proof (cases a)
      case (Ok u)
      then have "initialize_loop S (p # ps) h = initialize_loop S ps ?h1" using 1(1) by simp
      moreover have "ord = (I @ [p]) @ ps" using Cons(6) by simp
      moreover note Cons(1) [OF h1(1) up h1(2,3) this]
      ultimately show ?thesis
        using same_plan_trans [OF h1(4)] by (simp only:) blast
    next
      case (Err e)
      then have "initialize_loop S (p # ps) h = and_then (abort S) (\<lambda>_. give (Err e)) ?h1" using 1(1) by simp
      then show ?thesis
        using rollback_effect [OF h1(1) up h1(2), of S e Initializing ord "[]"] h1(3) same_plan_trans [OF h1(4)]
        by (auto simp del: and_then.simps)
    qed
  next
    case 2
    then have drop: "\<not> responsive S" by (auto simp: responsive_def)
    have "initialize_loop S (p # ps) h = (?h1, Dropped)" using 2(1) by simp
    moreover have "history ord (I @ [p]) [] ?h1"
      using coming_up_history [OF up] Cons(2) by (simp add: planned_def)
    ultimately show ?thesis using drop h1 by auto
  qed
qed

lemma start_loop_effect:
  "\<lbrakk>planned ord h; coming_up ord ord T h; gated h; host_phase h = Starting; ord = T @ ps\<rbrakk> \<Longrightarrow>
   \<exists>h' res. start_loop S ps handles h = (h', res) \<and> same_plan h h' \<and> gated h' \<and> ended S res \<and>
     brought_up ord Starting ord ord h' res"
proof (induction ps arbitrary: T h handles)
  case Nil
  then show ?case by (simp add: same_plan_def)
next
  case (Cons p ps)
  let ?h0 = "h\<lparr>started := started h @ [p]\<rparr>"
  let ?h1 = "?h0\<lparr>journal := noted [Start p] ?h0\<rparr>"
  have "host_gate h = 0" using gated_closed [OF Cons(4)] Cons(5) by simp
  then have up: "coming_up ord ord (T @ [p]) ?h1" using coming_up_start [OF Cons(3,6)] by simp
  have h1: "planned ord ?h1" "gated ?h1" "host_phase ?h1 = Starting" "same_plan h ?h1"
    using Cons(2,4,5) by (simp_all add: planned_def same_plan_def)
  show ?case
  proof (cases rule: await_cases [of "on_start S" "Start p" ?h0])
    case (1 a)
    show ?thesis
    proof (cases a)
      case (Ok u)
      then have "start_loop S (p # ps) handles h = start_loop S ps (handles @ [u]) ?h1" using 1(1) by simp
      moreover have "ord = (T @ [p]) @ ps" using Cons(6) by simp
      moreover note Cons(1) [OF h1(1) up h1(2,3) this, of "handles @ [u]"]
      ultimately show ?thesis
        using same_plan_trans [OF h1(4)] by (simp only:) blast
    next
      case (Err e)
      then have "start_loop S (p # ps) handles h = and_then (abort S) (\<lambda>_. give (Err e)) ?h1" using 1(1) by simp
      then show ?thesis
        using rollback_effect [OF h1(1) up h1(2), of S e Starting ord ord] h1(3) same_plan_trans [OF h1(4)]
        by (auto simp del: and_then.simps)
    qed
  next
    case 2
    then have drop: "\<not> responsive S" by (auto simp: responsive_def)
    have "start_loop S (p # ps) handles h = (?h1, Dropped)" using 2(1) by simp
    moreover have "history ord ord (T @ [p]) ?h1"
      using coming_up_history [OF up] Cons(2) by (simp add: planned_def)
    ultimately show ?thesis using drop h1 by auto
  qed
qed

section \<open>The invariant of a host\<close>

fun start_ended ::
  "nat list \<Rightarrow> host \<Rightarrow> ((service_handle list, composition_error) result \<times> bool) async \<Rightarrow> bool" where
  "start_ended ord h (Returned (Ok _, b)) = (b \<and> host_phase h = Starting \<and> coming_up ord ord ord h)"
| "start_ended ord h (Returned (Err e, b)) =
     (b \<and> (\<exists>x. e = SubsystemFailed x) \<and> host_phase h = Stopped \<and> released h \<and> (\<exists>I T. history ord I T h))"
| "start_ended ord h Dropped =
     (host_phase h \<in> {Initializing, Starting, Failed} \<and> (\<exists>I T. history ord I T h))"
| "start_ended ord h Panicked = False"

lemma transition_Ok:
  assumes "gated h" and "can_transition_to (host_phase h) next"
  obtains l where "transition next h = (h\<lparr>host_lifecycle := l\<rparr>, Returned (Ok ()))" and "lc_phase l = next"
    and "lifecycle_inv l"
proof -
  obtain l where "transition_to next (host_lifecycle h) = Ok l" "lc_phase l = next" "lifecycle_inv l"
    using transition_effect [OF assms] by blast
  then show thesis using that by (simp add: transition_def)
qed

lemma transition_Err:
  assumes "\<not> can_transition_to (host_phase h) next"
  shows "transition next h = (h, Returned (Err \<lparr>from_phase = host_phase h, to_phase = next\<rparr>))"
  using assms by (simp add: transition_def transition_to_def host_phase_def)

lemma coming_up_lifecycle [simp]: "coming_up ord I T (h\<lparr>host_lifecycle := l\<rparr>) = coming_up ord I T h"
  by (simp add: coming_up_def calls_def)

lemma planned_lifecycle [simp]: "planned ord (h\<lparr>host_lifecycle := l\<rparr>) = planned ord h"
  by (simp add: planned_def)

lemma start_guarded_effect:
  assumes plan: "planned ord h" and up: "coming_up ord [] [] h" and gated: "gated h"
    and phase: "host_phase h = Initializing"
  shows "\<exists>h' res. start_guarded S ord h = (h', res) \<and> same_plan h h' \<and> gated h' \<and> ended S res \<and> start_ended ord h' res"
proof -
  obtain h1 res1 where run1: "initialize_loop S ord h = (h1, res1)" and h1: "same_plan h h1" "gated h1" "ended S res1"
    "brought_up ord Initializing ord [] h1 res1"
    using initialize_loop_effect [OF plan up gated phase, of ord S] by auto
  show ?thesis
  proof (cases "\<exists>u. res1 = Returned (Ok u)")
    case False
    then have "\<exists>res. start_guarded S ord h = (h1, res) \<and> ended S res \<and> start_ended ord h1 res"
      using run1 h1(3,4) by (cases "(ord, Initializing, ord, [] :: nat list, h1, res1)" rule: brought_up.cases)
        (auto simp: start_guarded_def give_def)
    with h1(1,2) show ?thesis by blast
  next
    case True
    then have p1: "host_phase h1 = Initializing" "coming_up ord ord [] h1" using h1(4) by auto
    have "can_transition_to (host_phase h1) Initialized" using p1(1) by simp
    from transition_Ok [OF h1(2) this] obtain l2 where
      t2: "transition Initialized h1 = (h1\<lparr>host_lifecycle := l2\<rparr>, Returned (Ok ()))" "lc_phase l2 = Initialized" "lifecycle_inv l2" .
    let ?h2 = "h1\<lparr>host_lifecycle := l2\<rparr>"
    have "can_transition_to (host_phase ?h2) Starting" "gated ?h2" using t2 by simp_all
    from transition_Ok [OF this(2,1)] obtain l3 where
      t3: "transition Starting ?h2 = (?h2\<lparr>host_lifecycle := l3\<rparr>, Returned (Ok ()))" "lc_phase l3 = Starting" "lifecycle_inv l3" .
    let ?h3 = "?h2\<lparr>host_lifecycle := l3\<rparr>"
    have h3: "planned ord ?h3" "coming_up ord ord [] ?h3" "gated ?h3" "host_phase ?h3 = Starting" "same_plan h ?h3"
      using planned_same [OF h1(1) plan] p1(2) t3 h1(1) by (simp_all add: same_plan_def)
    obtain h4 res4 where run4: "start_loop S ord [] ?h3 = (h4, res4)" and h4: "same_plan ?h3 h4" "gated h4" "ended S res4"
      "brought_up ord Starting ord ord h4 res4"
      using start_loop_effect [OF h3(1-4), of ord S "[]"] by auto
    have run: "start_guarded S ord h = (case res4 of
        Returned (Ok hs) \<Rightarrow> (h4, Returned (Ok hs, True)) | Returned (Err e) \<Rightarrow> (h4, Returned (Err (SubsystemFailed e), True))
      | Dropped \<Rightarrow> (h4, Dropped) | Panicked \<Rightarrow> (h4, Panicked))"
      unfolding start_guarded_def using run1 True t2(1) t3(1) run4
      by (auto simp: give_def split: async.split result.split)
    have "\<exists>res. start_guarded S ord h = (h4, res) \<and> ended S res \<and> start_ended ord h4 res"
      unfolding run using h4(3,4)
      by (cases "(ord, Starting, ord, ord, h4, res4)" rule: brought_up.cases) simp_all
    then show ?thesis using same_plan_trans [OF h3(5) h4(1)] h4(2) by blast
  qed
qed

definition settled :: "nat list \<Rightarrow> host \<Rightarrow> bool" where
  "settled ord h \<longleftrightarrow>
     (case host_phase h of
        Created \<Rightarrow> coming_up ord [] [] h \<and> \<not> interrupted h
      | Running \<Rightarrow> coming_up ord ord ord h \<and> \<not> interrupted h
      | Stopped \<Rightarrow> released h \<and> \<not> interrupted h \<and> (\<exists>I T. history ord I T h)
      | _ \<Rightarrow> interrupted h \<and> (\<exists>I T. history ord I T h))"

definition host_inv :: "nat list \<Rightarrow> host \<Rightarrow> bool" where
  "host_inv ord h \<longleftrightarrow> planned ord h \<and> gated h \<and> settled ord h"

lemma settled_interrupted:
  "host_phase h \<notin> {Created, Running, Stopped} \<Longrightarrow> settled ord h \<longleftrightarrow> interrupted h \<and> (\<exists>I T. history ord I T h)"
  by (cases "host_phase h") (simp_all add: settled_def)

text \<open>What a call of \<open>start\<close> can end in.\<close>

fun start_result ::
  "host \<Rightarrow> host \<Rightarrow> (service_handle list, composition_error) result async \<Rightarrow> bool" where
  "start_result h h' (Returned (Ok _)) = (host_phase h = Created \<and> host_phase h' = Running)"
| "start_result h h' (Returned (Err (SubsystemFailed _))) = (host_phase h = Created \<and> host_phase h' = Stopped)"
| "start_result h h' (Returned (Err (PhaseRefused _))) = (host_phase h \<noteq> Created \<and> h' = h)"
| "start_result h h' (Returned (Err _)) = False"
| "start_result h h' Dropped = (host_phase h = Created \<and> interrupted h')"
| "start_result h h' Panicked = False"

lemma can_transition_to_Initializing: "can_transition_to p Initializing \<longleftrightarrow> p = Created"
  by (cases p) auto

lemma history_flag [simp]: "history ord I T (h\<lparr>interrupted := b\<rparr>) = history ord I T h"
  by (simp add: history_def calls_def)

lemma planned_flag [simp]: "planned ord (h\<lparr>interrupted := b\<rparr>) = planned ord h"
  by (simp add: planned_def)

lemma host_start_effect:
  assumes inv: "host_inv ord h"
  shows "\<exists>h' res. host_start S h = (h', res) \<and> host_inv ord h' \<and> ended S res \<and> start_result h h' res"
proof (cases "host_phase h = Created")
  case False
  then have "transition Initializing h = (h, Returned (Err \<lparr>from_phase = host_phase h, to_phase = Initializing\<rparr>))"
    using transition_Err can_transition_to_Initializing by simp
  moreover have "host_order start_order h = (h, Returned ord)"
    using inv host_order_planned(1) by (simp add: host_inv_def)
  ultimately show ?thesis
    using inv False by (simp add: host_start_def give_def)
next
  case True
  have plan: "planned ord h" and gated: "gated h" and up: "coming_up ord [] [] h" "\<not> interrupted h"
    using inv True by (simp_all add: host_inv_def settled_def)
  have "can_transition_to (host_phase h) Initializing" using True by simp
  from transition_Ok [OF gated this] obtain l1 where
    t1: "transition Initializing h = (h\<lparr>host_lifecycle := l1\<rparr>, Returned (Ok ()))" "lc_phase l1 = Initializing" "lifecycle_inv l1" .
  let ?h1 = "h\<lparr>host_lifecycle := l1\<rparr>"
  obtain h2 res2 where run2: "start_guarded S ord ?h1 = (h2, res2)" and h2: "same_plan ?h1 h2" "gated h2" "ended S res2"
    "start_ended ord h2 res2"
    using start_guarded_effect [of ord ?h1 S] plan up(1) t1 by auto
  have p2: "planned ord h2" "\<not> interrupted h2" using h2(1) plan up(2) by (simp_all add: same_plan_def planned_def)
  have head: "host_start S h = and_then (guarded (start_guarded S ord)) (\<lambda>a. case a of Err e \<Rightarrow> give (Err e) | Ok handles \<Rightarrow>
     and_then (transition Running) (\<lambda>t. case t of Err e \<Rightarrow> give (Err (PhaseRefused e)) | Ok _ \<Rightarrow> give (Ok handles))) ?h1"
    unfolding host_start_def using host_order_planned(1) [OF plan] t1(1) by simp
  show ?thesis
  proof (cases "(ord, h2, res2)" rule: start_ended.cases)
    case (1 _ _ hs b)
    then have p: "b" "host_phase h2 = Starting" "coming_up ord ord ord h2" using h2(4) by simp_all
    have "can_transition_to (host_phase h2) Running" using p(2) by simp
    from transition_Ok [OF h2(2) this] obtain l3 where
      "transition Running h2 = (h2\<lparr>host_lifecycle := l3\<rparr>, Returned (Ok ()))" "lc_phase l3 = Running" "lifecycle_inv l3" .
    then show ?thesis
      unfolding head using run2 1 p p2 True by (simp add: host_inv_def settled_def give_def)
  next
    case (2 _ _ e b)
    then show ?thesis
      unfolding head using run2 h2 p2 True by (auto simp: host_inv_def settled_def give_def)
  next
    case 3
    then have "host_phase h2 \<notin> {Created, Running, Stopped}" "\<exists>I T. history ord I T h2" using h2(4) by force+
    then have "settled ord (h2\<lparr>interrupted := True\<rparr>)" by (simp add: settled_interrupted)
    then show ?thesis
      unfolding head using run2 h2(2,3) p2(1) 3 True by (simp add: host_inv_def)
  next
    case 4
    with h2(4) show ?thesis by simp
  qed
qed

text \<open>What a call of \<open>shutdown\<close> can end in.\<close>

fun shutdown_result ::
  "host \<Rightarrow> host \<Rightarrow> (shutdown_report, composition_error) result async \<Rightarrow> bool" where
  "shutdown_result h h' (Returned (Ok _)) = (host_phase h \<notin> {Created, Stopped} \<and> host_phase h' = Stopped)"
| "shutdown_result h h' (Returned (Err (PhaseRefused _))) = (host_phase h \<in> {Created, Stopped} \<and> h' = h)"
| "shutdown_result h h' (Returned (Err _)) = False"
| "shutdown_result h h' Dropped = (host_phase h \<notin> {Created, Stopped} \<and> interrupted h')"
| "shutdown_result h h' Panicked = False"

lemma can_transition_to_Draining: "can_transition_to p Draining \<longleftrightarrow> p = Running"
  by (cases p) auto

text \<open>Finishing an interrupted operation.\<close>

lemma host_shutdown_interrupted:
  assumes inv: "host_inv ord h" and int: "interrupted h"
  shows "\<exists>h' res. host_shutdown S h = (h', res) \<and> host_inv ord h' \<and> ended S res \<and> shutdown_result h h' res"
proof -
  have phase: "host_phase h \<notin> {Created, Running, Stopped}"
    using inv int by (auto simp: host_inv_def settled_def)
  let ?h0 = "h\<lparr>interrupted := False\<rparr>"
  obtain I T where hist: "history ord I T h" using inv phase by (auto simp: host_inv_def settled_interrupted)
  have plan: "planned ord ?h0" "gated ?h0" "history ord I T ?h0" "host_phase ?h0 \<noteq> Stopped"
    using inv phase hist by (simp_all add: host_inv_def)
  obtain h' res where run: "fail_and_tear_down S report_default ?h0 = (h', res)" and h': "same_plan ?h0 h'" "history ord I T h'"
    "gated h'" "ended S res" "\<And>r'. res = Returned r' \<Longrightarrow> host_phase h' = Stopped \<and> released h'"
    "res = Dropped \<Longrightarrow> host_phase h' = Failed"
    using fail_and_tear_down_effect [OF plan(1,3,2,4)] by metis
  have planned: "planned ord h'" "\<not> interrupted h'" using planned_same [OF h'(1) plan(1)] h'(1) by (simp_all add: same_plan_def)
  show ?thesis
  proof (cases res)
    case (Returned r)
    then have "host_shutdown S h = (h', Returned (Ok r))"
      using int run phase by (simp add: host_shutdown_def give_def)
    then show ?thesis using h'(2,3) h'(5) [OF Returned] planned phase by (auto simp: host_inv_def settled_def)
  next
    case Dropped
    then have "host_shutdown S h = (h'\<lparr>interrupted := True\<rparr>, Dropped)"
      using int run phase by (simp add: host_shutdown_def)
    moreover have "settled ord (h'\<lparr>interrupted := True\<rparr>)"
      using h'(2) h'(6) [OF Dropped] by (auto simp: settled_interrupted)
    ultimately show ?thesis using h'(3,4) Dropped planned phase by (simp add: host_inv_def)
  next
    case Panicked
    with h'(4) show ?thesis by simp
  qed
qed

text \<open>An orderly shutdown of a running host.\<close>

fun stop_ended ::
  "nat list \<Rightarrow> host \<Rightarrow> ((shutdown_report, composition_error) result \<times> bool) async \<Rightarrow> bool" where
  "stop_ended ord h (Returned (Ok _, b)) = (b \<and> host_phase h = Stopping \<and> released h)"
| "stop_ended ord h Dropped = (host_phase h \<in> {Draining, Stopping})"
| "stop_ended ord h _ = False"

lemma shutdown_guarded_effect:
  assumes plan: "planned ord h" and hist: "history ord I T h" and gated: "gated h" and phase: "host_phase h = Draining"
  shows "\<exists>h' res. shutdown_guarded S r h = (h', res) \<and> same_plan h h' \<and> gated h' \<and> ended S res \<and>
    history ord I T h' \<and> stop_ended ord h' res"
proof -
  have gate: "host_gate h = 0" using gated_closed gated phase by simp
  obtain h1 res1 where run1: "quiesce_and_drain S r h = (h1, res1)" and h1: "frame h h1" "history ord I T h1"
      "ended S res1" "\<And>r'. res1 = Returned r' \<Longrightarrow> started h1 = []"
    using quiesce_and_drain_effect [OF plan hist gate] by metis
  have p1: "host_phase h1 = Draining" "gated h1" "same_plan h h1" "planned ord h1"
    using h1(1) phase gated plan by (simp_all add: frame_def same_plan_def planned_def host_phase_def)
  show ?thesis
  proof (cases res1)
    case (Returned r1)
    have "can_transition_to (host_phase h1) Stopping" using p1(1) by simp
    from transition_Ok [OF p1(2) this] obtain l2 where
      t2: "transition Stopping h1 = (h1\<lparr>host_lifecycle := l2\<rparr>, Returned (Ok ()))" "lc_phase l2 = Stopping" "lifecycle_inv l2" .
    let ?h2 = "h1\<lparr>host_lifecycle := l2\<rparr>"
    have h2: "planned ord ?h2" "history ord I T ?h2" "host_gate ?h2 = 0" "started ?h2 = []"
      using p1(4) h1(2) gated_closed [of ?h2] t2 h1(4) [OF Returned] by simp_all
    obtain h3 res3 where run3: "stop_all S r1 ?h2 = (h3, res3)" and h3: "frame ?h2 h3" "history ord I T h3"
        "started h3 = []" "ended S res3" "\<And>r'. res3 = Returned r' \<Longrightarrow> initialized h3 = []"
      using stop_all_effect [OF h2] by metis
    have p3: "host_phase h3 = Stopping" "gated h3" "same_plan h h3"
      using h3(1) t2 p1(3) by (simp_all add: frame_def same_plan_def host_phase_def)
    show ?thesis
    proof (cases res3)
      case fin: (Returned r3)
      then have "shutdown_guarded S r h = (h3, Returned (Ok r3, True))"
        unfolding shutdown_guarded_def using run1 Returned t2(1) run3 by (simp add: give_def)
      then show ?thesis using p3 h3 fin by (simp add: released_def)
    next
      case Dropped
      then have "shutdown_guarded S r h = (h3, Dropped)"
        unfolding shutdown_guarded_def using run1 Returned t2(1) run3 by simp
      then show ?thesis using p3 h3 Dropped by simp
    next
      case Panicked
      with h3(4) show ?thesis by simp
    qed
  next
    case Dropped
    then have "shutdown_guarded S r h = (h1, Dropped)" unfolding shutdown_guarded_def using run1 by simp
    then show ?thesis using p1 h1 Dropped by simp
  next
    case Panicked
    with h1(3) show ?thesis by simp
  qed
qed

lemma host_shutdown_orderly:
  assumes inv: "host_inv ord h" and int: "\<not> interrupted h"
  shows "\<exists>h' res. host_shutdown S h = (h', res) \<and> host_inv ord h' \<and> ended S res \<and> shutdown_result h h' res"
proof (cases "host_phase h = Running")
  case False
  then have "transition Draining h = (h, Returned (Err \<lparr>from_phase = host_phase h, to_phase = Draining\<rparr>))"
    using transition_Err can_transition_to_Draining by simp
  moreover have "host_phase h \<in> {Created, Stopped}"
    using inv int False by (auto simp: host_inv_def settled_def split: lifecycle_phase.splits)
  ultimately show ?thesis
    using inv int by (auto simp: host_shutdown_def give_def)
next
  case True
  have plan: "planned ord h" and gated: "gated h" and up: "coming_up ord ord ord h"
    using inv True by (simp_all add: host_inv_def settled_def)
  have hist: "history ord ord ord h" using coming_up_history [OF up] plan by (simp add: planned_def)
  have "can_transition_to (host_phase h) Draining" using True by simp
  from transition_Ok [OF gated this] obtain l1 where
    t1: "transition Draining h = (h\<lparr>host_lifecycle := l1\<rparr>, Returned (Ok ()))" "lc_phase l1 = Draining" "lifecycle_inv l1" .
  let ?h1 = "h\<lparr>host_lifecycle := l1\<rparr>"
  obtain h2 res2 where run2: "shutdown_guarded S report_default ?h1 = (h2, res2)" and h2: "same_plan ?h1 h2" "gated h2"
    "ended S res2" "history ord ord ord h2" "stop_ended ord h2 res2"
    using shutdown_guarded_effect [of ord ?h1 ord ord S report_default] plan hist t1 by auto
  have p2: "planned ord h2" "\<not> interrupted h2" using h2(1) plan int by (simp_all add: same_plan_def planned_def)
  have head: "host_shutdown S h = and_then (guarded (shutdown_guarded S report_default)) (\<lambda>a.
      case a of Err e \<Rightarrow> give (Err e) | Ok r \<Rightarrow> and_then (transition Stopped) (\<lambda>t.
      case t of Err e \<Rightarrow> give (Err (PhaseRefused e)) | Ok _ \<Rightarrow> give (Ok r))) ?h1"
    unfolding host_shutdown_def using int t1(1) by simp
  show ?thesis
  proof (cases "(ord, h2, res2)" rule: stop_ended.cases)
    case (1 _ _ r b)
    then have p: "b" "host_phase h2 = Stopping" "released h2" using h2(5) by simp_all
    have "can_transition_to (host_phase h2) Stopped" using p(2) by simp
    from transition_Ok [OF h2(2) this] obtain l3 where
      "transition Stopped h2 = (h2\<lparr>host_lifecycle := l3\<rparr>, Returned (Ok ()))" "lc_phase l3 = Stopped" "lifecycle_inv l3" .
    then show ?thesis
      unfolding head using run2 1 p p2 h2(4) True
      by (auto simp: host_inv_def settled_def give_def released_def)
  next
    case 2
    then have "host_phase h2 \<notin> {Created, Running, Stopped}" "\<exists>I T. history ord I T h2" using h2(4,5) by force+
    then have "settled ord (h2\<lparr>interrupted := True\<rparr>)" by (simp add: settled_interrupted)
    then show ?thesis
      unfolding head using run2 h2(2,3) p2(1) 2 True by (simp add: host_inv_def)
  qed (use h2(5) in simp_all)
qed

lemma host_shutdown_effect:
  assumes "host_inv ord h"
  shows "\<exists>h' res. host_shutdown S h = (h', res) \<and> host_inv ord h' \<and> ended S res \<and> shutdown_result h h' res"
  using host_shutdown_interrupted [OF assms] host_shutdown_orderly [OF assms] by blast

section \<open>Histories of a host\<close>

text \<open>A history is a list of calls of \<open>start\<close> and \<open>shutdown\<close>, each of which may be dropped anywhere.\<close>

datatype host_event =
    StartCall subsystems "(service_handle list, composition_error) result async"
  | ShutdownCall subsystems "(shutdown_report, composition_error) result async"

inductive host_step :: "host \<Rightarrow> host_event \<Rightarrow> host \<Rightarrow> bool" where
  start_call: "host_start S h = (h', res) \<Longrightarrow> host_step h (StartCall S res) h'"
| shutdown_call: "host_shutdown S h = (h', res) \<Longrightarrow> host_step h (ShutdownCall S res) h'"

definition host_init :: "subsystem_descriptor list \<Rightarrow> host \<Rightarrow> bool" where
  "host_init ds h \<longleftrightarrow> host_new ds = Some (Ok h)"

text \<open>The positions of the subsystems in the order they are started.\<close>

definition startup :: "host \<Rightarrow> nat list" where
  "startup h = (case positions (descriptors h) (start_order (plan h)) of Some ps \<Rightarrow> ps | None \<Rightarrow> [])"

lemma positions_resolve:
  assumes "distinct (map desc_id ds)" and "\<forall>i \<in> set ord. i < length ds"
  shows "positions ds (map (\<lambda>i. desc_id (ds ! i)) ord) = Some ord"
  using assms(2)
proof (induction ord)
  case (Cons i ord)
  then have "position_of (desc_id (ds ! i)) (map desc_id ds) = Some i"
    using position_of_nth [OF assms(1), of i] by simp
  with Cons show ?case by simp
qed simp

lemma host_new_planned:
  assumes "host_new ds = Some (Ok h)"
  obtains ord where "host_inv ord h" and "set ord = {..<length ds}" and "descriptors h = ds"
proof -
  obtain p where p: "plan_build ds = Some (Ok p)"
    and h: "h = \<lparr>descriptors = ds, plan = p, host_lifecycle = lifecycle_new, initialized = [], started = [],
      interrupted = False, journal = []\<rparr>"
    using assms by (auto simp: host_new_def with_lifecycle_def split: option.splits result.splits)
  obtain deps where g: "distinct (map desc_id ds)" "all_edges (map desc_id ds) ds = Ok deps"
    using plan_build_other p by blast
  obtain ord where ord: "start_order p = map (\<lambda>i. desc_id (ds ! i)) ord"
      "plan_ingress p = map (\<lambda>i. desc_id (ds ! i)) (filter (\<lambda>i. desc_kind (ds ! i) = Ingress) ord)"
      "closed_order deps ord" "set ord = {..<length ds}"
    using plan_build_cases [OF g] p by auto
  have "positions ds (start_order p) = Some ord"
    unfolding ord(1) using positions_resolve [OF g(1)] ord(4) by simp
  moreover have "positions ds (shutdown_order p) = Some (rev ord)"
    unfolding shutdown_order_def ord(1) using positions_resolve [OF g(1), of "rev ord"] ord(4) by (simp add: rev_map)
  moreover have "positions ds (quiesce_order p) = Some (filter (\<lambda>i. desc_kind (ds ! i) = Ingress) (rev ord))"
    unfolding quiesce_order_def ord(2)
    using positions_resolve [OF g(1), of "rev (filter (\<lambda>i. desc_kind (ds ! i) = Ingress) ord)"] ord(4)
    by (simp add: rev_map rev_filter)
  ultimately have "planned ord h"
    using ord(3) by (simp add: planned_def h closed_order_def)
  moreover have "settled ord h" "gated h"
    by (simp_all add: h settled_def host_phase_def lifecycle_new_def coming_up_def calls_def)
       (simp add: lifecycle_inv_def gate_closed_def)
  ultimately show thesis using that [of ord] ord(4) by (simp add: host_inv_def h)
qed

lemma startup_planned: "planned ord h \<Longrightarrow> startup h = ord"
  by (simp add: startup_def planned_def)

text \<open>A step keeps the subsystems and the plan, and with them the order.\<close>

definition host_ok :: "subsystem_descriptor list \<Rightarrow> host \<Rightarrow> bool" where
  "host_ok ds h \<longleftrightarrow> (\<exists>ord. host_inv ord h \<and> set ord = {..<length ds})"

interpretation host: invariant_system "host_init ds" host_step "host_ok ds" for ds
proof unfold_locales
  show "host_ok ds h" if "host_init ds h" for h
    using that host_new_planned by (metis host_init_def host_ok_def)
next
  fix h e h' assume "host_ok ds h" and step: "host_step h e h'"
  then obtain ord where ord: "host_inv ord h" "set ord = {..<length ds}" by (auto simp: host_ok_def)
  from step have "host_inv ord h'"
    using host_start_effect [OF ord(1)] host_shutdown_effect [OF ord(1)]
    by cases (metis Pair_inject)+
  with ord(2) show "host_ok ds h'" by (auto simp: host_ok_def)
qed

lemma reach_host_inv:
  assumes "reach (host_init ds) host_step h"
  shows "host_inv (startup h) h" and "distinct (startup h)" and "set (startup h) = {..<length ds}"
proof -
  obtain ord where "host_inv ord h" "set ord = {..<length ds}"
    using host.reach_inv [OF assms] by (auto simp: host_ok_def)
  moreover from this have "startup h = ord" "distinct ord"
    using startup_planned by (auto simp: host_inv_def planned_def)
  ultimately show "host_inv (startup h) h" "distinct (startup h)" "set (startup h) = {..<length ds}"
    by simp_all
qed

lemma settled_history: "host_inv ord h \<Longrightarrow> \<exists>I T. history ord I T h"
  using coming_up_history by (fastforce simp: host_inv_def settled_def planned_def split: lifecycle_phase.splits)

section \<open>What a host guarantees\<close>

lemma count_Initialize_other: "list_all is_drain_call cs \<Longrightarrow> count_list cs (Initialize p) = 0"
  by (auto simp: count_list_0_iff list_all_iff)

lemma count_Start_other: "list_all is_drain_call cs \<Longrightarrow> count_list cs (Start p) = 0"
  by (auto simp: count_list_0_iff list_all_iff)

lemma count_Shutdown_other: "list_all is_drain_call cs \<Longrightarrow> count_list cs (Shutdown p) = 0"
  by (auto simp: count_list_0_iff list_all_iff)

lemma count_Drain: "count_list cs (Drain p) = count_list (drained cs) p"
  by (induction cs rule: drained.induct) simp_all

lemma count_calls [simp]:
  "count_list (map Initialize ps) (Initialize p) = count_list ps p"
  "count_list (map Start ps) (Start p) = count_list ps p"
  "count_list (map Shutdown ps) (Shutdown p) = count_list ps p"
  "count_list (map Initialize ps) (Start p) = 0" "count_list (map Initialize ps) (Shutdown p) = 0"
  "count_list (map Start ps) (Initialize p) = 0" "count_list (map Start ps) (Shutdown p) = 0"
  "count_list (map Shutdown ps) (Initialize p) = 0" "count_list (map Shutdown ps) (Start p) = 0"
  "drained (map Initialize ps) = []" "drained (map Start ps) = []" "drained (map Shutdown ps) = []"
  by (induction ps) simp_all

lemma distinct_count_list: "distinct xs \<Longrightarrow> count_list xs x \<le> 1"
  by (induction xs) auto

definition called_once :: "host \<Rightarrow> bool" where
  "called_once h \<longleftrightarrow> (\<forall>p. count_list (calls h) (Initialize p) \<le> 1 \<and>
     count_list (calls h) (Shutdown p) = count_list (calls h) (Initialize p) \<and>
     count_list (calls h) (Drain p) = count_list (calls h) (Start p))"

lemma released_called_once:
  assumes "history ord I T h" and "released h" and "distinct ord"
  shows "called_once h"
proof -
  obtain qd sh where h: "calls h = map Initialize I @ map Start T @ qd @ map Shutdown sh" "list_all is_drain_call qd"
    "drained qd = rev T" "sh = rev I" and I: "\<exists>rest. ord = I @ rest"
    using assms(1,2) by (auto simp: history_def released_def)
  have "distinct I" using assms(3) I by auto
  then have "count_list I p \<le> 1" for p by (rule distinct_count_list)
  then show ?thesis
    using h(2-4)
    by (simp add: called_once_def h(1) count_Drain count_Initialize_other count_Start_other count_Shutdown_other)
qed

text \<open>
  Property C2. Whatever is dropped, teardown mirrors startup: in every reachable state the calls the
  subsystems have received are \<open>initialize\<close> for a prefix of the start order, \<open>start\<close> for a prefix
  (only once all are initialized), then quiescing and draining, then \<open>shutdown\<close>; drains follow the
  reverse of the started prefix and shutdowns the reverse of the initialized prefix, no shutdown
  comes before the last drain, none of these four is called twice on a subsystem, and in \<open>Stopped\<close>
  every started subsystem has been drained and every initialized one shut down. \<open>quiesce\<close> is called
  on started ingress subsystems only, on all of them before anything is drained, and never on one
  that has been drained; it alone may come more than once, when a teardown dropped while it quiesced
  is taken up again (the lemma after the demonstration hosts below runs that case).
\<close>

theorem teardown_mirrors_startup:
  assumes "reach (host_init ds) host_step h"
  shows "distinct (startup h) \<and> set (startup h) = {..<length ds} \<and>
    (\<exists>k m n qd. calls h = map Initialize (take k (startup h)) @ map Start (take m (startup h)) @ qd @
         map Shutdown (take n (rev (take k (startup h)))) \<and>
       list_all is_drain_call qd \<and> (\<exists>d. drained qd = take d (rev (take m (startup h)))) \<and>
       quiesced_first {p \<in> set (take m (startup h)). desc_kind (descriptors h ! p) = Ingress} qd \<and>
       (take m (startup h) \<noteq> [] \<longrightarrow> take k (startup h) = startup h) \<and>
       (take n (rev (take k (startup h))) \<noteq> [] \<longrightarrow> drained qd = rev (take m (startup h))) \<and>
       (host_phase h = Stopped \<longrightarrow> take n (rev (take k (startup h))) = rev (take k (startup h)) \<and>
          drained qd = rev (take m (startup h))))"
    (is "_ \<and> _ \<and> (\<exists>k m n qd. ?shape k m n qd)")
proof -
  note inv = reach_host_inv [OF assms]
  obtain I T where hist: "history (startup h) I T h" using settled_history [OF inv(1)] by blast
  then obtain qd sh restI restT where h: "calls h = map Initialize I @ map Start T @ qd @ map Shutdown sh"
    "list_all is_drain_call qd" "drained qd @ filter (\<lambda>p. p \<in> set (started h)) (rev (startup h)) = rev T"
    "sh @ filter (\<lambda>p. p \<in> set (initialized h)) (rev (startup h)) = rev I" "sh \<noteq> [] \<longrightarrow> started h = []"
    "quiesced_first (set (quiescing h) \<inter> set T) qd"
    and pre: "startup h = I @ restI" "startup h = T @ restT" "T \<noteq> [] \<longrightarrow> I = startup h"
    unfolding history_def by blast
  have I: "take (length I) (startup h) = I" using pre(1) by simp
  have T: "take (length T) (startup h) = T" using pre(2) by simp
  have sh: "take (length sh) (rev I) = sh" and qd: "take (length (drained qd)) (rev T) = drained qd"
    by (simp_all flip: h(3,4))
  have "planned (startup h) h" using inv(1) by (simp add: host_inv_def)
  then have "set (quiescing h) \<inter> set T = {p \<in> set T. desc_kind (descriptors h ! p) = Ingress}"
    using pre(2) by (auto simp: planned_quiescing)
  then have quiet: "quiesced_first {p \<in> set T. desc_kind (descriptors h ! p) = Ingress} qd" using h(6) by simp
  have stopped: "sh = rev I \<and> drained qd = rev T" if "host_phase h = Stopped"
  proof -
    have "initialized h = []" "started h = []" using inv(1) that by (simp_all add: host_inv_def settled_def released_def)
    then show ?thesis using h(3,4) by simp
  qed
  have shut: "drained qd = rev T" if "sh \<noteq> []"
    using h(3,5) that by simp
  have "calls h = map Initialize (take (length I) (startup h)) @ map Start (take (length T) (startup h)) @ qd @
      map Shutdown (take (length sh) (rev (take (length I) (startup h))))"
    unfolding I T sh by (rule h(1))
  moreover have "\<exists>d. drained qd = take d (rev (take (length T) (startup h)))" unfolding T using qd [symmetric] by (rule exI)
  ultimately have "?shape (length I) (length T) (length sh) qd"
    using h(2) I T sh quiet stopped shut pre(3) by simp
  then show ?thesis using inv(2,3) by blast
qed

text \<open>
  Property C17. An abandoned teardown can always be finished: in every reachable state that has been
  started and not stopped, however often \<open>start\<close> and \<open>shutdown\<close> were dropped before, a \<open>shutdown\<close>
  that is not dropped returns its report, ends in \<open>Stopped\<close>, and by then every subsystem that was
  initialized has been shut down exactly once and every one that was started drained exactly once,
  whatever errors the subsystems raised.
\<close>

theorem shutdown_always_finishes:
  assumes "reach (host_init ds) host_step h" and "host_phase h \<notin> {Created, Stopped}" and "responsive S"
  shows "\<exists>h' r. host_shutdown S h = (h', Returned (Ok r)) \<and> host_phase h' = Stopped \<and> called_once h'"
proof -
  note inv = reach_host_inv [OF assms(1)]
  obtain h' res where run: "host_shutdown S h = (h', res)" and h': "host_inv (startup h) h'" "ended S res" "shutdown_result h h' res"
    using host_shutdown_effect [OF inv(1)] by blast
  obtain r where r: "res = Returned (Ok r)" "host_phase h' = Stopped"
    using h'(2,3) assms(2,3) by (cases "(h, h', res)" rule: shutdown_result.cases) auto
  then have "released h'" "\<exists>I T. history (startup h) I T h'" using h'(1) by (simp_all add: host_inv_def settled_def)
  with released_called_once inv(2) run r show ?thesis by blast
qed

text \<open>
  Property C35. Starting is all or nothing: from every reachable state \<open>start\<close> never panics; it
  succeeds only from \<open>Created\<close>, having initialized and then started every subsystem in order, and
  opens the first epoch; when a subsystem fails, everything it touched has been drained and shut
  down exactly once and the host is \<open>Stopped\<close>; it is refused in any other phase without touching
  anything; and when it is dropped the host is flagged for a later shutdown.
\<close>

theorem start_all_or_nothing:
  assumes "reach (host_init ds) host_step h"
  shows "case host_start S h of
      (h', Returned (Ok handles)) \<Rightarrow> host_phase h = Created \<and> host_phase h' = Running \<and>
        calls h' = map Initialize (startup h) @ map Start (startup h) \<and>
        active_epoch (host_lifecycle h') = Some (RunEpoch 1)
    | (h', Returned (Err (SubsystemFailed e))) \<Rightarrow> host_phase h = Created \<and> host_phase h' = Stopped \<and> called_once h'
    | (h', Returned (Err (PhaseRefused e))) \<Rightarrow> host_phase h \<noteq> Created \<and> h' = h
    | (h', Returned (Err _)) \<Rightarrow> False
    | (h', Dropped) \<Rightarrow> host_phase h = Created \<and> interrupted h' \<and> \<not> responsive S
    | (h', Panicked) \<Rightarrow> False"
proof -
  note inv = reach_host_inv [OF assms]
  obtain h' res where run: "host_start S h = (h', res)" and h': "host_inv (startup h) h'" "ended S res" "start_result h h' res"
    using host_start_effect [OF inv(1)] by blast
  have running: "calls h' = map Initialize (startup h) @ map Start (startup h)" if "host_phase h' = Running"
    using h'(1) that by (simp add: host_inv_def settled_def coming_up_def)
  have epoch: "active_epoch (host_lifecycle h') = Some (RunEpoch 1)" if "host_phase h' = Running"
    using lifecycle_inv_gate [of "host_lifecycle h'"] h'(1) that by (simp add: host_inv_def host_phase_def)
  have once: "called_once h'" if "host_phase h' = Stopped"
    using h'(1) that released_called_once inv(2) by (auto simp: host_inv_def settled_def)
  show ?thesis
    unfolding run using h'(2,3) running epoch once
    by (cases "(h, h', res)" rule: start_result.cases) simp_all
qed

text \<open>
  No capability is alive during startup or teardown: in every reachable state the epoch
  gate was closed while each call to a subsystem ran, and it is open exactly when the host is
  \<open>Running\<close>, that is, with everything started and nothing torn down.
\<close>

theorem gate_closed_around_calls:
  assumes "reach (host_init ds) host_step h"
  shows "(\<forall>(c, g) \<in> set (journal h). gate_current g = None) \<and>
    (active_epoch (host_lifecycle h) \<noteq> None \<longleftrightarrow> host_phase h = Running) \<and>
    (host_phase h = Running \<longrightarrow> calls h = map Initialize (startup h) @ map Start (startup h))"
proof -
  note inv = reach_host_inv [OF assms]
  obtain I T where "history (startup h) I T h" using settled_history [OF inv(1)] by blast
  then have "\<forall>x \<in> set (journal h). snd x = 0" by (simp add: history_def)
  then have "\<forall>(c, g) \<in> set (journal h). gate_current g = None" by (auto simp: gate_current_def)
  moreover have "active_epoch (host_lifecycle h) \<noteq> None \<longleftrightarrow> host_phase h = Running"
    using lifecycle_inv_gate [of "host_lifecycle h"] inv(1) by (simp add: host_inv_def host_phase_def)
  moreover have "calls h = map Initialize (startup h) @ map Start (startup h)" if "host_phase h = Running"
    using inv(1) that by (simp add: host_inv_def settled_def coming_up_def)
  ultimately show ?thesis by blast
qed

section \<open>An interrupted host\<close>

text \<open>
  A gateway over a store, and subsystems that answer everything except the listed calls, where the
  future is dropped.
\<close>

definition small_composition :: "subsystem_descriptor list" where
  "small_composition =
     [depends_on (SubsystemId ''store'') (descriptor_new (SubsystemId ''gateway'') Ingress),
      descriptor_new (SubsystemId ''store'') Foundation]"

definition dropping :: "call list \<Rightarrow> subsystems" where
  "dropping cs =
     \<lparr>on_initialize = \<lambda>j. if fst (last j) \<in> set cs then None else Some (Ok ()),
      on_start = \<lambda>j. if fst (last j) \<in> set cs then None else Some (Ok (handle_inert (SubsystemId ''demo''))),
      on_quiesce = \<lambda>j. if fst (last j) \<in> set cs then None else Some (Ok ()),
      on_drain = \<lambda>j. if fst (last j) \<in> set cs then None else Some (Ok (drain_clean (SubsystemId ''demo'') 0)),
      on_shutdown = \<lambda>j. if fst (last j) \<in> set cs then None else Some (Ok ())\<rparr>"

definition small_host :: "lifecycle \<Rightarrow> nat list \<Rightarrow> nat list \<Rightarrow> bool \<Rightarrow> call list \<Rightarrow> host" where
  "small_host l I T b cs =
     \<lparr>descriptors = small_composition,
      plan = \<lparr>start_order = map SubsystemId [''store'', ''gateway''], plan_ingress = [SubsystemId ''gateway'']\<rparr>,
      host_lifecycle = l, initialized = I, started = T, interrupted = b, journal = map (\<lambda>c. (c, 0)) cs\<rparr>"

lemma small_host_new: "host_new small_composition = Some (Ok (small_host lifecycle_new [] [] False []))"
  by code_simp

lemma small_host_dropped_start:
  "host_start (dropping [Start 0]) (small_host lifecycle_new [] [] False []) =
     (small_host \<lparr>lc_phase = Starting, lc_epoch = 0, lc_gate = 0\<rparr> [1, 0] [1, 0] True
        [Initialize 1, Initialize 0, Start 1, Start 0], Dropped)"
  by code_simp

lemma small_host_finished:
  "host_shutdown (dropping [])
     (small_host \<lparr>lc_phase = Starting, lc_epoch = 0, lc_gate = 0\<rparr> [1, 0] [1, 0] True
        [Initialize 1, Initialize 0, Start 1, Start 0]) =
     (small_host \<lparr>lc_phase = Stopped, lc_epoch = 0, lc_gate = 0\<rparr> [] [] False
        [Initialize 1, Initialize 0, Start 1, Start 0, Quiesce 0, Drain 0, Drain 1, Shutdown 0, Shutdown 1],
      Returned (Ok \<lparr>drains = [drain_clean (SubsystemId ''demo'') 0, drain_clean (SubsystemId ''demo'') 0], errors = []\<rparr>))"
  by code_simp

text \<open>
  A teardown that is dropped while it quiesces, and then finished, quiesces the same subsystem again:
  the documented single call per run holds for the other four methods only.
\<close>

lemma resumed_teardown_quiesces_again:
  "fst (host_shutdown (dropping []) (fst (host_shutdown (dropping [Quiesce 0]) (fst
     (host_start (dropping []) (small_host lifecycle_new [] [] False [])))))) =
   small_host \<lparr>lc_phase = Stopped, lc_epoch = 1, lc_gate = 0\<rparr> [] [] False
     [Initialize 1, Initialize 0, Start 1, Start 0, Quiesce 0, Quiesce 0, Drain 0, Drain 1, Shutdown 0, Shutdown 1]"
  by code_simp

abbreviation stuck_host :: host where
  "stuck_host \<equiv> small_host \<lparr>lc_phase = Starting, lc_epoch = 0, lc_gate = 0\<rparr> [1, 0] [1, 0] True
     [Initialize 1, Initialize 0, Start 1, Start 0]"

lemma small_host_reach: "reach (host_init small_composition) host_step (small_host lifecycle_new [] [] False [])"
  by (rule reach.reach_init) (simp add: host_init_def small_host_new)

lemma stuck_host_reach: "reach (host_init small_composition) host_step stuck_host"
  by (rule reach.reach_step [OF small_host_reach start_call [OF small_host_dropped_start]])

lemma responsive_dropping: "responsive (dropping [])"
  by (simp add: responsive_def dropping_def)

definition finished_host :: host where
  "finished_host = small_host \<lparr>lc_phase = Stopped, lc_epoch = 0, lc_gate = 0\<rparr> [] [] False
     [Initialize 1, Initialize 0, Start 1, Start 0, Quiesce 0, Drain 0, Drain 1, Shutdown 0, Shutdown 1]"

lemma finished_host_reach: "reach (host_init small_composition) host_step finished_host"
  by (rule reach.reach_step [OF stuck_host_reach]) (unfold finished_host_def, rule shutdown_call, rule small_host_finished)

theorem teardown_mirrors_startup_witness:
  "\<exists>m qd. list_all is_drain_call qd \<and> drained qd = rev (take m (startup finished_host)) \<and>
     quiesced_first {p \<in> set (take m (startup finished_host)). desc_kind (descriptors finished_host ! p) = Ingress} qd"
proof -
  have stopped: "host_phase finished_host = Stopped" by (simp add: finished_host_def host_phase_def small_host_def)
  from teardown_mirrors_startup [OF finished_host_reach, THEN conjunct2, THEN conjunct2]
  show ?thesis
  proof (elim exE, goal_cases)
    case (1 k m n qd)
    with stopped show ?case by (intro exI [of _ m] exI [of _ qd]) simp
  qed
qed

theorem shutdown_always_finishes_witness:
  "\<exists>h' r. host_shutdown (dropping []) stuck_host = (h', Returned (Ok r)) \<and> called_once h'"
proof -
  have "host_phase stuck_host \<notin> {Created, Stopped}" by (simp add: host_phase_def small_host_def)
  from shutdown_always_finishes [OF stuck_host_reach this responsive_dropping] show ?thesis by blast
qed

theorem start_all_or_nothing_witness:
  "interrupted (fst (host_start (dropping [Start 0]) (small_host lifecycle_new [] [] False [])))"
  using start_all_or_nothing [OF small_host_reach, of "dropping [Start 0]"]
  unfolding small_host_dropped_start by simp

theorem gate_closed_around_calls_witness: "active_epoch (host_lifecycle stuck_host) = None"
  using gate_closed_around_calls [OF stuck_host_reach] by (simp add: host_phase_def small_host_def)

end
