(* ===== verification/Composition_Authority.thy ===== *)
theory Composition_Authority
  imports Composition_Graph "HOL-Library.Multiset"
begin

text \<open>
  Authorization that is taken once per action and cannot outlive the run
  (crates/claw-application/src/composition/authority.rs, with the capabilities of session.rs and the
  instants of clock.rs): capability sets, actions, grants and their issuer. A duration or an instant
  is its number of nanoseconds. The gate and the clock a grant carries are shared with the whole
  composition, so redeeming takes their current readings as arguments; issuing suspends while the
  authority decides, so it is two functions, and the lifecycle may move between them.
\<close>

section \<open>Instants\<close>

text \<open>\<open>Duration::MAX\<close>: all 64-bit seconds and a nanosecond less than one more.\<close>

definition DURATION_MAX :: nat where
  "DURATION_MAX = 2 ^ 64 * 10 ^ 9 - 1"

type_synonym instant = nat

definition instant_checked_add :: "instant \<Rightarrow> nat \<Rightarrow> instant option" where
  "instant_checked_add t span = (if t + span \<le> DURATION_MAX then Some (t + span) else None)"

definition saturating_since :: "instant \<Rightarrow> instant \<Rightarrow> nat" where
  "saturating_since later earlier = later - earlier"

section \<open>Capabilities\<close>

datatype capability = ReadWorkspace | WriteWorkspace | Network | SpawnProcess | ReadEnvironment

fun capability_rank :: "capability \<Rightarrow> nat" where
  "capability_rank ReadWorkspace = 0"
| "capability_rank WriteWorkspace = 1"
| "capability_rank Network = 2"
| "capability_rank SpawnProcess = 3"
| "capability_rank ReadEnvironment = 4"

lemma capability_rank_inj: "capability_rank a = capability_rank b \<longleftrightarrow> a = b"
  by (cases a; cases b) simp_all

instantiation capability :: linorder
begin

definition less_eq_capability :: "capability \<Rightarrow> capability \<Rightarrow> bool" where
  "less_eq_capability a b \<longleftrightarrow> capability_rank a \<le> capability_rank b"

definition less_capability :: "capability \<Rightarrow> capability \<Rightarrow> bool" where
  "less_capability a b \<longleftrightarrow> capability_rank a < capability_rank b"

instance
  by standard (auto simp: less_eq_capability_def less_capability_def capability_rank_inj)

end

definition capability_ALL :: "capability list" where
  "capability_ALL = [ReadWorkspace, WriteWorkspace, Network, SpawnProcess, ReadEnvironment]"

fun capability_label :: "capability \<Rightarrow> string" where
  "capability_label ReadWorkspace = ''read-workspace''"
| "capability_label WriteWorkspace = ''write-workspace''"
| "capability_label Network = ''network''"
| "capability_label SpawnProcess = ''spawn-process''"
| "capability_label ReadEnvironment = ''read-environment''"

type_synonym capability_set = "capability list"

definition capset_empty :: capability_set where
  "capset_empty = []"

definition capset_all :: capability_set where
  "capset_all = capability_ALL"

definition from_capabilities :: "capability list \<Rightarrow> capability_set" where
  "from_capabilities cs = remdups_adj (sort cs)"

definition capset_contains :: "capability_set \<Rightarrow> capability \<Rightarrow> bool" where
  "capset_contains s c \<longleftrightarrow> c \<in> set s"

definition is_subset_of :: "capability_set \<Rightarrow> capability_set \<Rightarrow> bool" where
  "is_subset_of s other \<longleftrightarrow> list_all (capset_contains other) s"

definition missing_from :: "capability_set \<Rightarrow> capability_set \<Rightarrow> capability list" where
  "missing_from s other = filter (\<lambda>c. \<not> capset_contains other c) s"

lemma set_from_capabilities: "set (from_capabilities cs) = set cs"
  by (simp add: from_capabilities_def)

lemma sorted_dedup: "sorted xs \<Longrightarrow> sorted_wrt (<) (remdups_adj (xs :: 'a::linorder list))"
proof (induction xs rule: remdups_adj.induct)
  case (3 x y xs)
  show ?case
  proof (cases "x = y")
    case False
    then have "\<forall>z \<in> set (y # xs). x < z" using 3(3) by fastforce
    with False 3 show ?thesis by simp
  qed (use 3 in simp)
qed simp_all

lemma from_capabilities_canonical: "sorted_wrt (<) (from_capabilities cs)"
  unfolding from_capabilities_def by (rule sorted_dedup [OF sorted_sort])

section \<open>Actions and requests\<close>

record principal =
  principal_id :: string
  principal_capabilities :: capability_set

datatype action =
    OpenSession
  | SubmitTurn
  | CallProvider string string
  | InvokeTool string capability_set
  | ReadCredential string
  | ActivatePlugin string
  | RecordTurn

fun action_label :: "action \<Rightarrow> string" where
  "action_label OpenSession = ''open-session''"
| "action_label SubmitTurn = ''submit-turn''"
| "action_label (CallProvider _ _) = ''call-provider''"
| "action_label (InvokeTool _ _) = ''invoke-tool''"
| "action_label (ReadCredential _) = ''read-credential''"
| "action_label (ActivatePlugin _) = ''activate-plugin''"
| "action_label RecordTurn = ''record-turn''"

fun required_capabilities :: "action \<Rightarrow> capability_set" where
  "required_capabilities (InvokeTool _ required) = required"
| "required_capabilities (CallProvider _ _) = from_capabilities [Network]"
| "required_capabilities _ = capset_empty"

fun action_display :: "action \<Rightarrow> string" where
  "action_display (CallProvider provider model) = ''call-provider '' @ provider @ ''/'' @ model"
| "action_display (InvokeTool tool _) = ''invoke-tool '' @ tool"
| "action_display (ReadCredential credential) = ''read-credential '' @ credential"
| "action_display (ActivatePlugin component) = ''activate-plugin '' @ component"
| "action_display other = action_label other"

record action_request =
  req_subsystem :: subsystem_id
  req_principal :: principal
  req_action :: action
  req_session :: "string option"

definition action_request_new :: "subsystem_id \<Rightarrow> principal \<Rightarrow> action \<Rightarrow> action_request" where
  "action_request_new s p a = \<lparr>req_subsystem = s, req_principal = p, req_action = a, req_session = None\<rparr>"

definition in_session :: "string \<Rightarrow> action_request \<Rightarrow> action_request" where
  "in_session s r = r\<lparr>req_session := Some s\<rparr>"

record authorization =
  auth_ttl :: nat
  auth_note :: "string option"

definition for_duration :: "nat \<Rightarrow> authorization" where
  "for_duration ttl = \<lparr>auth_ttl = ttl, auth_note = None\<rparr>"

definition with_note :: "string \<Rightarrow> authorization \<Rightarrow> authorization" where
  "with_note note a = a\<lparr>auth_note := Some note\<rparr>"

section \<open>Grants\<close>

datatype denial =
    PolicyDenial string string
  | MissingCapabilities string "capability list"
  | Expired u64 nat nat
  | NotRunning
  | EpochClosed

record 'a grant =
  subject :: 'a
  serial :: u64
  grant_epoch :: run_epoch
  grant_action :: string
  ttl :: nat
  minted_at :: instant
  expires_at :: instant

record grant_receipt =
  receipt_serial :: u64
  receipt_action :: string
  receipt_epoch :: run_epoch
  receipt_expires_at :: instant

definition receipt :: "'a grant \<Rightarrow> grant_receipt" where
  "receipt g = \<lparr>receipt_serial = serial g, receipt_action = grant_action g, receipt_epoch = grant_epoch g,
                receipt_expires_at = expires_at g\<rparr>"

text \<open>\<open>redeem\<close> with the gate and the clock as they read at the moment of the call.\<close>

definition redeem :: "epoch_gate \<Rightarrow> instant \<Rightarrow> 'a grant \<Rightarrow> ('a, denial) result" where
  "redeem gate now g =
     (if gate_current gate \<noteq> Some (grant_epoch g) then Err EpochClosed
      else if now > expires_at g then Err (Expired (serial g) (saturating_since now (minted_at g)) (ttl g))
      else Ok (subject g))"

record grant_issuer =
  max_ttl :: nat
  next_serial :: u64

definition grant_issuer_new :: "nat \<Rightarrow> grant_issuer" where
  "grant_issuer_new limit = \<lparr>max_ttl = limit, next_serial = 1\<rparr>"

text \<open>
  \<open>issue\<close> up to the question to the authority: the epoch and the instant it captures; and from the
  answer on, with the gate as it reads then.
\<close>

definition issue_ask :: "epoch_gate \<Rightarrow> instant \<Rightarrow> (run_epoch \<times> instant, denial) result" where
  "issue_ask gate now = (case gate_current gate of None \<Rightarrow> Err NotRunning | Some e \<Rightarrow> Ok (e, now))"

definition issue_answered ::
  "run_epoch \<Rightarrow> instant \<Rightarrow> action_request \<Rightarrow> 'a \<Rightarrow> (authorization, denial) result \<Rightarrow> epoch_gate \<Rightarrow> grant_issuer \<Rightarrow>
     ('a grant, denial) result \<times> grant_issuer" where
  "issue_answered epoch minted request subj answer gate issuer =
     (case answer of
        Err d \<Rightarrow> (Err d, issuer)
      | Ok a \<Rightarrow>
          (if gate_current gate \<noteq> Some epoch then (Err EpochClosed, issuer)
           else (let t = min (auth_ttl a) (max_ttl issuer);
                     expires = (case instant_checked_add minted t of Some x \<Rightarrow> x | None \<Rightarrow> DURATION_MAX)
                 in (Ok \<lparr>subject = subj, serial = next_serial issuer, grant_epoch = epoch,
                         grant_action = action_display (req_action request), ttl = t, minted_at = minted,
                         expires_at = expires\<rparr>,
                     issuer\<lparr>next_serial := next_serial issuer + 1\<rparr>))))"

text \<open>\<open>CapabilityAuthority::authorize\<close>.\<close>

definition capability_authorize :: "nat \<Rightarrow> action_request \<Rightarrow> (authorization, denial) result" where
  "capability_authorize t request =
     (let missing = missing_from (required_capabilities (req_action request))
                      (principal_capabilities (req_principal request))
      in if missing = [] then Ok (for_duration t)
         else Err (MissingCapabilities (action_display (req_action request)) missing))"

text \<open>
  The capability authority allows exactly what the principal holds: an action is allowed,
  for the configured lifetime, exactly when every capability it requires is held, and a refusal
  names exactly the required capabilities that are absent; calling a provider requires exactly the
  network capability, and set construction is canonical: sorted, free of duplicates, and with the
  members given.
\<close>

theorem capability_authority_exact:
  "(capability_authorize t r = Ok (for_duration t) \<longleftrightarrow>
      set (required_capabilities (req_action r)) \<subseteq> set (principal_capabilities (req_principal r))) \<and>
   (case capability_authorize t r of
      Ok a \<Rightarrow> a = for_duration t
    | Err d \<Rightarrow> (\<exists>missing. d = MissingCapabilities (action_display (req_action r)) missing \<and> missing \<noteq> [] \<and>
        set missing = set (required_capabilities (req_action r)) - set (principal_capabilities (req_principal r)))) \<and>
   required_capabilities (CallProvider p m) = [Network] \<and>
   sorted_wrt (<) (from_capabilities cs) \<and> set (from_capabilities cs) = set cs"
proof -
  let ?missing = "missing_from (required_capabilities (req_action r)) (principal_capabilities (req_principal r))"
  have set_missing: "set ?missing = set (required_capabilities (req_action r)) - set (principal_capabilities (req_principal r))"
    by (auto simp: missing_from_def capset_contains_def)
  then have none: "?missing = [] \<longleftrightarrow> set (required_capabilities (req_action r)) \<subseteq> set (principal_capabilities (req_principal r))"
    by (metis Diff_eq_empty_iff set_empty)
  show ?thesis
    using none set_missing set_from_capabilities from_capabilities_canonical
    by (auto simp: capability_authorize_def Let_def from_capabilities_def)
qed

section \<open>Histories of grants\<close>

text \<open>
  The lifecycle, the issuer and the clock together with the questions that await an answer and the
  grants that exist. Grants are taken by value: redeeming or dropping one removes it. Everything
  minted and everything redeemed, with the instant, is kept for the statements.
\<close>

record 'a authority_system =
  sys_lifecycle :: lifecycle
  sys_issuer :: grant_issuer
  sys_now :: instant
  asked :: "(run_epoch \<times> instant \<times> action_request \<times> 'a) list"
  live :: "'a grant list"
  minted :: "'a grant list"
  redeemed :: "('a grant \<times> instant) list"

datatype 'a authority_event =
    Advance lifecycle_phase
  | Tick instant
  | Ask action_request 'a "(run_epoch \<times> instant, denial) result"
  | Answer "run_epoch \<times> instant \<times> action_request \<times> 'a" "(authorization, denial) result" "('a grant, denial) result"
  | Redeem "'a grant" "('a, denial) result"
  | Discard "'a grant"

definition authority_init :: "nat \<Rightarrow> 'a authority_system \<Rightarrow> bool" where
  "authority_init limit s \<longleftrightarrow>
     sys_lifecycle s = lifecycle_new \<and> sys_issuer s = grant_issuer_new limit \<and>
     asked s = [] \<and> live s = [] \<and> minted s = [] \<and> redeemed s = []"

abbreviation sys_gate :: "'a authority_system \<Rightarrow> epoch_gate" where
  "sys_gate s \<equiv> lc_gate (sys_lifecycle s)"

inductive authority_step :: "'a authority_system \<Rightarrow> 'a authority_event \<Rightarrow> 'a authority_system \<Rightarrow> bool" where
  advance: "transition_to next (sys_lifecycle s) = Ok l \<Longrightarrow> authority_step s (Advance next) (s\<lparr>sys_lifecycle := l\<rparr>)"
| tick: "sys_now s \<le> now \<Longrightarrow> authority_step s (Tick now) (s\<lparr>sys_now := now\<rparr>)"
| ask: "issue_ask (sys_gate s) (sys_now s) = Ok (e, t) \<Longrightarrow>
    authority_step s (Ask r x (Ok (e, t))) (s\<lparr>asked := (e, t, r, x) # asked s\<rparr>)"
| ask_refused: "issue_ask (sys_gate s) (sys_now s) = Err d \<Longrightarrow> authority_step s (Ask r x (Err d)) s"
| mint: "(e, t, r, x) \<in> set (asked s) \<Longrightarrow>
    issue_answered e t r x answer (sys_gate s) (sys_issuer s) = (Ok g, issuer) \<Longrightarrow>
    authority_step s (Answer (e, t, r, x) answer (Ok g))
      (s\<lparr>sys_issuer := issuer, asked := remove1 (e, t, r, x) (asked s), live := g # live s, minted := minted s @ [g]\<rparr>)"
| deny: "(e, t, r, x) \<in> set (asked s) \<Longrightarrow>
    issue_answered e t r x answer (sys_gate s) (sys_issuer s) = (Err d, issuer) \<Longrightarrow>
    authority_step s (Answer (e, t, r, x) answer (Err d))
      (s\<lparr>sys_issuer := issuer, asked := remove1 (e, t, r, x) (asked s)\<rparr>)"
| redeem_ok: "g \<in> set (live s) \<Longrightarrow> redeem (sys_gate s) (sys_now s) g = Ok y \<Longrightarrow>
    authority_step s (Redeem g (Ok y))
      (s\<lparr>live := remove1 g (live s), redeemed := (g, sys_now s) # redeemed s\<rparr>)"
| redeem_refused: "g \<in> set (live s) \<Longrightarrow> redeem (sys_gate s) (sys_now s) g = Err d \<Longrightarrow>
    authority_step s (Redeem g (Err d)) (s\<lparr>live := remove1 g (live s)\<rparr>)"
| discard: "g \<in> set (live s) \<Longrightarrow> authority_step s (Discard g) (s\<lparr>live := remove1 g (live s)\<rparr>)"

text \<open>What every grant carries.\<close>

definition grant_ok :: "nat \<Rightarrow> instant \<Rightarrow> 'a grant \<Rightarrow> bool" where
  "grant_ok limit now g \<longleftrightarrow>
     grant_epoch g = RunEpoch 1 \<and> ttl g \<le> limit \<and> minted_at g \<le> now \<and> expires_at g \<le> minted_at g + ttl g"

lemma grant_ok_later: "grant_ok limit now g \<Longrightarrow> now \<le> now' \<Longrightarrow> grant_ok limit now' g"
  by (simp add: grant_ok_def)

lemma issue_answered_Ok:
  assumes "issue_answered e t r x answer gate issuer = (Ok g, issuer')"
  shows "gate_current gate = Some e" and "serial g = next_serial issuer"
    and "issuer' = issuer\<lparr>next_serial := next_serial issuer + 1\<rparr>"
    and "t \<le> now \<Longrightarrow> e = RunEpoch 1 \<Longrightarrow> grant_ok (max_ttl issuer) now g"
  using assms
  by (auto simp: issue_answered_def grant_ok_def instant_checked_add_def Let_def
      split: result.splits if_splits option.splits)

lemma issue_answered_Err: "issue_answered e t r x answer gate issuer = (Err d, issuer') \<Longrightarrow> issuer' = issuer"
  by (auto simp: issue_answered_def Let_def split: result.splits if_splits)

definition serials :: "nat \<Rightarrow> u64 list" where
  "serials n = map (\<lambda>i. of_nat (Suc i)) [0..<n]"

lemma serials_Suc: "serials (Suc n) = serials n @ [of_nat (Suc n)]"
  by (simp add: serials_def)

lemma distinct_serials:
  assumes "n < 2 ^ 64" shows "distinct (serials n)"
proof -
  have "inj_on (\<lambda>i. of_nat (Suc i) :: u64) {0..<n}"
  proof (rule inj_onI)
    fix i j assume "i \<in> {0..<n}" "j \<in> {0..<n}" and eq: "(of_nat (Suc i) :: u64) = of_nat (Suc j)"
    then have "Suc i < 2 ^ 64" "Suc j < 2 ^ 64" using assms by auto
    then have "unat (of_nat (Suc i) :: u64) = Suc i" "unat (of_nat (Suc j) :: u64) = Suc j"
      by (simp_all add: unat_of_nat take_bit_nat_eq_self del: of_nat_Suc)
    with eq show "i = j" by simp
  qed
  then show ?thesis by (simp add: serials_def distinct_map)
qed

text \<open>Every grant is live, redeemed or gone, and none of them twice.\<close>

definition accounted :: "'a grant list \<Rightarrow> ('a grant \<times> instant) list \<Rightarrow> 'a grant list \<Rightarrow> bool" where
  "accounted l r m \<longleftrightarrow> mset l + mset (map fst r) \<subseteq># mset m"

lemma accounted_mint: "accounted l r m \<Longrightarrow> accounted (g # l) r (m @ [g])"
  by (simp add: accounted_def)

lemma accounted_redeem:
  assumes "g \<in> set l" and "accounted l r m" shows "accounted (remove1 g l) ((g, t) # r) m"
proof -
  have l: "add_mset g (mset (remove1 g l)) = mset l" using assms(1) by simp
  have "mset (remove1 g l) + mset (map fst ((g, t) # r)) = add_mset g (mset (remove1 g l)) + mset (map fst r)"
    by simp
  then show ?thesis using assms(2) unfolding accounted_def l by (simp only:)
qed

lemma accounted_drop: "accounted l r m \<Longrightarrow> accounted (remove1 g l) r m"
proof -
  have "mset (remove1 g l) \<subseteq># mset l" by simp
  then have "mset (remove1 g l) + mset (map fst r) \<subseteq># mset l + mset (map fst r)"
    by (rule mset_subset_eq_mono_add) simp
  then show "accounted l r m \<Longrightarrow> accounted (remove1 g l) r m"
    unfolding accounted_def by (rule subset_mset.order_trans)
qed

definition authority_inv :: "nat \<Rightarrow> 'a authority_system \<Rightarrow> bool" where
  "authority_inv limit s \<longleftrightarrow>
     lifecycle_inv (sys_lifecycle s) \<and> max_ttl (sys_issuer s) = limit \<and>
     map serial (minted s) = serials (length (minted s)) \<and>
     next_serial (sys_issuer s) = of_nat (Suc (length (minted s))) \<and>
     (\<forall>(e, t, r, x) \<in> set (asked s). e = RunEpoch 1 \<and> t \<le> sys_now s) \<and>
     (\<forall>g \<in> set (minted s). grant_ok limit (sys_now s) g) \<and>
     (\<forall>(g, t) \<in> set (redeemed s). minted_at g \<le> t \<and> t \<le> expires_at g) \<and>
     accounted (live s) (redeemed s) (minted s)"

lemma live_minted:
  assumes "authority_inv limit s" and "g \<in> set (live s)" shows "g \<in> set (minted s)"
proof -
  have "mset (live s) + mset (map fst (redeemed s)) \<subseteq># mset (minted s)"
    using assms(1) by (simp add: authority_inv_def accounted_def)
  then have "set_mset (mset (live s)) \<subseteq> set_mset (mset (minted s))"
    using set_mset_mono by fastforce
  with assms(2) show ?thesis by auto
qed

lemma authority_inv_init: "authority_init limit s \<Longrightarrow> authority_inv limit s"
  by (simp add: authority_init_def authority_inv_def lifecycle_inv_new grant_issuer_new_def serials_def accounted_def)

lemma lifecycle_inv_epoch: "lifecycle_inv l \<Longrightarrow> gate_current (lc_gate l) = Some e \<Longrightarrow> e = RunEpoch 1"
  by (auto simp: lifecycle_inv_def gate_current_def split: if_splits)

lemma issue_ask_Ok: "issue_ask gate now = Ok (e, t) \<Longrightarrow> gate_current gate = Some e \<and> t = now"
  by (auto simp: issue_ask_def split: option.splits)

lemma redeem_Ok: "redeem gate now g = Ok y \<Longrightarrow> gate_current gate = Some (grant_epoch g) \<and> now \<le> expires_at g \<and> y = subject g"
  by (auto simp: redeem_def split: if_splits)

lemma authority_inv_step:
  assumes inv: "authority_inv limit s" and step: "authority_step s e s'"
  shows "authority_inv limit s'"
  using step
proof cases
  case (advance "next" l)
  then show ?thesis using inv lifecycle_inv_transition by (auto simp: authority_inv_def)
next
  case (tick now)
  then show ?thesis using inv by (auto simp: authority_inv_def intro: grant_ok_later)
next
  case (ask e t r x)
  then have "e = RunEpoch 1 \<and> t = sys_now s"
    using inv issue_ask_Ok lifecycle_inv_epoch by (auto simp: authority_inv_def)
  with ask inv show ?thesis by (simp add: authority_inv_def)
next
  case (mint e t r x answer g issuer)
  have "e = RunEpoch 1" "t \<le> sys_now s" using inv mint(3) by (auto simp: authority_inv_def)
  then have "grant_ok limit (sys_now s) g"
    using issue_answered_Ok(4) [OF mint(4)] inv by (simp add: authority_inv_def)
  moreover have "\<forall>q \<in> set (remove1 (e, t, r, x) (asked s)). q \<in> set (asked s)"
    by (meson notin_set_remove1)
  ultimately show ?thesis
    using inv mint issue_answered_Ok(2,3) [OF mint(4)]
    by (auto simp: authority_inv_def serials_Suc accounted_mint)
next
  case (deny e t r x answer d issuer)
  have "\<forall>q \<in> set (remove1 (e, t, r, x) (asked s)). q \<in> set (asked s)"
    by (meson notin_set_remove1)
  then show ?thesis
    using inv deny issue_answered_Err [OF deny(4)] by (auto simp: authority_inv_def)
next
  case (redeem_ok g y)
  have "minted_at g \<le> sys_now s"
    using live_minted [OF inv redeem_ok(3)] inv by (auto simp: authority_inv_def grant_ok_def)
  moreover have "accounted (remove1 g (live s)) ((g, sys_now s) # redeemed s) (minted s)"
    using accounted_redeem [OF redeem_ok(3)] inv by (simp add: authority_inv_def)
  ultimately show ?thesis
    using inv redeem_ok redeem_Ok [OF redeem_ok(4)] by (auto simp: authority_inv_def)
next
  case (redeem_refused g d)
  then show ?thesis using inv by (auto simp: authority_inv_def intro: accounted_drop)
next
  case (discard g)
  then show ?thesis using inv by (auto simp: authority_inv_def intro: accounted_drop)
qed (use inv in simp)

interpretation authority: invariant_system "authority_init limit" authority_step "authority_inv limit" for limit
  by unfold_locales (fact authority_inv_init, fact authority_inv_step)

text \<open>
  Property C15. A grant is one short-lived permission: in every history of lifecycle transitions,
  questions, answers and redemptions in any order, each minted grant is redeemed at most once; each
  redemption happens between the mint and the earlier of the granted and the maximal lifetime; and
  serials are unique while fewer than \<open>2 ^ 64\<close> grants have been minted.
\<close>

theorem grants_single_use:
  assumes "reach (authority_init limit) authority_step s"
  shows "mset (live s) + mset (map fst (redeemed s)) \<subseteq># mset (minted s) \<and>
    (\<forall>(g, t) \<in> set (redeemed s). minted_at g \<le> t \<and> t \<le> minted_at g + min (ttl g) limit) \<and>
    (length (minted s) < 2 ^ 64 \<longrightarrow> distinct (map serial (minted s)))"
proof -
  have inv: "authority_inv limit s" using authority.reach_inv [OF assms] .
  then have acc: "mset (live s) + mset (map fst (redeemed s)) \<subseteq># mset (minted s)"
    by (simp add: authority_inv_def accounted_def)
  have "minted_at g \<le> t \<and> t \<le> minted_at g + min (ttl g) limit" if gt: "(g, t) \<in> set (redeemed s)" for g t
  proof -
    have "g \<in># mset (map fst (redeemed s))" using gt by force
    then have "g \<in># mset (live s) + mset (map fst (redeemed s))" by simp
    then have "g \<in> set (minted s)" using mset_subset_eqD [OF acc] by simp
    then have "grant_ok limit (sys_now s) g" using inv by (simp add: authority_inv_def)
    moreover have "minted_at g \<le> t \<and> t \<le> expires_at g" using inv gt by (auto simp: authority_inv_def)
    ultimately show ?thesis by (simp add: grant_ok_def)
  qed
  with acc show ?thesis using inv distinct_serials by (auto simp: authority_inv_def)
qed

text \<open>What a step answers once the run is over.\<close>

fun refused :: "'a authority_event \<Rightarrow> bool" where
  "refused (Ask _ _ r) = (r = Err NotRunning)"
| "refused (Answer _ (Ok _) r) = (r = Err EpochClosed)"
| "refused (Answer _ (Err d) r) = (r = Err d)"
| "refused (Redeem _ r) = (r = Err EpochClosed)"
| "refused _ = True"

definition run_over :: "'a authority_system \<Rightarrow> bool" where
  "run_over s \<longleftrightarrow> run_of (sys_lifecycle s) = Over \<and> gate_current (sys_gate s) = None"

lemma run_over_step:
  assumes "run_over s" and "authority_step s e s'"
  shows "run_over s' \<and> refused e \<and> minted s' = minted s \<and> redeemed s' = redeemed s"
  using assms(2)
proof cases
  case (advance "next" l)
  have "run_of l = Over" using run_of_transition [OF advance(3)] assms(1) by (auto simp: run_over_def run_step_iff)
  moreover have "next \<noteq> Running \<and> lc_phase (sys_lifecycle s) \<noteq> Running"
    using calculation transition_to_Ok [OF advance(3)] assms(1) by (auto simp: run_of_def run_over_def split: if_splits)
  then have "lc_gate l = sys_gate s" using advance(3) by (auto simp: transition_to_def Let_def split: if_splits)
  ultimately show ?thesis using advance assms(1) by (simp add: run_over_def)
next
  case (mint e t r x answer g issuer)
  then show ?thesis using issue_answered_Ok(1) [OF mint(4)] assms(1) by (simp add: run_over_def)
next
  case (deny e t r x answer d issuer)
  then have "refused (Answer (e, t, r, x) answer (Err d) :: 'a authority_event)"
    using assms(1) by (cases answer) (auto simp: issue_answered_def run_over_def)
  with deny assms(1) show ?thesis by (simp add: run_over_def)
qed (use assms(1) in \<open>auto simp: run_over_def issue_ask_def redeem_def\<close>)

lemma run_over_steps:
  "steps authority_step s es t \<Longrightarrow> run_over s \<Longrightarrow>
     list_all refused es \<and> minted t = minted s \<and> redeemed t = redeemed s"
proof (induction rule: steps.induct)
  case (steps_cons s e t es u)
  from run_over_step [OF steps_cons(4,1)] steps_cons(3) show ?case by simp
qed simp

text \<open>
  Property C19. Nothing is authorized after the run: from any reachable state whose run is over, for
  every later history, each question is refused as not running, each allowed answer and each
  redemption as belonging to a closed epoch, and nothing more is ever minted or redeemed, whatever
  the expiry of the grants still held.
\<close>

theorem no_authority_after_run:
  assumes "reach (authority_init limit) authority_step s" and "run_of (sys_lifecycle s) = Over"
    and "steps authority_step s es t"
  shows "list_all refused es \<and> minted t = minted s \<and> redeemed t = redeemed s"
proof -
  have "lifecycle_inv (sys_lifecycle s)"
    using authority.reach_inv [OF assms(1)] by (simp add: authority_inv_def)
  then have "gate_current (sys_gate s) = None"
    using assms(2) lifecycle_inv_gate [of "sys_lifecycle s"] by (auto simp: active_epoch_def run_of_def split: if_splits)
  then show ?thesis using run_over_steps [OF assms(3)] assms(2) by (simp add: run_over_def)
qed

section \<open>A grant through one run\<close>

definition demo_authority :: "nat \<Rightarrow> string authority_system" where
  "demo_authority n =
     \<lparr>sys_lifecycle = lifecycle_new, sys_issuer = grant_issuer_new n, sys_now = 0, asked = [], live = [],
      minted = [], redeemed = []\<rparr>"

definition demo_request :: action_request where
  "demo_request = action_request_new (SubsystemId ''engine'')
     \<lparr>principal_id = ''alice'', principal_capabilities = [Network]\<rparr> (CallProvider ''p'' ''m'')"

definition demo_grant :: "string grant" where
  "demo_grant = \<lparr>subject = ''call'', serial = 1, grant_epoch = RunEpoch 1, grant_action = ''call-provider p/m'',
     ttl = 10, minted_at = 0, expires_at = 10\<rparr>"

definition demo_redeemed :: "lifecycle \<Rightarrow> string authority_system" where
  "demo_redeemed l = (demo_authority 10)
     \<lparr>sys_lifecycle := l, sys_issuer := \<lparr>max_ttl = 10, next_serial = 2\<rparr>, sys_now := 7, minted := [demo_grant],
      redeemed := [(demo_grant, 7)]\<rparr>"

lemma demo_granted:
  "issue_answered (RunEpoch 1) 0 demo_request ''call'' (capability_authorize 60 demo_request) 1 (grant_issuer_new 10) =
     (Ok demo_grant, \<lparr>max_ttl = 10, next_serial = 2\<rparr>)"
  by (simp add: issue_answered_def capability_authorize_def demo_request_def action_request_new_def
      missing_from_def capset_contains_def from_capabilities_def for_duration_def gate_current_def
      grant_issuer_new_def instant_checked_add_def DURATION_MAX_def demo_grant_def)

lemma demo_redeem: "redeem 1 7 demo_grant = Ok ''call''"
  by (simp add: redeem_def demo_grant_def gate_current_def)

text \<open>Reaching \<open>Running\<close> keeps the rest of the system.\<close>

lemma advance_steps:
  "steps lifecycle_step l ps l' \<Longrightarrow>
     steps authority_step (s\<lparr>sys_lifecycle := l\<rparr>) (map Advance ps) (s\<lparr>sys_lifecycle := l'\<rparr>)"
proof (induction rule: steps.induct)
  case (steps_nil l)
  show ?case by (simp add: steps.steps_nil)
next
  case (steps_cons l p l1 ps l')
  have "authority_step (s\<lparr>sys_lifecycle := l\<rparr>) (Advance p) ((s\<lparr>sys_lifecycle := l\<rparr>)\<lparr>sys_lifecycle := l1\<rparr>)"
    using steps_cons(1) by (intro authority_step.advance) (simp add: lifecycle_step_iff)
  then show ?case using steps_cons(3) by (auto intro: steps.steps_cons)
qed

lemma demo_run_reach: "reach (authority_init 10) authority_step ((demo_authority 10)\<lparr>sys_lifecycle := demo_run\<rparr>)"
proof (rule reach_steps)
  show "steps authority_step ((demo_authority 10)\<lparr>sys_lifecycle := lifecycle_new\<rparr>)
      (map Advance [Initializing, Initialized, Starting, Running]) ((demo_authority 10)\<lparr>sys_lifecycle := demo_run\<rparr>)"
    by (rule advance_steps [OF demo_run_steps])
  show "reach (authority_init 10) authority_step ((demo_authority 10)\<lparr>sys_lifecycle := lifecycle_new\<rparr>)"
    by (rule reach.reach_init) (simp add: authority_init_def demo_authority_def)
qed

lemma demo_redeemed_reach: "reach (authority_init 10) authority_step (demo_redeemed demo_run)"
proof -
  let ?s0 = "(demo_authority 10)\<lparr>sys_lifecycle := demo_run\<rparr>"
  let ?s1 = "?s0\<lparr>asked := [(RunEpoch 1, 0, demo_request, ''call'')]\<rparr>"
  let ?s2 = "?s0\<lparr>sys_issuer := \<lparr>max_ttl = 10, next_serial = 2\<rparr>, live := [demo_grant], minted := [demo_grant]\<rparr>"
  let ?s3 = "?s2\<lparr>sys_now := 7\<rparr>"
  have step_r1: "authority_step ?s0 (Ask demo_request ''call'' (Ok (RunEpoch 1, 0))) ?s1"
    using authority_step.ask [of ?s0 "RunEpoch 1" 0 demo_request "''call''"]
    by (simp add: issue_ask_def gate_current_def demo_authority_def demo_run_def)
  have r1: "reach (authority_init 10) authority_step ?s1"
    by (rule reach.reach_step) (rule demo_run_reach, rule step_r1)
  have step_r2: "authority_step ?s1 (Answer (RunEpoch 1, 0, demo_request, ''call'') (capability_authorize 60 demo_request) (Ok demo_grant)) ?s2"
    using authority_step.mint [of "RunEpoch 1" 0 demo_request "''call''" ?s1 "capability_authorize 60 demo_request"
        demo_grant "\<lparr>max_ttl = 10, next_serial = 2\<rparr>"] demo_granted
    by (simp add: demo_authority_def demo_run_def)
  have r2: "reach (authority_init 10) authority_step ?s2"
    by (rule reach.reach_step) (rule r1, rule step_r2)
  have step_r3: "authority_step ?s2 (Tick 7) ?s3"
    using authority_step.tick [of ?s2 7] by (simp add: demo_authority_def)
  have r3: "reach (authority_init 10) authority_step ?s3"
    by (rule reach.reach_step) (rule r2, rule step_r3)
  have "authority_step ?s3 (Redeem demo_grant (Ok ''call'')) (demo_redeemed demo_run)"
    using authority_step.redeem_ok [of demo_grant ?s3 "''call''"] demo_redeem
    by (simp add: demo_redeemed_def demo_authority_def demo_run_def)
  with r3 show ?thesis by (rule reach.reach_step)
qed

theorem grants_single_use_witness: "redeemed (demo_redeemed demo_run) = [(demo_grant, 7)] \<and>
    7 \<le> minted_at demo_grant + min (ttl demo_grant) 10"
proof -
  have red: "redeemed (demo_redeemed demo_run) = [(demo_grant, 7)]" by (simp add: demo_redeemed_def)
  then show ?thesis using grants_single_use [OF demo_redeemed_reach] by simp
qed

lemma demo_over: "transition_to Draining demo_run = Ok \<lparr>lc_phase = Draining, lc_epoch = 1, lc_gate = 0\<rparr>"
  by (simp add: transition_to_def demo_run_def gate_close_def)

theorem no_authority_after_run_witness:
  "list_all refused [Ask demo_request ''again'' (Err NotRunning) :: string authority_event]"
proof -
  let ?l = "\<lparr>lc_phase = Draining, lc_epoch = 1, lc_gate = 0\<rparr> :: lifecycle"
  let ?s = "(demo_redeemed demo_run)\<lparr>sys_lifecycle := ?l\<rparr>"
  have "authority_step (demo_redeemed demo_run) (Advance Draining) ?s"
    by (rule authority_step.advance) (simp add: demo_redeemed_def demo_over)
  with demo_redeemed_reach have r: "reach (authority_init 10) authority_step ?s"
    by (rule reach.reach_step)
  have over: "run_of (sys_lifecycle ?s) = Over" by (simp add: run_of_def)
  have "authority_step ?s (Ask demo_request ''again'' (Err NotRunning)) ?s"
    by (rule authority_step.ask_refused) (simp add: issue_ask_def gate_current_def)
  then have "steps authority_step ?s [Ask demo_request ''again'' (Err NotRunning)] ?s"
    by (rule steps.steps_cons) (rule steps.steps_nil)
  from no_authority_after_run [OF r over this] show ?thesis by simp
qed

end
