(* ===== verification/Composition_Egress.thy ===== *)
theory Composition_Egress
  imports Composition_Authority Claw_Text
begin

text \<open>
  Outbound destinations (crates/claw-application/src/composition/egress.rs): endpoint requests, the
  host allowlist, the guard that resolves a destination once and checks every address, and the
  classification of addresses. The URL parser of the \<open>url\<close> crate and name resolution are parameters;
  the resolver is threaded as a state, so that not consulting it is visible. Parsing an address from
  text is the standard library's and is written out.
\<close>

section \<open>Addresses\<close>

datatype ip_addr = V4 u8 u8 u8 u8 | V6 u16 u16 u16 u16 u16 u16 u16 u16

text \<open>The predicates of \<open>Ipv4Addr\<close> and \<open>Ipv6Addr\<close>.\<close>

definition v4_is_private :: "u8 \<Rightarrow> u8 \<Rightarrow> bool" where
  "v4_is_private a b \<longleftrightarrow> a = 10 \<or> (a = 172 \<and> 16 \<le> b \<and> b \<le> 31) \<or> (a = 192 \<and> b = 168)"

definition classify_v4 :: "u8 \<Rightarrow> u8 \<Rightarrow> u8 \<Rightarrow> u8 \<Rightarrow> string option" where
  "classify_v4 a b c d =
     (if a = 0 \<and> b = 0 \<and> c = 0 \<and> d = 0 then Some ''unspecified''
      else if a = 127 then Some ''loopback''
      else if v4_is_private a b then Some ''private''
      else if a = 169 \<and> b = 254 then Some ''link-local''
      else if a = 255 \<and> b = 255 \<and> c = 255 \<and> d = 255 then Some ''broadcast''
      else if 224 \<le> a \<and> a \<le> 239 then Some ''multicast''
      else if a = 100 \<and> 64 \<le> b \<and> b < 128 then Some ''carrier-grade NAT''
      else if a = 192 \<and> b = 0 \<and> c = 0 then Some ''IETF protocol assignment''
      else if 240 \<le> a then Some ''reserved''
      else None)"

text \<open>\<open>Ipv6Addr::to_ipv4\<close>: the compatible and the mapped forms.\<close>

definition to_ipv4 :: "u16 list \<Rightarrow> (u8 \<times> u8 \<times> u8 \<times> u8) option" where
  "to_ipv4 s =
     (if take 5 s = [0, 0, 0, 0, 0] \<and> (s ! 5 = 0 \<or> s ! 5 = 0xFFFF)
      then Some (ucast (drop_bit 8 (s ! 6)), ucast (s ! 6), ucast (drop_bit 8 (s ! 7)), ucast (s ! 7))
      else None)"

definition classify_v6 :: "u16 list \<Rightarrow> string option" where
  "classify_v6 s =
     (if s = [0, 0, 0, 0, 0, 0, 0, 0] then Some ''unspecified''
      else if s = [0, 0, 0, 0, 0, 0, 0, 1] then Some ''loopback''
      else if s ! 0 AND 0xFF00 = 0xFF00 then Some ''multicast''
      else (case to_ipv4 s of
        Some (a, b, c, d) \<Rightarrow>
          (case classify_v4 a b c d of Some k \<Rightarrow> Some k | None \<Rightarrow> Some ''IPv4-in-IPv6'')
      | None \<Rightarrow>
          (if s ! 0 AND 0xFE00 = 0xFC00 then Some ''unique-local''
           else if s ! 0 AND 0xFFC0 = 0xFE80 then Some ''link-local''
           else None)))"

fun classify :: "ip_addr \<Rightarrow> string option" where
  "classify (V4 a b c d) = classify_v4 a b c d"
| "classify (V6 a b c d e f g h) = classify_v6 [a, b, c, d, e, f, g, h]"

subsection \<open>Reading an address\<close>

text \<open>\<open>Parser::read_number\<close>: digits of a radix, at most \<open>n\<close> of them, up to a bound.\<close>

definition to_digit :: "nat \<Rightarrow> char \<Rightarrow> nat option" where
  "to_digit radix c =
     (let d = digit_val (if is_ascii_uppercase c then char_of (of_char c + 32 :: nat) else c)
      in if d < radix then Some d else None)"

definition read_number :: "nat \<Rightarrow> nat \<Rightarrow> bool \<Rightarrow> nat \<Rightarrow> string \<Rightarrow> (nat \<times> string) option" where
  "read_number radix n zero_prefix bound s =
     (let ds = takeWhile (\<lambda>c. to_digit radix c \<noteq> None) s;
          v = foldl (\<lambda>acc c. acc * radix + the (to_digit radix c)) 0 ds
      in if ds = [] \<or> n < length ds \<or> (\<not> zero_prefix \<and> hd ds = CHR ''0'' \<and> 1 < length ds) \<or> bound < v then None
         else Some (v, drop (length ds) s))"

definition read_char :: "char \<Rightarrow> string \<Rightarrow> string option" where
  "read_char c s = (case s of x # r \<Rightarrow> if x = c then Some r else None | [] \<Rightarrow> None)"

text \<open>\<open>read_separator\<close>: the separator before every element but the first.\<close>

definition read_separator :: "char \<Rightarrow> nat \<Rightarrow> (string \<Rightarrow> ('a \<times> string) option) \<Rightarrow> string \<Rightarrow> ('a \<times> string) option" where
  "read_separator sep i inner s =
     (if 0 < i then (case read_char sep s of None \<Rightarrow> None | Some r \<Rightarrow> inner r) else inner s)"

fun read_octets :: "nat \<Rightarrow> nat \<Rightarrow> string \<Rightarrow> (u8 list \<times> string) option" where
  "read_octets i 0 s = Some ([], s)"
| "read_octets i (Suc n) s =
     (case read_separator CHR ''.'' i (read_number 10 3 False 255) s of
        None \<Rightarrow> None
      | Some (v, r) \<Rightarrow> (case read_octets (Suc i) n r of None \<Rightarrow> None | Some (vs, r) \<Rightarrow> Some (of_nat v # vs, r)))"

definition read_ipv4_addr :: "string \<Rightarrow> (u8 list \<times> string) option" where
  "read_ipv4_addr s = read_octets 0 4 s"

text \<open>\<open>read_groups\<close>: up to \<open>n\<close> more groups after \<open>i\<close>, and whether the last two came from an IPv4 address.\<close>

fun read_groups :: "nat \<Rightarrow> nat \<Rightarrow> string \<Rightarrow> u16 list \<times> bool \<times> string" where
  "read_groups i 0 s = ([], False, s)"
| "read_groups i (Suc n) s =
     (case (if 0 < n then read_separator CHR '':'' i read_ipv4_addr s else None) of
        Some (os, r) \<Rightarrow>
          ([push_bit 8 (ucast (os ! 0)) OR ucast (os ! 1), push_bit 8 (ucast (os ! 2)) OR ucast (os ! 3)], True, r)
      | None \<Rightarrow>
          (case read_separator CHR '':'' i (read_number 16 4 True 65535) s of
             Some (v, r) \<Rightarrow> (case read_groups (Suc i) n r of (gs, e, r) \<Rightarrow> (of_nat v # gs, e, r))
           | None \<Rightarrow> ([], False, s)))"

definition read_ipv6_addr :: "string \<Rightarrow> (u16 list \<times> string) option" where
  "read_ipv6_addr s =
     (case read_groups 0 8 s of
        (hs, v4, r) \<Rightarrow>
          (if length hs = 8 then Some (hs, r)
           else if v4 then None
           else (case read_char CHR '':'' r of
             None \<Rightarrow> None
           | Some r \<Rightarrow>
               (case read_char CHR '':'' r of
                  None \<Rightarrow> None
                | Some r \<Rightarrow>
                    (case read_groups 0 (8 - (length hs + 1)) r of
                       (ts, _, r) \<Rightarrow> Some (hs @ replicate (8 - length hs - length ts) 0 @ ts, r))))))"

definition parse_ip :: "string \<Rightarrow> ip_addr option" where
  "parse_ip s =
     (case read_ipv4_addr s of
        Some (os, r) \<Rightarrow> (if r = [] then Some (V4 (os ! 0) (os ! 1) (os ! 2) (os ! 3)) else None)
      | None \<Rightarrow>
          (case read_ipv6_addr s of
             Some (g, r) \<Rightarrow>
               (if r = [] then Some (V6 (g ! 0) (g ! 1) (g ! 2) (g ! 3) (g ! 4) (g ! 5) (g ! 6) (g ! 7)) else None)
           | None \<Rightarrow> None))"

section \<open>Requests, policies and endpoints\<close>

datatype scheme = Https | Http

fun scheme_as_str :: "scheme \<Rightarrow> string" where
  "scheme_as_str Https = ''https''"
| "scheme_as_str Http = ''http''"

fun default_port :: "scheme \<Rightarrow> u16" where
  "default_port Https = 443"
| "default_port Http = 80"

text \<open>What the code reads of a parsed URL.\<close>

record parsed_url =
  url_scheme :: string
  url_username :: string
  url_password :: "string option"
  url_host :: "string option"
  url_port :: "u16 option"

type_synonym url_parser = "string \<Rightarrow> (parsed_url, string) result"

definition redacted_url :: "url_parser \<Rightarrow> string \<Rightarrow> string" where
  "redacted_url parse raw =
     (case parse raw of
        Err _ \<Rightarrow> ''<unparseable>''
      | Ok u \<Rightarrow>
          (case url_host u of
             None \<Rightarrow> url_scheme u @ ''://<no host>''
           | Some h \<Rightarrow>
               (case url_port u of
                  None \<Rightarrow> url_scheme u @ ''://'' @ h
                | Some p \<Rightarrow> url_scheme u @ ''://'' @ h @ '':'' @ show_dec (unat p))))"

datatype egress_denial =
    InvalidUrl string string
  | UnsupportedScheme string
  | CredentialsInUrl string
  | MissingHost string
  | PlainHttpRefused string
  | HostNotAllowed string
  | LookupFailed string string
  | NoAddresses string
  | BlockedAddress string ip_addr string
  | StaleResolution string nat nat

record endpoint_request =
  er_scheme :: scheme
  er_host :: string
  er_port :: u16

definition to_ascii_lowercase :: "string \<Rightarrow> string" where
  "to_ascii_lowercase s = map (\<lambda>c. if is_ascii_uppercase c then char_of (of_char c + 32 :: nat) else c) s"

definition endpoint_parse :: "url_parser \<Rightarrow> string \<Rightarrow> (endpoint_request, egress_denial) result" where
  "endpoint_parse parse url =
     (case parse url of
        Err reason \<Rightarrow> Err (InvalidUrl (redacted_url parse url) reason)
      | Ok u \<Rightarrow>
          (case (if url_scheme u = ''https'' then Some Https else if url_scheme u = ''http'' then Some Http else None) of
             None \<Rightarrow> Err (UnsupportedScheme (url_scheme u))
           | Some sch \<Rightarrow>
               (if url_username u \<noteq> [] \<or> url_password u \<noteq> None then Err (CredentialsInUrl (redacted_url parse url))
                else (case url_host u of
                  None \<Rightarrow> Err (MissingHost (redacted_url parse url))
                | Some h \<Rightarrow>
                    (if to_ascii_lowercase h = [] then Err (MissingHost (redacted_url parse url))
                     else Ok \<lparr>er_scheme = sch, er_host = to_ascii_lowercase h,
                              er_port = (case url_port u of Some p \<Rightarrow> p | None \<Rightarrow> default_port sch)\<rparr>)))))"

definition endpoint_new :: "url_parser \<Rightarrow> scheme \<Rightarrow> string \<Rightarrow> u16 \<Rightarrow> (endpoint_request, egress_denial) result" where
  "endpoint_new parse sch h p =
     (if h = [] then Err (MissingHost (redacted_url parse []))
      else Ok \<lparr>er_scheme = sch, er_host = to_ascii_lowercase h, er_port = p\<rparr>)"

datatype host_pattern = Exact string | Suffix string

definition pattern_parse :: "string \<Rightarrow> host_pattern" where
  "pattern_parse pattern =
     (let lowered = to_ascii_lowercase pattern in
      if take 2 lowered = ''*.'' then Suffix (drop 2 lowered) else Exact lowered)"

fun pattern_matches :: "host_pattern \<Rightarrow> string \<Rightarrow> bool" where
  "pattern_matches (Exact expected) h = (expected = h)"
| "pattern_matches (Suffix suffix) h =
     (if length suffix \<le> length h
      then (let boundary = length h - length suffix in
            0 < boundary \<and> h ! (boundary - 1) = CHR ''.'' \<and> drop boundary h = suffix)
      else False)"

record egress_policy =
  allowed :: "host_pattern list"
  plain_http :: bool
  private_addresses :: bool
  max_age :: "nat option"

definition deny_all :: egress_policy where
  "deny_all = \<lparr>allowed = [], plain_http = False, private_addresses = False, max_age = None\<rparr>"

definition allow_plain_http :: "egress_policy \<Rightarrow> egress_policy" where
  "allow_plain_http pol = pol\<lparr>plain_http := True\<rparr>"

definition allow_private_addresses :: "egress_policy \<Rightarrow> egress_policy" where
  "allow_private_addresses pol = pol\<lparr>private_addresses := True\<rparr>"

definition with_max_resolution_age :: "nat \<Rightarrow> egress_policy \<Rightarrow> egress_policy" where
  "with_max_resolution_age age pol = pol\<lparr>max_age := Some age\<rparr>"

definition allow_host :: "host_pattern \<Rightarrow> egress_policy \<Rightarrow> egress_policy" where
  "allow_host p pol = pol\<lparr>allowed := allowed pol @ [p]\<rparr>"

definition DEFAULT_MAX_RESOLUTION_AGE :: nat where
  "DEFAULT_MAX_RESOLUTION_AGE = 30 * 10 ^ 9"

definition max_resolution_age :: "egress_policy \<Rightarrow> nat" where
  "max_resolution_age pol = (case max_age pol of Some a \<Rightarrow> a | None \<Rightarrow> DEFAULT_MAX_RESOLUTION_AGE)"

definition permits_host :: "egress_policy \<Rightarrow> string \<Rightarrow> bool" where
  "permits_host pol h = list_ex (\<lambda>p. pattern_matches p h) (allowed pol)"

record resolved_endpoint =
  re_scheme :: scheme
  re_host :: string
  re_port :: u16
  re_addresses :: "ip_addr list"
  re_resolved_at :: instant

definition age_at :: "resolved_endpoint \<Rightarrow> instant \<Rightarrow> nat" where
  "age_at r now = saturating_since now (re_resolved_at r)"

definition ensure_fresh :: "resolved_endpoint \<Rightarrow> instant \<Rightarrow> nat \<Rightarrow> (unit, egress_denial) result" where
  "ensure_fresh r now limit =
     (if age_at r now > limit then Err (StaleResolution (re_host r) (age_at r now) limit) else Ok ())"

section \<open>The guard\<close>

type_synonym 'd dns = "string \<Rightarrow> 'd \<Rightarrow> (ip_addr list, string) result \<times> 'd"

fun first_blocked :: "ip_addr list \<Rightarrow> (ip_addr \<times> string) option" where
  "first_blocked [] = None"
| "first_blocked (a # as) = (case classify a of Some k \<Rightarrow> Some (a, k) | None \<Rightarrow> first_blocked as)"

definition guard_resolve ::
  "'d dns \<Rightarrow> instant \<Rightarrow> egress_policy \<Rightarrow> endpoint_request \<Rightarrow> 'd \<Rightarrow> (resolved_endpoint, egress_denial) result \<times> 'd" where
  "guard_resolve lookup now pol req d =
     (if er_scheme req = Http \<and> \<not> plain_http pol then (Err (PlainHttpRefused (er_host req)), d)
      else if \<not> permits_host pol (er_host req) then (Err (HostNotAllowed (er_host req)), d)
      else (case (case parse_ip (er_host req) of Some a \<Rightarrow> (Ok [a], d) | None \<Rightarrow> lookup (er_host req) d) of
        (Err detail, d) \<Rightarrow> (Err (LookupFailed (er_host req) detail), d)
      | (Ok addresses, d) \<Rightarrow>
          (if addresses = [] then (Err (NoAddresses (er_host req)), d)
           else (case (if private_addresses pol then None else first_blocked addresses) of
             Some (a, k) \<Rightarrow> (Err (BlockedAddress (er_host req) a k), d)
           | None \<Rightarrow>
               (Ok \<lparr>re_scheme = er_scheme req, re_host = er_host req, re_port = er_port req,
                    re_addresses = addresses, re_resolved_at = now\<rparr>, d)))))"

definition resolve_url ::
  "url_parser \<Rightarrow> 'd dns \<Rightarrow> instant \<Rightarrow> egress_policy \<Rightarrow> string \<Rightarrow> 'd \<Rightarrow> (resolved_endpoint, egress_denial) result \<times> 'd" where
  "resolve_url parse lookup now pol url d =
     (case endpoint_parse parse url of Err e \<Rightarrow> (Err e, d) | Ok req \<Rightarrow> guard_resolve lookup now pol req d)"

section \<open>The classification against address blocks\<close>

text \<open>An address as a number, and a block of addresses that share a prefix.\<close>

definition v4_number :: "u8 \<Rightarrow> u8 \<Rightarrow> u8 \<Rightarrow> u8 \<Rightarrow> nat" where
  "v4_number a b c d = unat a * 2 ^ 24 + unat b * 2 ^ 16 + unat c * 2 ^ 8 + unat d"

definition v6_number :: "u16 list \<Rightarrow> nat" where
  "v6_number s = foldl (\<lambda>n g. n * 2 ^ 16 + unat g) 0 s"

definition in_block :: "nat \<Rightarrow> nat \<times> nat \<Rightarrow> nat \<Rightarrow> bool" where
  "in_block width blk n = (case blk of (net, len) \<Rightarrow> n div 2 ^ (width - len) = net div 2 ^ (width - len))"

definition v4_blocks :: "(nat \<times> nat) list" where
  "v4_blocks =
     [(v4_number 0 0 0 0, 32), (v4_number 127 0 0 0, 8), (v4_number 10 0 0 0, 8), (v4_number 172 16 0 0, 12),
      (v4_number 192 168 0 0, 16), (v4_number 169 254 0 0, 16), (v4_number 255 255 255 255, 32),
      (v4_number 224 0 0 0, 4), (v4_number 100 64 0 0, 10), (v4_number 192 0 0 0, 24), (v4_number 240 0 0 0, 4)]"

definition v6_blocks :: "(nat \<times> nat) list" where
  "v6_blocks =
     [(v6_number [0, 0, 0, 0, 0, 0, 0, 0], 96), (v6_number [0, 0, 0, 0, 0, 0xFFFF, 0, 0], 96),
      (v6_number [0xFF00, 0, 0, 0, 0, 0, 0, 0], 8), (v6_number [0xFC00, 0, 0, 0, 0, 0, 0, 0], 7),
      (v6_number [0xFE80, 0, 0, 0, 0, 0, 0, 0], 10)]"

fun in_blocked_range :: "ip_addr \<Rightarrow> bool" where
  "in_blocked_range (V4 a b c d) = list_ex (\<lambda>blk. in_block 32 blk (v4_number a b c d)) v4_blocks"
| "in_blocked_range (V6 a b c d e f g h) = list_ex (\<lambda>blk. in_block 128 blk (v6_number [a, b, c, d, e, f, g, h])) v6_blocks"

text \<open>Dropping the low digits of a number in a power-of-two base.\<close>

lemma horner_div: "(x * k + y) div k = x" if "y < k" for x y k :: nat
  using that by simp

lemma horner_div_part: "(x * (k * m) + y) div k = x * m + y div k" if "0 < k" for x y k m :: nat
proof -
  have "(x * (k * m) + y) div k = (y + x * m * k) div k"
    by (simp add: ac_simps)
  also have "\<dots> = x * m + y div k"
    using that by (simp only: div_mult_self1)
  finally show ?thesis .
qed

lemma horner_eq:
  fixes x y k :: nat
  assumes "y < k" and "y' < k"
  shows "x * k + y = x' * k + y' \<longleftrightarrow> x = x' \<and> y = y'"
proof
  assume eq: "x * k + y = x' * k + y'"
  then have "(x * k + y) div k = (x' * k + y') div k"
    by (rule arg_cong)
  then have "x = x'"
    using assms by (simp only: horner_div)
  then show "x = x' \<and> y = y'"
    using eq by simp
qed simp

lemma octet_bound: "unat (x :: u8) < 256"
  using unsigned_less [of x] by simp

lemma group_bound: "unat (x :: u16) < 65536"
  using unsigned_less [of x] by simp

lemma v4_horner: "v4_number a b c d = ((unat a * 256 + unat b) * 256 + unat c) * 256 + unat d"
  by (simp add: v4_number_def algebra_simps)

lemma v4_prefix_24: "v4_number a b c d div 256 = (unat a * 256 + unat b) * 256 + unat c"
  unfolding v4_horner by (rule horner_div) (rule octet_bound)

lemma v4_prefix_16: "v4_number a b c d div 65536 = unat a * 256 + unat b"
proof -
  have "v4_number a b c d div (256 * 256) = unat a * 256 + unat b"
    unfolding div_mult2_eq v4_prefix_24 by (rule horner_div) (rule octet_bound)
  then show ?thesis
    by simp
qed

lemma v4_prefix_8: "v4_number a b c d div 16777216 = unat a"
proof -
  have "v4_number a b c d div (65536 * 256) = unat a"
    unfolding div_mult2_eq v4_prefix_16 by (rule horner_div) (rule octet_bound)
  then show ?thesis
    by simp
qed

lemma v4_prefix_12: "v4_number a b c d div 1048576 = unat a * 16 + unat b div 16"
proof -
  have "v4_number a b c d div (65536 * 16) = unat a * 16 + unat b div 16"
    unfolding div_mult2_eq v4_prefix_16 using horner_div_part [of 16 "unat a" 16 "unat b"] by simp
  then show ?thesis
    by simp
qed

lemma v4_prefix_10: "v4_number a b c d div 4194304 = unat a * 4 + unat b div 64"
proof -
  have "v4_number a b c d div (65536 * 64) = unat a * 4 + unat b div 64"
    unfolding div_mult2_eq v4_prefix_16 using horner_div_part [of 64 "unat a" 4 "unat b"] by simp
  then show ?thesis
    by simp
qed

lemma v4_prefix_4: "v4_number a b c d div 268435456 = unat a div 16"
proof -
  have "v4_number a b c d div (16777216 * 16) = unat a div 16"
    unfolding div_mult2_eq v4_prefix_8 ..
  then show ?thesis
    by simp
qed

lemmas v4_prefixes = v4_prefix_24 v4_prefix_16 v4_prefix_8 v4_prefix_12 v4_prefix_10 v4_prefix_4

lemma v4_eq: "v4_number a b c d = v4_number a' b' c' d' \<longleftrightarrow> a = a' \<and> b = b' \<and> c = c' \<and> d = d'"
  by (simp only: v4_horner horner_eq octet_bound word_unat_eq_iff conj_assoc)

lemma div_cases: "n div k = q \<longleftrightarrow> k * q \<le> n \<and> n < k * q + k" if "0 < k" for n k q :: nat
proof
  assume "n div k = q"
  then show "k * q \<le> n \<and> n < k * q + k"
    using that dividend_less_times_div [of k n] by auto
next
  assume "k * q \<le> n \<and> n < k * q + k"
  then show "n div k = q"
    by (intro div_nat_eqI) simp_all
qed

lemmas div_16_cases = div_cases [of 16, simplified]
lemmas div_64_cases = div_cases [of 64, simplified]

lemma power_2_diffs: "(2 :: nat) ^ (32 - 24) = 256"
  by simp

lemma in_v4_block_32: "in_block 32 (v4_number a' b' c' d', 32) (v4_number a b c d) \<longleftrightarrow> a = a' \<and> b = b' \<and> c = c' \<and> d = d'"
  by (simp add: in_block_def v4_eq)

lemma in_v4_block_24: "in_block 32 (v4_number a' b' c' d', 24) (v4_number a b c d) \<longleftrightarrow> a = a' \<and> b = b' \<and> c = c'"
  unfolding in_block_def prod.case
  by (simp only: v4_prefix_24 horner_eq octet_bound word_unat_eq_iff power_2_diffs conj_assoc)

lemma in_v4_block_16: "in_block 32 (v4_number a' b' c' d', 16) (v4_number a b c d) \<longleftrightarrow> a = a' \<and> b = b'"
  by (simp add: in_block_def v4_prefix_16 horner_eq octet_bound word_unat_eq_iff)

lemma in_v4_block_8: "in_block 32 (v4_number a' b' c' d', 8) (v4_number a b c d) \<longleftrightarrow> a = a'"
  by (simp add: in_block_def v4_prefixes word_unat_eq_iff)

lemma in_v4_block_4: "in_block 32 (v4_number a' b' c' d', 4) (v4_number a b c d) \<longleftrightarrow> unat a div 16 = unat a' div 16"
  by (simp add: in_block_def v4_prefixes)

lemma in_v4_block_12:
  "in_block 32 (v4_number a' b' c' d', 12) (v4_number a b c d) \<longleftrightarrow> a = a' \<and> unat b div 16 = unat b' div 16"
proof -
  have "unat b div 16 < 16" "unat b' div 16 < 16"
    using octet_bound [of b] octet_bound [of b'] by simp_all
  then show ?thesis
    by (simp add: in_block_def v4_prefixes horner_eq word_unat_eq_iff)
qed

lemma in_v4_block_10:
  "in_block 32 (v4_number a' b' c' d', 10) (v4_number a b c d) \<longleftrightarrow> a = a' \<and> unat b div 64 = unat b' div 64"
proof -
  have "unat b div 64 < 4" "unat b' div 64 < 4"
    using octet_bound [of b] octet_bound [of b'] by simp_all
  then show ?thesis
    by (simp add: in_block_def v4_prefixes horner_eq word_unat_eq_iff)
qed

lemmas in_v4_block = in_v4_block_32 in_v4_block_24 in_v4_block_16 in_v4_block_8 in_v4_block_4 in_v4_block_12 in_v4_block_10

lemma if_Some_None: "(if P then Some x else y) = None \<longleftrightarrow> \<not> P \<and> y = None"
  by simp

lemma classify_v4_blocks: "classify_v4 a b c d = None \<longleftrightarrow> \<not> in_blocked_range (V4 a b c d)"
proof -
  have multicast: "unat a div 16 = 14 \<longleftrightarrow> 224 \<le> a \<and> a \<le> 239"
    unfolding div_16_cases word_le_nat_alt by auto
  have reserved: "unat a div 16 = 15 \<longleftrightarrow> 240 \<le> a"
    unfolding div_16_cases word_le_nat_alt using octet_bound [of a] by auto
  have private_b: "unat b div 16 = Suc 0 \<longleftrightarrow> 16 \<le> b \<and> b \<le> 31"
    unfolding div_16_cases word_le_nat_alt by auto
  have cgnat: "unat b div 64 = Suc 0 \<longleftrightarrow> 64 \<le> b \<and> b < 128"
    unfolding div_64_cases word_le_nat_alt word_less_nat_alt by auto
  have blocks: "in_blocked_range (V4 a b c d) \<longleftrightarrow>
      (a = 0 \<and> b = 0 \<and> c = 0 \<and> d = 0) \<or> a = 127 \<or> a = 10 \<or> (a = 172 \<and> 16 \<le> b \<and> b \<le> 31) \<or> (a = 192 \<and> b = 168)
      \<or> (a = 169 \<and> b = 254) \<or> (a = 255 \<and> b = 255 \<and> c = 255 \<and> d = 255) \<or> (224 \<le> a \<and> a \<le> 239)
      \<or> (a = 100 \<and> 64 \<le> b \<and> b < 128) \<or> (a = 192 \<and> b = 0 \<and> c = 0) \<or> 240 \<le> a"
    by (simp add: v4_blocks_def in_v4_block multicast reserved private_b cgnat)
  show ?thesis
    unfolding blocks classify_v4_def v4_is_private_def if_Some_None
    by (simp only: de_Morgan_disj conj_assoc disj_assoc simp_thms)
qed


subsection \<open>Sixteen-bit groups\<close>

lemma v6_snoc: "v6_number (xs @ [x]) = v6_number xs * 65536 + unat x"
  by (simp add: v6_number_def)

lemma v6_prefix: "v6_number (xs @ ys) div 2 ^ (16 * length ys) = v6_number xs"
proof (induction ys rule: rev_induct)
  case Nil
  show ?case
    by simp
next
  case (snoc y ys)
  have "v6_number (xs @ ys @ [y]) div 65536 = v6_number (xs @ ys)"
    unfolding append_assoc [symmetric] v6_snoc by (rule horner_div) (rule group_bound)
  then have "v6_number (xs @ ys @ [y]) div (65536 * 2 ^ (16 * length ys)) = v6_number xs"
    unfolding div_mult2_eq by (simp only: snoc.IH)
  moreover have "(2 :: nat) ^ (16 * length (ys @ [y])) = 65536 * 2 ^ (16 * length ys)"
    by (simp add: power_add)
  ultimately show ?case
    by (simp only:)
qed

lemma v6_inject: "v6_number xs = v6_number ys \<longleftrightarrow> xs = ys" if "length xs = length ys"
  using that
proof (induction xs arbitrary: ys rule: rev_induct)
  case Nil
  then show ?case
    by simp
next
  case (snoc x xs)
  obtain ys' y where ys: "ys = ys' @ [y]" and len: "length xs = length ys'"
    using snoc.prems by (cases ys rule: rev_cases) auto
  show ?case
    unfolding ys v6_snoc by (simp only: horner_eq group_bound snoc.IH [OF len] word_unat_eq_iff append1_eq_conv)
qed

lemma in_v6_block_96:
  "in_block 128 (v6_number [a', b', c', d', e', f', g', h'], 96) (v6_number [a, b, c, d, e, f, g, h])
   \<longleftrightarrow> [a, b, c, d, e, f] = [a', b', c', d', e', f']"
proof -
  have top: "v6_number [a, b, c, d, e, f, g, h] div 2 ^ (128 - 96) = v6_number [a, b, c, d, e, f]" for a b c d e f g h
    using v6_prefix [of "[a, b, c, d, e, f]" "[g, h]"] by simp
  have "in_block 128 (v6_number [a', b', c', d', e', f', g', h'], 96) (v6_number [a, b, c, d, e, f, g, h])
        \<longleftrightarrow> v6_number [a, b, c, d, e, f] = v6_number [a', b', c', d', e', f']"
    unfolding in_block_def prod.case top ..
  also have "\<dots> \<longleftrightarrow> [a, b, c, d, e, f] = [a', b', c', d', e', f']"
    by (rule v6_inject) simp
  finally show ?thesis .
qed

lemma in_v6_block_short:
  assumes "len \<le> 16"
  shows "in_block 128 (v6_number [a', b', c', d', e', f', g', h'], len) (v6_number [a, b, c, d, e, f, g, h])
         \<longleftrightarrow> unat a div 2 ^ (16 - len) = unat a' div 2 ^ (16 - len)"
proof -
  have top: "v6_number [a, b, c, d, e, f, g, h] div 2 ^ 112 = unat a" for a b c d e f g h
    using v6_prefix [of "[a]" "[b, c, d, e, f, g, h]"] by (simp add: v6_number_def)
  have "128 - len = 112 + (16 - len)"
    using assms by simp
  then have split: "(2 :: nat) ^ (128 - len) = 2 ^ 112 * 2 ^ (16 - len)"
    by (simp only: power_add)
  show ?thesis
    unfolding in_block_def prod.case split div_mult2_eq top ..
qed

text \<open>Comparing the bits a mask keeps is comparing what is left after dropping the others.\<close>

lemma masked_eq_iff:
  fixes x c :: "'a :: len word"
  assumes "c AND NOT (mask n) = c"
  shows "x AND NOT (mask n) = c \<longleftrightarrow> unat x div 2 ^ n = unat c div 2 ^ n"
proof -
  have drop: "drop_bit n (y AND NOT (mask n)) = drop_bit n y" for y :: "'a word"
    by (rule bit_eqI) (auto simp: bit_simps dest: bit_imp_le_length)
  have push: "push_bit n (drop_bit n y) = y AND NOT (mask n)" for y :: "'a word"
    by (rule bit_eqI) (auto simp: bit_simps)
  have "x AND NOT (mask n) = c \<longleftrightarrow> x AND NOT (mask n) = c AND NOT (mask n)"
    using assms by simp
  also have "\<dots> \<longleftrightarrow> drop_bit n x = drop_bit n c"
    using drop [of x] drop [of c] push [of x] push [of c] by metis
  also have "\<dots> \<longleftrightarrow> unat x div 2 ^ n = unat c div 2 ^ n"
    unfolding word_unat_eq_iff unat_drop_bit_eq unfolding drop_bit_eq_div ..
  finally show ?thesis .
qed


lemma v6_masks:
  fixes x :: u16
  shows "x AND 0xFF00 = 0xFF00 \<longleftrightarrow> unat x div 256 = 255"
    and "x AND 0xFE00 = 0xFC00 \<longleftrightarrow> unat x div 512 = 126"
    and "x AND 0xFFC0 = 0xFE80 \<longleftrightarrow> unat x div 64 = 1018"
proof -
  have masks: "(0xFF00 :: u16) = NOT (mask 8)" "(0xFE00 :: u16) = NOT (mask 9)" "(0xFFC0 :: u16) = NOT (mask 6)"
    by code_simp+
  have kept: "(0xFF00 :: u16) AND NOT (mask 8) = 0xFF00" "(0xFC00 :: u16) AND NOT (mask 9) = 0xFC00"
      "(0xFE80 :: u16) AND NOT (mask 6) = 0xFE80"
    by code_simp+
  show "x AND 0xFF00 = 0xFF00 \<longleftrightarrow> unat x div 256 = 255"
    using masked_eq_iff [OF kept(1), of x, folded masks(1)] by simp
  show "x AND 0xFE00 = 0xFC00 \<longleftrightarrow> unat x div 512 = 126"
    using masked_eq_iff [OF kept(2), of x, folded masks(2)] by simp
  show "x AND 0xFFC0 = 0xFE80 \<longleftrightarrow> unat x div 64 = 1018"
    using masked_eq_iff [OF kept(3), of x, folded masks(3)] by simp
qed

lemma v6_blocks_iff:
  "in_blocked_range (V6 a b c d e f g h) \<longleftrightarrow>
     [a, b, c, d, e] = [0, 0, 0, 0, 0] \<and> (f = 0 \<or> f = 0xFFFF)
     \<or> unat a div 256 = 255 \<or> unat a div 512 = 126 \<or> unat a div 64 = 1018"
  by (auto simp add: v6_blocks_def in_v6_block_96 in_v6_block_short)

lemma classify_v6_blocks: "classify_v6 [a, b, c, d, e, f, g, h] = None \<longleftrightarrow> \<not> in_blocked_range (V6 a b c d e f g h)"
proof (cases "[a, b, c, d, e] = [0, 0, 0, 0, 0] \<and> (f = 0 \<or> f = 0xFFFF)")
  case True
  then show ?thesis
    unfolding v6_blocks_iff by (auto simp: classify_v6_def to_ipv4_def split: option.splits)
next
  case False
  then show ?thesis
    unfolding v6_blocks_iff
    by (auto simp: classify_v6_def to_ipv4_def v6_masks split: if_splits)
qed


section \<open>Hosts\<close>

lemma suffix_pattern_iff: "pattern_matches (Suffix suffix) h \<longleftrightarrow> (\<exists>labels. h = labels @ ''.'' @ suffix)"
proof
  assume match: "pattern_matches (Suffix suffix) h"
  define n where "n = length h - length suffix"
  have n: "0 < n" "h ! (n - 1) = CHR ''.''" "drop n h = suffix" "n \<le> length h"
    using match by (auto simp: n_def Let_def split: if_splits)
  then have "drop (n - 1) h = ''.'' @ suffix"
    using Cons_nth_drop_Suc [of "n - 1" h] by simp
  then have "h = take (n - 1) h @ ''.'' @ suffix"
    using append_take_drop_id [of "n - 1" h] by simp
  then show "\<exists>labels. h = labels @ ''.'' @ suffix" ..
next
  assume "\<exists>labels. h = labels @ ''.'' @ suffix"
  then obtain labels where "h = labels @ ''.'' @ suffix" ..
  then show "pattern_matches (Suffix suffix) h"
    by (simp add: nth_append)
qed

lemma first_blocked_None: "first_blocked addresses = None \<longleftrightarrow> list_all (\<lambda>a. classify a = None) addresses"
  by (induction addresses rule: first_blocked.induct) (auto split: option.splits)

lemma classify_None_iff: "classify a = None \<longleftrightarrow> \<not> in_blocked_range a"
  by (cases a) (simp_all add: classify_v4_blocks classify_v6_blocks del: in_blocked_range.simps)

text \<open>A request the guard turns away before resolution leaves the resolver untouched.\<close>

lemma refused_host_not_looked_up:
  "\<not> permits_host pol (er_host req) \<Longrightarrow> \<exists>e. guard_resolve lookup now pol req d = (Err e, d)"
  by (simp add: guard_resolve_def)

lemma deny_all_refuses: "\<exists>e. guard_resolve lookup now deny_all req d = (Err e, d)"
  by (rule refused_host_not_looked_up) (simp add: permits_host_def deny_all_def)

text \<open>
  Addresses that are not publicly routable and are not classified: benchmarking and documentation
  networks, the rest of \<open>0.0.0.0/8\<close>, the loopback address behind the NAT64 prefix and behind 6to4. A
  bracketed IPv6 literal, the form a URL's host has, is not read as an address.
\<close>

lemma unroutable_but_unclassified:
  "classify (V4 198 18 0 1) = None"
  "classify (V4 192 0 2 1) = None"
  "classify (V4 0 0 0 1) = None"
  "classify (V6 0x64 0xFF9B 0 0 0 0 0x7F00 1) = None"
  "classify (V6 0x2002 0x7F00 1 0 0 0 0 0) = None"
  by code_simp+

lemma bracketed_literal_not_parsed: "parse_ip ''[::1]'' = None"
proof -
  have digit: "to_digit 10 CHR ''['' = None" "to_digit 16 CHR ''['' = None"
    by code_simp+
  have octets: "read_ipv4_addr ''[::1]'' = None"
    unfolding read_ipv4_addr_def eval_nat_numeral read_octets.simps
    by (simp add: read_separator_def read_number_def digit Let_def)
  have "read_groups 0 8 ''[::1]'' = ([], False, ''[::1]'')"
    unfolding eval_nat_numeral read_groups.simps
    by (simp add: read_separator_def read_number_def digit Let_def octets)
  then have "read_ipv6_addr ''[::1]'' = None"
    by (simp add: read_ipv6_addr_def read_char_def)
  with octets show ?thesis
    by (simp add: parse_ip_def)
qed

section \<open>Properties\<close>

text \<open>
  Property C40. The classification of addresses is exactly membership in a list of address blocks
  written as network and prefix length: an address is not blocked precisely when, read as a number, it
  lies in none of 0.0.0.0/32, 127/8, 10/8, 172.16/12, 192.168/16, 169.254/16, 255.255.255.255/32, 224/4,
  100.64/10, 192.0.0/24, 240/4 and, for IPv6, ::/96, ::ffff:0:0/96, ff00::/8, fc00::/7, fe80::/10.
\<close>

theorem classification_is_block_membership:
  "classify a = None \<longleftrightarrow>
     (case a of
        V4 a b c d \<Rightarrow> \<not> list_ex (\<lambda>blk. in_block 32 blk (v4_number a b c d)) v4_blocks
      | V6 a b c d e f g h \<Rightarrow> \<not> list_ex (\<lambda>blk. in_block 128 blk (v6_number [a, b, c, d, e, f, g, h])) v6_blocks)"
  unfolding classify_None_iff by (cases a) simp_all

text \<open>
  Property C27. The guard admits a destination exactly when its scheme is permitted, its host is on the
  allowlist (exactly, or below a listed suffix at a label boundary), it has an address, and no address
  lies in a blocked range unless private addresses are allowed; the endpoint it returns carries the
  addresses that were checked, which are the literal itself or the single answer of the resolver.
\<close>

theorem egress_admission_exact:
  "guard_resolve lookup now pol req d = (Ok r, d') \<longleftrightarrow>
     (er_scheme req = Https \<or> plain_http pol)
     \<and> list_ex (\<lambda>p. case p of Exact e \<Rightarrow> er_host req = e | Suffix s \<Rightarrow> \<exists>labels. er_host req = labels @ ''.'' @ s) (allowed pol)
     \<and> (case parse_ip (er_host req) of
          Some a \<Rightarrow> re_addresses r = [a] \<and> d' = d
        | None \<Rightarrow> lookup (er_host req) d = (Ok (re_addresses r), d'))
     \<and> re_addresses r \<noteq> []
     \<and> (private_addresses pol \<or> list_all (\<lambda>a. \<not> in_blocked_range a) (re_addresses r))
     \<and> r = \<lparr>re_scheme = er_scheme req, re_host = er_host req, re_port = er_port req,
            re_addresses = re_addresses r, re_resolved_at = now\<rparr>"
proof -
  have patterns: "pattern_matches p h \<longleftrightarrow> (case p of Exact e \<Rightarrow> h = e | Suffix s \<Rightarrow> \<exists>labels. h = labels @ ''.'' @ s)" for p h
    by (cases p) (auto simp del: pattern_matches.simps(2) simp: suffix_pattern_iff)
  have permitted: "permits_host pol h \<longleftrightarrow>
      list_ex (\<lambda>p. case p of Exact e \<Rightarrow> h = e | Suffix s \<Rightarrow> \<exists>labels. h = labels @ ''.'' @ s) (allowed pol)" for h
    unfolding permits_host_def patterns ..
  have scheme: "\<not> (er_scheme req = Http \<and> \<not> plain_http pol) \<longleftrightarrow> er_scheme req = Https \<or> plain_http pol"
    by (cases "er_scheme req") simp_all
  show ?thesis
    unfolding permitted [symmetric] scheme [symmetric] classify_None_iff [symmetric] first_blocked_None [symmetric]
    by (auto simp: guard_resolve_def split: if_splits option.splits prod.splits result.splits)
qed

end
