(* ===== verification/Goal_Model.thy ===== *)
theory Goal_Model
  imports Claw_Text
begin

text \<open>
  Durable session goals, their values (crates/claw-application/src/model: goal.rs, ids.rs; session ids
  from crates/claw-domain/src/lib.rs) and the pure parts of crates/claw-goals: the status machine
  (transition.rs), the storage budget (budget.rs), the file format (wire.rs) and the context anchor
  (anchor.rs). The JSON library is a parameter: a file's text is opaque to this code except for its
  length and the newline appended to it.
\<close>

section \<open>Text\<close>

definition len_utf8 :: "nat \<Rightarrow> nat" where
  "len_utf8 c = (if c < 0x80 then 1 else if c < 0x800 then 2 else if c < 0x10000 then 3 else 4)"

definition utf8_length :: "ustr \<Rightarrow> nat" where
  "utf8_length s = sum_list (map len_utf8 s)"

definition is_control_char :: "nat \<Rightarrow> bool" where
  "is_control_char c \<longleftrightarrow> c < 0x20 \<or> 0x7F \<le> c \<and> c \<le> 0x9F"

section \<open>Identifiers\<close>

type_synonym goal_id = ustr
type_synonym session_id = ustr

definition PORT_MAX_IDENTIFIER_BYTES :: nat where
  "PORT_MAX_IDENTIFIER_BYTES = 128"

definition MAX_SESSION_ID_BYTES :: nat where
  "MAX_SESSION_ID_BYTES = 128"

datatype port_identifier_error = IdentifierError string string

definition identifier_error_display :: "port_identifier_error \<Rightarrow> ustr" where
  "identifier_error_display e = (case e of IdentifierError kind reason \<Rightarrow> lit (''invalid '' @ kind @ '': '' @ reason))"

definition parse_identifier :: "string \<Rightarrow> ustr \<Rightarrow> (ustr, port_identifier_error) result" where
  "parse_identifier kind v =
     (let trimmed = str_trim v in
      if trimmed = [] then Err (IdentifierError kind ''must not be empty'')
      else if utf8_length trimmed > PORT_MAX_IDENTIFIER_BYTES then Err (IdentifierError kind ''is too long'')
      else if list_ex is_control_char trimmed then Err (IdentifierError kind ''must not contain control characters'')
      else Ok trimmed)"

definition goal_id_new :: "ustr \<Rightarrow> (goal_id, port_identifier_error) result" where
  "goal_id_new v = parse_identifier ''goal id'' v"

datatype domain_error = InvalidSessionId string | InvalidMessage string

fun domain_error_display :: "domain_error \<Rightarrow> ustr" where
  "domain_error_display (InvalidSessionId reason) = lit (''invalid session id: '' @ reason)"
| "domain_error_display (InvalidMessage reason) = lit (''invalid message: '' @ reason)"

definition session_id_new :: "ustr \<Rightarrow> (session_id, domain_error) result" where
  "session_id_new v =
     (let trimmed = str_trim v in
      if trimmed = [] then Err (InvalidSessionId ''must not be empty'')
      else if utf8_length trimmed > MAX_SESSION_ID_BYTES then Err (InvalidSessionId ''is too long'')
      else if list_ex is_control_char trimmed then Err (InvalidSessionId ''must not contain control characters'')
      else Ok trimmed)"

section \<open>Goals\<close>

datatype goal_status = Active | Achieved | Abandoned | Failed | Superseded

definition goal_status_ALL :: "goal_status list" where
  "goal_status_ALL = [Active, Achieved, Abandoned, Failed, Superseded]"

fun status_label :: "goal_status \<Rightarrow> string" where
  "status_label Active = ''active''"
| "status_label Achieved = ''achieved''"
| "status_label Abandoned = ''abandoned''"
| "status_label Failed = ''failed''"
| "status_label Superseded = ''superseded''"

definition goal_is_closed :: "goal_status \<Rightarrow> bool" where
  "goal_is_closed s \<longleftrightarrow> s \<noteq> Active"

text \<open>Times are milliseconds since the epoch, an \<open>i64\<close> that this code only copies and compares.\<close>

record goal_progress =
  pr_index :: u64
  pr_note :: ustr
  pr_recorded_at :: int
  pr_compacted :: bool

record goal_record =
  goal_id :: goal_id
  session_id :: session_id
  objective :: ustr
  status :: goal_status
  progress :: "goal_progress list"
  created_at :: int
  updated_at :: int
  closed_at :: "int option"
  compacted_entries :: u64
  revision :: u64

section \<open>The status machine\<close>

datatype goal_operation = RecordProgress | Close goal_status | Supersede

datatype transition_error =
    AlreadyClosed goal_status goal_operation
  | NotATerminalStatus goal_status
  | Unreachable goal_status goal_status

fun transition_reason :: "transition_error \<Rightarrow> string" where
  "transition_reason (AlreadyClosed _ _) = ''the goal is already closed''"
| "transition_reason (NotATerminalStatus _) = ''the status does not close a goal''"
| "transition_reason (Unreachable _ _) = ''the status is not reachable from the current one''"

definition operation_display :: "goal_operation \<Rightarrow> string" where
  "operation_display op =
     (case op of RecordProgress \<Rightarrow> ''record progress'' | Close s \<Rightarrow> ''close as '' @ status_label s | Supersede \<Rightarrow> ''supersede'')"

definition transition_error_display :: "transition_error \<Rightarrow> string" where
  "transition_error_display e =
     (case e of
        AlreadyClosed held attempted \<Rightarrow>
          ''cannot '' @ operation_display attempted @ '': '' @ transition_reason e @ '' ('' @ status_label held @ '')''
      | NotATerminalStatus s \<Rightarrow> ''cannot close as '' @ status_label s @ '': '' @ transition_reason e
      | Unreachable from to \<Rightarrow> ''cannot move '' @ status_label from @ '' to '' @ status_label to @ '': '' @ transition_reason e)"

definition legal_targets :: "goal_status \<Rightarrow> goal_status list" where
  "legal_targets from = (if goal_is_closed from then [] else filter goal_is_closed goal_status_ALL)"

definition goal_transition :: "goal_status \<Rightarrow> goal_status \<Rightarrow> (goal_status, transition_error) result" where
  "goal_transition from to =
     (if goal_is_closed from then Err (AlreadyClosed from (Close to))
      else if to \<in> set (legal_targets from) then Ok to
      else Err (Unreachable from to))"

definition admit_operation :: "goal_status \<Rightarrow> goal_operation \<Rightarrow> (goal_status, transition_error) result" where
  "admit_operation current op =
     (case (case op of Close s \<Rightarrow> if goal_is_closed s then None else Some s | _ \<Rightarrow> None) of
        Some s \<Rightarrow> Err (NotATerminalStatus s)
      | None \<Rightarrow>
          (if goal_is_closed current then Err (AlreadyClosed current op)
           else (case op of
               RecordProgress \<Rightarrow> Ok current
             | Close s \<Rightarrow> goal_transition current s
             | Supersede \<Rightarrow> goal_transition current Superseded)))"

section \<open>The budget\<close>

record budget_usage =
  bu_goals :: nat
  bu_bytes :: u64

record goal_budget =
  max_goals_per_session :: nat
  max_record_bytes :: nat
  max_session_bytes :: u64

definition default_budget :: goal_budget where
  "default_budget =
     \<lparr>max_goals_per_session = 64, max_record_bytes = 256 * 1024, max_session_bytes = 4 * 1024 * 1024\<rparr>"

datatype budget_error =
    TooManyGoals nat nat
  | RecordTooLarge nat nat
  | SessionBytesExhausted u64 u64 u64

fun budget_ceiling :: "budget_error \<Rightarrow> string" where
  "budget_ceiling (TooManyGoals _ _) = ''max_goals_per_session''"
| "budget_ceiling (RecordTooLarge _ _) = ''max_record_bytes''"
| "budget_ceiling (SessionBytesExhausted _ _ _) = ''max_session_bytes''"

text \<open>A \<open>usize\<close> is at most 64 bits wide, so its conversion to \<open>u64\<close> succeeds.\<close>

definition budget_admit :: "goal_budget \<Rightarrow> budget_usage \<Rightarrow> nat \<Rightarrow> bool \<Rightarrow> (budget_usage, budget_error) result" where
  "budget_admit b held offered_bytes is_new_goal =
     (if offered_bytes > max_record_bytes b then Err (RecordTooLarge (max_record_bytes b) offered_bytes)
      else if is_new_goal \<and> bu_goals held \<ge> max_goals_per_session b
      then Err (TooManyGoals (max_goals_per_session b) (bu_goals held))
      else (let goals = (if is_new_goal then min (bu_goals held + 1) (2 ^ 64 - 1) else bu_goals held);
                offered = of_nat offered_bytes :: u64;
                bytes = saturating_add (bu_bytes held) offered
            in if bytes > max_session_bytes b
               then Err (SessionBytesExhausted (max_session_bytes b) (bu_bytes held) offered)
               else Ok \<lparr>bu_goals = goals, bu_bytes = bytes\<rparr>))"

section \<open>The file format\<close>

record progress_envelope =
  pe_index :: u64
  pe_note :: ustr
  pe_recorded_at_millis :: int
  pe_compacted :: bool

record goal_envelope =
  env_schema :: u32
  env_goal_id :: ustr
  env_session_id :: ustr
  env_objective :: ustr
  env_status :: ustr
  env_created_at_millis :: int
  env_updated_at_millis :: int
  env_closed_at_millis :: "int option"
  env_compacted_entries :: u64
  env_revision :: u64
  env_progress :: "progress_envelope list"

datatype wire_error =
    Malformed ustr
  | UnsupportedSchema u32 u32
  | Invalid string ustr

definition SCHEMA_VERSION :: u32 where
  "SCHEMA_VERSION = 1"

text \<open>What the code uses of \<open>serde_json\<close>, for a file text of type \<open>'t\<close>.\<close>

record ('t, 'e) json =
  to_string_pretty :: "'e \<Rightarrow> ('t, ustr) result"
  from_str :: "'t \<Rightarrow> ('e, ustr) result"
  push_newline :: "'t \<Rightarrow> 't"

definition status_from_label :: "ustr \<Rightarrow> goal_status option" where
  "status_from_label label = find (\<lambda>s. lit (status_label s) = label) goal_status_ALL"

definition progress_seq :: "goal_progress list \<Rightarrow> progress_envelope list" where
  "progress_seq ps =
     map (\<lambda>p. \<lparr>pe_index = pr_index p, pe_note = pr_note p, pe_recorded_at_millis = pr_recorded_at p,
              pe_compacted = pr_compacted p\<rparr>) ps"

definition goal_envelope_of :: "goal_record \<Rightarrow> goal_envelope" where
  "goal_envelope_of r =
     \<lparr>env_schema = SCHEMA_VERSION, env_goal_id = goal_id r, env_session_id = session_id r,
      env_objective = objective r, env_status = lit (status_label (status r)),
      env_created_at_millis = created_at r, env_updated_at_millis = updated_at r,
      env_closed_at_millis = closed_at r, env_compacted_entries = compacted_entries r,
      env_revision = revision r, env_progress = progress_seq (progress r)\<rparr>"

definition encode_goal :: "('t, goal_envelope) json \<Rightarrow> goal_record \<Rightarrow> ('t, wire_error) result" where
  "encode_goal j r =
     (case to_string_pretty j (goal_envelope_of r) of
        Err e \<Rightarrow> Err (Malformed e)
      | Ok text \<Rightarrow> Ok (push_newline j text))"

fun decode_progress :: "u64 option \<Rightarrow> progress_envelope list \<Rightarrow> (goal_progress list, wire_error) result" where
  "decode_progress previous [] = Ok []"
| "decode_progress previous (e # es) =
     (if (case previous of Some p \<Rightarrow> pe_index e \<le> p | None \<Rightarrow> False)
      then Err (Invalid ''progress'' (lit ''indices must strictly increase''))
      else if str_trim (pe_note e) = [] then Err (Invalid ''progress'' (lit ''a note must not be blank''))
      else (case decode_progress (Some (pe_index e)) es of
              Err x \<Rightarrow> Err x
            | Ok ps \<Rightarrow> Ok (\<lparr>pr_index = pe_index e, pr_note = pe_note e, pr_recorded_at = pe_recorded_at_millis e,
                            pr_compacted = pe_compacted e\<rparr> # ps)))"

definition decode_envelope :: "goal_envelope \<Rightarrow> (goal_record, wire_error) result" where
  "decode_envelope env =
     (if env_schema env \<noteq> SCHEMA_VERSION then Err (UnsupportedSchema SCHEMA_VERSION (env_schema env))
      else result_bind (goal_id_new (env_goal_id env)) (\<lambda>e. Invalid ''goal_id'' (identifier_error_display e)) (\<lambda>gid.
        result_bind (session_id_new (env_session_id env)) (\<lambda>e. Invalid ''session_id'' (domain_error_display e)) (\<lambda>sid.
          if str_trim (env_objective env) = [] then Err (Invalid ''objective'' (lit ''must not be blank''))
          else if env_revision env = 0 then Err (Invalid ''revision'' (lit ''must be at least 1''))
          else (case status_from_label (env_status env) of
            None \<Rightarrow> Err (Invalid ''status'' (lit ''unknown status '' @ env_status env))
          | Some st \<Rightarrow>
              (if goal_is_closed st \<and> env_closed_at_millis env = None
               then Err (Invalid ''closed_at_millis'' (lit ''a closed goal must carry one''))
               else if \<not> goal_is_closed st \<and> env_closed_at_millis env \<noteq> None
               then Err (Invalid ''closed_at_millis'' (lit ''an active goal must not carry one''))
               else result_bind (decode_progress None (env_progress env)) id (\<lambda>ps.
                 Ok \<lparr>goal_id = gid, session_id = sid, objective = env_objective env, status = st, progress = ps,
                     created_at = env_created_at_millis env, updated_at = env_updated_at_millis env,
                     closed_at = env_closed_at_millis env, compacted_entries = env_compacted_entries env,
                     revision = env_revision env\<rparr>))))))"

definition decode_goal :: "('t, goal_envelope) json \<Rightarrow> 't \<Rightarrow> (goal_record, wire_error) result" where
  "decode_goal j text =
     (case from_str j text of Err e \<Rightarrow> Err (Malformed e) | Ok env \<Rightarrow> decode_envelope env)"

section \<open>The context anchor\<close>

record tool_call =
  tc_call_id :: ustr
  tc_name :: ustr
  tc_arguments :: ustr

datatype context_item =
    UserInput ustr
  | AssistantMessage ustr
  | AssistantToolCalls ustr "tool_call list"
  | ToolResult ustr ustr bool
  | ToolCallResult ustr ustr ustr bool
  | GoalStatement ustr
  | GoalCleared
  | SystemNote ustr

record goal_anchor =
  an_goal_id :: goal_id
  an_objective :: ustr
  an_revision :: u64

definition anchor_from_record :: "goal_record \<Rightarrow> goal_anchor option" where
  "anchor_from_record r =
     (if status r = Active
      then Some \<lparr>an_goal_id = goal_id r, an_objective = objective r, an_revision = revision r\<rparr> else None)"

definition statement :: "goal_anchor \<Rightarrow> context_item" where
  "statement a = GoalStatement (an_objective a)"

record compaction_outcome =
  removed_items :: nat
  retained_items :: nat
  anchor_retained :: bool

record anchored_context =
  anchor :: "goal_anchor option"
  items :: "context_item list"

definition anchored_new :: "goal_anchor option \<Rightarrow> anchored_context" where
  "anchored_new a = \<lparr>anchor = a, items = []\<rparr>"

definition set_anchor :: "goal_anchor option \<Rightarrow> anchored_context \<Rightarrow> anchored_context" where
  "set_anchor a c = c\<lparr>anchor := a\<rparr>"

definition ingest :: "context_item \<Rightarrow> anchored_context \<Rightarrow> anchored_context" where
  "ingest item c =
     (case item of
        GoalStatement obj \<Rightarrow> c\<lparr>anchor := map_option (\<lambda>a. a\<lparr>an_objective := obj\<rparr>) (anchor c)\<rparr>
      | GoalCleared \<Rightarrow> c\<lparr>anchor := None\<rparr>
      | other \<Rightarrow> c\<lparr>items := items c @ [other]\<rparr>)"

definition assemble :: "anchored_context \<Rightarrow> context_item list" where
  "assemble c = (case anchor c of Some a \<Rightarrow> [statement a] | None \<Rightarrow> []) @ items c"

definition compact_context :: "nat \<Rightarrow> anchored_context \<Rightarrow> compaction_outcome \<times> anchored_context" where
  "compact_context keep_recent c =
     (let removed = length (items c) - keep_recent;
          c' = (if 0 < removed then c\<lparr>items := drop removed (items c)\<rparr> else c)
      in (\<lparr>removed_items = removed, retained_items = length (items c'), anchor_retained = (anchor c' \<noteq> None)\<rparr>, c'))"

section \<open>What a file can hold\<close>

definition storable :: "goal_record \<Rightarrow> bool" where
  "storable r \<longleftrightarrow>
     goal_id_new (goal_id r) = Ok (goal_id r) \<and> session_id_new (session_id r) = Ok (session_id r)
     \<and> str_trim (objective r) \<noteq> [] \<and> revision r \<noteq> 0
     \<and> (goal_is_closed (status r) \<longleftrightarrow> closed_at r \<noteq> None)
     \<and> sorted_wrt (<) (map pr_index (progress r))
     \<and> list_all (\<lambda>p. str_trim (pr_note p) \<noteq> []) (progress r)"

lemma parse_identifier_fixed: "parse_identifier kind v = Ok v' \<Longrightarrow> parse_identifier kind v' = Ok v'"
  by (auto simp: parse_identifier_def Let_def split: if_splits)

lemma goal_id_new_fixed: "goal_id_new v = Ok v' \<Longrightarrow> goal_id_new v' = Ok v'"
  unfolding goal_id_new_def by (rule parse_identifier_fixed)

lemma session_id_new_fixed: "session_id_new v = Ok v' \<Longrightarrow> session_id_new v' = Ok v'"
  by (auto simp: session_id_new_def Let_def split: if_splits)

lemma status_from_label_status: "status_from_label (lit (status_label s)) = Some s"
  by (cases s) (simp_all add: status_from_label_def goal_status_ALL_def)

text \<open>The two checks of the loop are strictly increasing indices and notes that are not blank.\<close>

definition progress_ok :: "u64 option \<Rightarrow> goal_progress list \<Rightarrow> bool" where
  "progress_ok previous ps \<longleftrightarrow>
     sorted_wrt (<) (map pr_index ps) \<and> list_all (\<lambda>p. str_trim (pr_note p) \<noteq> []) ps
     \<and> (case previous of Some i \<Rightarrow> list_all (\<lambda>p. i < pr_index p) ps | None \<Rightarrow> True)"

lemma progress_ok_Cons:
  "progress_ok previous (p # ps) \<longleftrightarrow>
     (case previous of Some i \<Rightarrow> i < pr_index p | None \<Rightarrow> True) \<and> str_trim (pr_note p) \<noteq> [] \<and> progress_ok (Some (pr_index p)) ps"
  by (auto simp: progress_ok_def list_all_iff split: option.splits intro: less_trans)

lemma decode_progress_seq:
  "decode_progress previous (progress_seq ps) = Ok qs \<longleftrightarrow> qs = ps \<and> progress_ok previous ps"
proof (induction ps arbitrary: previous qs)
  case Nil
  then show ?case
    by (auto simp: progress_seq_def progress_ok_def split: option.splits)
next
  case (Cons p ps)
  have seq: "progress_seq (p # ps) =
      \<lparr>pe_index = pr_index p, pe_note = pr_note p, pe_recorded_at_millis = pr_recorded_at p, pe_compacted = pr_compacted p\<rparr>
      # progress_seq ps"
    by (simp add: progress_seq_def)
  show ?case
  proof (cases "decode_progress (Some (pr_index p)) (progress_seq ps)")
    case (Ok a)
    then have "a = ps \<and> progress_ok (Some (pr_index p)) ps"
      using Cons.IH [of "Some (pr_index p)" a] by simp
    then show ?thesis
      unfolding seq progress_ok_Cons by (auto simp: Ok not_le split: option.splits)
  next
    case (Err e)
    then have "\<not> progress_ok (Some (pr_index p)) ps"
      using Cons.IH [of "Some (pr_index p)" ps] by simp
    then show ?thesis
      unfolding seq progress_ok_Cons by (auto simp: Err not_le split: option.splits)
  qed
qed

lemma decode_progress_ok: "decode_progress previous es = Ok ps \<Longrightarrow> progress_ok previous ps"
proof (induction es arbitrary: previous ps)
  case Nil
  then show ?case
    by (auto simp: progress_ok_def split: option.splits)
next
  case (Cons e es)
  then show ?case
    by (auto simp: progress_ok_Cons not_le split: if_splits option.splits result.splits)
qed

lemma decode_envelope_storable: "decode_envelope env = Ok r \<Longrightarrow> storable r"
  unfolding decode_envelope_def storable_def
  by (auto simp: result_simps progress_ok_def split: if_splits option.splits
      dest: goal_id_new_fixed session_id_new_fixed decode_progress_ok)

lemma decode_envelope_of: "decode_envelope (goal_envelope_of r) = Ok r \<longleftrightarrow> storable r"
proof
  assume "decode_envelope (goal_envelope_of r) = Ok r"
  then show "storable r"
    by (rule decode_envelope_storable)
next
  assume r: "storable r"
  have "decode_progress None (progress_seq (progress r)) = Ok (progress r)"
    using r by (simp add: decode_progress_seq progress_ok_def storable_def)
  then show "decode_envelope (goal_envelope_of r) = Ok r"
    using r by (auto simp: decode_envelope_def goal_envelope_of_def storable_def status_from_label_status)
qed

lemma decode_goal_storable: "decode_goal j text = Ok r \<Longrightarrow> storable r"
  by (auto simp: decode_goal_def split: result.splits intro: decode_envelope_storable)

section \<open>The machine and the anchor\<close>

lemma admit_operation_Ok:
  "admit_operation current op = Ok s \<longleftrightarrow>
     current = Active \<and> (case op of RecordProgress \<Rightarrow> s = Active | Close t \<Rightarrow> t \<noteq> Active \<and> s = t | Supersede \<Rightarrow> s = Superseded)"
  by (cases current; cases op; cases s)
    (auto simp: admit_operation_def goal_transition_def legal_targets_def goal_status_ALL_def goal_is_closed_def split: if_splits option.splits)

lemma compact_keeps_anchor:
  "anchor (snd (compact_context n c)) = anchor c \<and> length (items (snd (compact_context n c))) \<le> n + length (items c)"
  by (simp add: compact_context_def Let_def)

lemma assemble_compacted:
  "assemble (snd (compact_context n c)) =
     (case anchor c of Some a \<Rightarrow> [statement a] | None \<Rightarrow> []) @ drop (length (items c) - n) (items c)"
  by (simp add: compact_context_def assemble_def Let_def)

section \<open>Properties\<close>

text \<open>
  Property C32. Whatever is read from a goal file satisfies the invariants of a goal, and a goal that was
  written is read back unchanged exactly when it satisfies them, for every JSON library that reads
  what it has printed with a newline after it.
\<close>

theorem goal_wire_roundtrip:
  assumes "\<And>e t. to_string_pretty j e = Ok t \<Longrightarrow> from_str j (push_newline j t) = Ok e"
    and "encode_goal j r = Ok text"
  shows "(decode_goal j text = Ok r \<longleftrightarrow> storable r) \<and> (decode_goal j other = Ok q \<longrightarrow> storable q)"
proof -
  obtain t where t: "to_string_pretty j (goal_envelope_of r) = Ok t" "text = push_newline j t"
    using assms(2) by (auto simp: encode_goal_def split: result.splits)
  have "from_str j text = Ok (goal_envelope_of r)"
    unfolding t(2) by (rule assms(1)) (rule t(1))
  then have "decode_goal j text = decode_envelope (goal_envelope_of r)"
    by (simp add: decode_goal_def)
  then show ?thesis
    using decode_envelope_of [of r] decode_goal_storable [of j other q] by simp
qed

definition demo_json :: "('e list, 'e) json" where
  "demo_json =
     \<lparr>to_string_pretty = (\<lambda>e. Ok [e]),
      from_str = (\<lambda>t. case t of e # _ \<Rightarrow> Ok e | [] \<Rightarrow> Err (lit ''empty'')),
      push_newline = (\<lambda>t. t)\<rparr>"

definition demo_goal :: goal_record where
  "demo_goal =
     \<lparr>goal_id = lit ''s:goal-1'', session_id = lit ''s'', objective = lit ''ship it'', status = Active,
      progress = [\<lparr>pr_index = 0, pr_note = lit ''half way'', pr_recorded_at = 5, pr_compacted = False\<rparr>],
      created_at = 1, updated_at = 5, closed_at = None, compacted_entries = 0, revision = 2\<rparr>"

lemma demo_json_law: "to_string_pretty demo_json e = Ok t \<Longrightarrow> from_str demo_json (push_newline demo_json t) = Ok e"
  by (auto simp: demo_json_def)

lemma demo_goal_storable: "storable demo_goal"
  by (simp add: storable_def demo_goal_def goal_id_new_def parse_identifier_def session_id_new_def lit_def str_trim_def
      char_is_whitespace_def is_control_char_def utf8_length_def len_utf8_def PORT_MAX_IDENTIFIER_BYTES_def
      MAX_SESSION_ID_BYTES_def goal_is_closed_def)

theorem goal_wire_roundtrip_witness:
  "decode_goal demo_json [goal_envelope_of demo_goal] = Ok demo_goal"
  using goal_wire_roundtrip [of demo_json demo_goal "[goal_envelope_of demo_goal]"] demo_json_law demo_goal_storable
  by (simp add: encode_goal_def demo_json_def)

end
