(* ===== verification/Goal_Store.thy ===== *)
theory Goal_Store
  imports Goal_Model "HOL-Library.AList" "HOL-Library.List_Lexorder" "HOL-Library.Product_Lexorder"
begin

text \<open>
  The file store of goals (crates/claw-goals/src/store.rs): saving with optimistic concurrency and
  budgets, listing, measuring, compacting, and the recovery that opening the store performs. Every
  call to the file system takes its answer from a script of faults: it works, it fails with an
  error, or the process dies there. A file keeps the versions published since its directory was last
  synchronized, and a power loss leaves any one of them.
\<close>

section \<open>The file system\<close>

datatype dir_name = GOALS_DIR | SESSIONS_DIR

datatype path = PFile dir_name string | PTemp dir_name string | PDir dir_name | PLock

text \<open>The versions of a file, newest first; \<open>None\<close> is its absence.\<close>

type_synonym 't dir = "(string \<times> 't option list) list"

definition versions :: "'t dir \<Rightarrow> string \<Rightarrow> 't option list" where
  "versions d n = (case map_of d n of Some vs \<Rightarrow> vs | None \<Rightarrow> [None])"

definition lookup_file :: "'t dir \<Rightarrow> string \<Rightarrow> 't option" where
  "lookup_file d n = hd (versions d n)"

definition publish :: "string \<Rightarrow> 't \<Rightarrow> 't dir \<Rightarrow> 't dir" where
  "publish n t d = AList.update n (Some t # versions d n) d"

definition sync_dir :: "'t dir \<Rightarrow> 't dir" where
  "sync_dir d = map (\<lambda>(n, vs). (n, [hd vs])) d"

definition dir_listing :: "'t dir \<Rightarrow> string list" where
  "dir_listing d = filter (\<lambda>n. lookup_file d n \<noteq> None) (map fst d)"

datatype fault = Works | Fails ustr | Dies

datatype lock_answer = Acquired | WouldBlock | LockFails ustr

section \<open>Values of the store\<close>

record session_index =
  ix_schema :: u32
  ix_session_id :: ustr
  ix_goal_ids :: "ustr list"
  ix_high_water :: u64

datatype session_goal_ids = Legacy "ustr list" | Durable "ustr list" u64

record session_index_envelope =
  ie_schema :: u32
  ie_session_id :: ustr
  ie_goal_ids :: session_goal_ids
  ie_high_water :: u64

record durable_session_index =
  di_schema :: u32
  di_session_id :: ustr
  di_entries :: "ustr list"
  di_high_water :: u64

definition SESSION_INDEX_SCHEMA_VERSION :: u32 where
  "SESSION_INDEX_SCHEMA_VERSION = 2"

definition LEGACY_SESSION_INDEX_SCHEMA_VERSION :: u32 where
  "LEGACY_SESSION_INDEX_SCHEMA_VERSION = 1"

definition WRITE_LOCK_ATTEMPTS :: nat where
  "WRITE_LOCK_ATTEMPTS = 64"

record recovery_report =
  discarded_partial_writes :: nat
  adopted_orphans :: nat
  pruned_dangling :: nat

definition recovery_default :: recovery_report where
  "recovery_default = \<lparr>discarded_partial_writes = 0, adopted_orphans = 0, pruned_dangling = 0\<rparr>"

definition recovery_is_clean :: "recovery_report \<Rightarrow> bool" where
  "recovery_is_clean r \<longleftrightarrow> discarded_partial_writes r = 0 \<and> adopted_orphans r = 0 \<and> pruned_dangling r = 0"

record compaction_summary =
  closed_goals_examined :: nat
  goals_rewritten :: nat
  progress_entries_removed :: nat
  reclaimed_bytes :: u64
  goal_ids_preserved :: nat

definition compaction_is_noop :: "compaction_summary \<Rightarrow> bool" where
  "compaction_is_noop s \<longleftrightarrow> goals_rewritten s = 0"

definition WRITE_LOCK_RETRY_DELAY_MILLIS :: nat where
  "WRITE_LOCK_RETRY_DELAY_MILLIS = 1"

record store_operation_semantics =
  cancellable_after_invocation :: bool
  cross_process_serialized :: bool
  write_lock_attempts :: nat
  write_lock_retry_delay :: nat

definition operation_semantics :: store_operation_semantics where
  "operation_semantics =
     \<lparr>cancellable_after_invocation = False, cross_process_serialized = True, write_lock_attempts = WRITE_LOCK_ATTEMPTS,
      write_lock_retry_delay = WRITE_LOCK_RETRY_DELAY_MILLIS\<rparr>"

datatype store_error =
    Io path ustr
  | CommittedButNotDurable path ustr
  | Corrupt path wire_error
  | Encoding wire_error
  | Conflict u64 u64
  | Busy nat
  | Budget budget_error

record goal_store =
  gs_budget :: goal_budget
  gs_recovery :: recovery_report
  gs_pid :: nat
  gs_sequence :: u64
  accepted_writes :: u64
  synced_publications :: u64
  unsynced_publications :: u64
  unlock_failures :: u64

text \<open>The libraries: JSON, the digest, text lengths, and whether directories can be synchronized.\<close>

record 't env =
  goal_json :: "('t, goal_envelope) json"
  print_index :: "durable_session_index \<Rightarrow> ('t, ustr) result"
  parse_index :: "'t \<Rightarrow> (session_index_envelope, ustr) result"
  text_len :: "'t \<Rightarrow> u64"
  sha256 :: "ustr \<Rightarrow> u8 list"
  is_unix :: bool

record 't world =
  goals_dir :: "'t dir"
  sessions_dir :: "'t dir"
  goals_temps :: "string list"
  sessions_temps :: "string list"
  faults :: "fault list"
  locks :: "lock_answer list"
  store :: goal_store

section \<open>Effects\<close>

datatype 'a outcome = Done "('a, store_error) result" | Killed

type_synonym ('t, 'a) io = "'t world \<Rightarrow> 'a outcome \<times> 't world"

definition io_ok :: "'a \<Rightarrow> ('t, 'a) io" where
  "io_ok a w = (Done (Ok a), w)"

definition io_err :: "store_error \<Rightarrow> ('t, 'a) io" where
  "io_err e w = (Done (Err e), w)"

definition io_of :: "('a, store_error) result \<Rightarrow> ('t, 'a) io" where
  "io_of r w = (Done r, w)"

definition io_bind :: "('t, 'a) io \<Rightarrow> ('a \<Rightarrow> ('t, 'b) io) \<Rightarrow> ('t, 'b) io" where
  "io_bind m k w =
     (case m w of
        (Killed, w) \<Rightarrow> (Killed, w)
      | (Done (Err e), w) \<Rightarrow> (Done (Err e), w)
      | (Done (Ok a), w) \<Rightarrow> k a w)"

definition io_get :: "('t world \<Rightarrow> 'a) \<Rightarrow> ('t, 'a) io" where
  "io_get f w = (Done (Ok (f w)), w)"

definition io_modify :: "('t world \<Rightarrow> 't world) \<Rightarrow> ('t, unit) io" where
  "io_modify f w = (Done (Ok ()), f w)"

text \<open>One call to the file system, whose failure is a value or the error of a path.\<close>

definition attempt :: "('t world \<Rightarrow> 'a \<times> 't world) \<Rightarrow> ('t, ('a, ustr) result) io" where
  "attempt f w =
     (case faults w of
        [] \<Rightarrow> (case f w of (a, w) \<Rightarrow> (Done (Ok (Ok a)), w))
      | Works # fs \<Rightarrow> (case f (w\<lparr>faults := fs\<rparr>) of (a, w) \<Rightarrow> (Done (Ok (Ok a)), w))
      | Fails e # fs \<Rightarrow> (Done (Ok (Err e)), w\<lparr>faults := fs\<rparr>)
      | Dies # fs \<Rightarrow> (Killed, w\<lparr>faults := fs\<rparr>))"

definition syscall :: "path \<Rightarrow> ('t world \<Rightarrow> 'a \<times> 't world) \<Rightarrow> ('t, 'a) io" where
  "syscall p f = io_bind (attempt f) (\<lambda>r. case r of Ok a \<Rightarrow> io_ok a | Err e \<Rightarrow> io_err (Io p e))"

definition on_dir :: "dir_name \<Rightarrow> ('t dir \<Rightarrow> 't dir) \<Rightarrow> 't world \<Rightarrow> 't world" where
  "on_dir dn f w =
     (case dn of GOALS_DIR \<Rightarrow> w\<lparr>goals_dir := f (goals_dir w)\<rparr> | SESSIONS_DIR \<Rightarrow> w\<lparr>sessions_dir := f (sessions_dir w)\<rparr>)"

definition on_temps :: "dir_name \<Rightarrow> (string list \<Rightarrow> string list) \<Rightarrow> 't world \<Rightarrow> 't world" where
  "on_temps dn f w =
     (case dn of GOALS_DIR \<Rightarrow> w\<lparr>goals_temps := f (goals_temps w)\<rparr> | SESSIONS_DIR \<Rightarrow> w\<lparr>sessions_temps := f (sessions_temps w)\<rparr>)"

definition get_dir :: "dir_name \<Rightarrow> 't world \<Rightarrow> 't dir" where
  "get_dir dn w = (case dn of GOALS_DIR \<Rightarrow> goals_dir w | SESSIONS_DIR \<Rightarrow> sessions_dir w)"

definition get_temps :: "dir_name \<Rightarrow> 't world \<Rightarrow> string list" where
  "get_temps dn w = (case dn of GOALS_DIR \<Rightarrow> goals_temps w | SESSIONS_DIR \<Rightarrow> sessions_temps w)"

definition bump :: "((u64 \<Rightarrow> u64) \<Rightarrow> goal_store \<Rightarrow> goal_store) \<Rightarrow> ('t, unit) io" where
  "bump upd = io_modify (\<lambda>w. w\<lparr>store := upd (\<lambda>n. n + 1) (store w)\<rparr>)"

definition read_to_string :: "dir_name \<Rightarrow> string \<Rightarrow> ('t, 't option) io" where
  "read_to_string dn n = syscall (PFile dn n) (\<lambda>w. (lookup_file (get_dir dn w) n, w))"

section \<open>Names and atomic writes\<close>

definition digest_of :: "'t env \<Rightarrow> ustr \<Rightarrow> string" where
  "digest_of env v =
     concat (map (\<lambda>b. [''0123456789abcdef'' ! unat (drop_bit 4 b), ''0123456789abcdef'' ! unat (b AND 0x0F)]) (sha256 env v))"

definition file_name_of :: "'t env \<Rightarrow> ustr \<Rightarrow> string" where
  "file_name_of env v = digest_of env v @ ''.json''"

definition temp_name :: "nat \<Rightarrow> u64 \<Rightarrow> string" where
  "temp_name pid ordinal = ''pending-'' @ show_dec pid @ ''-'' @ show_dec (unat ordinal)"

definition sync_directory_entries :: "'t env \<Rightarrow> dir_name \<Rightarrow> ('t, (bool, ustr) result) io" where
  "sync_directory_entries env dn =
     (if is_unix env then attempt (\<lambda>w. (True, on_dir dn sync_dir w)) else io_ok (Ok False))"

definition write_atomically :: "'t env \<Rightarrow> dir_name \<Rightarrow> string \<Rightarrow> 't \<Rightarrow> ('t, unit) io" where
  "write_atomically env dn n contents =
     io_bind (io_get (\<lambda>w. temp_name (gs_pid (store w)) (gs_sequence (store w)))) (\<lambda>temporary.
     io_bind (bump gs_sequence_update) (\<lambda>_.
     io_bind (syscall (PTemp dn temporary) (\<lambda>w. ((), on_temps dn (List.insert temporary) w))) (\<lambda>_.
     io_bind (syscall (PTemp dn temporary) (\<lambda>w. ((), w))) (\<lambda>_.
     io_bind (syscall (PTemp dn temporary) (\<lambda>w. ((), w))) (\<lambda>_.
     io_bind (attempt (\<lambda>w. ((), on_dir dn (publish n contents) (on_temps dn (remove1 temporary) w)))) (\<lambda>renamed.
       case renamed of
         Err e \<Rightarrow>
           io_bind (attempt (\<lambda>w. ((), on_temps dn (remove1 temporary) w))) (\<lambda>_. io_err (Io (PFile dn n) e))
       | Ok _ \<Rightarrow>
           io_bind (sync_directory_entries env dn) (\<lambda>synced.
             case synced of
               Ok True \<Rightarrow> bump synced_publications_update
             | Ok False \<Rightarrow> io_ok ()
             | Err e \<Rightarrow>
                 io_bind (bump unsynced_publications_update) (\<lambda>_.
                   io_err (CommittedButNotDurable (PFile dn n) e)))))))))"

definition read_record_sized :: "'t env \<Rightarrow> string \<Rightarrow> ('t, (goal_record \<times> u64) option) io" where
  "read_record_sized env n =
     io_bind (read_to_string GOALS_DIR n) (\<lambda>text.
       case text of
         None \<Rightarrow> io_ok None
       | Some text \<Rightarrow>
           (case decode_goal (goal_json env) text of
              Ok r \<Rightarrow> io_ok (Some (r, text_len env text))
            | Err e \<Rightarrow> io_err (Corrupt (PFile GOALS_DIR n) e)))"

definition read_record_at :: "'t env \<Rightarrow> string \<Rightarrow> ('t, goal_record option) io" where
  "read_record_at env n = io_bind (read_record_sized env n) (\<lambda>r. io_ok (map_option fst r))"

section \<open>The session index\<close>

definition decode_index :: "'t env \<Rightarrow> string \<Rightarrow> 't \<Rightarrow> (session_index, store_error) result" where
  "decode_index env n text =
     (case parse_index env text of
        Err e \<Rightarrow> Err (Corrupt (PFile SESSIONS_DIR n) (Malformed e))
      | Ok ie \<Rightarrow>
          result_bind
            (case ie_goal_ids ie of
               Legacy ids \<Rightarrow>
                 (if ie_schema ie = LEGACY_SESSION_INDEX_SCHEMA_VERSION then Ok (ids, ie_high_water ie)
                  else if ie_schema ie \<noteq> SESSION_INDEX_SCHEMA_VERSION
                  then Err (Corrupt (PFile SESSIONS_DIR n) (UnsupportedSchema SESSION_INDEX_SCHEMA_VERSION (ie_schema ie)))
                  else Err (Corrupt (PFile SESSIONS_DIR n) (Malformed (lit ''session index payload does not match its schema''))))
             | Durable ids hw \<Rightarrow>
                 (if ie_schema ie = SESSION_INDEX_SCHEMA_VERSION then Ok (ids, hw)
                  else Err (Corrupt (PFile SESSIONS_DIR n) (UnsupportedSchema SESSION_INDEX_SCHEMA_VERSION (ie_schema ie)))))
            id
            (\<lambda>(ids, hw). Ok \<lparr>ix_schema = ie_schema ie, ix_session_id = ie_session_id ie, ix_goal_ids = ids, ix_high_water = hw\<rparr>))"

definition empty_index :: "session_id \<Rightarrow> session_index" where
  "empty_index sid =
     \<lparr>ix_schema = SESSION_INDEX_SCHEMA_VERSION, ix_session_id = sid, ix_goal_ids = [], ix_high_water = 0\<rparr>"

definition read_index :: "'t env \<Rightarrow> session_id \<Rightarrow> ('t, session_index) io" where
  "read_index env sid =
     (let n = file_name_of env sid in
      io_bind (read_to_string SESSIONS_DIR n) (\<lambda>text.
        case text of None \<Rightarrow> io_ok (empty_index sid) | Some text \<Rightarrow> io_of (decode_index env n text)))"

definition index_text :: "'t env \<Rightarrow> session_index \<Rightarrow> ('t, store_error) result" where
  "index_text env ix =
     (case print_index env \<lparr>di_schema = SESSION_INDEX_SCHEMA_VERSION, di_session_id = ix_session_id ix,
                            di_entries = ix_goal_ids ix, di_high_water = ix_high_water ix\<rparr> of
        Err e \<Rightarrow> Err (Encoding (Malformed e))
      | Ok text \<Rightarrow> Ok (push_newline (goal_json env) text))"

definition write_index :: "'t env \<Rightarrow> session_index \<Rightarrow> ('t, unit) io" where
  "write_index env ix =
     io_bind (io_of (index_text env ix)) (\<lambda>text.
       write_atomically env SESSIONS_DIR (file_name_of env (ix_session_id ix)) text)"

text \<open>\<open>strip_prefix\<close> and the standard library's \<open>parse::<u64>\<close>, which takes a leading plus sign.\<close>

definition strip_prefix :: "ustr \<Rightarrow> ustr \<Rightarrow> ustr option" where
  "strip_prefix p s = (if take (length p) s = p then Some (drop (length p) s) else None)"

definition parse_u64 :: "ustr \<Rightarrow> u64 option" where
  "parse_u64 s =
     (let ds = (case s of c # r \<Rightarrow> if c = of_char CHR ''+'' \<and> r \<noteq> [] then r else s | [] \<Rightarrow> []) in
      if ds \<noteq> [] \<and> list_all (\<lambda>c. 48 \<le> c \<and> c \<le> 57) ds
      then (let n = foldl (\<lambda>n c. 10 * n + (c - 48)) 0 ds in if n < 2 ^ 64 then Some (of_nat n) else None)
      else None)"

definition generated_goal_ordinal :: "ustr \<Rightarrow> ustr \<Rightarrow> u64 option" where
  "generated_goal_ordinal sid gid =
     Option.bind (strip_prefix sid gid) (\<lambda>r. Option.bind (strip_prefix (lit '':goal-'') r) parse_u64)"

section \<open>Operations under the store lock\<close>

text \<open>\<open>n\<close> attempts are left; the last one that would block gives up.\<close>

fun acquire :: "nat \<Rightarrow> ('t, unit) io" where
  "acquire 0 w = (Done (Err (Busy WRITE_LOCK_ATTEMPTS)), w)"
| "acquire (Suc n) w =
     (case locks w of
        [] \<Rightarrow> (Done (Ok ()), w)
      | Acquired # ls \<Rightarrow> (Done (Ok ()), w\<lparr>locks := ls\<rparr>)
      | WouldBlock # ls \<Rightarrow>
          (if 0 < n then acquire n (w\<lparr>locks := ls\<rparr>) else (Done (Err (Busy WRITE_LOCK_ATTEMPTS)), w\<lparr>locks := ls\<rparr>))
      | LockFails e # ls \<Rightarrow> (Done (Err (Io PLock e)), w\<lparr>locks := ls\<rparr>))"

text \<open>Releasing: a failure is counted and tried once more by the guard's \<open>Drop\<close>; the result stands.\<close>

definition release :: "('t, unit) io" where
  "release =
     io_bind (attempt (\<lambda>w. ((), w))) (\<lambda>r.
       case r of
         Ok _ \<Rightarrow> io_ok ()
       | Err _ \<Rightarrow> io_bind (attempt (\<lambda>w. ((), w))) (\<lambda>_. bump unlock_failures_update))"

definition with_store_lock :: "('t, 'a) io \<Rightarrow> ('t, 'a) io" where
  "with_store_lock operation =
     io_bind (acquire WRITE_LOCK_ATTEMPTS) (\<lambda>_ w.
       case operation w of
         (Killed, w) \<Rightarrow> (Killed, w)
       | (Done r, w) \<Rightarrow> io_bind release (\<lambda>_. io_of r) w)"

fun usage_loop :: "'t env \<Rightarrow> ustr list \<Rightarrow> budget_usage \<Rightarrow> ('t, budget_usage) io" where
  "usage_loop env [] usage = io_ok usage"
| "usage_loop env (gid # ids) usage =
     io_bind (read_to_string GOALS_DIR (file_name_of env gid)) (\<lambda>text.
       case text of
         Some text \<Rightarrow> usage_loop env ids (usage\<lparr>bu_bytes := saturating_add (bu_bytes usage) (text_len env text)\<rparr>)
       | None \<Rightarrow> usage_loop env ids usage)"

definition usage_of_index :: "'t env \<Rightarrow> session_index \<Rightarrow> ('t, budget_usage) io" where
  "usage_of_index env ix = usage_loop env (ix_goal_ids ix) \<lparr>bu_goals = length (ix_goal_ids ix), bu_bytes = 0\<rparr>"

definition usage :: "'t env \<Rightarrow> session_id \<Rightarrow> ('t, budget_usage) io" where
  "usage env sid = with_store_lock (io_bind (read_index env sid) (usage_of_index env))"

text \<open>What a save has decided before it writes: the index it found and how the record enters it.\<close>

definition adopts_identical_orphan :: "session_index \<Rightarrow> (goal_record \<times> u64) option \<Rightarrow> goal_record \<Rightarrow> bool" where
  "adopts_identical_orphan ix existing r \<longleftrightarrow>
     goal_id r \<notin> set (ix_goal_ids ix) \<and> (case existing of Some (stored, _) \<Rightarrow> stored = r | None \<Rightarrow> False)"

definition expected_revision :: "(goal_record \<times> u64) option \<Rightarrow> u64" where
  "expected_revision existing = (case existing of Some (stored, _) \<Rightarrow> saturating_add (revision stored) 1 | None \<Rightarrow> 1)"

definition enlisted :: "session_index \<Rightarrow> goal_record \<Rightarrow> session_index" where
  "enlisted ix r =
     ix\<lparr>ix_goal_ids := ix_goal_ids ix @ [goal_id r],
        ix_high_water := (case generated_goal_ordinal (session_id r) (goal_id r) of
                            Some ordinal \<Rightarrow> max (ix_high_water ix) ordinal | None \<Rightarrow> ix_high_water ix)\<rparr>"

definition save_locked :: "'t env \<Rightarrow> goal_record \<Rightarrow> 't \<Rightarrow> ('t, unit) io" where
  "save_locked env r encoded =
     (let n = file_name_of env (goal_id r) in
      io_bind (read_record_sized env n) (\<lambda>existing.
      io_bind (read_index env (session_id r)) (\<lambda>ix.
        let is_new = goal_id r \<notin> set (ix_goal_ids ix);
            adopts = adopts_identical_orphan ix existing r
        in if \<not> adopts \<and> revision r \<noteq> expected_revision existing
           then io_err (Conflict (expected_revision existing) (revision r))
           else
             io_bind (usage_of_index env ix) (\<lambda>usage.
               let existing_bytes = (case existing of Some (_, bytes) \<Rightarrow> bytes | None \<Rightarrow> 0);
                   held = (if is_new then usage else usage\<lparr>bu_bytes := saturating_sub (bu_bytes usage) existing_bytes\<rparr>)
               in io_bind (io_get (\<lambda>w. gs_budget (store w))) (\<lambda>budget.
                    case budget_admit budget held (unat (text_len env encoded)) is_new of
                      Err e \<Rightarrow> io_err (Budget e)
                    | Ok _ \<Rightarrow>
                        io_bind (if adopts then io_ok () else write_atomically env GOALS_DIR n encoded) (\<lambda>_.
                        io_bind (if is_new then write_index env (enlisted ix r) else io_ok ()) (\<lambda>_.
                        bump accepted_writes_update)))))))"

definition save_blocking :: "'t env \<Rightarrow> goal_record \<Rightarrow> ('t, unit) io" where
  "save_blocking env r =
     (case encode_goal (goal_json env) r of
        Err e \<Rightarrow> io_err (Encoding e)
      | Ok encoded \<Rightarrow> with_store_lock (save_locked env r encoded))"

definition missing_record :: "'t env \<Rightarrow> ustr \<Rightarrow> store_error" where
  "missing_record env gid =
     Corrupt (PFile GOALS_DIR (file_name_of env gid))
       (Invalid ''goal_ids'' (lit ''the index names '' @ gid @ lit '', which no longer exists''))"

fun list_loop :: "'t env \<Rightarrow> ustr list \<Rightarrow> ('t, goal_record list) io" where
  "list_loop env [] = io_ok []"
| "list_loop env (gid # ids) =
     io_bind (read_record_at env (file_name_of env gid)) (\<lambda>r.
       case r of
         None \<Rightarrow> io_err (missing_record env gid)
       | Some r \<Rightarrow> io_bind (list_loop env ids) (\<lambda>rs. io_ok (r # rs)))"

definition list_blocking :: "'t env \<Rightarrow> session_id \<Rightarrow> ('t, goal_record list) io" where
  "list_blocking env sid = with_store_lock (io_bind (read_index env sid) (\<lambda>ix. list_loop env (ix_goal_ids ix)))"

definition next_goal_ordinal_blocking :: "'t env \<Rightarrow> session_id \<Rightarrow> ('t, u64) io" where
  "next_goal_ordinal_blocking env sid =
     with_store_lock (io_bind (read_index env sid) (\<lambda>ix.
       case checked_add (ix_high_water ix) 1 of
         Some n \<Rightarrow> io_ok n
       | None \<Rightarrow> io_err (Encoding (Invalid ''goal_id_high_water'' (lit ''goal identifier space is exhausted'')))))"

definition load_goal :: "'t env \<Rightarrow> goal_id \<Rightarrow> ('t, goal_record option) io" where
  "load_goal env gid = read_record_at env (file_name_of env gid)"

section \<open>Compaction of closed goals\<close>

definition compacted_record :: "nat \<Rightarrow> goal_record \<Rightarrow> goal_record" where
  "compacted_record remove r =
     r\<lparr>progress := drop remove (progress r),
       compacted_entries := saturating_add (compacted_entries r)
         (of_nat (length (filter (\<lambda>e. \<not> pr_compacted e) (take remove (progress r))))),
       revision := saturating_add (revision r) 1\<rparr>"

fun compact_loop :: "'t env \<Rightarrow> nat \<Rightarrow> ustr list \<Rightarrow> compaction_summary \<Rightarrow> ('t, compaction_summary) io" where
  "compact_loop env keep [] summary = io_ok summary"
| "compact_loop env keep (gid # ids) summary =
     (let n = file_name_of env gid in
      io_bind (read_record_at env n) (\<lambda>found.
        case found of
          None \<Rightarrow> io_err (missing_record env gid)
        | Some r \<Rightarrow>
            (if \<not> goal_is_closed (status r) then compact_loop env keep ids summary
             else
               (let summary = summary\<lparr>closed_goals_examined := closed_goals_examined summary + 1\<rparr>;
                    remove = length (progress r) - keep
                in if remove = 0 then compact_loop env keep ids summary
                   else
                     io_bind (syscall (PFile GOALS_DIR n) (\<lambda>w. (lookup_file (goals_dir w) n, w))) (\<lambda>previous.
                       case previous of
                         None \<Rightarrow> io_err (Io (PFile GOALS_DIR n) (lit ''not found''))
                       | Some old \<Rightarrow>
                           (case encode_goal (goal_json env) (compacted_record remove r) of
                              Err e \<Rightarrow> io_err (Encoding e)
                            | Ok encoded \<Rightarrow>
                                io_bind (write_atomically env GOALS_DIR n encoded) (\<lambda>_.
                                io_bind (bump accepted_writes_update) (\<lambda>_.
                                compact_loop env keep ids
                                  (summary\<lparr>goals_rewritten := goals_rewritten summary + 1,
                                           progress_entries_removed := progress_entries_removed summary + remove,
                                           reclaimed_bytes := saturating_add (reclaimed_bytes summary)
                                             (saturating_sub (text_len env old) (text_len env encoded))\<rparr>)))))))))"

definition compact_closed_history :: "'t env \<Rightarrow> session_id \<Rightarrow> nat \<Rightarrow> ('t, compaction_summary) io" where
  "compact_closed_history env sid keep =
     with_store_lock (io_bind (read_index env sid) (\<lambda>ix.
       compact_loop env keep (ix_goal_ids ix)
         \<lparr>closed_goals_examined = 0, goals_rewritten = 0, progress_entries_removed = 0, reclaimed_bytes = 0,
          goal_ids_preserved = length (ix_goal_ids ix)\<rparr>))"

section \<open>Opening and recovery\<close>

fun discard_loop :: "dir_name \<Rightarrow> string list \<Rightarrow> nat \<Rightarrow> ('t, nat) io" where
  "discard_loop dn [] count = io_ok count"
| "discard_loop dn (t # ts) count =
     io_bind (syscall (PTemp dn t) (\<lambda>w. ((), on_temps dn (remove1 t) w))) (\<lambda>_. discard_loop dn ts (count + 1))"

definition discard_temps :: "dir_name \<Rightarrow> nat \<Rightarrow> ('t, nat) io" where
  "discard_temps dn count =
     io_bind (syscall (PDir dn) (\<lambda>w. (get_temps dn w, w))) (\<lambda>ts. discard_loop dn ts count)"

fun scan_loop :: "'t env \<Rightarrow> string list \<Rightarrow> (ustr \<times> goal_record) list \<Rightarrow> ('t, (ustr \<times> goal_record) list) io" where
  "scan_loop env [] records = io_ok records"
| "scan_loop env (n # ns) records =
     io_bind (read_record_at env n) (\<lambda>r.
       scan_loop env ns (case r of Some r \<Rightarrow> AList.update (goal_id r) r records | None \<Rightarrow> records))"

definition scan_records :: "'t env \<Rightarrow> ('t, (ustr \<times> goal_record) list) io" where
  "scan_records env =
     io_bind (syscall (PDir GOALS_DIR) (\<lambda>w. (dir_listing (goals_dir w), w))) (\<lambda>ns. scan_loop env ns [])"

text \<open>\<open>records.values()\<close> of the ordered map, in the order of its keys.\<close>

definition values_in_order :: "(ustr \<times> goal_record) list \<Rightarrow> goal_record list" where
  "values_in_order records = map snd (sort_key fst records)"

fun indexed_sessions_loop :: "'t env \<Rightarrow> string list \<Rightarrow> ustr list \<Rightarrow> ('t, ustr list) io" where
  "indexed_sessions_loop env [] sessions = io_ok sessions"
| "indexed_sessions_loop env (n # ns) sessions =
     io_bind (read_to_string SESSIONS_DIR n) (\<lambda>text.
       case text of
         None \<Rightarrow> io_err (Io (PFile SESSIONS_DIR n) (lit ''not found''))
       | Some text \<Rightarrow>
           io_bind (io_of (decode_index env n text)) (\<lambda>ix.
             indexed_sessions_loop env ns (List.insert (ix_session_id ix) sessions)))"

definition sessions_to_repair :: "'t env \<Rightarrow> (ustr \<times> goal_record) list \<Rightarrow> ('t, ustr list) io" where
  "sessions_to_repair env records =
     io_bind (syscall (PDir SESSIONS_DIR) (\<lambda>w. (dir_listing (sessions_dir w), w))) (\<lambda>ns.
       io_bind (indexed_sessions_loop env ns (remdups (map session_id (values_in_order records)))) (\<lambda>sessions.
         io_ok (sort sessions)))"

definition highest_ordinal :: "ustr \<Rightarrow> ustr list \<Rightarrow> u64 \<Rightarrow> u64" where
  "highest_ordinal sid ids hw = fold max (List.map_filter (generated_goal_ordinal sid) ids) hw"

definition orphans_of :: "(ustr \<times> goal_record) list \<Rightarrow> ustr \<Rightarrow> ustr list \<Rightarrow> goal_record list" where
  "orphans_of records sid ids =
     sort_key (\<lambda>r. (created_at r, goal_id r))
       (filter (\<lambda>r. session_id r = sid \<and> goal_id r \<notin> set ids) (values_in_order records))"

definition repaired_index :: "(ustr \<times> goal_record) list \<Rightarrow> ustr \<Rightarrow> session_index \<Rightarrow> session_index" where
  "repaired_index records sid ix =
     (let hw = highest_ordinal sid (ix_goal_ids ix) (ix_high_water ix);
          kept = filter (\<lambda>gid. gid \<in> fst ` set records) (ix_goal_ids ix);
          ids = kept @ map goal_id (orphans_of records sid kept)
      in ix\<lparr>ix_goal_ids := ids, ix_high_water := highest_ordinal sid ids hw\<rparr>)"

fun repair_loop :: "'t env \<Rightarrow> (ustr \<times> goal_record) list \<Rightarrow> ustr list \<Rightarrow> recovery_report \<Rightarrow> ('t, recovery_report) io" where
  "repair_loop env records [] report = io_ok report"
| "repair_loop env records (s # ss) report =
     io_bind (io_of (case session_id_new s of
         Ok sid \<Rightarrow> Ok sid
       | Err e \<Rightarrow> Err (Corrupt (PFile SESSIONS_DIR (file_name_of env s)) (Invalid ''session_id'' (domain_error_display e))))) (\<lambda>sid.
     io_bind (read_index env sid) (\<lambda>ix.
       let kept = filter (\<lambda>gid. gid \<in> fst ` set records) (ix_goal_ids ix);
           pruned = length (ix_goal_ids ix) - length kept;
           adopted = length (orphans_of records s kept);
           ix' = repaired_index records s ix;
           report = report\<lparr>pruned_dangling := pruned_dangling report + pruned,
                           adopted_orphans := adopted_orphans report + adopted\<rparr>
       in io_bind
            (if ix_schema ix \<noteq> SESSION_INDEX_SCHEMA_VERSION \<or> 0 < pruned \<or> 0 < adopted \<or> ix_high_water ix' \<noteq> ix_high_water ix
             then write_index env ix' else io_ok ())
            (\<lambda>_. repair_loop env records ss report)))"

definition recover :: "'t env \<Rightarrow> ('t, recovery_report) io" where
  "recover env =
     io_bind (discard_temps GOALS_DIR 0) (\<lambda>count.
     io_bind (discard_temps SESSIONS_DIR count) (\<lambda>count.
     io_bind (scan_records env) (\<lambda>records.
     io_bind (sessions_to_repair env records) (\<lambda>sessions.
       repair_loop env records sessions (recovery_default\<lparr>discarded_partial_writes := count\<rparr>)))))"

definition open_with_budget :: "'t env \<Rightarrow> nat \<Rightarrow> goal_budget \<Rightarrow> ('t, unit) io" where
  "open_with_budget env pid budget =
     io_bind (syscall (PDir GOALS_DIR) (\<lambda>w. ((), w))) (\<lambda>_.
     io_bind (syscall (PDir SESSIONS_DIR) (\<lambda>w. ((), w))) (\<lambda>_.
     io_bind (syscall PLock (\<lambda>w. ((), w))) (\<lambda>_.
     io_bind (io_modify (\<lambda>w. w\<lparr>store :=
         \<lparr>gs_budget = budget, gs_recovery = recovery_default, gs_pid = pid, gs_sequence = 0, accepted_writes = 0,
          synced_publications = 0, unsynced_publications = 0, unlock_failures = 0\<rparr>\<rparr>)) (\<lambda>_.
     io_bind (with_store_lock (recover env)) (\<lambda>report.
     io_modify (\<lambda>w. w\<lparr>store := (store w)\<lparr>gs_recovery := report\<rparr>\<rparr>))))))"

definition open_store :: "'t env \<Rightarrow> nat \<Rightarrow> ('t, unit) io" where
  "open_store env pid = open_with_budget env pid default_budget"

end
