(* ===== verification/Goal_Service.thy ===== *)
theory Goal_Service
  imports Goal_Store
begin

text \<open>
  The goal service (crates/claw-runtime/src/goal.rs) over its two ports, the errors a port may answer
  with (crates/claw-application/src/ports), and the callers that retry conflicts: the operator's
  commands and the model's tool (crates/claw-goals/src/retry.rs, command.rs, tool.rs).
\<close>

section \<open>Errors of the ports\<close>

datatype port_error =
    PortUnavailable ustr
  | PortConflict ustr
  | PortNotFound ustr
  | PortInvalid ustr
  | PortCommittedButNotDurable ustr
  | PortOutcomeUnknown ustr
  | PortCancelled

fun port_error_label :: "port_error \<Rightarrow> string" where
  "port_error_label (PortUnavailable _) = ''unavailable''"
| "port_error_label (PortConflict _) = ''conflict''"
| "port_error_label (PortNotFound _) = ''not_found''"
| "port_error_label (PortInvalid _) = ''invalid''"
| "port_error_label (PortCommittedButNotDurable _) = ''committed_but_not_durable''"
| "port_error_label (PortOutcomeUnknown _) = ''outcome_unknown''"
| "port_error_label PortCancelled = ''cancelled''"

fun port_error_detail :: "port_error \<Rightarrow> ustr option" where
  "port_error_detail (PortUnavailable d) = Some d"
| "port_error_detail (PortConflict d) = Some d"
| "port_error_detail (PortNotFound d) = Some d"
| "port_error_detail (PortInvalid d) = Some d"
| "port_error_detail (PortCommittedButNotDurable d) = Some d"
| "port_error_detail (PortOutcomeUnknown d) = Some d"
| "port_error_detail PortCancelled = None"

definition port_error_is_retryable :: "port_error \<Rightarrow> bool" where
  "port_error_is_retryable e \<longleftrightarrow> (case e of PortUnavailable _ \<Rightarrow> True | PortConflict _ \<Rightarrow> True | _ \<Rightarrow> False)"

definition port_error_display :: "port_error \<Rightarrow> ustr" where
  "port_error_display e =
     (case port_error_detail e of Some d \<Rightarrow> lit (port_error_label e) @ lit '': '' @ d | None \<Rightarrow> lit ''cancelled'')"

text \<open>How a failure of the store is told to the service; \<open>shown\<close> renders a path under the store's root.\<close>

definition budget_error_display :: "budget_error \<Rightarrow> ustr" where
  "budget_error_display e =
     lit (''goal budget '' @ budget_ceiling e @ '' exceeded: '' @
       (case e of
          TooManyGoals limit held \<Rightarrow> ''the session holds '' @ show_dec held @ '' of '' @ show_dec limit @ '' goals''
        | RecordTooLarge limit offered \<Rightarrow> ''the record is '' @ show_dec offered @ '' bytes of '' @ show_dec limit
        | SessionBytesExhausted limit held offered \<Rightarrow>
            show_dec (unat held) @ '' bytes held plus '' @ show_dec (unat offered) @ '' offered exceeds '' @ show_dec (unat limit)))"

definition wire_error_display :: "wire_error \<Rightarrow> ustr" where
  "wire_error_display e =
     (case e of
        Malformed detail \<Rightarrow> lit ''malformed goal record: '' @ detail
      | UnsupportedSchema expected found \<Rightarrow>
          lit (''goal record schema '' @ show_dec (unat found) @ '' is not the supported schema '' @ show_dec (unat expected))
      | Invalid field reason \<Rightarrow> lit (''goal record field '' @ field @ '' is invalid: '') @ reason)"

definition store_error_display :: "(path \<Rightarrow> ustr) \<Rightarrow> store_error \<Rightarrow> ustr" where
  "store_error_display shown e =
     (case e of
        Io p source \<Rightarrow> lit ''goal store io failed at '' @ shown p @ lit '': '' @ source
      | CommittedButNotDurable p source \<Rightarrow>
          lit ''goal store committed '' @ shown p @ lit '' but could not make the directory entry power-loss durable: '' @ source
          @ lit ''; do not retry blindly''
      | Corrupt p source \<Rightarrow> lit ''goal record at '' @ shown p @ lit '' is corrupt: '' @ wire_error_display source
      | Encoding source \<Rightarrow> lit ''goal record could not be encoded: '' @ wire_error_display source
      | Conflict expected held \<Rightarrow>
          lit (''expected revision '' @ show_dec (unat expected) @ '', caller held '' @ show_dec (unat held))
      | Busy attempts \<Rightarrow> lit (''goal store remained busy after '' @ show_dec attempts @ '' lock attempts'')
      | Budget source \<Rightarrow> budget_error_display source)"

definition port_error_from :: "(path \<Rightarrow> ustr) \<Rightarrow> store_error \<Rightarrow> port_error" where
  "port_error_from shown e =
     (case e of
        Conflict expected held \<Rightarrow>
          PortConflict (lit (''expected revision '' @ show_dec (unat expected) @ '', caller held '' @ show_dec (unat held)))
      | Busy attempts \<Rightarrow> PortConflict (lit (''goal store busy after '' @ show_dec attempts @ '' lock attempts''))
      | Budget source \<Rightarrow> PortInvalid (budget_error_display source)
      | CommittedButNotDurable _ _ \<Rightarrow> PortCommittedButNotDurable (store_error_display shown e)
      | _ \<Rightarrow> PortUnavailable (store_error_display shown e))"

section \<open>The service\<close>

record goal_config =
  max_progress_entries :: nat
  max_objective_bytes :: nat
  max_note_bytes :: nat

definition default_goal_config :: goal_config where
  "default_goal_config = \<lparr>max_progress_entries = 32, max_objective_bytes = 4096, max_note_bytes = 2048\<rparr>"

datatype goal_error =
    Port port_error
  | UnknownGoal goal_id
  | NoActiveGoal
  | GoalAlreadyClosed goal_id goal_status
  | NotATerminalGoalStatus goal_status
  | InvalidObjective string
  | InvalidNote string
  | InvalidBudget
  | UnusableGoalId port_identifier_error

definition goal_error_display :: "goal_error \<Rightarrow> ustr" where
  "goal_error_display e =
     (case e of
        Port error \<Rightarrow> lit ''goal store failed: '' @ port_error_display error
      | UnknownGoal gid \<Rightarrow> lit ''unknown goal '' @ gid
      | NoActiveGoal \<Rightarrow> lit ''the session has no active goal''
      | GoalAlreadyClosed gid s \<Rightarrow> lit ''goal '' @ gid @ lit '' is already '' @ lit (status_label s)
      | NotATerminalGoalStatus s \<Rightarrow> lit (status_label s @ '' is not a terminal goal status'')
      | InvalidObjective reason \<Rightarrow> lit (''invalid objective: '' @ reason)
      | InvalidNote reason \<Rightarrow> lit (''invalid progress note: '' @ reason)
      | InvalidBudget \<Rightarrow> lit ''progress budget must allow at least one entry''
      | UnusableGoalId error \<Rightarrow> lit ''cannot mint a goal id: '' @ identifier_error_display error)"

text \<open>
  A program over a state \<open>'s\<close> the ports act on. \<open>None\<close> is the end of the process, or of the
  future it runs in, at one of its awaits.
\<close>

type_synonym ('s, 'a, 'e) prog = "'s \<Rightarrow> ('a, 'e) result option \<times> 's"

definition prog_ok :: "'a \<Rightarrow> ('s, 'a, 'e) prog" where
  "prog_ok a s = (Some (Ok a), s)"

definition prog_err :: "'e \<Rightarrow> ('s, 'a, 'e) prog" where
  "prog_err e s = (Some (Err e), s)"

definition prog_of :: "('a, 'e) result \<Rightarrow> ('s, 'a, 'e) prog" where
  "prog_of r s = (Some r, s)"

definition prog_bind :: "('s, 'a, 'e) prog \<Rightarrow> ('a \<Rightarrow> ('s, 'b, 'e) prog) \<Rightarrow> ('s, 'b, 'e) prog" where
  "prog_bind m k s =
     (case m s of
        (None, s) \<Rightarrow> (None, s)
      | (Some (Err e), s) \<Rightarrow> (Some (Err e), s)
      | (Some (Ok a), s) \<Rightarrow> k a s)"

record 's goal_ports =
  port_next_ordinal :: "session_id \<Rightarrow> ('s, u64, port_error) prog"
  port_load :: "goal_id \<Rightarrow> ('s, goal_record option, port_error) prog"
  port_save :: "goal_record \<Rightarrow> ('s, unit, port_error) prog"
  port_list :: "session_id \<Rightarrow> ('s, goal_record list, port_error) prog"
  port_now :: "'s \<Rightarrow> int \<times> 's"

text \<open>The question mark on a port's answer, and reading the clock.\<close>

definition port_call :: "('s, 'a, port_error) prog \<Rightarrow> ('s, 'a, goal_error) prog" where
  "port_call m s =
     (case m s of
        (None, s) \<Rightarrow> (None, s)
      | (Some (Err e), s) \<Rightarrow> (Some (Err (Port e)), s)
      | (Some (Ok a), s) \<Rightarrow> (Some (Ok a), s))"

definition clock_now :: "'s goal_ports \<Rightarrow> ('s, int, goal_error) prog" where
  "clock_now ports s = (case port_now ports s of (now, s) \<Rightarrow> (Some (Ok now), s))"

definition newest_active :: "goal_record list \<Rightarrow> goal_record option" where
  "newest_active goals = find (\<lambda>g. status g = Active) (rev goals)"

definition active :: "'s goal_ports \<Rightarrow> session_id \<Rightarrow> ('s, goal_record option, goal_error) prog" where
  "active ports sid = prog_bind (port_call (port_list ports sid)) (\<lambda>goals. prog_ok (newest_active goals))"

definition history :: "'s goal_ports \<Rightarrow> session_id \<Rightarrow> ('s, goal_record list, goal_error) prog" where
  "history ports sid = port_call (port_list ports sid)"

definition validate_objective :: "goal_config \<Rightarrow> ustr \<Rightarrow> (ustr, goal_error) result" where
  "validate_objective config text =
     (if max_progress_entries config = 0 then Err InvalidBudget
      else let trimmed = str_trim text in
        if trimmed = [] then Err (InvalidObjective ''must not be empty'')
        else if utf8_length trimmed > max_objective_bytes config then Err (InvalidObjective ''is too long'')
        else Ok trimmed)"

definition superseded :: "int \<Rightarrow> goal_record \<Rightarrow> goal_record" where
  "superseded now r =
     r\<lparr>status := Superseded, updated_at := now, closed_at := Some now, revision := saturating_add (revision r) 1\<rparr>"

definition new_goal :: "session_id \<Rightarrow> goal_id \<Rightarrow> ustr \<Rightarrow> int \<Rightarrow> goal_record" where
  "new_goal sid gid text now =
     \<lparr>goal_id = gid, session_id = sid, objective = text, status = Active, progress = [], created_at = now, updated_at = now,
      closed_at = None, compacted_entries = 0, revision = 1\<rparr>"

text \<open>Saving the replacement first and closing the replaced goal second.\<close>

definition replace_active :: "'s goal_ports \<Rightarrow> goal_record option \<Rightarrow> goal_record \<Rightarrow> int \<Rightarrow> ('s, goal_record, goal_error) prog" where
  "replace_active ports previous r now =
     prog_bind (port_call (port_save ports r)) (\<lambda>_.
     prog_bind (case previous of Some p \<Rightarrow> port_call (port_save ports (superseded now p)) | None \<Rightarrow> prog_ok ()) (\<lambda>_.
     prog_ok r))"

definition set_goal :: "'s goal_ports \<Rightarrow> goal_config \<Rightarrow> session_id \<Rightarrow> goal_id \<Rightarrow> ustr \<Rightarrow> ('s, goal_record, goal_error) prog" where
  "set_goal ports config sid gid text =
     prog_bind (prog_of (validate_objective config text)) (\<lambda>trimmed.
     prog_bind (clock_now ports) (\<lambda>now.
     prog_bind (active ports sid) (\<lambda>previous.
     replace_active ports previous (new_goal sid gid trimmed now) now)))"

definition require_active :: "'s goal_ports \<Rightarrow> goal_id \<Rightarrow> ('s, goal_record, goal_error) prog" where
  "require_active ports gid =
     prog_bind (port_call (port_load ports gid)) (\<lambda>found.
       case found of
         None \<Rightarrow> prog_err (UnknownGoal gid)
       | Some r \<Rightarrow> if goal_is_closed (status r) then prog_err (GoalAlreadyClosed gid (status r)) else prog_ok r)"

text \<open>Folding the oldest entries into one summary; the budget is at least one entry here.\<close>

definition compact_progress :: "goal_config \<Rightarrow> int \<Rightarrow> goal_record \<Rightarrow> goal_record" where
  "compact_progress config now r =
     (let budget = max_progress_entries config in
      if length (progress r) \<le> budget then r
      else
        (let keep = budget - 1;
             removed = length (progress r) - keep;
             head_index = pr_index (hd (progress r));
             folded = take removed (progress r);
             newly_folded = length (filter (\<lambda>e. \<not> pr_compacted e) folded);
             total = saturating_add (compacted_entries r) (of_nat newly_folded)
         in r\<lparr>compacted_entries := total,
              progress := \<lparr>pr_index = head_index, pr_note = lit (''compacted '' @ show_dec (unat total) @ '' earlier entries''),
                           pr_recorded_at = now, pr_compacted = True\<rparr> # drop removed (progress r)\<rparr>))"

definition next_progress_index :: "goal_record \<Rightarrow> u64" where
  "next_progress_index r = (if progress r = [] then 0 else saturating_add (pr_index (last (progress r))) 1)"

definition with_progress :: "goal_config \<Rightarrow> int \<Rightarrow> ustr \<Rightarrow> goal_record \<Rightarrow> goal_record" where
  "with_progress config now note r =
     (let pushed = r\<lparr>progress := progress r @ [\<lparr>pr_index = next_progress_index r, pr_note = note, pr_recorded_at = now, pr_compacted = False\<rparr>]\<rparr>;
          compacted = compact_progress config now pushed
      in compacted\<lparr>updated_at := now, revision := saturating_add (revision compacted) 1\<rparr>)"

definition record_progress :: "'s goal_ports \<Rightarrow> goal_config \<Rightarrow> goal_id \<Rightarrow> ustr \<Rightarrow> ('s, goal_record, goal_error) prog" where
  "record_progress ports config gid text =
     (if max_progress_entries config = 0 then prog_err InvalidBudget
      else let note = str_trim text in
        if note = [] then prog_err (InvalidNote ''must not be empty'')
        else if utf8_length note > max_note_bytes config then prog_err (InvalidNote ''is too long'')
        else
          prog_bind (require_active ports gid) (\<lambda>r.
          prog_bind (clock_now ports) (\<lambda>now.
            let r' = with_progress config now note r in
            prog_bind (port_call (port_save ports r')) (\<lambda>_. prog_ok r'))))"

definition closed_with :: "goal_status \<Rightarrow> int \<Rightarrow> goal_record \<Rightarrow> goal_record" where
  "closed_with st now r = r\<lparr>status := st, updated_at := now, closed_at := Some now, revision := saturating_add (revision r) 1\<rparr>"

definition close_goal :: "'s goal_ports \<Rightarrow> goal_id \<Rightarrow> goal_status \<Rightarrow> ('s, goal_record, goal_error) prog" where
  "close_goal ports gid st =
     (if \<not> goal_is_closed st then prog_err (NotATerminalGoalStatus st)
      else
        prog_bind (require_active ports gid) (\<lambda>r.
        prog_bind (clock_now ports) (\<lambda>now.
          let r' = closed_with st now r in
          prog_bind (port_call (port_save ports r')) (\<lambda>_. prog_ok r'))))"

definition is_equivalent_new_goal :: "goal_record \<Rightarrow> session_id \<Rightarrow> ustr \<Rightarrow> bool" where
  "is_equivalent_new_goal r sid text \<longleftrightarrow>
     session_id r = sid \<and> objective r = text \<and> status r = Active \<and> progress r = [] \<and> created_at r = updated_at r
     \<and> closed_at r = None \<and> compacted_entries r = 0 \<and> revision r = 1"

definition minted_id :: "session_id \<Rightarrow> u64 \<Rightarrow> ustr" where
  "minted_id sid ordinal = sid @ lit '':goal-'' @ lit (show_dec (unat ordinal))"

definition start_goal :: "'s goal_ports \<Rightarrow> goal_config \<Rightarrow> session_id \<Rightarrow> ustr \<Rightarrow> ('s, goal_record, goal_error) prog" where
  "start_goal ports config sid text =
     prog_bind (prog_of (validate_objective config text)) (\<lambda>trimmed.
     prog_bind (port_call (port_next_ordinal ports sid)) (\<lambda>ordinal.
     prog_bind (prog_of (case goal_id_new (minted_id sid ordinal) of Ok gid \<Rightarrow> Ok gid | Err e \<Rightarrow> Err (UnusableGoalId e))) (\<lambda>gid.
     prog_bind (port_call (port_load ports gid)) (\<lambda>found.
       case found of
         Some orphan \<Rightarrow>
           if is_equivalent_new_goal orphan sid trimmed
           then prog_bind (active ports sid) (\<lambda>previous. replace_active ports previous orphan (created_at orphan))
           else set_goal ports config sid gid trimmed
       | None \<Rightarrow> set_goal ports config sid gid trimmed))))"

datatype goal_action = SetAction ustr | ProgressAction ustr | CloseAction goal_status

definition apply_action :: "'s goal_ports \<Rightarrow> goal_config \<Rightarrow> session_id \<Rightarrow> goal_action \<Rightarrow> ('s, goal_record, goal_error) prog" where
  "apply_action ports config sid action =
     (case action of
        SetAction text \<Rightarrow> start_goal ports config sid text
      | ProgressAction note \<Rightarrow>
          prog_bind (active ports sid) (\<lambda>current.
            case current of None \<Rightarrow> prog_err NoActiveGoal | Some r \<Rightarrow> record_progress ports config (goal_id r) note)
      | CloseAction st \<Rightarrow>
          prog_bind (active ports sid) (\<lambda>current.
            case current of None \<Rightarrow> prog_err NoActiveGoal | Some r \<Rightarrow> close_goal ports (goal_id r) st))"

section \<open>Retried conflicts\<close>

definition MAX_CONFLICT_ATTEMPTS :: nat where
  "MAX_CONFLICT_ATTEMPTS = 3"

definition is_conflict :: "goal_error \<Rightarrow> bool" where
  "is_conflict e \<longleftrightarrow> (case e of Port (PortConflict _) \<Rightarrow> True | _ \<Rightarrow> False)"

text \<open>\<open>n\<close> attempts are left after this one.\<close>

fun retry_loop :: "nat \<Rightarrow> ('s, 'a, goal_error) prog \<Rightarrow> ('s, 'a, goal_error) prog" where
  "retry_loop n operation s =
     (case operation s of
        (Some (Err e), s') \<Rightarrow>
          (if is_conflict e then (case n of Suc m \<Rightarrow> retry_loop m operation s' | 0 \<Rightarrow> (Some (Err e), s')) else (Some (Err e), s'))
      | (out, s') \<Rightarrow> (out, s'))"

declare retry_loop.simps [simp del]

definition retry_conflicts :: "('s, 'a, goal_error) prog \<Rightarrow> ('s, 'a, goal_error) prog" where
  "retry_conflicts operation = retry_loop (MAX_CONFLICT_ATTEMPTS - 1) operation"

fun repair_goals :: "'s goal_ports \<Rightarrow> goal_record \<Rightarrow> goal_record list \<Rightarrow> ('s, unit, goal_error) prog" where
  "repair_goals ports committed [] s = (Some (Ok ()), s)"
| "repair_goals ports committed (r # rs) s =
     (if goal_id r = goal_id committed \<or> status r \<noteq> Active then repair_goals ports committed rs s
      else
        (case retry_conflicts (close_goal ports (goal_id r) Superseded) s of
           (None, s') \<Rightarrow> (None, s')
         | (Some (Ok _), s') \<Rightarrow> repair_goals ports committed rs s'
         | (Some (Err (GoalAlreadyClosed _ _)), s') \<Rightarrow> repair_goals ports committed rs s'
         | (Some (Err e), s') \<Rightarrow> (Some (Err e), s')))"

definition repair_older_active_goals :: "'s goal_ports \<Rightarrow> session_id \<Rightarrow> goal_record \<Rightarrow> ('s, unit, goal_error) prog" where
  "repair_older_active_goals ports sid committed = prog_bind (history ports sid) (repair_goals ports committed)"

fun start_attempts :: "nat \<Rightarrow> 's goal_ports \<Rightarrow> goal_config \<Rightarrow> session_id \<Rightarrow> ustr \<Rightarrow> ('s, goal_record, goal_error) prog" where
  "start_attempts n ports config sid text s =
     (case start_goal ports config sid text s of
        (Some (Err e), s') \<Rightarrow>
          (if \<not> is_conflict e then (Some (Err e), s')
           else
             (case active ports sid s' of
                (None, s'') \<Rightarrow> (None, s'')
              | (Some (Err e'), s'') \<Rightarrow>
                  (if is_conflict e' then (case n of Suc m \<Rightarrow> start_attempts m ports config sid text s'' | 0 \<Rightarrow> (Some (Err e'), s''))
                   else (Some (Err e'), s''))
              | (Some (Ok found), s'') \<Rightarrow>
                  (case found of
                     Some committed \<Rightarrow>
                       if objective committed = str_trim text
                       then prog_bind (repair_older_active_goals ports sid committed) (\<lambda>_. prog_ok committed) s''
                       else (case n of Suc m \<Rightarrow> start_attempts m ports config sid text s'' | 0 \<Rightarrow> (Some (Err e), s''))
                   | None \<Rightarrow> (case n of Suc m \<Rightarrow> start_attempts m ports config sid text s'' | 0 \<Rightarrow> (Some (Err e), s'')))))
      | (out, s') \<Rightarrow> (out, s'))"

declare start_attempts.simps [simp del]

definition start_with_conflict_recovery :: "'s goal_ports \<Rightarrow> goal_config \<Rightarrow> session_id \<Rightarrow> ustr \<Rightarrow> ('s, goal_record, goal_error) prog" where
  "start_with_conflict_recovery ports config sid text = start_attempts (MAX_CONFLICT_ATTEMPTS - 1) ports config sid text"

section \<open>The operator's commands and the model's tool\<close>

datatype goal_command_outcome =
    GoalSet goal_record
  | GoalShown "goal_record option"
  | GoalClosed goal_record
  | NothingToClose

definition outcome_record :: "goal_command_outcome \<Rightarrow> goal_record option" where
  "outcome_record out =
     (case out of GoalSet r \<Rightarrow> Some r | GoalClosed r \<Rightarrow> Some r | GoalShown r \<Rightarrow> r | NothingToClose \<Rightarrow> None)"

text \<open>The effects that touch the goal; every other one is refused as it is.\<close>

datatype 'x goal_effect = ShowGoal | SetGoal ustr | CloseGoal goal_status | OtherEffect 'x

datatype 'x goal_command_error = NotAGoalCommand 'x | GoalRefused goal_error

definition map_prog_err :: "('e \<Rightarrow> 'f) \<Rightarrow> ('s, 'a, 'e) prog \<Rightarrow> ('s, 'a, 'f) prog" where
  "map_prog_err f m s =
     (case m s of
        (None, s) \<Rightarrow> (None, s)
      | (Some (Err e), s) \<Rightarrow> (Some (Err (f e)), s)
      | (Some (Ok a), s) \<Rightarrow> (Some (Ok a), s))"

definition close_active :: "'s goal_ports \<Rightarrow> session_id \<Rightarrow> goal_status \<Rightarrow> ('s, goal_command_outcome, goal_error) prog" where
  "close_active ports sid st =
     prog_bind (active ports sid) (\<lambda>current.
       case current of
         None \<Rightarrow> prog_ok NothingToClose
       | Some r \<Rightarrow> prog_bind (close_goal ports (goal_id r) st) (\<lambda>r'. prog_ok (GoalClosed r')))"

definition apply_command_effect ::
  "'s goal_ports \<Rightarrow> goal_config \<Rightarrow> session_id \<Rightarrow> 'x goal_effect \<Rightarrow> ('s, goal_command_outcome, 'x goal_command_error) prog" where
  "apply_command_effect ports config sid effect =
     (case effect of
        ShowGoal \<Rightarrow> map_prog_err GoalRefused (prog_bind (active ports sid) (\<lambda>current. prog_ok (GoalShown current)))
      | SetGoal text \<Rightarrow>
          map_prog_err GoalRefused (prog_bind (start_with_conflict_recovery ports config sid text) (\<lambda>r. prog_ok (GoalSet r)))
      | CloseGoal st \<Rightarrow> map_prog_err GoalRefused (retry_conflicts (close_active ports sid st))
      | OtherEffect x \<Rightarrow> prog_err (NotAGoalCommand x))"

datatype goal_tool_error = MalformedArguments ustr | NonTerminalArgument goal_status

text \<open>\<open>parsed\<close> is what the JSON library makes of the trimmed arguments.\<close>

definition parse_goal_action :: "(ustr \<Rightarrow> (goal_action, ustr) result) \<Rightarrow> ustr \<Rightarrow> (goal_action, goal_tool_error) result" where
  "parse_goal_action parsed arguments =
     (case parsed (str_trim arguments) of
        Err e \<Rightarrow> Err (MalformedArguments e)
      | Ok action \<Rightarrow>
          (case action of
             CloseAction st \<Rightarrow> if goal_is_closed st then Ok action else Err (NonTerminalArgument st)
           | _ \<Rightarrow> Ok action))"

datatype tool_invocation_error = ArgumentsRefused goal_tool_error | ActionRefused goal_error

definition tool_summary :: "goal_record \<Rightarrow> ustr" where
  "tool_summary r =
     lit ''goal '' @ goal_id r @ lit (('' is '' @ status_label (status r)) @ '' at revision '' @ show_dec (unat (revision r)))"

definition invoke_goal_tool ::
  "(ustr \<Rightarrow> (goal_action, ustr) result) \<Rightarrow> 's goal_ports \<Rightarrow> goal_config \<Rightarrow> session_id \<Rightarrow> ustr
   \<Rightarrow> ('s, goal_record, tool_invocation_error) prog" where
  "invoke_goal_tool parsed ports config sid arguments =
     (case parse_goal_action parsed arguments of
        Err e \<Rightarrow> prog_err (ArgumentsRefused e)
      | Ok action \<Rightarrow>
          (case action of
             SetAction text \<Rightarrow> map_prog_err ActionRefused (start_with_conflict_recovery ports config sid text)
           | _ \<Rightarrow> map_prog_err ActionRefused (retry_conflicts (apply_action ports config sid action))))"

section \<open>The file store behind the ports\<close>

record 't host =
  host_world :: "'t world"
  host_clock :: "nat \<Rightarrow> int"
  host_ticks :: nat

definition of_store :: "(path \<Rightarrow> ustr) \<Rightarrow> ('t, 'a) io \<Rightarrow> ('t host, 'a, port_error) prog" where
  "of_store shown m h =
     (case m (host_world h) of (out, w) \<Rightarrow>
        (case out of
           Killed \<Rightarrow> (None, h\<lparr>host_world := w\<rparr>)
         | Done (Ok a) \<Rightarrow> (Some (Ok a), h\<lparr>host_world := w\<rparr>)
         | Done (Err e) \<Rightarrow> (Some (Err (port_error_from shown e)), h\<lparr>host_world := w\<rparr>)))"

definition file_goal_ports :: "(path \<Rightarrow> ustr) \<Rightarrow> 't env \<Rightarrow> 't host goal_ports" where
  "file_goal_ports shown env =
     \<lparr>port_next_ordinal = (\<lambda>sid. of_store shown (next_goal_ordinal_blocking env sid)),
      port_load = (\<lambda>gid. of_store shown (load_goal env gid)),
      port_save = (\<lambda>r. of_store shown (save_blocking env r)),
      port_list = (\<lambda>sid. of_store shown (list_blocking env sid)),
      port_now = (\<lambda>h. (host_clock h (host_ticks h), h\<lparr>host_ticks := Suc (host_ticks h)\<rparr>))\<rparr>"

end
