(* ===== verification/Goal_Triples.thy ===== *)
theory Goal_Triples
  imports Goal_Store
begin

text \<open>
  Triples for the programs of the file store: over the two directories, with separate postconditions
  for success, error and the death of the process; the invariant of the directories; and what
  saving, listing and numbering do to them under every script of faults.
\<close>

named_theorems spec_intros \<open>rules that step through a store program\<close>

section \<open>Triples over the directories\<close>

text \<open>
  \<open>calm\<close> is whether no fault and no lock contention is ahead, and the budget of the store may be fixed. The triple
  speaks of the directories only: temporary files, the fault script and the counters are quantified
  away.
\<close>

definition at_disk :: "bool \<Rightarrow> goal_budget option \<Rightarrow> 't dir \<Rightarrow> 't dir \<Rightarrow> 't world \<Rightarrow> bool" where
  "at_disk calm b gd sd w \<longleftrightarrow>
     (calm \<longrightarrow> faults w = [] \<and> locks w = []) \<and> (\<forall>x. b = Some x \<longrightarrow> gs_budget (store w) = x) \<and> goals_dir w = gd \<and> sessions_dir w = sd"

definition ends ::
  "bool \<Rightarrow> goal_budget option \<Rightarrow> ('a \<Rightarrow> 't dir \<Rightarrow> 't dir \<Rightarrow> bool) \<Rightarrow> (store_error \<Rightarrow> 't dir \<Rightarrow> 't dir \<Rightarrow> bool)
   \<Rightarrow> ('t dir \<Rightarrow> 't dir \<Rightarrow> bool) \<Rightarrow> 'a outcome \<times> 't world \<Rightarrow> bool" where
  "ends calm b Q E K res \<longleftrightarrow>
     (case res of (out, w) \<Rightarrow>
        at_disk calm b (goals_dir w) (sessions_dir w) w
        \<and> (case out of
             Done (Ok a) \<Rightarrow> Q a (goals_dir w) (sessions_dir w)
           | Done (Err e) \<Rightarrow> E e (goals_dir w) (sessions_dir w)
           | Killed \<Rightarrow> K (goals_dir w) (sessions_dir w)))"

definition spec ::
  "bool \<Rightarrow> goal_budget option \<Rightarrow> 't dir \<Rightarrow> 't dir \<Rightarrow> ('t, 'a) io \<Rightarrow> ('a \<Rightarrow> 't dir \<Rightarrow> 't dir \<Rightarrow> bool)
   \<Rightarrow> (store_error \<Rightarrow> 't dir \<Rightarrow> 't dir \<Rightarrow> bool) \<Rightarrow> ('t dir \<Rightarrow> 't dir \<Rightarrow> bool) \<Rightarrow> bool" where
  "spec calm b gd sd m Q E K \<longleftrightarrow> (\<forall>w. at_disk calm b gd sd w \<longrightarrow> ends calm b Q E K (m w))"

lemma specI: "(\<And>w. at_disk calm b gd sd w \<Longrightarrow> ends calm b Q E K (m w)) \<Longrightarrow> spec calm b gd sd m Q E K"
  by (simp add: spec_def)

lemma specD: "spec calm b gd sd m Q E K \<Longrightarrow> at_disk calm b gd sd w \<Longrightarrow> ends calm b Q E K (m w)"
  by (simp add: spec_def)

lemma spec_conseq:
  assumes "spec calm b gd sd m Q E K"
    and "\<And>a gd' sd'. Q a gd' sd' \<Longrightarrow> Q' a gd' sd'"
    and "\<And>e gd' sd'. E e gd' sd' \<Longrightarrow> E' e gd' sd'"
    and "\<And>gd' sd'. K gd' sd' \<Longrightarrow> K' gd' sd'"
  shows "spec calm b gd sd m Q' E' K'"
proof (rule specI)
  fix w :: "'a world"
  assume "at_disk calm b gd sd w"
  from specD [OF assms(1) this] show "ends calm b Q' E' K' (m w)"
    using assms(2-) unfolding ends_def by (auto split: prod.splits outcome.splits result.splits)
qed

lemma spec_ok [spec_intros]: "Q a gd sd \<Longrightarrow> spec calm b gd sd (io_ok a) Q E K"
  by (auto simp: spec_def ends_def io_ok_def at_disk_def)

lemma spec_err [spec_intros]: "E e gd sd \<Longrightarrow> spec calm b gd sd (io_err e) Q E K"
  by (auto simp: spec_def ends_def io_err_def at_disk_def)

lemma spec_of_Ok: "r = Ok a \<Longrightarrow> Q a gd sd \<Longrightarrow> spec calm b gd sd (io_of r) Q E K"
  by (auto simp: spec_def ends_def io_of_def at_disk_def)

lemma spec_get_budget: "Q b gd sd \<Longrightarrow> spec calm (Some b) gd sd (io_get (\<lambda>w. gs_budget (store w))) Q E K"
  by (auto simp: spec_def ends_def io_get_def at_disk_def)

lemma spec_bind [spec_intros]:
  assumes "spec calm b gd sd m R E K"
    and "\<And>a gd' sd'. R a gd' sd' \<Longrightarrow> spec calm b gd' sd' (k a) Q E K"
  shows "spec calm b gd sd (io_bind m k) Q E K"
proof (rule specI)
  fix w :: "'a world"
  assume "at_disk calm b gd sd w"
  from specD [OF assms(1) this] have first: "ends calm b R E K (m w)" .
  obtain out w' where mw: "m w = (out, w')"
    by fastforce
  have here: "at_disk calm b (goals_dir w') (sessions_dir w') w'"
    using first by (simp add: ends_def mw)
  show "ends calm b Q E K (io_bind m k w)"
  proof (cases out)
    case (Done r)
    show ?thesis
    proof (cases r)
      case (Ok a)
      then have "R a (goals_dir w') (sessions_dir w')"
        using first by (simp add: ends_def mw Done)
      from specD [OF assms(2) [OF this] here] show ?thesis
        by (simp add: io_bind_def mw Done Ok)
    next
      case (Err e)
      then show ?thesis
        using first by (simp add: io_bind_def ends_def mw Done)
    qed
  next
    case Killed
    then show ?thesis
      using first by (simp add: io_bind_def ends_def mw)
  qed
qed

text \<open>Calls to the file system: reading, changing a directory, and neither.\<close>

lemma at_disk_faults: "at_disk calm b gd sd w \<Longrightarrow> \<not> calm \<Longrightarrow> at_disk calm b gd sd (w\<lparr>faults := fs\<rparr>)"
  by (simp add: at_disk_def)

lemma spec_attempt:
  assumes step: "\<And>w. at_disk calm b gd sd w \<Longrightarrow>
      (case f w of (a, w') \<Rightarrow> at_disk calm b (goals_dir w') (sessions_dir w') w' \<and> Q (Ok a) (goals_dir w') (sessions_dir w'))"
    and fails: "\<And>e. \<not> calm \<Longrightarrow> Q (Err e) gd sd"
    and dies: "\<not> calm \<Longrightarrow> K gd sd"
  shows "spec calm b gd sd (attempt f) Q E K"
proof (rule specI)
  fix w :: "'a world"
  assume w: "at_disk calm b gd sd w"
  have popped: "at_disk calm b gd sd (w\<lparr>faults := fs\<rparr>)" and noisy: "\<not> calm" if "faults w = x # fs" for x fs
    using w that by (auto simp: at_disk_def)
  have dirs: "goals_dir w = gd" "sessions_dir w = sd"
    using w by (simp_all add: at_disk_def)
  show "ends calm b Q E K (attempt f w)"
  proof (cases "faults w")
    case Nil
    then show ?thesis
      using step [OF w] by (simp add: attempt_def ends_def split: prod.splits)
  next
    case (Cons x fs)
    note here = popped [OF Cons] and quiet = noisy [OF Cons]
    show ?thesis
    proof (cases x)
      case Works
      then show ?thesis
        using step [OF here] Cons by (simp add: attempt_def ends_def split: prod.splits)
    next
      case (Fails e)
      then show ?thesis
        using fails [OF quiet] here Cons dirs by (simp add: attempt_def ends_def)
    next
      case Dies
      then show ?thesis
        using dies [OF quiet] here Cons dirs by (simp add: attempt_def ends_def)
    qed
  qed
qed

lemma spec_syscall:
  assumes "\<And>w. at_disk calm b gd sd w \<Longrightarrow>
      (case f w of (a, w') \<Rightarrow> at_disk calm b (goals_dir w') (sessions_dir w') w' \<and> Q a (goals_dir w') (sessions_dir w'))"
    and "\<And>p e. \<not> calm \<Longrightarrow> E (Io p e) gd sd"
    and "\<not> calm \<Longrightarrow> K gd sd"
  shows "spec calm b gd sd (syscall p f) Q E K"
  unfolding syscall_def
proof (rule spec_bind)
  show "spec calm b gd sd (attempt f)
      (\<lambda>r gd' sd'. case r of Ok a \<Rightarrow> Q a gd' sd' | Err e \<Rightarrow> E (Io p e) gd' sd') E K"
    using assms by (intro spec_attempt) (auto split: prod.splits)
next
  fix r gd' sd'
  assume "case r of Ok a \<Rightarrow> Q a gd' sd' | Err e \<Rightarrow> E (Io p e) gd' sd'"
  then show "spec calm b gd' sd' (case r of Ok a \<Rightarrow> io_ok a | Err e \<Rightarrow> io_err (Io p e)) Q E K"
    by (cases r) (auto intro: spec_intros)
qed

lemma spec_modify_disk:
  assumes "\<And>w. at_disk calm b gd sd w \<Longrightarrow> at_disk calm b gd sd (f w)" and "Q () gd sd"
  shows "spec calm b gd sd (io_modify f) Q E K"
  using assms by (auto simp: spec_def ends_def io_modify_def at_disk_def)

lemma at_disk_temps: "at_disk calm b gd sd w \<Longrightarrow> at_disk calm b gd sd (on_temps dn f w)"
  by (cases dn) (simp_all add: at_disk_def on_temps_def)

lemma spec_bump:
  assumes "\<And>f s. gs_budget (upd f s) = gs_budget s" and "Q () gd sd"
  shows "spec calm b gd sd (bump upd) Q E K"
  unfolding bump_def by (rule spec_modify_disk) (simp_all add: at_disk_def assms)

lemma spec_get: "(\<And>a. Q a gd sd) \<Longrightarrow> spec calm b gd sd (io_get f) Q E K"
  by (auto simp: spec_def ends_def io_get_def at_disk_def)

text \<open>A call that leaves the directories alone, and one that reads a file.\<close>

lemma spec_syscall_quiet:
  assumes "\<And>w. at_disk calm b gd sd w \<Longrightarrow> at_disk calm b gd sd (snd (f w))"
    and "\<And>a. Q a gd sd" and "\<And>p e. \<not> calm \<Longrightarrow> E (Io p e) gd sd" and "\<not> calm \<Longrightarrow> K gd sd"
  shows "spec calm b gd sd (syscall p f) Q E K"
proof (rule spec_syscall)
  fix w
  assume "at_disk calm b gd sd w"
  from assms(1) [OF this] show
    "case f w of (a, w') \<Rightarrow> at_disk calm b (goals_dir w') (sessions_dir w') w' \<and> Q a (goals_dir w') (sessions_dir w')"
    using assms(2) by (auto simp: at_disk_def split: prod.splits)
qed (simp_all add: assms)

definition pick_dir :: "dir_name \<Rightarrow> 't dir \<Rightarrow> 't dir \<Rightarrow> 't dir" where
  "pick_dir dn gd sd = (case dn of GOALS_DIR \<Rightarrow> gd | SESSIONS_DIR \<Rightarrow> sd)"

lemma pick_dir_simps [simp]: "pick_dir GOALS_DIR gd sd = gd" "pick_dir SESSIONS_DIR gd sd = sd"
  by (simp_all add: pick_dir_def)

lemma get_dir_at: "at_disk calm b gd sd w \<Longrightarrow> get_dir dn w = pick_dir dn gd sd"
  by (cases dn) (simp_all add: at_disk_def get_dir_def)

lemma spec_look:
  assumes "\<And>w. at_disk calm b gd sd w \<Longrightarrow> Q (g w) gd sd" and "\<And>p e. \<not> calm \<Longrightarrow> E (Io p e) gd sd" and "\<not> calm \<Longrightarrow> K gd sd"
  shows "spec calm b gd sd (syscall p (\<lambda>w. (g w, w))) Q E K"
proof (rule spec_syscall)
  fix w :: "'a world"
  assume w: "at_disk calm b gd sd w"
  then show "case (g w, w) of (a, w') \<Rightarrow> at_disk calm b (goals_dir w') (sessions_dir w') w' \<and> Q a (goals_dir w') (sessions_dir w')"
    using assms(1) [OF w] by (simp add: at_disk_def)
qed (simp_all add: assms)

lemma spec_read_to_string:
  assumes "Q (lookup_file (pick_dir dn gd sd) n) gd sd" and "\<And>p e. \<not> calm \<Longrightarrow> E (Io p e) gd sd" and "\<not> calm \<Longrightarrow> K gd sd"
  shows "spec calm b gd sd (read_to_string dn n) Q E K"
  unfolding read_to_string_def by (rule spec_look) (simp_all add: assms get_dir_at)

subsection \<open>Atomic writes\<close>

text \<open>The directories after a file was published in one of them.\<close>

definition put :: "dir_name \<Rightarrow> ('t dir \<Rightarrow> 't dir) \<Rightarrow> ('t dir \<Rightarrow> 't dir \<Rightarrow> bool) \<Rightarrow> 't dir \<Rightarrow> 't dir \<Rightarrow> bool" where
  "put dn f P gd sd = (case dn of GOALS_DIR \<Rightarrow> P (f gd) sd | SESSIONS_DIR \<Rightarrow> P gd (f sd))"

lemma at_disk_on_dir:
  "at_disk calm b gd sd w \<Longrightarrow>
   at_disk calm b (goals_dir (on_dir dn f w)) (sessions_dir (on_dir dn f w)) (on_dir dn f w)
   \<and> P (goals_dir (on_dir dn f w)) (sessions_dir (on_dir dn f w)) = put dn f P gd sd"
  by (cases dn) (simp_all add: at_disk_def on_dir_def put_def)

lemma spec_sync_directory:
  assumes "is_unix env"
    and "put dn sync_dir (Q (Ok True)) gd sd" and "\<And>e. \<not> calm \<Longrightarrow> Q (Err e) gd sd" and "\<not> calm \<Longrightarrow> K gd sd"
  shows "spec calm b gd sd (sync_directory_entries env dn) Q E K"
  unfolding sync_directory_entries_def using assms
  by (simp, intro spec_attempt) (auto simp: at_disk_on_dir [where P = "Q (Ok True)"])

text \<open>Sequencing after a program that leaves the directories alone.\<close>

lemma spec_then:
  assumes "spec calm b gd sd m (\<lambda>_ gd' sd'. gd' = gd \<and> sd' = sd) E K" and "\<And>a. spec calm b gd sd (k a) Q E K"
  shows "spec calm b gd sd (io_bind m k) Q E K"
  by (rule spec_bind [OF assms(1)]) (use assms(2) in simp)

text \<open>Sequencing after a program whose value is known and that leaves the directories alone.\<close>

lemma spec_value:
  assumes "spec calm b gd sd m (\<lambda>v gd' sd'. v = a \<and> gd' = gd \<and> sd' = sd) E K" and "spec calm b gd sd (k a) Q E K"
  shows "spec calm b gd sd (io_bind m k) Q E K"
  by (rule spec_bind [OF assms(1)]) (use assms(2) in simp)

lemma spec_write_atomically:
  assumes unix: "is_unix env"
    and ok: "put dn (sync_dir \<circ> publish n t) (Q ()) gd sd"
    and io: "\<And>p e. \<not> calm \<Longrightarrow> E (Io p e) gd sd"
    and committed: "\<And>p e. \<not> calm \<Longrightarrow> put dn (publish n t) (E (CommittedButNotDurable p e)) gd sd"
    and killed: "\<not> calm \<Longrightarrow> K gd sd" and killed_late: "\<not> calm \<Longrightarrow> put dn (publish n t) K gd sd"
  shows "spec calm b gd sd (write_atomically env dn n t) Q E K"
proof -
  have after: "spec calm b gd' sd' (io_bind (sync_directory_entries env dn) (\<lambda>synced.
             case synced of
               Ok True \<Rightarrow> bump synced_publications_update
             | Ok False \<Rightarrow> io_ok ()
             | Err e \<Rightarrow>
                 io_bind (bump unsynced_publications_update) (\<lambda>_.
                   io_err (CommittedButNotDurable (PFile dn n) e)))) Q E K"
    if sync: "put dn sync_dir (Q ()) gd' sd'" and bad: "\<And>p e. \<not> calm \<Longrightarrow> E (CommittedButNotDurable p e) gd' sd'"
      and dead: "\<not> calm \<Longrightarrow> K gd' sd'" for gd' sd'
  proof (rule spec_bind [where R = "\<lambda>synced gd sd. case synced of Ok True \<Rightarrow> Q () gd sd | Ok False \<Rightarrow> False
          | Err e \<Rightarrow> E (CommittedButNotDurable (PFile dn n) e) gd sd"])
    show "spec calm b gd' sd' (sync_directory_entries env dn)
        (\<lambda>synced gd sd. case synced of Ok True \<Rightarrow> Q () gd sd | Ok False \<Rightarrow> False
          | Err e \<Rightarrow> E (CommittedButNotDurable (PFile dn n) e) gd sd) E K"
      using sync by (intro spec_sync_directory unix) (simp_all add: bad dead)
  next
    fix synced gd2 sd2
    assume "case synced of Ok True \<Rightarrow> Q () gd2 sd2 | Ok False \<Rightarrow> False | Err e \<Rightarrow> E (CommittedButNotDurable (PFile dn n) e) gd2 sd2"
    then show "spec calm b gd2 sd2 (case synced of Ok True \<Rightarrow> bump synced_publications_update | Ok False \<Rightarrow> io_ok ()
             | Err e \<Rightarrow> io_bind (bump unsynced_publications_update) (\<lambda>_. io_err (CommittedButNotDurable (PFile dn n) e))) Q E K"
      by (cases synced) (auto split: bool.splits intro!: spec_bump spec_bind [OF spec_bump] spec_err)
  qed
  define A where "A = (\<lambda>gd' sd'. put dn sync_dir (Q ()) gd' sd'
      \<and> (\<forall>p e. \<not> calm \<longrightarrow> E (CommittedButNotDurable p e) gd' sd') \<and> (\<not> calm \<longrightarrow> K gd' sd'))"
  have published: "put dn (publish n t) A gd sd"
    using ok committed killed_late by (cases dn) (simp_all add: put_def A_def)
  have tail: "spec calm b gd sd (io_bind (attempt (\<lambda>w. ((), on_dir dn (publish n t) (on_temps dn (remove1 temporary) w)))) (\<lambda>renamed.
       case renamed of
         Err e \<Rightarrow>
           io_bind (attempt (\<lambda>w. ((), on_temps dn (remove1 temporary) w))) (\<lambda>_. io_err (Io (PFile dn n) e))
       | Ok _ \<Rightarrow>
           io_bind (sync_directory_entries env dn) (\<lambda>synced.
             case synced of
               Ok True \<Rightarrow> bump synced_publications_update
             | Ok False \<Rightarrow> io_ok ()
             | Err e \<Rightarrow>
                 io_bind (bump unsynced_publications_update) (\<lambda>_.
                   io_err (CommittedButNotDurable (PFile dn n) e))))) Q E K" for temporary
  proof -
    have renaming: "spec calm b gd sd (attempt (\<lambda>w. ((), on_dir dn (publish n t) (on_temps dn (remove1 temporary) w))))
        (\<lambda>renamed gd' sd'. case renamed of Err e \<Rightarrow> \<not> calm \<and> gd' = gd \<and> sd' = sd
          | Ok _ \<Rightarrow> A gd' sd') E K"
    proof (rule spec_attempt)
      fix w
      assume "at_disk calm b gd sd w"
      from at_disk_on_dir [OF at_disk_temps [OF this, of dn "remove1 temporary"], of dn "publish n t" A] published
      show "case ((), on_dir dn (publish n t) (on_temps dn (remove1 temporary) w)) of (a, w') \<Rightarrow>
          at_disk calm b (goals_dir w') (sessions_dir w') w' \<and>
          (case Ok a of Err e \<Rightarrow> \<not> calm \<and> goals_dir w' = gd \<and> sessions_dir w' = sd
          | Ok _ \<Rightarrow> A (goals_dir w') (sessions_dir w'))"
        by simp
    qed (simp_all add: killed)
    show ?thesis
    proof (rule spec_bind [OF renaming])
      fix renamed :: "(unit, ustr) result" and gd' sd'
      assume r: "case renamed of Err e \<Rightarrow> \<not> calm \<and> gd' = gd \<and> sd' = sd
          | Ok _ \<Rightarrow> A gd' sd'"
      show "spec calm b gd' sd' (case renamed of
         Err e \<Rightarrow>
           io_bind (attempt (\<lambda>w. ((), on_temps dn (remove1 temporary) w))) (\<lambda>_. io_err (Io (PFile dn n) e))
       | Ok _ \<Rightarrow>
           io_bind (sync_directory_entries env dn) (\<lambda>synced.
             case synced of
               Ok True \<Rightarrow> bump synced_publications_update
             | Ok False \<Rightarrow> io_ok ()
             | Err e \<Rightarrow>
                 io_bind (bump unsynced_publications_update) (\<lambda>_.
                   io_err (CommittedButNotDurable (PFile dn n) e)))) Q E K"
      proof (cases renamed)
        case (Ok u)
        then show ?thesis
          using r by (simp add: after A_def)
      next
        case (Err e)
        then have eq: "gd' = gd" "sd' = sd" "\<not> calm"
          using r by simp_all
        have "spec calm b gd sd (attempt (\<lambda>w. ((), on_temps dn (remove1 temporary) w))) (\<lambda>_ gd' sd'. gd' = gd \<and> sd' = sd) E K"
          by (rule spec_attempt) (auto simp: killed dest: at_disk_temps [of _ _ _ _ _ dn "remove1 temporary"] simp: at_disk_def on_temps_def split: dir_name.splits)
        moreover have "spec calm b gd sd (io_err (Io (PFile dn n) e)) Q E K"
          by (rule spec_err) (rule io, rule eq(3))
        ultimately show ?thesis
          unfolding eq(1,2) Err by (simp add: spec_then)
      qed
    qed
  qed
  show ?thesis
    unfolding write_atomically_def
    by (rule spec_then [rotated], rule spec_then [rotated], rule spec_then [rotated], rule spec_then [rotated],
        rule spec_then [rotated], rule tail)
      (simp_all add: spec_get spec_bump spec_syscall_quiet io killed at_disk_temps)
qed

subsection \<open>The store lock\<close>

lemma spec_acquire:
  assumes "\<And>n. \<not> calm \<Longrightarrow> E (Busy n) gd sd" and "\<And>p e. \<not> calm \<Longrightarrow> E (Io p e) gd sd"
  shows "spec calm b gd sd (acquire (Suc n)) (\<lambda>_ gd' sd'. gd' = gd \<and> sd' = sd) E K"
proof (induction n)
  case 0
  show ?case
    using assms by (auto simp: spec_def ends_def at_disk_def split: list.splits lock_answer.splits)
next
  case (Suc n)
  show ?case
  proof (rule specI)
    fix w :: "'a world"
    assume w: "at_disk calm b gd sd w"
    have again: "ends calm b (\<lambda>_ gd' sd'. gd' = gd \<and> sd' = sd) E K (acquire (Suc n) (w\<lparr>locks := ls\<rparr>))"
      if "locks w = x # ls" for x ls
      by (rule specD [OF Suc.IH]) (use w that in \<open>auto simp: at_disk_def\<close>)
    show "ends calm b (\<lambda>_ gd' sd'. gd' = gd \<and> sd' = sd) E K (acquire (Suc (Suc n)) w)"
    proof (cases "locks w")
      case Nil
      then show ?thesis
        using w by (simp add: ends_def at_disk_def)
    next
      case (Cons x ls)
      have "\<not> calm"
        using w Cons by (auto simp: at_disk_def)
      then show ?thesis
        using w assms again [OF Cons] Cons
        by (cases x) (auto simp: ends_def at_disk_def simp del: acquire.simps(2) simp: acquire.simps(2) [of "Suc n"])
    qed
  qed
qed

lemma spec_release:
  assumes "\<not> calm \<Longrightarrow> K gd sd"
  shows "spec calm b gd sd release (\<lambda>_ gd' sd'. gd' = gd \<and> sd' = sd) E K"
  unfolding release_def
proof (rule spec_then)
  have once: "spec calm b gd sd (attempt (\<lambda>w. ((), w))) (\<lambda>_ gd' sd'. gd' = gd \<and> sd' = sd) E K"
    by (rule spec_attempt) (auto simp: assms at_disk_def)
  then show "spec calm b gd sd (attempt (\<lambda>w. ((), w))) (\<lambda>_ gd' sd'. gd' = gd \<and> sd' = sd) E K" .
  fix r :: "(unit, ustr) result"
  show "spec calm b gd sd (case r of Ok _ \<Rightarrow> io_ok ()
      | Err _ \<Rightarrow> io_bind (attempt (\<lambda>w. ((), w))) (\<lambda>_. bump unlock_failures_update)) (\<lambda>_ gd' sd'. gd' = gd \<and> sd' = sd) E K"
    using spec_then [OF once spec_bump [of unlock_failures_update "\<lambda>_ gd' sd'. gd' = gd \<and> sd' = sd"]]
    by (cases r) (auto intro: spec_ok)
qed

lemma spec_lock:
  assumes op: "spec calm b gd sd m Q E K"
    and busy: "\<And>n. \<not> calm \<Longrightarrow> E (Busy n) gd sd" and io: "\<And>p e. \<not> calm \<Longrightarrow> E (Io p e) gd sd"
    and late: "\<And>a gd' sd'. \<not> calm \<Longrightarrow> Q a gd' sd' \<Longrightarrow> K gd' sd'"
    and late_err: "\<And>e gd' sd'. \<not> calm \<Longrightarrow> E e gd' sd' \<Longrightarrow> K gd' sd'"
  shows "spec calm b gd sd (with_store_lock m) Q E K"
  unfolding with_store_lock_def WRITE_LOCK_ATTEMPTS_def
proof (rule spec_then)
  show "spec calm b gd sd (acquire 64) (\<lambda>_ gd' sd'. gd' = gd \<and> sd' = sd) E K"
    using spec_acquire [of calm E gd sd b 63 K] busy io by simp
next
  show "spec calm b gd sd (\<lambda>w. case m w of (Killed, w) \<Rightarrow> (Killed, w) | (Done r, w) \<Rightarrow> io_bind release (\<lambda>_. io_of r) w) Q E K"
  proof (rule specI)
    fix w :: "'a world"
    assume "at_disk calm b gd sd w"
    from specD [OF op this] have first: "ends calm b Q E K (m w)" .
    obtain out w' where mw: "m w = (out, w')"
      by fastforce
    have here: "at_disk calm b (goals_dir w') (sessions_dir w') w'"
      using first by (simp add: ends_def mw)
    show "ends calm b Q E K (case m w of (Killed, w) \<Rightarrow> (Killed, w) | (Done r, w) \<Rightarrow> io_bind release (\<lambda>_. io_of r) w)"
    proof (cases out)
      case (Done r)
      have post: "case r of Ok a \<Rightarrow> Q a (goals_dir w') (sessions_dir w') | Err e \<Rightarrow> E e (goals_dir w') (sessions_dir w')"
        using first by (simp add: ends_def mw Done split: result.splits)
      have dead: "\<not> calm \<Longrightarrow> K (goals_dir w') (sessions_dir w')"
        using post late late_err by (cases r) auto
      have "spec calm b (goals_dir w') (sessions_dir w') (io_bind release (\<lambda>_. io_of r)) Q E K"
        by (rule spec_then, rule spec_release, rule dead, assumption)
          (use post in \<open>auto simp: spec_def ends_def io_of_def at_disk_def split: result.splits\<close>)
      from specD [OF this here] show ?thesis
        by (simp add: mw Done)
    next
      case Killed
      then show ?thesis
        using first by (simp add: mw)
    qed
  qed
qed

section \<open>Directories and names\<close>

definition dir_wf :: "'t dir \<Rightarrow> bool" where
  "dir_wf d \<longleftrightarrow> distinct (map fst d) \<and> (\<forall>(n, vs) \<in> set d. vs \<noteq> [])"

lemma versions_publish: "versions (publish n t d) m = (if m = n then Some t # versions d n else versions d m)"
  by (simp add: versions_def publish_def update_conv')

lemma versions_sync: "versions (sync_dir d) m = [lookup_file d m]"
  by (auto simp: versions_def sync_dir_def lookup_file_def map_of_map split: option.splits)

lemma lookup_publish: "lookup_file (publish n t d) m = (if m = n then Some t else lookup_file d m)"
  by (simp add: lookup_file_def versions_publish)

lemma lookup_sync: "lookup_file (sync_dir d) m = lookup_file d m"
  by (simp add: lookup_file_def [of "sync_dir d"] versions_sync)

lemma dir_wf_versions: "dir_wf d \<Longrightarrow> versions d n \<noteq> []"
  by (auto simp: dir_wf_def versions_def split: option.splits dest: map_of_SomeD)

lemma dir_wf_sync: "dir_wf d \<Longrightarrow> dir_wf (sync_dir d)"
  by (auto simp: dir_wf_def sync_dir_def comp_def case_prod_beta)

lemma dir_wf_publish: "dir_wf d \<Longrightarrow> dir_wf (publish n t d)"
proof -
  have "set (AList.update n vs d) \<subseteq> insert (n, vs) (set d)" for vs
    by (induction d) auto
  then show "dir_wf d \<Longrightarrow> dir_wf (publish n t d)"
    by (fastforce simp: dir_wf_def publish_def distinct_update)
qed

lemma lookup_in_versions: "dir_wf d \<Longrightarrow> lookup_file d n \<in> set (versions d n)"
  by (simp add: lookup_file_def dir_wf_versions)

lemma lookup_listed: "lookup_file d n \<noteq> None \<Longrightarrow> n \<in> fst ` set d"
  by (auto simp: lookup_file_def versions_def map_of_eq_None_iff split: option.splits dest: map_of_SomeD intro: rev_image_eqI)

lemma set_dir_listing: "set (dir_listing d) = {n. lookup_file d n \<noteq> None}"
  using lookup_listed [of d] by (auto simp: dir_listing_def)

lemma distinct_dir_listing: "dir_wf d \<Longrightarrow> distinct (dir_listing d)"
  by (simp add: dir_listing_def dir_wf_def)

text \<open>File names tell identifiers apart as far as the digest does.\<close>

lemma hex_digit_inject:
  assumes "i < 16" and "j < 16"
  shows "''0123456789abcdef'' ! i = ''0123456789abcdef'' ! j \<longleftrightarrow> i = j"
proof
  assume "''0123456789abcdef'' ! i = ''0123456789abcdef'' ! j"
  then have "digit_val (''0123456789abcdef'' ! i) = digit_val (''0123456789abcdef'' ! j)"
    by (rule arg_cong)
  then show "i = j"
    by (simp only: digit_val_digit assms)
qed (simp only:)

lemma nibbles_inject:
  fixes b c :: u8
  assumes "drop_bit 4 b = drop_bit 4 c" and "b AND 0x0F = c AND 0x0F"
  shows "b = c"
proof -
  have "b = push_bit 4 (drop_bit 4 b) OR (b AND 0x0F)"
    by (rule nibbles_join [symmetric])
  also have "\<dots> = c"
    unfolding assms by (rule nibbles_join)
  finally show ?thesis .
qed

lemma nibble_bounds: "unat (drop_bit 4 (b :: u8)) < 16" "unat ((b :: u8) AND 0x0F) < 16"
  using nibble_bound [of b] by (simp_all add: word_less_nat_alt)

lemma hex_inject:
  "concat (map (\<lambda>b. [''0123456789abcdef'' ! unat (drop_bit 4 b), ''0123456789abcdef'' ! unat (b AND 0x0F)]) bs) =
   concat (map (\<lambda>b. [''0123456789abcdef'' ! unat (drop_bit 4 b), ''0123456789abcdef'' ! unat (b AND 0x0F)]) cs)
   \<longleftrightarrow> bs = (cs :: u8 list)"
proof (induction bs arbitrary: cs)
  case Nil
  then show ?case
    by (cases cs) simp_all
next
  case (Cons b bs)
  show ?case
  proof (cases cs)
    case (Cons c cs')
    have "''0123456789abcdef'' ! unat (drop_bit 4 b) = ''0123456789abcdef'' ! unat (drop_bit 4 c)
        \<and> ''0123456789abcdef'' ! unat (b AND 0x0F) = ''0123456789abcdef'' ! unat (c AND 0x0F) \<longleftrightarrow> b = c"
      using nibbles_inject [of b c] unfolding hex_digit_inject [OF nibble_bounds(1) nibble_bounds(1)]
        hex_digit_inject [OF nibble_bounds(2) nibble_bounds(2)] word_unat_eq_iff [symmetric] by blast
    then show ?thesis
      unfolding \<open>cs = c # cs'\<close> list.map concat.simps append_Cons append_Nil list.inject Cons.IH by blast
  qed simp
qed

lemma file_name_inject: "file_name_of env v = file_name_of env v' \<longleftrightarrow> sha256 env v = sha256 env v'"
  by (simp add: file_name_of_def digest_of_def hex_inject)

section \<open>The invariant of the directories\<close>

text \<open>
  What the store relies on: directories can be synchronized, JSON prints an index and reads what it
  printed, the digest has no collision among the goal identifiers \<open>U\<close> and the session identifiers \<open>S\<close> in use, and every goal
  belongs to one session, \<open>sess\<close>.
\<close>

definition lawful :: "'t env \<Rightarrow> ustr set \<Rightarrow> ustr set \<Rightarrow> (ustr \<Rightarrow> ustr) \<Rightarrow> bool" where
  "lawful env U S sess \<longleftrightarrow>
     is_unix env
     \<and> (\<forall>e t. to_string_pretty (goal_json env) e = Ok t \<longrightarrow> from_str (goal_json env) (push_newline (goal_json env) t) = Ok e)
     \<and> (\<forall>d. is_ok (print_index env d))
     \<and> (\<forall>d t. print_index env d = Ok t \<longrightarrow>
          parse_index env (push_newline (goal_json env) t) =
            Ok \<lparr>ie_schema = di_schema d, ie_session_id = di_session_id d,
                ie_goal_ids = Durable (di_entries d) (di_high_water d), ie_high_water = 0\<rparr>)
     \<and> inj_on (sha256 env) U \<and> inj_on (sha256 env) S \<and> sess ` U \<subseteq> S \<and> (\<forall>s \<in> S. session_id_new s = Ok s)"

definition admissible :: "ustr set \<Rightarrow> (ustr \<Rightarrow> ustr) \<Rightarrow> goal_record \<Rightarrow> bool" where
  "admissible U sess r \<longleftrightarrow> storable r \<and> goal_id r \<in> U \<and> session_id r = sess (goal_id r)"

definition goals_ok :: "'t env \<Rightarrow> ustr set \<Rightarrow> (ustr \<Rightarrow> ustr) \<Rightarrow> 't dir \<Rightarrow> bool" where
  "goals_ok env U sess gd \<longleftrightarrow>
     dir_wf gd \<and> (\<forall>n t. Some t \<in> set (versions gd n) \<longrightarrow>
       (\<exists>r. decode_goal (goal_json env) t = Ok r \<and> n = file_name_of env (goal_id r) \<and> admissible U sess r))"

definition index_fits :: "'t env \<Rightarrow> ustr set \<Rightarrow> ustr set \<Rightarrow> (ustr \<Rightarrow> ustr) \<Rightarrow> string \<Rightarrow> session_index \<Rightarrow> bool" where
  "index_fits env U S sess n ix \<longleftrightarrow>
     n = file_name_of env (ix_session_id ix) \<and> ix_session_id ix \<in> S \<and> distinct (ix_goal_ids ix) \<and> set (ix_goal_ids ix) \<subseteq> U
     \<and> (\<forall>g \<in> set (ix_goal_ids ix). sess g = ix_session_id ix
          \<and> (\<forall>k. generated_goal_ordinal (ix_session_id ix) g = Some k \<longrightarrow> k \<le> ix_high_water ix))"

definition sessions_ok :: "'t env \<Rightarrow> ustr set \<Rightarrow> ustr set \<Rightarrow> (ustr \<Rightarrow> ustr) \<Rightarrow> 't dir \<Rightarrow> bool" where
  "sessions_ok env U S sess sd \<longleftrightarrow>
     dir_wf sd \<and> (\<forall>n t. Some t \<in> set (versions sd n) \<longrightarrow>
       (\<exists>ix. decode_index env n t = Ok ix \<and> index_fits env U S sess n ix))"

text \<open>What a reader finds for a goal and for a session.\<close>

definition rec_sized :: "'t env \<Rightarrow> 't dir \<Rightarrow> ustr \<Rightarrow> (goal_record \<times> u64) option" where
  "rec_sized env gd g =
     (case lookup_file gd (file_name_of env g) of
        None \<Rightarrow> None
      | Some t \<Rightarrow> (case decode_goal (goal_json env) t of Ok r \<Rightarrow> Some (r, text_len env t) | Err _ \<Rightarrow> None))"

definition rec_at :: "'t env \<Rightarrow> 't dir \<Rightarrow> ustr \<Rightarrow> goal_record option" where
  "rec_at env gd g = map_option fst (rec_sized env gd g)"

definition index_at :: "'t env \<Rightarrow> 't dir \<Rightarrow> ustr \<Rightarrow> session_index" where
  "index_at env sd s =
     (case lookup_file sd (file_name_of env s) of
        None \<Rightarrow> empty_index s
      | Some t \<Rightarrow> (case decode_index env (file_name_of env s) t of Ok ix \<Rightarrow> ix | Err _ \<Rightarrow> empty_index s))"

lemma goal_name_inject:
  "lawful env U S sess \<Longrightarrow> g \<in> U \<Longrightarrow> h \<in> U \<Longrightarrow> file_name_of env g = file_name_of env h \<longleftrightarrow> g = h"
  by (auto simp: lawful_def file_name_inject dest: inj_onD)

lemma session_name_inject:
  "lawful env U S sess \<Longrightarrow> g \<in> S \<Longrightarrow> h \<in> S \<Longrightarrow> file_name_of env g = file_name_of env h \<longleftrightarrow> g = h"
  by (auto simp: lawful_def file_name_inject dest: inj_onD)

lemma goals_ok_lookup:
  assumes "lawful env U S sess" and "goals_ok env U sess gd" and "g \<in> U" and "lookup_file gd (file_name_of env g) = Some t"
  obtains r where "decode_goal (goal_json env) t = Ok r" and "goal_id r = g" and "admissible U sess r"
proof -
  have "Some t \<in> set (versions gd (file_name_of env g))"
    using assms(2,4) lookup_in_versions [of gd "file_name_of env g"] by (simp add: goals_ok_def)
  then obtain r where r: "decode_goal (goal_json env) t = Ok r" "file_name_of env g = file_name_of env (goal_id r)" "admissible U sess r"
    using assms(2) unfolding goals_ok_def by blast
  then have "goal_id r = g"
    using goal_name_inject [OF assms(1,3), of "goal_id r"] by (simp add: admissible_def)
  with r show thesis
    by (intro that)
qed

lemma sessions_ok_lookup:
  assumes "lawful env U S sess" and "sessions_ok env U S sess sd" and "s \<in> S" and "lookup_file sd (file_name_of env s) = Some t"
  obtains ix where "decode_index env (file_name_of env s) t = Ok ix" and "ix_session_id ix = s"
    and "index_fits env U S sess (file_name_of env s) ix"
proof -
  have "Some t \<in> set (versions sd (file_name_of env s))"
    using assms(2,4) lookup_in_versions [of sd "file_name_of env s"] by (simp add: sessions_ok_def)
  then obtain ix where ix: "decode_index env (file_name_of env s) t = Ok ix" "index_fits env U S sess (file_name_of env s) ix"
    using assms(2) unfolding sessions_ok_def by blast
  then have "ix_session_id ix = s"
    using session_name_inject [OF assms(1,3), of "ix_session_id ix"] by (simp add: index_fits_def)
  with ix show thesis
    by (intro that)
qed

lemma rec_at_admissible:
  assumes "lawful env U S sess" and "goals_ok env U sess gd" and "g \<in> U" and "rec_at env gd g = Some r"
  shows "goal_id r = g \<and> admissible U sess r"
proof -
  obtain t where t: "lookup_file gd (file_name_of env g) = Some t" "decode_goal (goal_json env) t = Ok r"
    using assms(4) by (auto simp: rec_at_def rec_sized_def split: option.splits result.splits)
  obtain r' where r': "decode_goal (goal_json env) t = Ok r'" "goal_id r' = g" "admissible U sess r'"
    by (rule goals_ok_lookup [OF assms(1,2,3) t(1)])
  then have "r' = r"
    using t(2) by simp
  with r' show ?thesis
    by simp
qed

lemma index_at_fits:
  assumes "lawful env U S sess" and "sessions_ok env U S sess sd" and "s \<in> S"
  shows "index_fits env U S sess (file_name_of env s) (index_at env sd s) \<and> ix_session_id (index_at env sd s) = s"
proof (cases "lookup_file sd (file_name_of env s)")
  case None
  then show ?thesis
    using assms(3) by (simp add: index_at_def index_fits_def empty_index_def)
next
  case (Some t)
  obtain ix where "decode_index env (file_name_of env s) t = Ok ix" "ix_session_id ix = s"
      "index_fits env U S sess (file_name_of env s) ix"
    by (rule sessions_ok_lookup [OF assms Some])
  then show ?thesis
    using Some by (simp add: index_at_def)
qed

subsection \<open>Reading\<close>

lemma spec_read_record_sized:
  assumes "lawful env U S sess" and "goals_ok env U sess gd" and "g \<in> U"
    and "Q (rec_sized env gd g) gd sd" and "\<And>p e. \<not> calm \<Longrightarrow> E (Io p e) gd sd" and "\<not> calm \<Longrightarrow> K gd sd"
  shows "spec calm b gd sd (read_record_sized env (file_name_of env g)) Q E K"
  unfolding read_record_sized_def
proof (rule spec_bind [where R = "\<lambda>text gd' sd'. text = lookup_file gd (file_name_of env g) \<and> gd' = gd \<and> sd' = sd"])
  show "spec calm b gd sd (read_to_string GOALS_DIR (file_name_of env g))
     (\<lambda>text gd' sd'. text = lookup_file gd (file_name_of env g) \<and> gd' = gd \<and> sd' = sd) E K"
    by (rule spec_read_to_string) (simp_all add: assms(5,6))
next
  fix found gd' sd'
  assume eq: "found = lookup_file gd (file_name_of env g) \<and> gd' = gd \<and> sd' = sd"
  show "spec calm b gd' sd' (case found of None \<Rightarrow> io_ok None
     | Some text \<Rightarrow> case decode_goal (goal_json env) text of Ok r \<Rightarrow> io_ok (Some (r, text_len env text))
        | Err e \<Rightarrow> io_err (Corrupt (PFile GOALS_DIR (file_name_of env g)) e)) Q E K"
  proof (cases found)
    case None
    then show ?thesis
      using eq assms(4) by (auto simp: rec_sized_def intro: spec_ok)
  next
    case (Some t)
    then obtain r where r: "decode_goal (goal_json env) t = Ok r"
      using goals_ok_lookup [OF assms(1-3), of t] eq by metis
    have "lookup_file gd (file_name_of env g) = Some t"
      using eq Some by simp
    then have "rec_sized env gd g = Some (r, text_len env t)"
      using r by (simp add: rec_sized_def)
    moreover have "gd' = gd" "sd' = sd"
      using eq by simp_all
    ultimately show ?thesis
      using assms(4) by (simp add: Some r spec_ok)
  qed
qed

lemma spec_read_record_at:
  assumes "lawful env U S sess" and "goals_ok env U sess gd" and "g \<in> U"
    and "Q (rec_at env gd g) gd sd" and "\<And>p e. \<not> calm \<Longrightarrow> E (Io p e) gd sd" and "\<not> calm \<Longrightarrow> K gd sd"
  shows "spec calm b gd sd (read_record_at env (file_name_of env g)) Q E K"
  unfolding read_record_at_def
  by (rule spec_bind [where R = "\<lambda>r gd' sd'. r = rec_sized env gd g \<and> gd' = gd \<and> sd' = sd"],
      rule spec_read_record_sized [OF assms(1-3)])
    (use assms(4-6) in \<open>auto simp: rec_at_def intro: spec_ok\<close>)

lemma spec_read_index:
  assumes "lawful env U S sess" and "sessions_ok env U S sess sd" and "s \<in> S"
    and "Q (index_at env sd s) gd sd" and "\<And>p e. \<not> calm \<Longrightarrow> E (Io p e) gd sd" and "\<not> calm \<Longrightarrow> K gd sd"
  shows "spec calm b gd sd (read_index env s) Q E K"
  unfolding read_index_def Let_def
proof (rule spec_bind [where R = "\<lambda>text gd' sd'. text = lookup_file sd (file_name_of env s) \<and> gd' = gd \<and> sd' = sd"])
  show "spec calm b gd sd (read_to_string SESSIONS_DIR (file_name_of env s))
     (\<lambda>text gd' sd'. text = lookup_file sd (file_name_of env s) \<and> gd' = gd \<and> sd' = sd) E K"
    by (rule spec_read_to_string) (simp_all add: assms(5,6))
next
  fix found gd' sd'
  assume eq: "found = lookup_file sd (file_name_of env s) \<and> gd' = gd \<and> sd' = sd"
  show "spec calm b gd' sd' (case found of None \<Rightarrow> io_ok (empty_index s)
     | Some text \<Rightarrow> io_of (decode_index env (file_name_of env s) text)) Q E K"
  proof (cases found)
    case None
    then show ?thesis
      using eq assms(4) by (auto simp: index_at_def intro: spec_ok)
  next
    case (Some t)
    then obtain ix where ix: "decode_index env (file_name_of env s) t = Ok ix"
      using sessions_ok_lookup [OF assms(1-3), of t] eq by metis
    have "lookup_file sd (file_name_of env s) = Some t"
      using eq Some by simp
    then have "index_at env sd s = ix"
      using ix by (simp add: index_at_def)
    moreover have "gd' = gd" "sd' = sd"
      using eq by simp_all
    ultimately show ?thesis
      using assms(4) by (simp add: Some spec_of_Ok [OF ix])
  qed
qed

subsection \<open>Writing\<close>

lemma encode_decodes:
  assumes "lawful env U S sess" and "storable r" and "encode_goal (goal_json env) r = Ok t"
  shows "decode_goal (goal_json env) t = Ok r"
proof -
  obtain x where x: "to_string_pretty (goal_json env) (goal_envelope_of r) = Ok x" "t = push_newline (goal_json env) x"
    using assms(3) by (auto simp: encode_goal_def split: result.splits)
  then have "from_str (goal_json env) t = Ok (goal_envelope_of r)"
    using assms(1) by (simp add: lawful_def)
  then show ?thesis
    using assms(2) by (simp add: decode_goal_def decode_envelope_of)
qed

lemma goals_ok_subset:
  "goals_ok env U sess gd \<Longrightarrow> dir_wf gd' \<Longrightarrow> (\<And>n. set (versions gd' n) \<subseteq> set (versions gd n)) \<Longrightarrow> goals_ok env U sess gd'"
  unfolding goals_ok_def by blast

lemma goals_ok_sync: "goals_ok env U sess gd \<Longrightarrow> goals_ok env U sess (sync_dir gd)"
  by (rule goals_ok_subset) (auto simp: goals_ok_def versions_sync dir_wf_sync lookup_in_versions)

lemma goals_ok_publish:
  assumes "lawful env U S sess" and "goals_ok env U sess gd" and "admissible U sess r" and "encode_goal (goal_json env) r = Ok t"
  shows "goals_ok env U sess (publish (file_name_of env (goal_id r)) t gd)"
proof -
  have "decode_goal (goal_json env) t = Ok r"
    using encode_decodes [OF assms(1) _ assms(4)] assms(3) by (simp add: admissible_def)
  then show ?thesis
    using assms(2,3) unfolding goals_ok_def versions_publish by (auto simp: dir_wf_publish)
qed

lemma sessions_ok_subset:
  "sessions_ok env U S sess sd \<Longrightarrow> dir_wf sd' \<Longrightarrow> (\<And>n. set (versions sd' n) \<subseteq> set (versions sd n)) \<Longrightarrow> sessions_ok env U S sess sd'"
  unfolding sessions_ok_def by blast

lemma sessions_ok_sync: "sessions_ok env U S sess sd \<Longrightarrow> sessions_ok env U S sess (sync_dir sd)"
  by (rule sessions_ok_subset) (auto simp: sessions_ok_def versions_sync dir_wf_sync lookup_in_versions)

lemma index_text_total: "lawful env U S sess \<Longrightarrow> \<exists>t. index_text env ix = Ok t"
  by (auto simp: index_text_def lawful_def result_simps split: result.splits) (metis result.distinct(1))

lemma index_text_decodes:
  assumes "lawful env U S sess" and "index_text env ix = Ok t"
  shows "decode_index env n t = Ok (ix\<lparr>ix_schema := SESSION_INDEX_SCHEMA_VERSION\<rparr>)"
proof -
  obtain x where "print_index env \<lparr>di_schema = SESSION_INDEX_SCHEMA_VERSION, di_session_id = ix_session_id ix,
                            di_entries = ix_goal_ids ix, di_high_water = ix_high_water ix\<rparr> = Ok x"
      and t: "t = push_newline (goal_json env) x"
    using assms(2) by (auto simp: index_text_def split: result.splits)
  then have "parse_index env t = Ok \<lparr>ie_schema = SESSION_INDEX_SCHEMA_VERSION, ie_session_id = ix_session_id ix,
      ie_goal_ids = Durable (ix_goal_ids ix) (ix_high_water ix), ie_high_water = 0\<rparr>"
    using assms(1) by (simp add: lawful_def)
  then show ?thesis
    by (simp add: decode_index_def)
qed

lemma index_fits_schema [simp]: "index_fits env U S sess n (ix\<lparr>ix_schema := v\<rparr>) = index_fits env U S sess n ix"
  by (simp add: index_fits_def)

lemma sessions_ok_publish:
  assumes "lawful env U S sess" and "sessions_ok env U S sess sd" and "index_fits env U S sess n ix" and "index_text env ix = Ok t"
  shows "sessions_ok env U S sess (publish n t sd)"
  using assms(2,3) index_text_decodes [OF assms(1,4), of n] unfolding sessions_ok_def versions_publish
  by (auto simp: dir_wf_publish)

text \<open>The index of a session after another index was written in its place.\<close>

definition reindexed :: "'t env \<Rightarrow> ustr set \<Rightarrow> 't dir \<Rightarrow> ustr \<Rightarrow> session_index \<Rightarrow> 't dir \<Rightarrow> bool" where
  "reindexed env S sd s ix sd' \<longleftrightarrow>
     index_at env sd' s = ix\<lparr>ix_schema := SESSION_INDEX_SCHEMA_VERSION\<rparr>
     \<and> lookup_file sd' (file_name_of env s) \<noteq> None
     \<and> (\<forall>s' \<in> S - {s}. lookup_file sd' (file_name_of env s') = lookup_file sd (file_name_of env s'))"

definition write_failure :: "store_error \<Rightarrow> bool" where
  "write_failure e \<longleftrightarrow> (case e of Io _ _ \<Rightarrow> True | CommittedButNotDurable _ _ \<Rightarrow> True | _ \<Rightarrow> False)"

lemma write_failure_simps [simp]: "write_failure (Io p x)" "write_failure (CommittedButNotDurable p x)"
  "\<not> write_failure (Conflict i j)" "\<not> write_failure (Budget be)"
  by (simp_all add: write_failure_def)

lemma spec_write_index:
  assumes law: "lawful env U S sess" and ok: "sessions_ok env U S sess sd"
    and fits: "index_fits env U S sess (file_name_of env s) ix" and sid: "ix_session_id ix = s"
    and good: "\<And>sd'. sessions_ok env U S sess sd' \<Longrightarrow> reindexed env S sd s ix sd' \<Longrightarrow> Q () gd sd'"
    and bad: "\<And>e sd'. \<not> calm \<Longrightarrow> write_failure e \<Longrightarrow> sessions_ok env U S sess sd' \<Longrightarrow> sd' = sd \<or> reindexed env S sd s ix sd' \<Longrightarrow> E e gd sd'"
    and dead: "\<And>sd'. \<not> calm \<Longrightarrow> sessions_ok env U S sess sd' \<Longrightarrow> sd' = sd \<or> reindexed env S sd s ix sd' \<Longrightarrow> K gd sd'"
  shows "spec calm b gd sd (write_index env ix) Q E K"
proof -
  obtain t where t: "index_text env ix = Ok t"
    using index_text_total [OF law] by blast
  have s: "s \<in> S"
    using fits sid by (simp add: index_fits_def)
  let ?n = "file_name_of env s"
  have pub: "sessions_ok env U S sess (publish ?n t sd)"
    by (rule sessions_ok_publish [OF law ok fits t])
  have re: "reindexed env S sd s ix (sync_dir (publish ?n t sd))" "reindexed env S sd s ix (publish ?n t sd)"
    using s session_name_inject [OF law _ s] index_text_decodes [OF law t, of ?n]
    by (auto simp: reindexed_def index_at_def lookup_sync lookup_publish)
  then have done': "Q () gd (sync_dir (publish ?n t sd))"
    using re by (intro good sessions_ok_sync pub)
  have unix: "is_unix env"
    using law by (simp add: lawful_def)
  show ?thesis
    unfolding write_index_def
  proof (rule spec_bind [where R = "\<lambda>x gd' sd'. x = t \<and> gd' = gd \<and> sd' = sd"])
    show "spec calm b gd sd (io_of (index_text env ix)) (\<lambda>x gd' sd'. x = t \<and> gd' = gd \<and> sd' = sd) E K"
      by (rule spec_of_Ok [OF t]) simp
    fix x gd' sd'
    assume "x = t \<and> gd' = gd \<and> sd' = sd"
    then show "spec calm b gd' sd' (write_atomically env SESSIONS_DIR (file_name_of env (ix_session_id ix)) x) Q E K"
      using unix done' bad dead ok pub re by (auto simp: sid put_def intro!: spec_write_atomically)
  qed
qed

section \<open>Saving\<close>

text \<open>The measured usage: the sizes of the files the index names, saturating.\<close>

fun measured :: "'t env \<Rightarrow> 't dir \<Rightarrow> ustr list \<Rightarrow> u64 \<Rightarrow> u64" where
  "measured env gd [] bytes = bytes"
| "measured env gd (g # gs) bytes =
     measured env gd gs
       (case lookup_file gd (file_name_of env g) of Some t \<Rightarrow> saturating_add bytes (text_len env t) | None \<Rightarrow> bytes)"

lemma spec_usage_loop:
  assumes "\<And>p e. \<not> calm \<Longrightarrow> E (Io p e) gd sd" and "\<not> calm \<Longrightarrow> K gd sd"
  shows "spec calm b gd sd (usage_loop env ids u)
     (\<lambda>v gd' sd'. v = u\<lparr>bu_bytes := measured env gd ids (bu_bytes u)\<rparr> \<and> gd' = gd \<and> sd' = sd) E K"
proof (induction ids arbitrary: u)
  case Nil
  show ?case
    by (simp add: spec_ok)
next
  case (Cons g gs)
  let ?post = "\<lambda>v gd' sd'. v = u\<lparr>bu_bytes := measured env gd (g # gs) (bu_bytes u)\<rparr> \<and> gd' = gd \<and> sd' = sd"
  show ?case
    unfolding usage_loop.simps
  proof (rule spec_bind [where R = "\<lambda>x gd' sd'. x = lookup_file gd (file_name_of env g) \<and> gd' = gd \<and> sd' = sd"])
    show "spec calm b gd sd (read_to_string GOALS_DIR (file_name_of env g))
        (\<lambda>x gd' sd'. x = lookup_file gd (file_name_of env g) \<and> gd' = gd \<and> sd' = sd) E K"
      by (rule spec_read_to_string) (simp_all add: assms)
    fix x gd' sd'
    assume "x = lookup_file gd (file_name_of env g) \<and> gd' = gd \<and> sd' = sd"
    then show "spec calm b gd' sd' (case x of
         Some t \<Rightarrow> usage_loop env gs (u\<lparr>bu_bytes := saturating_add (bu_bytes u) (text_len env t)\<rparr>)
       | None \<Rightarrow> usage_loop env gs u) ?post E K"
      using Cons.IH [of u] Cons.IH [of "u\<lparr>bu_bytes := saturating_add (bu_bytes u) (text_len env (the x))\<rparr>"]
      by (auto split: option.splits)
  qed
qed

text \<open>Only the file of one goal may have gained a version.\<close>

definition grew :: "'t env \<Rightarrow> ustr \<Rightarrow> 't \<Rightarrow> 't dir \<Rightarrow> 't dir \<Rightarrow> bool" where
  "grew env g t gd gd' \<longleftrightarrow>
     (\<forall>n. set (versions gd' n) \<subseteq> set (versions gd n) \<union> (if n = file_name_of env g then {Some t} else {}))"

lemma grew_refl [simp]: "grew env g t gd gd"
  by (simp add: grew_def)

lemma grew_publish: "grew env g t gd (publish (file_name_of env g) t gd)"
  by (simp add: grew_def versions_publish)

lemma grew_sync:
  assumes "dir_wf gd'" and "grew env g t gd gd'"
  shows "grew env g t gd (sync_dir gd')"
  unfolding grew_def
proof
  fix n
  have "set (versions (sync_dir gd') n) \<subseteq> set (versions gd' n)"
    by (simp add: versions_sync lookup_in_versions [OF assms(1)])
  also have "\<dots> \<subseteq> set (versions gd n) \<union> (if n = file_name_of env g then {Some t} else {})"
    using assms(2) unfolding grew_def by (rule spec)
  finally show "set (versions (sync_dir gd') n) \<subseteq> set (versions gd n) \<union> (if n = file_name_of env g then {Some t} else {})" .
qed

text \<open>Whether the revision of a record is the one the store expects, for the directories it finds.\<close>

definition revision_gate :: "'t env \<Rightarrow> 't dir \<Rightarrow> 't dir \<Rightarrow> goal_record \<Rightarrow> bool" where
  "revision_gate env gd sd r \<longleftrightarrow>
     adopts_identical_orphan (index_at env sd (session_id r)) (rec_sized env gd (goal_id r)) r
     \<or> revision r = expected_revision (rec_sized env gd (goal_id r))"

text \<open>
  What is visible after a save, however it ended: everything as it was, or, the revision being the
  expected one, at most the record replaced, and its session's index extended once the record is there.
\<close>

definition moved :: "'t env \<Rightarrow> ustr set \<Rightarrow> goal_record \<Rightarrow> 't \<Rightarrow> 't dir \<Rightarrow> 't dir \<Rightarrow> 't dir \<Rightarrow> 't dir \<Rightarrow> bool" where
  "moved env S r t gd sd gd' sd' \<longleftrightarrow>
     gd' = gd \<and> sd' = sd
     \<or> revision_gate env gd sd r
       \<and> (\<forall>n. lookup_file gd' n = lookup_file gd n \<or> n = file_name_of env (goal_id r) \<and> lookup_file gd' n = Some t)
       \<and> (sd' = sd \<or> rec_at env gd' (goal_id r) = Some r
            \<and> goal_id r \<notin> set (ix_goal_ids (index_at env sd (session_id r)))
            \<and> reindexed env S sd (session_id r) (enlisted (index_at env sd (session_id r)) r) sd')"

definition save_safe :: "'t env \<Rightarrow> ustr set \<Rightarrow> ustr set \<Rightarrow> (ustr \<Rightarrow> ustr) \<Rightarrow> goal_record \<Rightarrow> 't \<Rightarrow> 't dir \<Rightarrow> 't dir \<Rightarrow> 't dir \<Rightarrow> 't dir \<Rightarrow> bool" where
  "save_safe env U S sess r t gd sd gd' sd' \<longleftrightarrow>
     goals_ok env U sess gd' \<and> sessions_ok env U S sess sd' \<and> grew env (goal_id r) t gd gd'
     \<and> moved env S r t gd sd gd' sd'"

definition save_done :: "'t env \<Rightarrow> ustr set \<Rightarrow> ustr set \<Rightarrow> (ustr \<Rightarrow> ustr) \<Rightarrow> goal_record \<Rightarrow> 't \<Rightarrow> 't dir \<Rightarrow> 't dir \<Rightarrow> 't dir \<Rightarrow> 't dir \<Rightarrow> bool" where
  "save_done env U S sess r t gd sd gd' sd' \<longleftrightarrow>
     save_safe env U S sess r t gd sd gd' sd' \<and> rec_at env gd' (goal_id r) = Some r
     \<and> goal_id r \<in> set (ix_goal_ids (index_at env sd' (session_id r)))
     \<and> (rec_at env gd (goal_id r) = Some r \<or> versions gd' (file_name_of env (goal_id r)) = [Some t])"

lemma enlisted_fits:
  assumes "lawful env U S sess" and "index_fits env U S sess n ix" and "ix_session_id ix = session_id r"
    and "admissible U sess r" and "goal_id r \<notin> set (ix_goal_ids ix)"
  shows "index_fits env U S sess n (enlisted ix r)"
  using assms
  by (auto simp: index_fits_def enlisted_def admissible_def le_max_iff_disj split: option.splits)

lemma spec_save_writes:
  assumes law: "lawful env U S sess" and gok: "goals_ok env U sess gd" and sok: "sessions_ok env U S sess sd"
    and adm: "admissible U sess r" and enc: "encode_goal (goal_json env) r = Ok t"
    and adopts: "adopts \<Longrightarrow> rec_at env gd (goal_id r) = Some r" and gate: "revision_gate env gd sd r"
  defines "ix \<equiv> index_at env sd (session_id r)"
  shows "spec calm b gd sd
     (io_bind (if adopts then io_ok () else write_atomically env GOALS_DIR (file_name_of env (goal_id r)) t) (\<lambda>_.
      io_bind (if goal_id r \<notin> set (ix_goal_ids ix) then write_index env (enlisted ix r) else io_ok ()) (\<lambda>_.
      bump accepted_writes_update)))
     (\<lambda>_ gd' sd'. save_done env U S sess r t gd sd gd' sd')
     (\<lambda>e gd' sd'. \<not> calm \<and> write_failure e \<and> save_safe env U S sess r t gd sd gd' sd')
     (\<lambda>gd' sd'. \<not> calm \<and> save_safe env U S sess r t gd sd gd' sd')" (is "spec calm b gd sd _ ?Q ?E ?K")
proof -
  let ?n = "file_name_of env (goal_id r)"
  have unix: "is_unix env" and sS: "session_id r \<in> S" and gU: "goal_id r \<in> U"
    using law adm by (auto simp: lawful_def admissible_def)
  have pub: "goals_ok env U sess (publish ?n t gd)"
    by (rule goals_ok_publish [OF law gok adm enc])
  have dec: "decode_goal (goal_json env) t = Ok r"
    using encode_decodes [OF law _ enc] adm by (simp add: admissible_def)
  define R where "R = (\<lambda>gd' sd'. sd' = sd \<and> goals_ok env U sess gd' \<and> moved env S r t gd sd gd' sd \<and> grew env (goal_id r) t gd gd' \<and> rec_at env gd' (goal_id r) = Some r
      \<and> (rec_at env gd (goal_id r) = Some r \<or> versions gd' ?n = [Some t]))"
  have written: "R (sync_dir (publish ?n t gd)) sd"
    using pub gate grew_sync [OF _ grew_publish [of env "goal_id r" t gd]]
    by (auto simp: R_def moved_def goals_ok_sync rec_at_def rec_sized_def lookup_sync lookup_publish dec versions_sync goals_ok_def [of env U sess "publish ?n t gd"])
  have first: "spec calm b gd sd (if adopts then io_ok () else write_atomically env GOALS_DIR ?n t) (\<lambda>_. R) ?E ?K"
  proof (cases adopts)
    case True
    then show ?thesis
      using adopts gok by (auto simp: R_def moved_def intro: spec_ok)
  next
    case False
    have safe: "save_safe env U S sess r t gd sd gd sd" "save_safe env U S sess r t gd sd (publish ?n t gd) sd"
      using gok sok pub gate grew_publish [of env "goal_id r" t gd] by (simp_all add: save_safe_def moved_def lookup_publish)
    show ?thesis
      using False unix written safe by (auto simp: put_def intro!: spec_write_atomically)
  qed
  have fits: "index_fits env U S sess (file_name_of env (session_id r)) ix" "ix_session_id ix = session_id r"
    unfolding ix_def using index_at_fits [OF law sok sS] by simp_all
  have second: "spec calm b gd' sd' (if goal_id r \<notin> set (ix_goal_ids ix) then write_index env (enlisted ix r) else io_ok ()) ?Q ?E ?K"
    if "R gd' sd'" for gd' sd'
  proof (cases "goal_id r \<in> set (ix_goal_ids ix)")
    case True
    then show ?thesis
      using that sok by (auto simp: R_def save_done_def save_safe_def ix_def intro: spec_ok)
  next
    case False
    have enl: "index_fits env U S sess (file_name_of env (session_id r)) (enlisted ix r)"
      by (rule enlisted_fits [OF law fits adm False])
    have "ix_session_id (enlisted ix r) = session_id r" "goal_id r \<in> set (ix_goal_ids (enlisted ix r))"
      using fits(2) by (simp_all add: enlisted_def)
    moreover have "moved env S r t gd sd gd' sd''" "goal_id r \<in> set (ix_goal_ids (index_at env sd'' (session_id r)))"
      if "reindexed env S sd (session_id r) (enlisted ix r) sd''" for sd''
      using that \<open>R gd' sd'\<close> False gate by (auto simp: R_def ix_def moved_def reindexed_def enlisted_def)
    ultimately show ?thesis
      using False that sok
      by (auto simp: R_def save_done_def save_safe_def intro!: spec_write_index [OF law _ enl])
  qed
  show ?thesis
  proof (rule spec_bind [OF first])
    fix a :: unit and gd' sd'
    assume "R gd' sd'"
    from second [OF this]
    show "spec calm b gd' sd' (io_bind (if goal_id r \<notin> set (ix_goal_ids ix) then write_index env (enlisted ix r) else io_ok ())
        (\<lambda>_. bump accepted_writes_update)) ?Q ?E ?K"
      by (rule spec_bind) (rule spec_bump, simp_all)
  qed
qed

definition held_without :: "'t env \<Rightarrow> 't dir \<Rightarrow> 't dir \<Rightarrow> goal_record \<Rightarrow> budget_usage" where
  "held_without env gd sd r =
     (let ids = ix_goal_ids (index_at env sd (session_id r));
          bytes = measured env gd ids 0
      in \<lparr>bu_goals = length ids,
          bu_bytes = (if goal_id r \<in> set ids
            then saturating_sub bytes (case rec_sized env gd (goal_id r) of Some (_, n) \<Rightarrow> n | None \<Rightarrow> 0) else bytes)\<rparr>)"

definition budget_gate :: "goal_budget \<Rightarrow> 't env \<Rightarrow> 't dir \<Rightarrow> 't dir \<Rightarrow> goal_record \<Rightarrow> 't \<Rightarrow> (budget_usage, budget_error) result" where
  "budget_gate b env gd sd r t =
     budget_admit b (held_without env gd sd r) (unat (text_len env t))
       (goal_id r \<notin> set (ix_goal_ids (index_at env sd (session_id r))))"

lemma spec_save_locked:
  assumes law: "lawful env U S sess" and gok: "goals_ok env U sess gd" and sok: "sessions_ok env U S sess sd"
    and adm: "admissible U sess r" and enc: "encode_goal (goal_json env) r = Ok t"
  shows "spec calm (Some b) gd sd (save_locked env r t)
     (\<lambda>_ gd' sd'. revision_gate env gd sd r \<and> is_ok (budget_gate b env gd sd r t) \<and> save_done env U S sess r t gd sd gd' sd')
     (\<lambda>e gd' sd'. save_safe env U S sess r t gd sd gd' sd' \<and> (write_failure e \<longrightarrow> \<not> calm) \<and>
        (\<not> write_failure e \<longrightarrow> gd' = gd \<and> sd' = sd \<and>
           (if revision_gate env gd sd r then budget_gate b env gd sd r t \<in> Err ` {x. e = Budget x}
            else e = Conflict (expected_revision (rec_sized env gd (goal_id r))) (revision r))))
     (\<lambda>gd' sd'. \<not> calm \<and> save_safe env U S sess r t gd sd gd' sd')" (is "spec calm (Some b) gd sd _ ?Q ?E ?K")
proof -
  let ?n = "file_name_of env (goal_id r)" and ?ix = "index_at env sd (session_id r)" and ?old = "rec_sized env gd (goal_id r)"
  have sS: "session_id r \<in> S" and gU: "goal_id r \<in> U"
    using law adm by (auto simp: lawful_def admissible_def)
  have here: "save_safe env U S sess r t gd sd gd sd"
    using gok sok by (simp add: save_safe_def moved_def)
  have io: "?E (Io p e) gd sd" if "\<not> calm" for p e
    using that here by simp
  have dead: "?K gd sd" if "\<not> calm"
    using that here by simp
  define usage where "usage = \<lparr>bu_goals = length (ix_goal_ids ?ix), bu_bytes = measured env gd (ix_goal_ids ?ix) 0\<rparr>"
  have measure: "spec calm (Some b) gd sd (usage_of_index env ?ix) (\<lambda>v gd' sd'. v = usage \<and> gd' = gd \<and> sd' = sd) ?E ?K"
    unfolding usage_of_index_def usage_def
    using spec_usage_loop [of calm ?E gd sd ?K "Some b" env "ix_goal_ids ?ix" "\<lparr>bu_goals = length (ix_goal_ids ?ix), bu_bytes = 0\<rparr>"] io dead
    by simp
  have held: "(if goal_id r \<notin> set (ix_goal_ids ?ix) then usage
       else usage\<lparr>bu_bytes := saturating_sub (bu_bytes usage) (case ?old of Some (_, bytes) \<Rightarrow> bytes | None \<Rightarrow> 0)\<rparr>)
     = held_without env gd sd r"
    by (simp add: held_without_def usage_def Let_def)
  have adopts: "adopts_identical_orphan ?ix ?old r \<Longrightarrow> rec_at env gd (goal_id r) = Some r"
    by (auto simp: adopts_identical_orphan_def rec_at_def split: option.splits)
  have writes: "spec calm (Some b) gd sd
     (io_bind (if adopts_identical_orphan ?ix ?old r then io_ok () else write_atomically env GOALS_DIR ?n t) (\<lambda>_.
      io_bind (if goal_id r \<notin> set (ix_goal_ids ?ix) then write_index env (enlisted ?ix r) else io_ok ()) (\<lambda>_.
      bump accepted_writes_update))) ?Q ?E ?K"
    if "revision_gate env gd sd r" "budget_gate b env gd sd r t = Ok u" for u
    by (rule spec_conseq [OF spec_save_writes [OF law gok sok adm enc adopts that(1)]]) (use that in auto)
  have first: "spec calm (Some b) gd sd (read_record_sized env ?n) (\<lambda>x gd' sd'. x = ?old \<and> gd' = gd \<and> sd' = sd) ?E ?K"
    by (rule spec_read_record_sized [OF law gok gU]) (use io dead in simp_all)
  have second: "spec calm (Some b) gd sd (read_index env (session_id r)) (\<lambda>x gd' sd'. x = ?ix \<and> gd' = gd \<and> sd' = sd) ?E ?K"
    by (rule spec_read_index [OF law sok sS]) (use io dead in simp_all)
  have budget: "spec calm (Some b) gd sd (io_get (\<lambda>w. gs_budget (store w))) (\<lambda>x gd' sd'. x = b \<and> gd' = gd \<and> sd' = sd) ?E ?K"
    by (rule spec_get_budget) simp
  have admit: "spec calm (Some b) gd sd
     (case budget_gate b env gd sd r t of Err e \<Rightarrow> io_err (Budget e)
      | Ok _ \<Rightarrow> io_bind (if adopts_identical_orphan ?ix ?old r then io_ok () else write_atomically env GOALS_DIR ?n t) (\<lambda>_.
          io_bind (if goal_id r \<notin> set (ix_goal_ids ?ix) then write_index env (enlisted ?ix r) else io_ok ()) (\<lambda>_.
          bump accepted_writes_update))) ?Q ?E ?K" if gate: "revision_gate env gd sd r"
  proof (cases "budget_gate b env gd sd r t")
    case (Ok u)
    show ?thesis
      using writes [OF gate Ok] by (simp add: Ok)
  next
    case (Err e)
    show ?thesis
      using here gate by (auto simp: Err intro!: spec_err)
  qed
  have refuse: "spec calm (Some b) gd sd (io_err (Conflict (expected_revision ?old) (revision r))) ?Q ?E ?K" if "\<not> revision_gate env gd sd r"
    using here that by (intro spec_err) simp
  show ?thesis
    unfolding save_locked_def Let_def
    apply (rule spec_value [OF first])
    apply (rule spec_value [OF second])
    apply (cases "revision_gate env gd sd r")
    subgoal
      apply (subst if_not_P, simp add: revision_gate_def)
      apply (rule spec_value [OF measure], rule spec_value [OF budget])
      unfolding held using admit by (simp add: budget_gate_def)
    subgoal
      using refuse by (simp add: revision_gate_def)
    done
qed

text \<open>Why a save was refused without touching anything.\<close>

definition refused :: "goal_budget \<Rightarrow> 't env \<Rightarrow> 't dir \<Rightarrow> 't dir \<Rightarrow> goal_record \<Rightarrow> 't \<Rightarrow> store_error \<Rightarrow> bool" where
  "refused b env gd sd r t e \<longleftrightarrow>
     (if revision_gate env gd sd r then \<exists>x. e = Budget x \<and> budget_gate b env gd sd r t = Err x
      else e = Conflict (expected_revision (rec_sized env gd (goal_id r))) (revision r))"

lemma spec_save_blocking:
  assumes law: "lawful env U S sess" and gok: "goals_ok env U sess gd" and sok: "sessions_ok env U S sess sd"
    and adm: "admissible U sess r" and enc: "encode_goal (goal_json env) r = Ok t"
  shows "spec calm (Some b) gd sd (save_blocking env r)
     (\<lambda>_ gd' sd'. revision_gate env gd sd r \<and> is_ok (budget_gate b env gd sd r t) \<and> save_done env U S sess r t gd sd gd' sd')
     (\<lambda>e gd' sd'. save_safe env U S sess r t gd sd gd' sd' \<and> (write_failure e \<longrightarrow> \<not> calm) \<and>
        (\<not> write_failure e \<longrightarrow> gd' = gd \<and> sd' = sd \<and> (refused b env gd sd r t e \<or> \<not> calm \<and> (\<exists>n. e = Busy n))))
     (\<lambda>gd' sd'. \<not> calm \<and> save_safe env U S sess r t gd sd gd' sd')"
proof -
  have here: "save_safe env U S sess r t gd sd gd sd"
    using gok sok by (simp add: save_safe_def moved_def)
  have "spec calm (Some b) gd sd (with_store_lock (save_locked env r t))
     (\<lambda>_ gd' sd'. revision_gate env gd sd r \<and> is_ok (budget_gate b env gd sd r t) \<and> save_done env U S sess r t gd sd gd' sd')
     (\<lambda>e gd' sd'. save_safe env U S sess r t gd sd gd' sd' \<and> (write_failure e \<longrightarrow> \<not> calm) \<and>
        (\<not> write_failure e \<longrightarrow> gd' = gd \<and> sd' = sd \<and> (refused b env gd sd r t e \<or> \<not> calm \<and> (\<exists>n. e = Busy n))))
     (\<lambda>gd' sd'. \<not> calm \<and> save_safe env U S sess r t gd sd gd' sd')"
  proof (rule spec_lock)
    show "spec calm (Some b) gd sd (save_locked env r t)
     (\<lambda>_ gd' sd'. revision_gate env gd sd r \<and> is_ok (budget_gate b env gd sd r t) \<and> save_done env U S sess r t gd sd gd' sd')
     (\<lambda>e gd' sd'. save_safe env U S sess r t gd sd gd' sd' \<and> (write_failure e \<longrightarrow> \<not> calm) \<and>
        (\<not> write_failure e \<longrightarrow> gd' = gd \<and> sd' = sd \<and> (refused b env gd sd r t e \<or> \<not> calm \<and> (\<exists>n. e = Busy n))))
     (\<lambda>gd' sd'. \<not> calm \<and> save_safe env U S sess r t gd sd gd' sd')"
      by (rule spec_conseq [OF spec_save_locked [OF law gok sok adm enc]]) (auto simp: refused_def split: if_splits)
  qed (use here in \<open>auto simp: save_done_def write_failure_def\<close>)
  then show ?thesis
    by (simp add: save_blocking_def enc)
qed

section \<open>Listing and numbering\<close>

lemma spec_list_loop:
  assumes law: "lawful env U S sess" and gok: "goals_ok env U sess gd" and "set ids \<subseteq> U" and "\<forall>g \<in> set ids. rec_at env gd g \<noteq> None"
    and io: "\<And>p e. \<not> calm \<Longrightarrow> E (Io p e) gd sd" and dead: "\<not> calm \<Longrightarrow> K gd sd"
  shows "spec calm b gd sd (list_loop env ids)
     (\<lambda>rs gd' sd'. rs = map (\<lambda>g. the (rec_at env gd g)) ids \<and> gd' = gd \<and> sd' = sd) E K"
  using assms(3,4)
proof (induction ids)
  case Nil
  show ?case
    by (simp add: spec_ok)
next
  case (Cons g ids)
  then obtain r where r: "rec_at env gd g = Some r" and gU: "g \<in> U"
    by auto
  have look: "spec calm b gd sd (read_record_at env (file_name_of env g)) (\<lambda>x gd' sd'. x = Some r \<and> gd' = gd \<and> sd' = sd) E K"
    by (rule spec_read_record_at [OF law gok gU]) (simp_all add: r io dead)
  show ?case
    unfolding list_loop.simps
    by (rule spec_value [OF look], simp, rule spec_value [OF Cons.IH]) (use Cons.prems in \<open>auto simp: r intro: spec_ok\<close>)
qed

lemma spec_list_blocking:
  assumes law: "lawful env U S sess" and gok: "goals_ok env U sess gd" and sok: "sessions_ok env U S sess sd" and s: "s \<in> S"
    and present: "\<forall>g \<in> set (ix_goal_ids (index_at env sd s)). rec_at env gd g \<noteq> None"
  shows "spec calm b gd sd (list_blocking env s)
     (\<lambda>rs gd' sd'. rs = map (\<lambda>g. the (rec_at env gd g)) (ix_goal_ids (index_at env sd s)) \<and> gd' = gd \<and> sd' = sd)
     (\<lambda>_ gd' sd'. \<not> calm \<and> gd' = gd \<and> sd' = sd) (\<lambda>gd' sd'. \<not> calm \<and> gd' = gd \<and> sd' = sd)" (is "spec calm b gd sd _ ?Q ?E ?K")
  unfolding list_blocking_def
proof (rule spec_lock)
  have look: "spec calm b gd sd (read_index env s) (\<lambda>x gd' sd'. x = index_at env sd s \<and> gd' = gd \<and> sd' = sd) ?E ?K"
    by (rule spec_read_index [OF law sok s]) simp_all
  have "set (ix_goal_ids (index_at env sd s)) \<subseteq> U"
    using index_at_fits [OF law sok s] by (simp add: index_fits_def)
  then show "spec calm b gd sd (io_bind (read_index env s) (\<lambda>ix. list_loop env (ix_goal_ids ix))) ?Q ?E ?K"
    by (intro spec_value [OF look] spec_list_loop [OF law gok _ present]) simp_all
qed auto

lemma spec_next_ordinal:
  assumes law: "lawful env U S sess" and sok: "sessions_ok env U S sess sd" and s: "s \<in> S"
  shows "spec calm b gd sd (next_goal_ordinal_blocking env s)
     (\<lambda>n gd' sd'. checked_add (ix_high_water (index_at env sd s)) 1 = Some n \<and> gd' = gd \<and> sd' = sd)
     (\<lambda>_ gd' sd'. (calm \<longrightarrow> checked_add (ix_high_water (index_at env sd s)) 1 = None) \<and> gd' = gd \<and> sd' = sd)
     (\<lambda>gd' sd'. \<not> calm \<and> gd' = gd \<and> sd' = sd)" (is "spec calm b gd sd _ ?Q ?E ?K")
  unfolding next_goal_ordinal_blocking_def
proof (rule spec_lock)
  have "spec calm b gd sd (read_index env s) (\<lambda>x gd' sd'. x = index_at env sd s \<and> gd' = gd \<and> sd' = sd) ?E ?K"
    by (rule spec_read_index [OF law sok s]) simp_all
  then show "spec calm b gd sd (io_bind (read_index env s) (\<lambda>ix.
       case checked_add (ix_high_water ix) 1 of
         Some n \<Rightarrow> io_ok n
       | None \<Rightarrow> io_err (Encoding (Invalid ''goal_id_high_water'' (lit ''goal identifier space is exhausted''))))) ?Q ?E ?K"
    by (rule spec_value) (auto split: option.splits intro: spec_ok spec_err)
qed auto

end
