(* ===== verification/Goal_Contract.thy ===== *)
theory Goal_Contract
  imports Goal_Service Goal_Triples
begin

text \<open>
  What the goal service relies on: the contract of the goal ports, stated over what a store shows (the
  record of a goal, and the goals a session lists in order), with every outcome of a call allowed for.
  Proved once from the contract: the service changes goals along legal steps only, never leaves a
  session that had an active goal without one, and bounds the history of a goal without losing count.
\<close>

section \<open>Views of a store\<close>

type_synonym 's record_view = "'s \<Rightarrow> goal_id \<Rightarrow> goal_record option"
type_synonym 's list_view = "'s \<Rightarrow> session_id \<Rightarrow> goal_id list"

text \<open>The optimistic concurrency check of a save.\<close>

definition save_gate :: "'s record_view \<Rightarrow> 's list_view \<Rightarrow> 's \<Rightarrow> goal_record \<Rightarrow> bool" where
  "save_gate stored listed s r \<longleftrightarrow>
     (case stored s (goal_id r) of
        None \<Rightarrow> revision r = 1
      | Some q \<Rightarrow> revision r = saturating_add (revision q) 1 \<or> q = r \<and> goal_id r \<notin> set (listed s (session_id r)))"

text \<open>
  What a save may do, however it ends: at most replace the record, if the check passed, and at most
  append a new goal whose record is there to the listing of its session.
\<close>

definition save_view :: "ustr set \<Rightarrow> ustr set \<Rightarrow> 's record_view \<Rightarrow> 's list_view \<Rightarrow> 's \<Rightarrow> goal_record \<Rightarrow> 's \<Rightarrow> bool" where
  "save_view U S stored listed s r s' \<longleftrightarrow>
     (\<forall>g \<in> U. g \<noteq> goal_id r \<longrightarrow> stored s' g = stored s g)
     \<and> (stored s' (goal_id r) = stored s (goal_id r) \<or> save_gate stored listed s r \<and> stored s' (goal_id r) = Some r)
     \<and> (\<forall>sid \<in> S. listed s' sid = listed s sid
          \<or> sid = session_id r \<and> goal_id r \<notin> set (listed s sid) \<and> stored s' (goal_id r) = Some r \<and> listed s' sid = listed s sid @ [goal_id r])"

definition saved_view :: "'s record_view \<Rightarrow> 's list_view \<Rightarrow> 's \<Rightarrow> goal_record \<Rightarrow> 's \<Rightarrow> bool" where
  "saved_view stored listed s r s' \<longleftrightarrow>
     save_gate stored listed s r \<and> stored s' (goal_id r) = Some r \<and> goal_id r \<in> set (listed s' (session_id r))"

section \<open>Runs of programs\<close>

definition runs :: "('s, 'a, 'e) prog \<Rightarrow> 's \<Rightarrow> (('a, 'e) result option \<Rightarrow> 's \<Rightarrow> bool) \<Rightarrow> bool" where
  "runs m s Q \<longleftrightarrow> (case m s of (out, s') \<Rightarrow> Q out s')"

named_theorems run_simps \<open>how each construct of a service program runs\<close>

lemma runs_ok [run_simps]: "runs (prog_ok a) s Q \<longleftrightarrow> Q (Some (Ok a)) s"
  by (simp add: runs_def prog_ok_def)

lemma runs_err [run_simps]: "runs (prog_err e) s Q \<longleftrightarrow> Q (Some (Err e)) s"
  by (simp add: runs_def prog_err_def)

lemma runs_of [run_simps]: "runs (prog_of r) s Q \<longleftrightarrow> Q (Some r) s"
  by (simp add: runs_def prog_of_def)

lemma runs_bind [run_simps]:
  "runs (prog_bind m k) s Q \<longleftrightarrow>
     runs m s (\<lambda>out s'. case out of None \<Rightarrow> Q None s' | Some (Err e) \<Rightarrow> Q (Some (Err e)) s' | Some (Ok a) \<Rightarrow> runs (k a) s' Q)"
  by (auto simp: runs_def prog_bind_def split: prod.splits option.splits result.splits)

lemma runs_call [run_simps]:
  "runs (port_call m) s Q \<longleftrightarrow>
     runs m s (\<lambda>out s'. Q (case out of None \<Rightarrow> None | Some (Err e) \<Rightarrow> Some (Err (Port e)) | Some (Ok a) \<Rightarrow> Some (Ok a)) s')"
  by (auto simp: runs_def port_call_def split: prod.splits option.splits result.splits)

lemma runs_map_err [run_simps]:
  "runs (map_prog_err f m) s Q \<longleftrightarrow>
     runs m s (\<lambda>out s'. Q (case out of None \<Rightarrow> None | Some (Err e) \<Rightarrow> Some (Err (f e)) | Some (Ok a) \<Rightarrow> Some (Ok a)) s')"
  by (auto simp: runs_def map_prog_err_def split: prod.splits option.splits result.splits)

lemma runs_mono: "runs m s P \<Longrightarrow> (\<And>out s'. P out s' \<Longrightarrow> Q out s') \<Longrightarrow> runs m s Q"
  by (auto simp: runs_def)

lemma runs_conj: "runs m s P \<Longrightarrow> runs m s Q \<Longrightarrow> runs m s (\<lambda>out s'. P out s' \<and> Q out s')"
  by (auto simp: runs_def)

lemma runs_bindI:
  assumes "runs m s P" and "\<And>s'. P None s' \<Longrightarrow> Q None s'" and "\<And>e s'. P (Some (Err e)) s' \<Longrightarrow> Q (Some (Err e)) s'"
    and "\<And>a s'. P (Some (Ok a)) s' \<Longrightarrow> runs (k a) s' Q"
  shows "runs (prog_bind m k) s Q"
  unfolding runs_bind using assms(1) by (rule runs_mono) (use assms(2-) in \<open>auto split: option.splits result.splits\<close>)

lemma runs_call_bindI:
  assumes "runs m s P" and "\<And>s'. P None s' \<Longrightarrow> Q None s'" and "\<And>e s'. P (Some (Err e)) s' \<Longrightarrow> Q (Some (Err (Port e))) s'"
    and "\<And>a s'. P (Some (Ok a)) s' \<Longrightarrow> runs (k a) s' Q"
  shows "runs (prog_bind (port_call m) k) s Q"
  unfolding runs_bind runs_call using assms(1)
  by (rule runs_mono) (use assms(2-) in \<open>auto split: option.splits result.splits\<close>)

section \<open>Steps of a goal\<close>

definition goal_step :: "goal_record \<Rightarrow> goal_record \<Rightarrow> bool" where
  "goal_step q q' \<longleftrightarrow>
     (\<exists>op. admit_operation (status q) op = Ok (status q')) \<and> revision q' = saturating_add (revision q) 1
     \<and> goal_id q' = goal_id q \<and> session_id q' = session_id q \<and> objective q' = objective q \<and> created_at q' = created_at q"

lemma goal_step_active: "goal_step q q' \<Longrightarrow> status q = Active"
  by (auto simp: goal_step_def admit_operation_Ok)

lemma closed_is_final: "goal_step\<^sup>*\<^sup>* q q' \<Longrightarrow> goal_is_closed (status q) \<Longrightarrow> q' = q"
  by (induction rule: converse_rtranclp_induct) (auto simp: goal_is_closed_def dest: goal_step_active)

lemma superseded_goal_step: "status q = Active \<Longrightarrow> goal_step q (superseded now q)"
  unfolding goal_step_def superseded_def
  by (rule conjI, rule exI [of _ Supersede]) (simp_all add: admit_operation_Ok)

lemma closed_with_step: "status q = Active \<Longrightarrow> goal_is_closed st \<Longrightarrow> goal_step q (closed_with st now q)"
  unfolding goal_step_def closed_with_def
  by (rule conjI, rule exI [of _ "Close st"]) (simp_all add: admit_operation_Ok goal_is_closed_def)

lemma with_progress_sel [simp]:
  "goal_id (with_progress config now note q) = goal_id q" "session_id (with_progress config now note q) = session_id q"
  "objective (with_progress config now note q) = objective q" "status (with_progress config now note q) = status q"
  "created_at (with_progress config now note q) = created_at q" "closed_at (with_progress config now note q) = closed_at q"
  "revision (with_progress config now note q) = saturating_add (revision q) 1"
  by (simp_all add: with_progress_def compact_progress_def Let_def)

lemma with_progress_step: "status q = Active \<Longrightarrow> goal_step q (with_progress config now note q)"
  unfolding goal_step_def
  by (rule conjI, rule exI [of _ RecordProgress]) (simp_all add: admit_operation_Ok)

section \<open>Progress\<close>

text \<open>Every entry ever recorded: those folded into the summary and those still there.\<close>

definition recorded_entries :: "goal_record \<Rightarrow> nat" where
  "recorded_entries r = unat (compacted_entries r) + length (filter (\<lambda>e. \<not> pr_compacted e) (progress r))"

text \<open>Neither the count nor an index saturates within \<open>k\<close> further entries.\<close>

definition room :: "nat \<Rightarrow> goal_record \<Rightarrow> bool" where
  "room k r \<longleftrightarrow> recorded_entries r + k < 2 ^ 64 \<and> list_all (\<lambda>e. unat (pr_index e) + k < 2 ^ 64) (progress r)"

lemma room_mono: "room k r \<Longrightarrow> j \<le> k \<Longrightarrow> room j r"
  by (auto simp: room_def list_all_iff)

lemma room_index: "room (Suc k) r \<Longrightarrow> e \<in> set (progress r) \<Longrightarrow> pr_index e \<noteq> - 1"
  by (auto simp: room_def list_all_iff unat_minus_one_max)

lemma compact_progress_entries:
  assumes "recorded_entries r < 2 ^ 64"
  shows "recorded_entries (compact_progress config now r) = recorded_entries r"
proof (cases "length (progress r) \<le> max_progress_entries config")
  case True
  then show ?thesis
    by (simp add: compact_progress_def)
next
  case False
  let ?k = "length (progress r) - (max_progress_entries config - 1)"
  let ?f = "length (filter (\<lambda>e. \<not> pr_compacted e) (take ?k (progress r)))"
  have split: "length (filter (\<lambda>e. \<not> pr_compacted e) (progress r)) = ?f + length (filter (\<lambda>e. \<not> pr_compacted e) (drop ?k (progress r)))"
    by (metis append_take_drop_id filter_append length_append)
  have "unat (compacted_entries r) + ?f < 2 ^ 64"
    using assms split by (simp add: recorded_entries_def)
  then have "unat (saturating_add (compacted_entries r) (of_nat ?f)) = unat (compacted_entries r) + ?f"
    by (simp add: unat_saturating_add unat_of_nat)
  then show ?thesis
    using False split by (simp add: compact_progress_def recorded_entries_def Let_def)
qed

lemma compact_progress_length:
  "0 < max_progress_entries config \<Longrightarrow> length (progress (compact_progress config now r)) \<le> max_progress_entries config"
  by (auto simp: compact_progress_def Let_def)

lemma sorted_wrt_hd_drop:
  assumes "sorted_wrt (<) xs" and "0 < k" and "x \<in> set (drop k xs)"
  shows "hd xs < (x :: 'a :: linorder)"
proof -
  obtain y ys where xs: "xs = y # ys"
    using assms(3) by (cases xs) auto
  then have "x \<in> set ys"
    using assms(2,3) by (cases k) (auto dest: in_set_dropD)
  then show ?thesis
    using assms(1) xs by simp
qed

lemma compact_progress_ok:
  assumes "0 < max_progress_entries config" and "progress_ok None (progress r)"
  shows "progress_ok None (progress (compact_progress config now r))"
proof (cases "length (progress r) \<le> max_progress_entries config")
  case True
  then show ?thesis
    using assms by (simp add: compact_progress_def)
next
  case False
  let ?k = "length (progress r) - (max_progress_entries config - 1)"
  have k: "0 < ?k" "progress r \<noteq> []"
    using False assms(1) by auto
  have sorted: "sorted_wrt (<) (map pr_index (progress r))" and noted: "list_all (\<lambda>p. str_trim (pr_note p) \<noteq> []) (progress r)"
    using assms(2) by (simp_all add: progress_ok_def)
  have "pr_index (hd (progress r)) < pr_index e" if "e \<in> set (drop ?k (progress r))" for e
    using sorted_wrt_hd_drop [OF sorted k(1), of "pr_index e"] that k(2) by (simp add: drop_map hd_map)
  moreover have "sorted_wrt (<) (map pr_index (drop ?k (progress r)))"
    using sorted_wrt_drop [OF sorted, of ?k] by (simp add: drop_map)
  moreover have "list_all (\<lambda>p. str_trim (pr_note p) \<noteq> []) (drop ?k (progress r))"
    using noted by (auto simp: list_all_iff dest: in_set_dropD)
  moreover have "str_trim (lit (''compacted '' @ t)) \<noteq> []" for t
    by (simp add: str_trim_eq_Nil lit_def char_is_whitespace_def)
  ultimately show ?thesis
    using False by (auto simp: compact_progress_def progress_ok_def Let_def)
qed

lemma next_progress_index_above:
  assumes "room (Suc k) r" and "sorted_wrt (<) (map pr_index (progress r))" and "e \<in> set (progress r)"
  shows "pr_index e < next_progress_index r"
proof -
  have last: "progress r \<noteq> []" "last (progress r) \<in> set (progress r)"
    using assms(3) by (metis empty_iff last_in_set list.set(1))+
  have "pr_index (last (progress r)) \<noteq> - 1"
    by (rule room_index [OF assms(1) last(2)])
  then have "pr_index (last (progress r)) < next_progress_index r"
    using last(1) by (simp add: next_progress_index_def less_saturating_succ)
  moreover have "pr_index e \<le> pr_index (last (progress r))"
    using sorted_wrt_le_last [OF assms(2), of "pr_index e"] assms(3) last(1) by (simp add: last_map)
  ultimately show ?thesis
    by simp
qed

lemma with_progress_storable:
  assumes "storable r" and "room (Suc k) r" and "str_trim note \<noteq> []" and "0 < max_progress_entries config"
  shows "storable (with_progress config now note r)"
proof -
  let ?e = "\<lparr>pr_index = next_progress_index r, pr_note = note, pr_recorded_at = now, pr_compacted = False\<rparr>"
  have sorted: "sorted_wrt (<) (map pr_index (progress r))"
    using assms(1) by (simp add: storable_def)
  have "progress_ok None (progress (r\<lparr>progress := progress r @ [?e]\<rparr>))"
    using assms(1,3) next_progress_index_above [OF assms(2) sorted]
    by (auto simp: progress_ok_def storable_def sorted_wrt_append)
  then have "progress_ok None (progress (compact_progress config now (r\<lparr>progress := progress r @ [?e]\<rparr>)))"
    by (rule compact_progress_ok [OF assms(4)])
  then have "progress_ok None (progress (with_progress config now note r))"
    by (simp add: with_progress_def Let_def)
  moreover have "revision (with_progress config now note r) \<noteq> 0"
    by (simp add: saturating_succ_nonzero)
  ultimately show ?thesis
    using assms(1) by (simp add: storable_def progress_ok_def)
qed

lemma with_progress_entries:
  assumes "room (Suc k) r"
  shows "recorded_entries (with_progress config now note r) = recorded_entries r + 1"
proof -
  let ?r = "r\<lparr>progress := progress r @ [\<lparr>pr_index = next_progress_index r, pr_note = note, pr_recorded_at = now, pr_compacted = False\<rparr>]\<rparr>"
  have pushed: "recorded_entries ?r = recorded_entries r + 1"
    by (simp add: recorded_entries_def)
  then have "recorded_entries (compact_progress config now ?r) = recorded_entries r + 1"
    using assms by (simp add: compact_progress_entries room_def)
  then show ?thesis
    by (simp add: with_progress_def Let_def recorded_entries_def)
qed

lemma superseded_storable: "storable r \<Longrightarrow> storable (superseded now r)"
  by (simp add: storable_def superseded_def goal_is_closed_def saturating_succ_nonzero)

lemma closed_with_storable: "storable r \<Longrightarrow> goal_is_closed st \<Longrightarrow> storable (closed_with st now r)"
  by (simp add: storable_def closed_with_def saturating_succ_nonzero)

lemma new_goal_storable:
  "goal_id_new gid = Ok gid \<Longrightarrow> session_id_new sid = Ok sid \<Longrightarrow> str_trim t \<noteq> [] \<Longrightarrow> storable (new_goal sid gid t now)"
  by (simp add: storable_def new_goal_def goal_is_closed_def)

lemma compact_progress_indices:
  "e \<in> set (progress (compact_progress config now r)) \<Longrightarrow> progress r \<noteq> [] \<Longrightarrow> pr_index e \<in> pr_index ` set (progress r)"
  by (auto simp: compact_progress_def Let_def dest: in_set_dropD split: if_splits)

lemma with_progress_room:
  assumes "room (Suc k) r"
  shows "room k (with_progress config now note r)"
proof -
  let ?r = "r\<lparr>progress := progress r @ [\<lparr>pr_index = next_progress_index r, pr_note = note, pr_recorded_at = now, pr_compacted = False\<rparr>]\<rparr>"
  have new: "unat (next_progress_index r) + k < 2 ^ 64"
  proof (cases "progress r = []")
    case True
    then show ?thesis
      using assms by (simp add: next_progress_index_def room_def)
  next
    case False
    have "unat (pr_index (last (progress r))) + Suc k < 2 ^ 64"
      using assms False by (simp add: room_def list_all_iff)
    then show ?thesis
      using False by (simp add: next_progress_index_def unat_saturating_add)
  qed
  have "unat (pr_index e) + k < 2 ^ 64" if "e \<in> set (progress (compact_progress config now ?r))" for e
    using compact_progress_indices [OF that] new assms by (auto simp: room_def list_all_iff)
  then have "list_all (\<lambda>e. unat (pr_index e) + k < 2 ^ 64) (progress (with_progress config now note r))"
    by (simp add: list_all_iff with_progress_def Let_def)
  then show ?thesis
    using assms with_progress_entries [OF assms] by (simp add: room_def)
qed

lemma new_goal_room: "k < 2 ^ 64 \<Longrightarrow> room k (new_goal sid gid t now)"
  by (simp add: room_def recorded_entries_def new_goal_def)

lemma superseded_room: "room k r \<Longrightarrow> room k (superseded now r)"
  by (simp add: room_def recorded_entries_def superseded_def)

lemma closed_with_room: "room k r \<Longrightarrow> room k (closed_with st now r)"
  by (simp add: room_def recorded_entries_def closed_with_def)

section \<open>The contract\<close>

definition evolved :: "ustr set \<Rightarrow> 's record_view \<Rightarrow> 's \<Rightarrow> 's \<Rightarrow> bool" where
  "evolved U stored s s' \<longleftrightarrow> (\<forall>g \<in> U. \<forall>q. stored s g = Some q \<longrightarrow> (\<exists>q'. stored s' g = Some q' \<and> goal_step\<^sup>*\<^sup>* q q'))"

lemma evolved_refl [simp]: "evolved U stored s s"
  by (auto simp: evolved_def)

lemma evolved_trans: "evolved U stored s s' \<Longrightarrow> evolved U stored s' s'' \<Longrightarrow> evolved U stored s s''"
  unfolding evolved_def by (metis rtranclp_trans)

definition roomy :: "ustr set \<Rightarrow> 's record_view \<Rightarrow> nat \<Rightarrow> 's \<Rightarrow> bool" where
  "roomy U stored k s \<longleftrightarrow> k < 2 ^ 64 \<and> (\<forall>g \<in> U. \<forall>q. stored s g = Some q \<longrightarrow> room k q)"

lemma roomy_mono: "roomy U stored k s \<Longrightarrow> j \<le> k \<Longrightarrow> roomy U stored j s"
  by (auto simp: roomy_def intro: room_mono)

lemma roomy_room: "roomy U stored (k + c) s \<Longrightarrow> g \<in> U \<Longrightarrow> stored s g = Some q \<Longrightarrow> room k q"
  using room_mono [of "k + c" q k] by (simp add: roomy_def)

definition goals_of :: "'s record_view \<Rightarrow> 's list_view \<Rightarrow> 's \<Rightarrow> session_id \<Rightarrow> goal_record list" where
  "goals_of stored listed s sid = map (\<lambda>g. the (stored s g)) (listed s sid)"

definition has_active :: "'s record_view \<Rightarrow> 's list_view \<Rightarrow> 's \<Rightarrow> session_id \<Rightarrow> bool" where
  "has_active stored listed s sid \<longleftrightarrow> newest_active (goals_of stored listed s sid) \<noteq> None"

lemma newest_active_None: "newest_active xs = None \<longleftrightarrow> (\<forall>r \<in> set xs. status r \<noteq> Active)"
  by (auto simp: newest_active_def find_None_iff)

lemma newest_active_Some: "newest_active xs = Some r \<Longrightarrow> r \<in> set xs \<and> status r = Active"
  by (auto simp: newest_active_def find_Some_iff) (metis length_rev nth_mem set_rev)

lemma newest_active_snoc: "newest_active (xs @ [r]) = (if status r = Active then Some r else newest_active xs)"
  by (simp add: newest_active_def)

text \<open>Closing other goals leaves the newest active one in its place.\<close>

lemma newest_active_stays:
  assumes "newest_active (map f gs) = Some r" and "\<And>g. g \<in> set gs \<Longrightarrow> f g = r \<Longrightarrow> f' g = r"
    and "\<And>g. g \<in> set gs \<Longrightarrow> status (f' g) = Active \<Longrightarrow> status (f g) = Active"
  shows "newest_active (map f' gs) = Some r"
  using assms
proof (induction gs rule: rev_induct)
  case Nil
  then show ?case
    by simp
next
  case (snoc g gs)
  show ?case
  proof (cases "status (f g) = Active")
    case True
    then have "f g = r"
      using snoc.prems(1) by (simp add: newest_active_snoc)
    then show ?thesis
      using True snoc.prems(2) [of g] by (simp add: newest_active_snoc)
  next
    case False
    then have "newest_active (map f gs) = Some r" "status (f' g) \<noteq> Active"
      using snoc.prems(1) snoc.prems(3) [of g] by (auto simp: newest_active_snoc)
    then show ?thesis
      using snoc.IH snoc.prems(2,3) by (simp add: newest_active_snoc)
  qed
qed

lemma runs_retry_loop:
  assumes "\<And>k s. I (Suc k) s \<Longrightarrow> runs operation s (\<lambda>out s'. R s s' \<and> I k s' \<and> T out s')"
    and "\<And>s s' s''. R s s' \<Longrightarrow> R s' s'' \<Longrightarrow> R s s''"
    and "I (Suc n) s"
  shows "runs (retry_loop n operation) s (\<lambda>out s'. R s s' \<and> T out s')"
  using assms(3)
proof (induction n arbitrary: s)
  case 0
  obtain out s' where run: "operation s = (out, s')"
    by fastforce
  show ?case
    using assms(1) [OF 0] run by (auto simp: runs_def retry_loop.simps [of 0] split: option.splits result.splits)
next
  case (Suc n)
  obtain out s' where run: "operation s = (out, s')"
    by fastforce
  have step: "R s s'" "I (Suc n) s'" "T out s'"
    using assms(1) [OF Suc.prems] run by (simp_all add: runs_def)
  have "runs (retry_loop n operation) s' (\<lambda>out s''. R s s'' \<and> T out s'')"
    using Suc.IH [OF step(2)] by (rule runs_mono) (use step(1) assms(2) in blast)
  then show ?case
    using step run by (auto simp: runs_def retry_loop.simps [of "Suc n"] split: option.splits result.splits)
qed

text \<open>The identifiers that may be minted for a session are among those considered.\<close>

definition mints :: "ustr set \<Rightarrow> (ustr \<Rightarrow> ustr) \<Rightarrow> session_id \<Rightarrow> bool" where
  "mints U sess sid \<longleftrightarrow> (\<forall>n gid. goal_id_new (minted_id sid n) = Ok gid \<longrightarrow> gid \<in> U \<and> sess gid = sid)"

locale goal_port_contract =
  fixes ports :: "'s goal_ports" and good :: "'s \<Rightarrow> bool" and U S :: "ustr set" and sess :: "ustr \<Rightarrow> ustr"
    and stored :: "'s record_view" and listed :: "'s list_view"
  assumes stored_fits: "good s \<Longrightarrow> g \<in> U \<Longrightarrow> stored s g = Some r \<Longrightarrow> goal_id r = g \<and> admissible U sess r"
    and listed_fits: "good s \<Longrightarrow> sid \<in> S \<Longrightarrow> g \<in> set (listed s sid) \<Longrightarrow> g \<in> U \<and> sess g = sid \<and> stored s g \<noteq> None"
    and session_fits: "good s \<Longrightarrow> sid \<in> S \<Longrightarrow> session_id_new sid = Ok sid"
    and sess_known: "good s \<Longrightarrow> g \<in> U \<Longrightarrow> sess g \<in> S"
    and list_law: "good s \<Longrightarrow> sid \<in> S \<Longrightarrow> runs (port_list ports sid) s (\<lambda>out s'.
      good s' \<and> stored s' = stored s \<and> listed s' = listed s \<and> (\<forall>rs. out = Some (Ok rs) \<longrightarrow> rs = goals_of stored listed s sid))"
    and load_law: "good s \<Longrightarrow> g \<in> U \<Longrightarrow> runs (port_load ports g) s (\<lambda>out s'.
      good s' \<and> stored s' = stored s \<and> listed s' = listed s \<and> (\<forall>r. out = Some (Ok r) \<longrightarrow> r = stored s g))"
    and next_law: "good s \<Longrightarrow> sid \<in> S \<Longrightarrow> runs (port_next_ordinal ports sid) s (\<lambda>out s'.
      good s' \<and> stored s' = stored s \<and> listed s' = listed s)"
    and now_law: "good s \<Longrightarrow> runs (clock_now ports) s (\<lambda>out s'.
      good s' \<and> stored s' = stored s \<and> listed s' = listed s)"
    and save_law: "good s \<Longrightarrow> admissible U sess r \<Longrightarrow> runs (port_save ports r) s (\<lambda>out s'.
      good s' \<and> save_view U S stored listed s r s' \<and> (out = Some (Ok ()) \<longrightarrow> saved_view stored listed s r s'))"
begin

text \<open>What a program leaves behind: goals moved along steps, with room for \<open>c\<close> entries used up.\<close>

definition moves :: "nat \<Rightarrow> 's \<Rightarrow> 's \<Rightarrow> bool" where
  "moves c s s' \<longleftrightarrow> good s' \<and> evolved U stored s s' \<and> (\<forall>k. roomy U stored (k + c) s \<longrightarrow> roomy U stored k s')"

lemma moves_same:
  assumes "good s'" and "stored s' = stored s"
  shows "moves c s s'"
proof -
  have "roomy U stored k s'" if "roomy U stored (k + c) s" for k
    using roomy_mono [OF that, of k] assms(2) by (simp add: roomy_def)
  then show ?thesis
    using assms by (simp add: moves_def evolved_def)
qed

lemma moves_trans: "moves c s s' \<Longrightarrow> moves d s' s'' \<Longrightarrow> moves (c + d) s s''"
  unfolding moves_def by (metis add.assoc add.commute evolved_trans)

lemma moves_weaken: "moves c s s' \<Longrightarrow> c \<le> d \<Longrightarrow> moves d s s'"
  unfolding moves_def by (meson add_le_mono le_refl roomy_mono)

text \<open>A save whose record continues, starts or repeats the stored one.\<close>

lemma save_moves:
  assumes "good s" and "admissible U sess r" and "\<And>k. roomy U stored (k + c) s \<Longrightarrow> room k r"
    and "\<And>q. stored s (goal_id r) = Some q \<Longrightarrow> save_gate stored listed s r \<Longrightarrow> q = r \<or> goal_step q r"
  shows "runs (port_save ports r) s (\<lambda>out s'. moves c s s')"
proof (rule runs_mono [OF save_law [OF assms(1,2)]])
  fix out s'
  assume "good s' \<and> save_view U S stored listed s r s' \<and> (out = Some (Ok ()) \<longrightarrow> saved_view stored listed s r s')"
  then have good: "good s'" and others: "\<And>g. g \<in> U \<Longrightarrow> g \<noteq> goal_id r \<Longrightarrow> stored s' g = stored s g"
    and mine: "stored s' (goal_id r) = stored s (goal_id r) \<or> save_gate stored listed s r \<and> stored s' (goal_id r) = Some r"
    by (simp_all add: save_view_def)
  have "\<exists>q'. stored s' g = Some q' \<and> goal_step\<^sup>*\<^sup>* q q'" if "g \<in> U" "stored s g = Some q" for g q
    using others [OF that(1)] mine assms(4) that(2) by (cases "g = goal_id r") auto
  moreover have "room k q" if "roomy U stored (k + c) s" "g \<in> U" "stored s' g = Some q" for g q k
    using others [OF that(2)] mine assms(3) [OF that(1)] roomy_room [OF that(1,2)] that(3)
    by (cases "g = goal_id r") auto
  moreover have "k < 2 ^ 64" if "roomy U stored (k + c) s" for k
    using that by (simp add: roomy_def)
  ultimately show "moves c s s'"
    using good unfolding moves_def evolved_def roomy_def [of _ _ _ s'] by blast
qed

lemma first_revision_gate:
  assumes "good s" and "goal_id r \<in> U" and "revision r = 1" and "stored s (goal_id r) = Some q" and "save_gate stored listed s r"
  shows "q = r \<and> goal_id r \<notin> set (listed s (session_id r))"
proof -
  have "revision q \<noteq> 0"
    using stored_fits [OF assms(1,2,4)] by (simp add: admissible_def storable_def)
  then have "0 < unat (revision q)"
    by (simp add: unat_gt_0)
  then have "unat (saturating_add (revision q) 1) \<noteq> 1"
    by (simp add: unat_saturating_add)
  then have "saturating_add (revision q) 1 \<noteq> 1"
    by auto
  then show ?thesis
    using assms(3-5) by (simp add: save_gate_def)
qed

text \<open>Saving a fresh goal: every stored record stays, and on success the goal is listed last.\<close>

lemma save_fresh:
  assumes "good s" and "admissible U sess r" and "revision r = 1" and "\<And>k. roomy U stored (k + c) s \<Longrightarrow> room k r"
  shows "runs (port_save ports r) s (\<lambda>out s'. moves c s s'
     \<and> (\<forall>g \<in> U. stored s g \<noteq> None \<longrightarrow> stored s' g = stored s g)
     \<and> (\<forall>sid \<in> S. listed s' sid = listed s sid \<or> listed s' sid = listed s sid @ [goal_id r])
     \<and> (out = Some (Ok ()) \<longrightarrow> stored s' (goal_id r) = Some r
          \<and> listed s' (session_id r) = listed s (session_id r) @ [goal_id r] \<and> goal_id r \<notin> set (listed s (session_id r))))"
proof -
  have gU: "goal_id r \<in> U" and sS: "session_id r = sess (goal_id r)"
    using assms(2) by (simp_all add: admissible_def)
  note gate = first_revision_gate [OF assms(1) gU assms(3)]
  show ?thesis
  proof (rule runs_mono [OF runs_conj [OF save_moves [OF assms(1,2,4)] save_law [OF assms(1,2)]]])
    show "q = r \<or> goal_step q r" if "stored s (goal_id r) = Some q" "save_gate stored listed s r" for q
      using gate [OF that] by simp
  next
    fix out s'
    assume *: "moves c s s' \<and> good s' \<and> save_view U S stored listed s r s' \<and> (out = Some (Ok ()) \<longrightarrow> saved_view stored listed s r s')"
    have view: "save_view U S stored listed s r s'"
      using * by blast
    have kept: "stored s' g = stored s g" if g: "g \<in> U" "stored s g \<noteq> None" for g
    proof (cases "g = goal_id r")
      case True
      then obtain q where "stored s (goal_id r) = Some q"
        using g(2) by auto
      then show ?thesis
        using view gate [of q] True by (auto simp: save_view_def)
    next
      case False
      then show ?thesis
        using view g(1) by (simp add: save_view_def)
    qed
    have lists: "listed s' sid = listed s sid \<or> listed s' sid = listed s sid @ [goal_id r]" if "sid \<in> S" for sid
      using view that by (auto simp: save_view_def)
    have success: "stored s' (goal_id r) = Some r \<and> listed s' (session_id r) = listed s (session_id r) @ [goal_id r]
        \<and> goal_id r \<notin> set (listed s (session_id r))" if ended: "out = Some (Ok ())" "session_id r \<in> S"
    proof -
      have saved: "save_gate stored listed s r" "stored s' (goal_id r) = Some r" "goal_id r \<in> set (listed s' (session_id r))"
        using * ended(1) by (simp_all add: saved_view_def)
      have "goal_id r \<notin> set (listed s (session_id r))"
      proof
        assume "goal_id r \<in> set (listed s (session_id r))"
        then obtain q where "stored s (goal_id r) = Some q"
          using listed_fits [OF assms(1) ended(2)] by blast
        then show False
          using gate saved(1) \<open>goal_id r \<in> set (listed s (session_id r))\<close> by blast
      qed
      then show ?thesis
        using saved lists [OF ended(2)] by auto
    qed
    show "moves c s s' \<and> (\<forall>g \<in> U. stored s g \<noteq> None \<longrightarrow> stored s' g = stored s g)
     \<and> (\<forall>sid \<in> S. listed s' sid = listed s sid \<or> listed s' sid = listed s sid @ [goal_id r])
     \<and> (out = Some (Ok ()) \<longrightarrow> stored s' (goal_id r) = Some r
          \<and> listed s' (session_id r) = listed s (session_id r) @ [goal_id r] \<and> goal_id r \<notin> set (listed s (session_id r)))"
      using * kept lists success sS sess_known [OF assms(1) gU] by simp
  qed
qed

lemma active_runs:
  assumes "good s" and "sid \<in> S"
  shows "runs (active ports sid) s (\<lambda>out s'. good s' \<and> stored s' = stored s \<and> listed s' = listed s
     \<and> (\<forall>r. out = Some (Ok r) \<longrightarrow> r = newest_active (goals_of stored listed s sid)))"
  unfolding active_def run_simps
  by (rule runs_mono [OF list_law [OF assms]]) (auto split: option.splits result.splits)

lemma newest_stored:
  assumes "good s" and "sid \<in> S" and "newest_active (goals_of stored listed s sid) = Some p"
  shows "goal_id p \<in> set (listed s sid)" "goal_id p \<in> U" "stored s (goal_id p) = Some p" "admissible U sess p" "session_id p = sid" "status p = Active"
proof -
  have "p \<in> set (goals_of stored listed s sid)" and active: "status p = Active"
    using newest_active_Some [OF assms(3)] by simp_all
  then obtain g where g: "g \<in> set (listed s sid)" "p = the (stored s g)"
    by (auto simp: goals_of_def)
  have fits: "g \<in> U" "sess g = sid" "stored s g = Some p"
    using listed_fits [OF assms(1,2) g(1)] g(2) by auto
  note here = stored_fits [OF assms(1) fits(1,3)]
  show "goal_id p \<in> set (listed s sid)" "goal_id p \<in> U" "stored s (goal_id p) = Some p" "admissible U sess p" "status p = Active"
    using g fits here active by auto
  show "session_id p = sid"
    using here fits by (simp add: admissible_def)
qed

text \<open>Closing a listed active goal: only its record may change.\<close>

lemma save_next:
  assumes "good s" and "sid \<in> S" and "goal_id p \<in> set (listed s sid)" and "stored s (goal_id p) = Some p"
    and "goal_step p r" and "storable r" and "\<And>k. roomy U stored (k + c) s \<Longrightarrow> room k r"
  shows "runs (port_save ports r) s (\<lambda>out s'. moves c s s'
     \<and> (\<forall>g \<in> U. g \<noteq> goal_id p \<longrightarrow> stored s' g = stored s g) \<and> listed s' sid = listed s sid
     \<and> (stored s' (goal_id p) = Some p \<or> stored s' (goal_id p) = Some r) \<and> (out = Some (Ok ()) \<longrightarrow> stored s' (goal_id p) = Some r))"
proof -
  have ids: "goal_id r = goal_id p" "session_id r = session_id p"
    using assms(5) by (simp_all add: goal_step_def)
  have listed: "goal_id p \<in> U" "sess (goal_id p) = sid"
    using listed_fits [OF assms(1-3)] by auto
  have "admissible U sess p"
    using stored_fits [OF assms(1) listed(1) assms(4)] by simp
  then have adm: "admissible U sess r"
    using ids assms(6) by (simp add: admissible_def)
  show ?thesis
  proof (rule runs_mono [OF runs_conj [OF save_moves [OF assms(1) adm assms(7)] save_law [OF assms(1) adm]]])
    show "q = r \<or> goal_step q r" if "stored s (goal_id r) = Some q" for q
      using that assms(4,5) ids by simp
  next
    fix out s'
    assume *: "moves c s s' \<and> good s' \<and> save_view U S stored listed s r s' \<and> (out = Some (Ok ()) \<longrightarrow> saved_view stored listed s r s')"
    then have "listed s' sid = listed s sid"
      using assms(2,3) ids by (auto simp: save_view_def)
    then show "moves c s s' \<and> (\<forall>g \<in> U. g \<noteq> goal_id p \<longrightarrow> stored s' g = stored s g) \<and> listed s' sid = listed s sid
     \<and> (stored s' (goal_id p) = Some p \<or> stored s' (goal_id p) = Some r) \<and> (out = Some (Ok ()) \<longrightarrow> stored s' (goal_id p) = Some r)"
      using * ids assms(4) by (auto simp: save_view_def saved_view_def)
  qed
qed

text \<open>What replacing the active goal achieves, and what every interruption of it leaves.\<close>

definition replaced :: "session_id \<Rightarrow> goal_record \<Rightarrow> int \<Rightarrow> 's \<Rightarrow> 's \<Rightarrow> bool" where
  "replaced sid r now s s' \<longleftrightarrow>
     newest_active (goals_of stored listed s' sid) = Some r \<and> listed s' sid = listed s sid @ [goal_id r]
     \<and> (\<forall>g \<in> set (listed s sid). stored s' g = (case newest_active (goals_of stored listed s sid) of
          Some p \<Rightarrow> if g = goal_id p then Some (superseded now p) else stored s g | None \<Rightarrow> stored s g))"

lemma goals_of_snoc:
  "listed s' sid = listed s sid @ [g] \<Longrightarrow> goals_of stored listed s' sid = map (\<lambda>h. the (stored s' h)) (listed s sid) @ [the (stored s' g)]"
  by (simp add: goals_of_def)

lemma has_activeI: "g \<in> set (listed s sid) \<Longrightarrow> stored s g = Some r \<Longrightarrow> status r = Active \<Longrightarrow> has_active stored listed s sid"
  by (force simp: has_active_def newest_active_None goals_of_def)

lemma replace_active_runs:
  assumes "good s" and "sid \<in> S" and "admissible U sess r" and "session_id r = sid" and "status r = Active" and "revision r = 1"
    and "\<And>k. roomy U stored k s \<Longrightarrow> room k r"
  shows "runs (replace_active ports (newest_active (goals_of stored listed s sid)) r now) s (\<lambda>out s'.
     moves 0 s s' \<and> (has_active stored listed s sid \<longrightarrow> has_active stored listed s' sid)
     \<and> (\<forall>x. out = Some (Ok x) \<longrightarrow> x = r \<and> replaced sid r now s s'))"
proof -
  let ?p = "newest_active (goals_of stored listed s sid)"
  have still: "has_active stored listed s' sid" if act: "has_active stored listed s sid"
      and kept: "\<forall>g \<in> U. stored s g \<noteq> None \<longrightarrow> stored s' g = stored s g" "set (listed s sid) \<subseteq> set (listed s' sid)" for s'
  proof -
    obtain p where p: "?p = Some p"
      using act by (auto simp: has_active_def)
    show ?thesis
      using newest_stored [OF assms(1,2) p] kept by (auto intro!: has_activeI [of "goal_id p" _ _ p])
  qed
  have fresh: "runs (port_save ports r) s (\<lambda>out s1. moves 0 s s1
     \<and> (\<forall>g \<in> U. stored s g \<noteq> None \<longrightarrow> stored s1 g = stored s g)
     \<and> (\<forall>sid \<in> S. listed s1 sid = listed s sid \<or> listed s1 sid = listed s sid @ [goal_id r])
     \<and> (out = Some (Ok ()) \<longrightarrow> stored s1 (goal_id r) = Some r
          \<and> listed s1 (session_id r) = listed s (session_id r) @ [goal_id r] \<and> goal_id r \<notin> set (listed s (session_id r))))"
    by (rule save_fresh [OF assms(1,3,6)]) (simp add: assms(7))
  let ?Q = "\<lambda>out s'. moves 0 s s' \<and> (has_active stored listed s sid \<longrightarrow> has_active stored listed s' sid)
     \<and> (\<forall>x. out = Some (Ok x) \<longrightarrow> x = r \<and> replaced sid r now s s')"
  have rest: "runs (case ?p of Some p \<Rightarrow> port_call (port_save ports (superseded now p)) | None \<Rightarrow> prog_ok ()) s1
      (\<lambda>out s'. case out of None \<Rightarrow> ?Q None s' | Some (Err e) \<Rightarrow> ?Q (Some (Err e)) s' | Some (Ok _) \<Rightarrow> ?Q (Some (Ok r)) s')"
    if moved: "moves 0 s s1" and kept: "\<forall>g \<in> U. stored s g \<noteq> None \<longrightarrow> stored s1 g = stored s g"
      and saved: "stored s1 (goal_id r) = Some r" "listed s1 sid = listed s sid @ [goal_id r]" "goal_id r \<notin> set (listed s sid)" for s1
  proof (cases ?p)
    case None
    have "newest_active (goals_of stored listed s1 sid) = Some r"
      using saved assms(5) by (simp add: goals_of_snoc newest_active_snoc)
    moreover have "stored s1 g = stored s g" if "g \<in> set (listed s sid)" for g
      using kept listed_fits [OF assms(1,2) that] by blast
    ultimately show ?thesis
      using moved saved(2) None by (simp add: run_simps replaced_def has_active_def)
  next
    case (Some p)
    note p = newest_stored [OF assms(1,2) Some]
    have good1: "good s1" and p1: "stored s1 (goal_id p) = Some p" "goal_id p \<in> set (listed s1 sid)" "goal_id p \<noteq> goal_id r"
      using moved kept p saved(2,3) by (auto simp: moves_def)
    have stor: "storable (superseded now p)" and step: "goal_step p (superseded now p)"
      using p(4,6) by (auto simp: admissible_def superseded_storable superseded_goal_step)
    have rm: "room k (superseded now p)" if "roomy U stored (k + 0) s1" for k
      using that p(2) p1(1) by (auto simp: roomy_def intro: superseded_room)
    show ?thesis
      unfolding Some option.case run_simps
    proof (rule runs_mono [OF save_next [OF good1 assms(2) p1(2,1) step stor rm]], assumption)
      fix out :: "(unit, port_error) result option" and s'
      assume *: "moves 0 s1 s' \<and> (\<forall>g \<in> U. g \<noteq> goal_id p \<longrightarrow> stored s' g = stored s1 g) \<and> listed s' sid = listed s1 sid
        \<and> (stored s' (goal_id p) = Some p \<or> stored s' (goal_id p) = Some (superseded now p))
        \<and> (out = Some (Ok ()) \<longrightarrow> stored s' (goal_id p) = Some (superseded now p))"
      have r': "stored s' (goal_id r) = Some r"
        using * saved(1) p1(3) assms(3) by (auto simp: admissible_def)
      then have newest: "newest_active (goals_of stored listed s' sid) = Some r"
        using * saved(2) assms(5) by (simp add: goals_of_snoc newest_active_snoc)
      have "moves 0 s s'"
        using moves_trans [OF moved, of 0 s'] * by simp
      moreover have "replaced sid r now s s'" if "out = Some (Ok ())"
      proof -
        have "stored s' g = (if g = goal_id p then Some (superseded now p) else stored s g)" if "g \<in> set (listed s sid)" for g
          using * \<open>out = Some (Ok ())\<close> kept listed_fits [OF assms(1,2) that] by auto
        then show ?thesis
          using newest * saved(2) Some by (simp add: replaced_def)
      qed
      ultimately show "case (case out of None \<Rightarrow> None | Some (Err e) \<Rightarrow> Some (Err (Port e)) | Some (Ok a) \<Rightarrow> Some (Ok a)) of
          None \<Rightarrow> ?Q None s' | Some (Err e) \<Rightarrow> ?Q (Some (Err e)) s' | Some (Ok _) \<Rightarrow> ?Q (Some (Ok r)) s'"
        using newest by (auto simp: has_active_def split: option.splits result.splits)
    qed
  qed
  show ?thesis
    unfolding replace_active_def run_simps
  proof (rule runs_mono [OF fresh], goal_cases)
    case (1 out s1)
    have grown: "listed s1 sid = listed s sid \<or> listed s1 sid = listed s sid @ [goal_id r]"
      using 1 assms(2) by blast
    have "set (listed s sid) \<subseteq> set (listed s1 sid)"
      using grown by auto
    then have quiet: "?Q None s1" "?Q (Some (Err e)) s1" for e
      using 1 still [of s1] by simp_all
    have ahead: ?case if "out = Some (Ok ())"
      using rest [of s1] 1 that assms(4) by (simp add: run_simps)
    show ?case
    proof (cases out)
      case None
      then show ?thesis
        using quiet by simp
    next
      case (Some x)
      then show ?thesis
        using quiet ahead by (cases x) auto
    qed
  qed
qed

text \<open>The objective a goal is set to, and the identifiers the operation may mint.\<close>

lemma validated: "validate_objective config t = Ok t' \<Longrightarrow> t' = str_trim t \<and> t' \<noteq> []"
  by (auto simp: validate_objective_def Let_def split: if_splits)

text \<open>The outcome of setting a goal in a session: legal moves, never less than an active goal, and on success the goal is it.\<close>

definition set_outcome :: "session_id \<Rightarrow> 's \<Rightarrow> (goal_record, goal_error) result option \<Rightarrow> 's \<Rightarrow> bool" where
  "set_outcome sid s out s' \<longleftrightarrow>
     moves 0 s s' \<and> (has_active stored listed s sid \<longrightarrow> has_active stored listed s' sid)
     \<and> (\<forall>r. out = Some (Ok r) \<longrightarrow> (\<exists>now. replaced sid r now s s'))"

lemma set_outcome_same:
  "good s' \<Longrightarrow> stored s' = stored s \<Longrightarrow> listed s' = listed s \<Longrightarrow> (\<And>r. out \<noteq> Some (Ok r)) \<Longrightarrow> set_outcome sid s out s'"
  by (simp add: set_outcome_def moves_same has_active_def goals_of_def)

lemma set_outcome_from:
  assumes "stored s1 = stored s" and "listed s1 = listed s" and "set_outcome sid s1 out s'"
  shows "set_outcome sid s out s'"
  using assms(3) unfolding set_outcome_def moves_def evolved_def roomy_def has_active_def goals_of_def replaced_def assms(1,2) .

lemma set_goal_runs:
  assumes "good s" and "sid \<in> S" and "gid \<in> U" and "sess gid = sid" and "goal_id_new gid = Ok gid"
  shows "runs (set_goal ports config sid gid t) s (set_outcome sid s)"
proof (cases "validate_objective config t")
  case (Err e)
  then show ?thesis
    using assms(1) by (simp add: set_goal_def run_simps set_outcome_same)
next
  case (Ok t')
  have "str_trim t' \<noteq> []"
    using validated [OF Ok] by auto
  then have adm: "admissible U sess (new_goal sid gid t' now)" for now
    using new_goal_storable [OF assms(5) session_fits [OF assms(1,2)], of t' now] assms(3,4)
    by (simp add: admissible_def) (simp add: new_goal_def)
  have replacing: "runs (replace_active ports (newest_active (goals_of stored listed s2 sid)) (new_goal sid gid t' now) now) s2
      (set_outcome sid s2)" if "good s2" for s2 now
  proof (rule runs_mono [OF replace_active_runs [OF that assms(2) adm]])
    show "session_id (new_goal sid gid t' now) = sid" "status (new_goal sid gid t' now) = Active" "revision (new_goal sid gid t' now) = 1"
      by (simp_all add: new_goal_def)
    show "room k (new_goal sid gid t' now)" if "roomy U stored k s2" for k
      using that by (simp add: roomy_def new_goal_room)
  qed (auto simp: set_outcome_def)
  have "runs (prog_bind (clock_now ports) (\<lambda>now. prog_bind (active ports sid) (\<lambda>previous.
      replace_active ports previous (new_goal sid gid t' now) now))) s (set_outcome sid s)"
  proof (rule runs_bindI [OF now_law [OF assms(1)]])
    fix now s1
    assume s1: "good s1 \<and> stored s1 = stored s \<and> listed s1 = listed s"
    show "runs (prog_bind (active ports sid) (\<lambda>previous. replace_active ports previous (new_goal sid gid t' now) now)) s1 (set_outcome sid s)"
    proof (rule runs_bindI [OF active_runs])
      fix previous s2
      assume s2: "good s2 \<and> stored s2 = stored s1 \<and> listed s2 = listed s1
        \<and> (\<forall>r. Some (Ok previous :: (goal_record option, goal_error) result) = Some (Ok r) \<longrightarrow> r = newest_active (goals_of stored listed s1 sid))"
      then have previous: "previous = newest_active (goals_of stored listed s2 sid)"
        by (simp add: goals_of_def)
      have "runs (replace_active ports previous (new_goal sid gid t' now) now) s2 (set_outcome sid s2)"
        unfolding previous by (rule replacing) (use s2 in blast)
      then show "runs (replace_active ports previous (new_goal sid gid t' now) now) s2 (set_outcome sid s)"
        by (rule runs_mono) (rule set_outcome_from, use s1 s2 in simp_all)
    qed (use s1 assms(2) in \<open>auto simp: set_outcome_same\<close>)
  qed (auto simp: set_outcome_same)
  then show ?thesis
    by (simp add: set_goal_def run_simps Ok)
qed

lemma require_active_runs:
  assumes "good s" and "gid \<in> U"
  shows "runs (require_active ports gid) s (\<lambda>out s'. good s' \<and> stored s' = stored s \<and> listed s' = listed s
     \<and> (\<forall>r. out = Some (Ok r) \<longrightarrow> stored s gid = Some r \<and> status r = Active))"
  unfolding require_active_def
proof (rule runs_call_bindI [OF load_law [OF assms]])
  fix found s'
  assume "good s' \<and> stored s' = stored s \<and> listed s' = listed s
    \<and> (\<forall>r. Some (Ok found :: (goal_record option, port_error) result) = Some (Ok r) \<longrightarrow> r = stored s gid)"
  then show "runs (case found of None \<Rightarrow> prog_err (UnknownGoal gid)
       | Some r \<Rightarrow> if goal_is_closed (status r) then prog_err (GoalAlreadyClosed gid (status r)) else prog_ok r) s'
     (\<lambda>out s'. good s' \<and> stored s' = stored s \<and> listed s' = listed s \<and> (\<forall>r. out = Some (Ok r) \<longrightarrow> stored s gid = Some r \<and> status r = Active))"
    by (auto simp: run_simps goal_is_closed_def split: option.splits)
qed simp_all

text \<open>Changing the stored record of an active goal by one step: closing it, or adding progress.\<close>

definition changed :: "nat \<Rightarrow> goal_id \<Rightarrow> 's \<Rightarrow> (goal_record, goal_error) result option \<Rightarrow> 's \<Rightarrow> bool" where
  "changed c gid s out s' \<longleftrightarrow>
     moves c s s' \<and> (\<forall>g \<in> U. g \<noteq> gid \<longrightarrow> stored s' g = stored s g)
     \<and> (\<forall>sid \<in> S. gid \<in> set (listed s sid) \<longrightarrow> listed s' sid = listed s sid)
     \<and> (\<forall>r. out = Some (Ok r) \<longrightarrow> (\<exists>q. stored s gid = Some q \<and> goal_step q r \<and> stored s' gid = Some r))"

lemma changed_same: "good s' \<Longrightarrow> stored s' = stored s \<Longrightarrow> listed s' = listed s \<Longrightarrow> (\<And>r. out \<noteq> Some (Ok r)) \<Longrightarrow> changed c gid s out s'"
  by (simp add: changed_def moves_same)

lemma update_active_runs:
  assumes "good s" and "gid \<in> U"
    and "\<And>q now. stored s gid = Some q \<Longrightarrow> status q = Active \<Longrightarrow> goal_step q (f now q) \<and> storable (f now q)"
    and "\<And>q now k. stored s gid = Some q \<Longrightarrow> roomy U stored (k + c) s \<Longrightarrow> room k (f now q)"
  shows "runs (prog_bind (require_active ports gid) (\<lambda>r. prog_bind (clock_now ports) (\<lambda>now.
     prog_bind (port_call (port_save ports (f now r))) (\<lambda>_. prog_ok (f now r))))) s (changed c gid s)"
proof (rule runs_bindI [OF require_active_runs [OF assms(1,2)]])
  fix q s1
  assume "good s1 \<and> stored s1 = stored s \<and> listed s1 = listed s
    \<and> (\<forall>r. Some (Ok q :: (goal_record, goal_error) result) = Some (Ok r) \<longrightarrow> stored s gid = Some r \<and> status r = Active)"
  then have s1: "good s1" "stored s1 = stored s" "listed s1 = listed s" and q: "stored s gid = Some q" "status q = Active"
    by simp_all
  show "runs (prog_bind (clock_now ports) (\<lambda>now. prog_bind (port_call (port_save ports (f now q))) (\<lambda>_. prog_ok (f now q)))) s1 (changed c gid s)"
  proof (rule runs_bindI [OF now_law [OF s1(1)]])
    fix now s2
    assume "good s2 \<and> stored s2 = stored s1 \<and> listed s2 = listed s1"
    then have s2: "good s2" "stored s2 = stored s" "listed s2 = listed s"
      using s1 by simp_all
    have step: "goal_step q (f now q)" "storable (f now q)"
      using assms(3) [OF q] by simp_all
    have id: "goal_id q = gid" "admissible U sess q"
      using stored_fits [OF assms(1,2) q(1)] by simp_all
    have ids: "goal_id (f now q) = gid"
      using step(1) id by (simp add: goal_step_def)
    have adm: "admissible U sess (f now q)"
      using step id by (simp add: admissible_def goal_step_def)
    have room: "room k (f now q)" if "roomy U stored (k + c) s2" for k
      using assms(4) [OF q(1)] that s2(2) by (simp add: roomy_def)
    have cont: "x = f now q \<or> goal_step x (f now q)" if "stored s2 (goal_id (f now q)) = Some x" for x
      using that s2(2) q(1) ids step(1) by simp
    show "runs (prog_bind (port_call (port_save ports (f now q))) (\<lambda>_. prog_ok (f now q))) s2 (changed c gid s)"
    proof (rule runs_call_bindI [OF runs_conj [OF save_moves [OF s2(1) adm room cont] save_law [OF s2(1) adm]]], assumption, assumption, goal_cases)
      case (1 s')
      then show ?case
        using s2 ids by (auto simp: changed_def save_view_def moves_def evolved_def roomy_def)
    next
      case (2 e s')
      then show ?case
        using s2 ids by (auto simp: changed_def save_view_def moves_def evolved_def roomy_def)
    next
      case (3 u s')
      then show ?case
        using s2 ids q(1) step(1)
        by (auto simp: run_simps changed_def save_view_def saved_view_def moves_def evolved_def roomy_def)
    qed
  qed (use s1 in \<open>auto simp: changed_same\<close>)
qed (auto simp: changed_same)

lemma close_goal_runs:
  assumes "good s" and "gid \<in> U"
  shows "runs (close_goal ports gid st) s (changed 0 gid s)"
proof (cases "goal_is_closed st")
  case False
  then show ?thesis
    using assms(1) by (simp add: close_goal_def run_simps changed_same)
next
  case True
  have "goal_step q (closed_with st now q) \<and> storable (closed_with st now q)" if "stored s gid = Some q" "status q = Active" for q now
    using that stored_fits [OF assms that(1)] True by (simp add: admissible_def closed_with_step closed_with_storable)
  moreover have "room k (closed_with st now q)" if "stored s gid = Some q" "roomy U stored (k + 0) s" for q now k
    using roomy_room [OF that(2) assms(2) that(1)] by (rule closed_with_room)
  ultimately show ?thesis
    unfolding close_goal_def Let_def using update_active_runs [OF assms, of "closed_with st" 0] True by simp
qed

lemma record_progress_runs:
  assumes "good s" and "gid \<in> U" and "roomy U stored 1 s"
  shows "runs (record_progress ports config gid t) s (changed 1 gid s)"
proof (cases "max_progress_entries config = 0 \<or> str_trim t = [] \<or> utf8_length (str_trim t) > max_note_bytes config")
  case True
  then show ?thesis
    using assms(1) by (auto simp: record_progress_def Let_def run_simps changed_same)
next
  case False
  have "goal_step q (with_progress config now (str_trim t) q) \<and> storable (with_progress config now (str_trim t) q)"
    if "stored s gid = Some q" "status q = Active" for q now
    using that stored_fits [OF assms(1,2) that(1)] roomy_room [of U stored 1 0 s gid q] assms(2,3) False
    by (simp add: admissible_def with_progress_step with_progress_storable)
  moreover have "room k (with_progress config now (str_trim t) q)" if "stored s gid = Some q" "roomy U stored (k + 1) s" for q now k
    using roomy_room [of U stored "Suc k" 0 s gid q] that assms(2) by (simp add: with_progress_room)
  ultimately show ?thesis
    unfolding record_progress_def Let_def
    using update_active_runs [OF assms(1,2), of "\<lambda>now. with_progress config now (str_trim t)" 1] False by simp
qed

lemma adopt_orphan_runs:
  assumes "good s" and "sid \<in> S" and "gid \<in> U" and "stored s gid = Some r" and "is_equivalent_new_goal r sid t"
  shows "runs (prog_bind (active ports sid) (\<lambda>previous. replace_active ports previous r (created_at r))) s (set_outcome sid s)"
proof (rule runs_bindI [OF active_runs [OF assms(1,2)]])
  fix previous s1
  assume s1: "good s1 \<and> stored s1 = stored s \<and> listed s1 = listed s
    \<and> (\<forall>x. Some (Ok previous :: (goal_record option, goal_error) result) = Some (Ok x) \<longrightarrow> x = newest_active (goals_of stored listed s sid))"
  then have previous: "previous = newest_active (goals_of stored listed s1 sid)"
    by (simp add: goals_of_def)
  have fits: "admissible U sess r"
    using stored_fits [OF assms(1,3,4)] by simp
  have "runs (replace_active ports previous r (created_at r)) s1 (set_outcome sid s1)"
    unfolding previous
  proof (rule runs_mono [OF replace_active_runs [OF _ assms(2) fits]])
    show "good s1"
      using s1 by blast
    show "session_id r = sid" "status r = Active" "revision r = 1"
      using assms(5) by (simp_all add: is_equivalent_new_goal_def)
    show "room k r" if "roomy U stored k s1" for k
      using roomy_room [of U stored k 0 s1 gid r] that s1 assms(3,4) by simp
  qed (auto simp: set_outcome_def)
  then show "runs (replace_active ports previous r (created_at r)) s1 (set_outcome sid s)"
    by (rule runs_mono) (rule set_outcome_from, use s1 in simp_all)
qed (auto simp: set_outcome_same)

lemma set_goal_from:
  assumes "good s1" and "stored s1 = stored s" and "listed s1 = listed s" and "sid \<in> S" and "gid \<in> U" and "sess gid = sid"
    and "goal_id_new gid = Ok gid"
  shows "runs (set_goal ports config sid gid t) s1 (set_outcome sid s)"
  using set_goal_runs [OF assms(1,4-7)] by (rule runs_mono) (rule set_outcome_from [OF assms(2,3)])

lemma start_goal_runs:
  assumes "good s" and "sid \<in> S" and "mints U sess sid"
  shows "runs (start_goal ports config sid t) s (set_outcome sid s)"
proof (cases "validate_objective config t")
  case (Err e)
  then show ?thesis
    using assms(1) by (simp add: start_goal_def run_simps set_outcome_same)
next
  case (Ok t')
  let ?found = "\<lambda>gid found. case found of
         Some orphan \<Rightarrow>
           if is_equivalent_new_goal orphan sid t'
           then prog_bind (active ports sid) (\<lambda>previous. replace_active ports previous orphan (created_at orphan))
           else set_goal ports config sid gid t'
       | None \<Rightarrow> set_goal ports config sid gid t'"
  have "runs (prog_bind (port_call (port_next_ordinal ports sid)) (\<lambda>ordinal.
      prog_bind (prog_of (case goal_id_new (minted_id sid ordinal) of Ok gid \<Rightarrow> Ok gid | Err e \<Rightarrow> Err (UnusableGoalId e))) (\<lambda>gid.
      prog_bind (port_call (port_load ports gid)) (?found gid)))) s (set_outcome sid s)"
  proof (rule runs_call_bindI [OF next_law [OF assms(1,2)]])
    fix n s1
    assume s1: "good s1 \<and> stored s1 = stored s \<and> listed s1 = listed s"
    show "runs (prog_bind (prog_of (case goal_id_new (minted_id sid n) of Ok gid \<Rightarrow> Ok gid | Err e \<Rightarrow> Err (UnusableGoalId e))) (\<lambda>gid.
      prog_bind (port_call (port_load ports gid)) (?found gid))) s1 (set_outcome sid s)"
    proof (cases "goal_id_new (minted_id sid n)")
      case (Err e)
      then show ?thesis
        using s1 by (simp add: run_simps set_outcome_same)
    next
      case (Ok gid)
      have gid: "gid \<in> U" "sess gid = sid" "goal_id_new gid = Ok gid"
        using assms(3) Ok goal_id_new_fixed [OF Ok] by (auto simp: mints_def)
      have "runs (prog_bind (port_call (port_load ports gid)) (?found gid)) s1 (set_outcome sid s)"
      proof (rule runs_call_bindI [OF load_law [of s1 gid]])
        fix found s2
        assume s2: "good s2 \<and> stored s2 = stored s1 \<and> listed s2 = listed s1
          \<and> (\<forall>r. Some (Ok found :: (goal_record option, port_error) result) = Some (Ok r) \<longrightarrow> r = stored s1 gid)"
        have same: "stored s2 = stored s" "listed s2 = listed s" and good2: "good s2" and found: "found = stored s2 gid"
          using s1 s2 by simp_all
        have fresh: "runs (set_goal ports config sid gid t') s2 (set_outcome sid s)"
          by (rule set_goal_from [OF good2 same assms(2) gid])
        show "runs (?found gid found) s2 (set_outcome sid s)"
        proof (cases found)
          case None
          then show ?thesis
            using fresh by simp
        next
          case (Some orphan)
          have "runs (prog_bind (active ports sid) (\<lambda>previous. replace_active ports previous orphan (created_at orphan))) s2 (set_outcome sid s)"
            if "is_equivalent_new_goal orphan sid t'"
            using adopt_orphan_runs [OF good2 assms(2) gid(1) _ that] Some found
            by (auto elim!: runs_mono intro: set_outcome_from [OF same])
          then show ?thesis
            using Some fresh by simp
        qed
      qed (use s1 gid in \<open>auto simp: set_outcome_same\<close>)
      then show ?thesis
        using Ok by (simp add: run_simps)
    qed
  qed (auto simp: set_outcome_same)
  then show ?thesis
    by (simp add: start_goal_def run_simps Ok)
qed

lemma apply_action_runs:
  assumes "good s" and "sid \<in> S" and "mints U sess sid" and "roomy U stored 1 s"
  shows "runs (apply_action ports config sid action) s (\<lambda>_ s'. moves 1 s s')"
proof -
  have from_same: "moves c s s'" if "moves c s1 s'" "stored s1 = stored s" for c s1 s'
    using that by (simp add: moves_def evolved_def roomy_def)
  have on_active: "runs (prog_bind (active ports sid) (\<lambda>current. case current of None \<Rightarrow> prog_err NoActiveGoal | Some r \<Rightarrow> k (goal_id r))) s (\<lambda>_ s'. moves 1 s s')"
    if k: "\<And>gid s1. good s1 \<Longrightarrow> gid \<in> U \<Longrightarrow> roomy U stored 1 s1 \<Longrightarrow> runs (k gid) s1 (changed c gid s1)" and c: "c \<le> 1"
    for k :: "goal_id \<Rightarrow> ('s, goal_record, goal_error) prog" and c
  proof (rule runs_bindI [OF active_runs [OF assms(1,2)]])
    fix current s1
    assume s1: "good s1 \<and> stored s1 = stored s \<and> listed s1 = listed s
      \<and> (\<forall>r. Some (Ok current :: (goal_record option, goal_error) result) = Some (Ok r) \<longrightarrow> r = newest_active (goals_of stored listed s sid))"
    show "runs (case current of None \<Rightarrow> prog_err NoActiveGoal | Some r \<Rightarrow> k (goal_id r)) s1 (\<lambda>_ s'. moves 1 s s')"
    proof (cases current)
      case None
      then show ?thesis
        using s1 by (simp add: run_simps moves_same)
    next
      case (Some r)
      have "goal_id r \<in> U"
        using newest_stored(2) [OF assms(1,2), of r] s1 Some by simp
      then have "runs (k (goal_id r)) s1 (changed c (goal_id r) s1)"
        using k s1 assms(4) by (simp add: roomy_def)
      then show ?thesis
        unfolding Some option.case
        by (rule runs_mono) (use s1 c in \<open>auto simp: changed_def intro: moves_weaken from_same\<close>)
    qed
  qed (auto simp: moves_same)
  show ?thesis
  proof (cases action)
    case (SetAction t)
    then show ?thesis
      using start_goal_runs [OF assms(1-3), of config t] by (auto simp: apply_action_def set_outcome_def elim!: runs_mono intro: moves_weaken)
  next
    case (ProgressAction t)
    then show ?thesis
      using on_active [of "\<lambda>gid. record_progress ports config gid t" 1] record_progress_runs by (simp add: apply_action_def)
  next
    case (CloseAction st)
    then show ?thesis
      using on_active [of "\<lambda>gid. close_goal ports gid st" 0] close_goal_runs by (simp add: apply_action_def)
  qed
qed

lemma retry_apply_runs:
  assumes "good s" and "sid \<in> S" and "mints U sess sid" and "roomy U stored 3 s"
  shows "runs (retry_conflicts (apply_action ports config sid action)) s (\<lambda>_ s'. good s' \<and> evolved U stored s s')"
proof -
  have "runs (retry_loop 2 (apply_action ports config sid action)) s (\<lambda>_ s'. (good s' \<and> evolved U stored s s') \<and> True)"
  proof (rule runs_retry_loop [where I = "\<lambda>k s. good s \<and> roomy U stored k s" and R = "\<lambda>s s'. good s' \<and> evolved U stored s s'"
        and T = "\<lambda>_ _. True"])
    fix k s
    assume s: "good s \<and> roomy U stored (Suc k) s"
    then have "roomy U stored 1 s"
      using roomy_mono [of U stored "Suc k" s 1] by simp
    then have "runs (apply_action ports config sid action) s (\<lambda>_ s'. moves 1 s s')"
      using apply_action_runs assms(2,3) s by blast
    then show "runs (apply_action ports config sid action) s (\<lambda>out s'. (good s' \<and> evolved U stored s s') \<and> (good s' \<and> roomy U stored k s') \<and> True)"
      by (rule runs_mono) (use s in \<open>simp add: moves_def\<close>)
  qed (use assms in \<open>auto simp: eval_nat_numeral intro: evolved_trans\<close>)
  then show ?thesis
    by (simp add: retry_conflicts_def MAX_CONFLICT_ATTEMPTS_def)
qed

text \<open>Closing a listed goal, however often conflicts make it retried, touches no other goal.\<close>

definition others_kept :: "session_id \<Rightarrow> goal_id \<Rightarrow> 's \<Rightarrow> 's \<Rightarrow> bool" where
  "others_kept sid gid s s' \<longleftrightarrow>
     moves 0 s s' \<and> (\<forall>g \<in> U. g \<noteq> gid \<longrightarrow> stored s' g = stored s g) \<and> listed s' sid = listed s sid"

lemma retry_close_runs:
  assumes "good s" and "sid \<in> S" and "gid \<in> U" and "gid \<in> set (listed s sid)"
  shows "runs (retry_conflicts (close_goal ports gid st)) s (\<lambda>_ s'. others_kept sid gid s s')"
proof -
  have "runs (retry_loop 2 (close_goal ports gid st)) s (\<lambda>_ s'. others_kept sid gid s s' \<and> True)"
  proof (rule runs_retry_loop [where I = "\<lambda>_ s. good s \<and> gid \<in> set (listed s sid)" and T = "\<lambda>_ _. True"])
    fix k s
    assume s: "good s \<and> gid \<in> set (listed s sid)"
    show "runs (close_goal ports gid st) s (\<lambda>out s'. others_kept sid gid s s' \<and> (good s' \<and> gid \<in> set (listed s' sid)) \<and> True)"
      using close_goal_runs [of s gid st] s assms(2,3) by (auto simp: changed_def others_kept_def moves_def elim!: runs_mono)
  next
    show "others_kept sid gid s s''" if "others_kept sid gid s s'" "others_kept sid gid s' s''" for s s' s''
      using that moves_trans [of 0 s s' 0 s''] by (simp add: others_kept_def)
  qed (use assms in simp)
  then show ?thesis
    by (simp add: retry_conflicts_def MAX_CONFLICT_ATTEMPTS_def)
qed

text \<open>While older goals are closed, the committed one stays the newest active goal.\<close>

definition holds_newest :: "session_id \<Rightarrow> goal_record \<Rightarrow> 's \<Rightarrow> 's \<Rightarrow> bool" where
  "holds_newest sid r s s' \<longleftrightarrow>
     moves 0 s s' \<and> listed s' sid = listed s sid \<and> newest_active (goals_of stored listed s' sid) = Some r"

lemma close_other_holds:
  assumes "good s" and "sid \<in> S" and "newest_active (goals_of stored listed s sid) = Some r" and "gid \<noteq> goal_id r"
    and "others_kept sid gid s s'"
  shows "holds_newest sid r s s'"
proof -
  have "the (stored s' g) = r" if g: "g \<in> set (listed s sid)" "the (stored s g) = r" for g
  proof -
    obtain q where "stored s g = Some q" "g \<in> U"
      using listed_fits [OF assms(1,2) g(1)] by auto
    then have "goal_id r = g"
      using g(2) stored_fits [OF assms(1)] by auto
    then show ?thesis
      using assms(4,5) g(2) \<open>g \<in> U\<close> by (simp add: others_kept_def)
  qed
  moreover have "status (the (stored s g)) = Active" if g: "g \<in> set (listed s sid)" and act: "status (the (stored s' g)) = Active" for g
  proof -
    obtain q where q: "stored s g = Some q" "g \<in> U"
      using listed_fits [OF assms(1,2) g] by auto
    have "evolved U stored s s'"
      using assms(5) by (simp add: others_kept_def moves_def)
    then obtain q' where q': "stored s' g = Some q'" "goal_step\<^sup>*\<^sup>* q q'"
      using q unfolding evolved_def by blast
    then show ?thesis
      using closed_is_final [OF q'(2)] q act by (auto simp: goal_is_closed_def)
  qed
  moreover have "newest_active (map (\<lambda>g. the (stored s g)) (listed s sid)) = Some r"
    using assms(3) by (simp add: goals_of_def)
  ultimately have "newest_active (map (\<lambda>g. the (stored s' g)) (listed s sid)) = Some r"
    by (blast intro: newest_active_stays)
  then show ?thesis
    using assms(5) by (simp add: holds_newest_def others_kept_def goals_of_def)
qed

lemma repair_goals_runs:
  assumes "good s" and "sid \<in> S" and "newest_active (goals_of stored listed s sid) = Some r"
    and "goal_id ` set rs \<subseteq> set (listed s sid)"
  shows "runs (repair_goals ports r rs) s (\<lambda>_ s'. holds_newest sid r s s')"
  using assms(1,3,4)
proof (induction rs arbitrary: s)
  case Nil
  then show ?case
    by (simp add: runs_def holds_newest_def moves_same)
next
  case (Cons q rs)
  show ?case
  proof (cases "goal_id q = goal_id r \<or> status q \<noteq> Active")
    case True
    then show ?thesis
      using Cons.IH [of s] Cons.prems by (auto simp: runs_def)
  next
    case False
    obtain out s1 where run: "retry_conflicts (close_goal ports (goal_id q) Superseded) s = (out, s1)"
      by fastforce
    have "goal_id q \<in> set (listed s sid)" "goal_id q \<in> U"
      using Cons.prems listed_fits [OF Cons.prems(1) assms(2)] by auto
    then have "others_kept sid (goal_id q) s s1"
      using retry_close_runs [OF Cons.prems(1) assms(2), of "goal_id q" Superseded] run by (simp add: runs_def)
    then have held: "holds_newest sid r s s1"
      using close_other_holds [OF Cons.prems(1) assms(2) Cons.prems(2)] False by blast
    then have "runs (repair_goals ports r rs) s1 (\<lambda>_ s'. holds_newest sid r s1 s')"
      using Cons.IH [of s1] Cons.prems(3) by (auto simp: holds_newest_def moves_def)
    then have rest: "runs (repair_goals ports r rs) s1 (\<lambda>_ s'. holds_newest sid r s s')"
      by (rule runs_mono) (use held moves_trans [of 0 s s1 0] in \<open>simp add: holds_newest_def\<close>)
    show ?thesis
      using False run rest held by (auto simp: runs_def split: option.splits result.splits goal_error.splits)
  qed
qed

definition set_safe :: "session_id \<Rightarrow> 's \<Rightarrow> (goal_record, goal_error) result option \<Rightarrow> 's \<Rightarrow> bool" where
  "set_safe sid s out s' \<longleftrightarrow>
     moves 0 s s' \<and> (has_active stored listed s sid \<longrightarrow> has_active stored listed s' sid)
     \<and> (\<forall>r. out = Some (Ok r) \<longrightarrow> newest_active (goals_of stored listed s' sid) = Some r)"

lemma set_safe_trans: "set_safe sid s out s' \<Longrightarrow> set_safe sid s' out' s'' \<Longrightarrow> set_safe sid s out' s''"
  using moves_trans [of 0 s s' 0 s''] by (simp add: set_safe_def)

lemma repair_older_runs:
  assumes "good s" and "sid \<in> S" and "newest_active (goals_of stored listed s sid) = Some r"
  shows "runs (prog_bind (repair_older_active_goals ports sid r) (\<lambda>_. prog_ok r)) s (set_safe sid s)"
proof -
  have "runs (repair_older_active_goals ports sid r) s (\<lambda>_ s'. moves 0 s s' \<and> newest_active (goals_of stored listed s' sid) = Some r)"
    unfolding repair_older_active_goals_def history_def
  proof (rule runs_call_bindI [OF list_law [OF assms(1,2)]])
    fix rs s1
    assume s1: "good s1 \<and> stored s1 = stored s \<and> listed s1 = listed s
      \<and> (\<forall>x. Some (Ok rs :: (goal_record list, port_error) result) = Some (Ok x) \<longrightarrow> x = goals_of stored listed s sid)"
    have "goal_id ` set rs \<subseteq> set (listed s sid)"
      using s1 listed_fits [OF assms(1,2)] stored_fits [OF assms(1)] by (fastforce simp: goals_of_def)
    then have "runs (repair_goals ports r rs) s1 (\<lambda>_ s'. holds_newest sid r s1 s')"
      using s1 assms(3) by (intro repair_goals_runs [OF _ assms(2)]) (simp_all add: goals_of_def)
    then show "runs (repair_goals ports r rs) s1 (\<lambda>_ s'. moves 0 s s' \<and> newest_active (goals_of stored listed s' sid) = Some r)"
      by (rule runs_mono) (use s1 in \<open>simp add: holds_newest_def moves_def evolved_def roomy_def\<close>)
  qed (use assms(3) in \<open>auto simp: moves_same goals_of_def\<close>)
  then show ?thesis
    by (rule runs_bindI) (simp_all add: set_safe_def has_active_def run_simps)
qed

lemma set_outcome_safe: "set_outcome sid s out s' \<Longrightarrow> set_safe sid s out s'"
  by (auto simp: set_outcome_def set_safe_def replaced_def)

lemma set_safe_same:
  "good s' \<Longrightarrow> stored s' = stored s \<Longrightarrow> listed s' = listed s \<Longrightarrow> (\<And>r. out \<noteq> Some (Ok r)) \<Longrightarrow> set_safe sid s out s'"
  using set_outcome_same by (blast intro: set_outcome_safe)

lemma start_attempts_step:
  assumes "good s" and "sid \<in> S" and "mints U sess sid"
    and again: "\<And>m s'. n = Suc m \<Longrightarrow> good s' \<Longrightarrow> runs (start_attempts m ports config sid t) s' (set_safe sid s')"
  shows "runs (start_attempts n ports config sid t) s (set_safe sid s)"
proof -
  obtain out1 s1 where run1: "start_goal ports config sid t s = (out1, s1)"
    by fastforce
  have safe1: "set_safe sid s out1 s1"
    using start_goal_runs [OF assms(1-3), of config t] run1 by (simp add: runs_def set_outcome_safe)
  show ?thesis
  proof (cases "\<exists>e. out1 = Some (Err e) \<and> is_conflict e")
    case False
    then show ?thesis
      using safe1 run1 by (auto simp: runs_def start_attempts.simps [of n] split: option.splits result.splits)
  next
    case True
    then obtain e where e: "out1 = Some (Err e)" "is_conflict e"
      by blast
    have good1: "good s1"
      using safe1 by (simp add: set_safe_def moves_def)
    obtain out2 s2 where run2: "active ports sid s1 = (out2, s2)"
      by fastforce
    have s2: "good s2" "stored s2 = stored s1" "listed s2 = listed s1"
        "\<And>r. out2 = Some (Ok r) \<Longrightarrow> r = newest_active (goals_of stored listed s1 sid)"
      using active_runs [OF good1 assms(2)] run2 by (simp_all add: runs_def)
    have here: "set_safe sid s (Some (Err x)) s2" "set_safe sid s None s2" for x
      using set_safe_trans [OF safe1 set_safe_same [OF s2(1-3)]] by simp_all
    have more: "case (case n of Suc m \<Rightarrow> start_attempts m ports config sid t s2 | 0 \<Rightarrow> (Some (Err x), s2)) of (out, s') \<Rightarrow> set_safe sid s out s'" for x
    proof (cases n)
      case 0
      then show ?thesis
        using here by simp
    next
      case (Suc m)
      have "runs (start_attempts m ports config sid t) s2 (set_safe sid s)"
        using again [OF Suc s2(1)] by (rule runs_mono) (rule set_safe_trans [OF here(2)])
      then show ?thesis
        using Suc by (simp add: runs_def)
    qed
    have repair: "case prog_bind (repair_older_active_goals ports sid r) (\<lambda>_. prog_ok r) s2 of (out, s') \<Rightarrow> set_safe sid s out s'"
      if "out2 = Some (Ok (Some r))" for r
    proof -
      have "newest_active (goals_of stored listed s2 sid) = Some r"
        using s2(4) [OF that] s2(2,3) by (simp add: goals_of_def)
      from repair_older_runs [OF s2(1) assms(2) this]
      have "runs (prog_bind (repair_older_active_goals ports sid r) (\<lambda>_. prog_ok r)) s2 (set_safe sid s)"
        by (rule runs_mono) (rule set_safe_trans [OF here(2)])
      then show ?thesis
        by (simp add: runs_def)
    qed
    show ?thesis
    proof (cases out2)
      case None
      then show ?thesis
        using run1 run2 e here by (simp add: runs_def start_attempts.simps [of n])
    next
      case (Some x)
      show ?thesis
      proof (cases x)
        case (Err e')
        then show ?thesis
          using run1 run2 e here more [of e'] Some by (simp add: runs_def start_attempts.simps [of n])
      next
        case (Ok found)
        then show ?thesis
          using run1 run2 e more [of e] repair Some by (cases found) (simp_all add: runs_def start_attempts.simps [of n])
      qed
    qed
  qed
qed

lemma start_attempts_runs:
  assumes "good s" and "sid \<in> S" and "mints U sess sid"
  shows "runs (start_attempts n ports config sid t) s (set_safe sid s)"
  using assms(1)
proof (induction n arbitrary: s)
  case 0
  then show ?case
    by (rule start_attempts_step [OF _ assms(2,3)]) simp_all
next
  case (Suc n)
  show ?case
    by (rule start_attempts_step [OF Suc.prems assms(2,3)]) (use Suc.IH in blast)
qed

text \<open>The operator's commands and the model's tool.\<close>

lemma start_with_recovery_runs:
  "good s \<Longrightarrow> sid \<in> S \<Longrightarrow> mints U sess sid \<Longrightarrow> runs (start_with_conflict_recovery ports config sid t) s (set_safe sid s)"
  unfolding start_with_conflict_recovery_def by (rule start_attempts_runs)

lemma close_active_runs:
  assumes "good s" and "sid \<in> S"
  shows "runs (close_active ports sid st) s (\<lambda>_ s'. moves 0 s s')"
  unfolding close_active_def
proof (rule runs_bindI [OF active_runs [OF assms]])
  fix current s1
  assume s1: "good s1 \<and> stored s1 = stored s \<and> listed s1 = listed s
    \<and> (\<forall>r. Some (Ok current :: (goal_record option, goal_error) result) = Some (Ok r) \<longrightarrow> r = newest_active (goals_of stored listed s sid))"
  show "runs (case current of None \<Rightarrow> prog_ok NothingToClose
       | Some r \<Rightarrow> prog_bind (close_goal ports (goal_id r) st) (\<lambda>r'. prog_ok (GoalClosed r'))) s1 (\<lambda>_ s'. moves 0 s s')"
  proof (cases current)
    case None
    then show ?thesis
      using s1 by (simp add: run_simps moves_same)
  next
    case (Some r)
    have "goal_id r \<in> U"
      using newest_stored(2) [OF assms, of r] s1 Some by simp
    then have "runs (close_goal ports (goal_id r) st) s1 (\<lambda>_ s'. moves 0 s s')"
      using close_goal_runs [of s1 "goal_id r" st] s1
      by (auto simp: changed_def moves_def evolved_def roomy_def elim!: runs_mono)
    then have "runs (prog_bind (close_goal ports (goal_id r) st) (\<lambda>r'. prog_ok (GoalClosed r'))) s1 (\<lambda>_ s'. moves 0 s s')"
      by (rule runs_bindI) (simp_all add: run_simps)
    then show ?thesis
      using Some by simp
  qed
qed (auto simp: moves_same)

lemma apply_command_runs:
  assumes "good s" and "sid \<in> S" and "mints U sess sid"
  shows "runs (apply_command_effect ports config sid effect) s (\<lambda>_ s'. good s' \<and> evolved U stored s s')"
proof (cases effect)
  case ShowGoal
  then show ?thesis
    using active_runs [OF assms(1,2)]
    by (auto simp: apply_command_effect_def run_simps evolved_def elim!: runs_mono split: option.splits result.splits)
next
  case (SetGoal t)
  have "runs (prog_bind (start_with_conflict_recovery ports config sid t) (\<lambda>r. prog_ok (GoalSet r))) s (\<lambda>_ s'. good s' \<and> evolved U stored s s')"
    by (rule runs_bindI [OF start_with_recovery_runs [OF assms]]) (simp_all add: run_simps set_safe_def moves_def)
  then show ?thesis
    using SetGoal by (simp add: apply_command_effect_def run_simps)
next
  case (CloseGoal st)
  have "runs (retry_loop 2 (close_active ports sid st)) s (\<lambda>_ s'. (good s' \<and> evolved U stored s s') \<and> True)"
  proof (rule runs_retry_loop [where I = "\<lambda>_. good" and R = "\<lambda>s s'. good s' \<and> evolved U stored s s'" and T = "\<lambda>_ _. True"])
    show "runs (close_active ports sid st) s (\<lambda>out s'. (good s' \<and> evolved U stored s s') \<and> good s' \<and> True)" if "good s" for s
      using close_active_runs [OF that assms(2)] by (rule runs_mono) (simp add: moves_def)
  qed (use assms(1) in \<open>auto intro: evolved_trans\<close>)
  then show ?thesis
    using CloseGoal by (simp add: apply_command_effect_def run_simps retry_conflicts_def MAX_CONFLICT_ATTEMPTS_def)
next
  case (OtherEffect x)
  then show ?thesis
    using assms(1) by (simp add: apply_command_effect_def run_simps)
qed

lemma invoke_tool_runs:
  assumes "good s" and "sid \<in> S" and "mints U sess sid" and "roomy U stored 3 s"
  shows "runs (invoke_goal_tool parsed ports config sid arguments) s (\<lambda>_ s'. good s' \<and> evolved U stored s s')"
proof (cases "parse_goal_action parsed arguments")
  case (Err e)
  then show ?thesis
    using assms(1) by (simp add: invoke_goal_tool_def run_simps)
next
  case (Ok action)
  have "runs (start_with_conflict_recovery ports config sid t) s (\<lambda>_ s'. good s' \<and> evolved U stored s s')" for t
    using start_with_recovery_runs [OF assms(1-3)] by (rule runs_mono) (simp add: set_safe_def moves_def)
  then show ?thesis
    using retry_apply_runs [OF assms] Ok by (simp add: invoke_goal_tool_def run_simps split: goal_action.splits)
qed

end

end
