(* ===== verification/Goal_Recovery.thy ===== *)
theory Goal_Recovery
  imports Goal_Triples
begin

text \<open>
  Recovery of the file store: opening it makes the index of every session name exactly the goals on
  disk, whatever sequence of failures, process deaths and power losses came before; and no
  acknowledged goal is lost by them.
\<close>

section \<open>Scanning\<close>

lemma spec_discard_loop:
  assumes "\<And>p e. \<not> calm \<Longrightarrow> E (Io p e) gd sd" and "\<not> calm \<Longrightarrow> K gd sd"
  shows "spec calm b gd sd (discard_loop dn ts count) (\<lambda>_ gd' sd'. gd' = gd \<and> sd' = sd) E K"
proof (induction ts arbitrary: count)
  case Nil
  show ?case
    by (simp add: spec_ok)
next
  case (Cons t ts)
  show ?case
    unfolding discard_loop.simps
    by (rule spec_then, rule spec_syscall_quiet) (simp_all add: assms Cons.IH at_disk_temps)
qed

lemma spec_discard_temps:
  assumes "\<And>p e. \<not> calm \<Longrightarrow> E (Io p e) gd sd" and "\<not> calm \<Longrightarrow> K gd sd"
  shows "spec calm b gd sd (discard_temps dn count) (\<lambda>_ gd' sd'. gd' = gd \<and> sd' = sd) E K"
  unfolding discard_temps_def
  by (rule spec_then, rule spec_look) (simp_all add: assms spec_discard_loop)

text \<open>The records a scan has found, as a map from identifiers.\<close>

definition scanned :: "'t env \<Rightarrow> 't dir \<Rightarrow> ustr set \<Rightarrow> (ustr \<times> goal_record) list \<Rightarrow> bool" where
  "scanned env gd ids records \<longleftrightarrow>
     distinct (map fst records) \<and> (\<forall>g. map_of records g = (if g \<in> ids then rec_at env gd g else None))"

lemma spec_scan_loop:
  assumes law: "lawful env U S sess" and gok: "goals_ok env U sess gd" and "set gs \<subseteq> U" and "scanned env gd seen records"
    and io: "\<And>p e. \<not> calm \<Longrightarrow> E (Io p e) gd sd" and dead: "\<not> calm \<Longrightarrow> K gd sd"
  shows "spec calm b gd sd (scan_loop env (map (file_name_of env) gs) records)
     (\<lambda>rs gd' sd'. scanned env gd (seen \<union> set gs) rs \<and> gd' = gd \<and> sd' = sd) E K"
  using assms(3,4)
proof (induction gs arbitrary: records seen)
  case Nil
  then show ?case
    by (simp add: spec_ok)
next
  case (Cons g gs)
  then have gU: "g \<in> U"
    by simp
  have look: "spec calm b gd sd (read_record_at env (file_name_of env g)) (\<lambda>x gd' sd'. x = rec_at env gd g \<and> gd' = gd \<and> sd' = sd) E K"
    by (rule spec_read_record_at [OF law gok gU]) (simp_all add: io dead)
  have "scanned env gd (insert g seen)
      (case rec_at env gd g of Some r \<Rightarrow> AList.update (goal_id r) r records | None \<Rightarrow> records)"
  proof (cases "rec_at env gd g")
    case None
    then show ?thesis
      using Cons.prems(2) by (auto simp: scanned_def)
  next
    case (Some r)
    then have "goal_id r = g"
      using rec_at_admissible [OF law gok gU] by simp
    then show ?thesis
      using Cons.prems(2) Some by (auto simp: scanned_def distinct_update update_conv')
  qed
  from Cons.IH [OF _ this] Cons.prems(1)
  show ?case
    by (simp, intro spec_value [OF look]) (simp add: Un_insert_left)
qed

lemma listing_names:
  assumes law: "lawful env U S sess" and gok: "goals_ok env U sess gd"
  obtains gs where "dir_listing gd = map (file_name_of env) gs" and "set gs = {g \<in> U. rec_at env gd g \<noteq> None}"
proof -
  have each: "\<exists>g \<in> U. n = file_name_of env g \<and> rec_at env gd g \<noteq> None" if n: "n \<in> set (dir_listing gd)" for n
  proof -
    obtain t where t: "lookup_file gd n = Some t"
      using n by (auto simp: set_dir_listing)
    then have "Some t \<in> set (versions gd n)"
      using gok lookup_in_versions [of gd n] by (simp add: goals_ok_def)
    then obtain r where r: "decode_goal (goal_json env) t = Ok r" "n = file_name_of env (goal_id r)" "admissible U sess r"
      using gok unfolding goals_ok_def by blast
    have "rec_at env gd (goal_id r) = Some r"
      using t r(1) by (simp add: rec_at_def rec_sized_def r(2) [symmetric])
    then show ?thesis
      using r(2,3) by (intro bexI [of _ "goal_id r"]) (auto simp only: admissible_def)
  qed
  then have "\<forall>n \<in> set (dir_listing gd). \<exists>g. g \<in> U \<and> n = file_name_of env g \<and> rec_at env gd g \<noteq> None"
    by blast
  then obtain f where picked: "\<forall>n \<in> set (dir_listing gd). f n \<in> U \<and> n = file_name_of env (f n) \<and> rec_at env gd (f n) \<noteq> None"
    by (rule bchoice [THEN exE])
  then have f: "f n \<in> U \<and> n = file_name_of env (f n) \<and> rec_at env gd (f n) \<noteq> None" if "n \<in> set (dir_listing gd)" for n
    using that by (rule bspec)
  have returns: "f (file_name_of env g) = g \<and> file_name_of env g \<in> set (dir_listing gd)" if g: "g \<in> U" "rec_at env gd g \<noteq> None" for g
  proof -
    have listed: "file_name_of env g \<in> set (dir_listing gd)"
      using g by (auto simp: set_dir_listing rec_at_def rec_sized_def split: option.splits)
    from f [OF this] have "f (file_name_of env g) = g"
      using goal_name_inject [OF law g(1)] by metis
    with listed show ?thesis
      by simp
  qed
  show thesis
  proof (rule that)
    show "dir_listing gd = map (file_name_of env) (map f (dir_listing gd))"
      using f by (simp add: comp_def map_idI)
    show "set (map f (dir_listing gd)) = {g \<in> U. rec_at env gd g \<noteq> None}"
    proof (intro equalityI subsetI)
      fix g
      assume "g \<in> {g \<in> U. rec_at env gd g \<noteq> None}"
      then have "f (file_name_of env g) = g" "file_name_of env g \<in> set (dir_listing gd)"
        using returns [of g] by simp_all
      then show "g \<in> set (map f (dir_listing gd))"
        by (metis image_eqI set_map)
    qed (use f in auto)
  qed
qed

lemma spec_scan_records:
  assumes law: "lawful env U S sess" and gok: "goals_ok env U sess gd"
    and io: "\<And>p e. \<not> calm \<Longrightarrow> E (Io p e) gd sd" and dead: "\<not> calm \<Longrightarrow> K gd sd"
  shows "spec calm b gd sd (scan_records env) (\<lambda>rs gd' sd'. scanned env gd U rs \<and> gd' = gd \<and> sd' = sd) E K"
proof -
  obtain gs where gs: "dir_listing gd = map (file_name_of env) gs" "set gs = {g \<in> U. rec_at env gd g \<noteq> None}"
    by (rule listing_names [OF law gok])
  have look: "spec calm b gd sd (syscall (PDir GOALS_DIR) (\<lambda>w. (dir_listing (goals_dir w), w)))
      (\<lambda>x gd' sd'. x = map (file_name_of env) gs \<and> gd' = gd \<and> sd' = sd) E K"
    by (rule spec_look) (auto simp: at_disk_def gs(1) io dead)
  have start: "scanned env gd {} []"
    by (simp add: scanned_def)
  have same: "scanned env gd (set gs) rs \<longleftrightarrow> scanned env gd U rs" for rs
  proof -
    have "(if g \<in> set gs then rec_at env gd g else None) = (if g \<in> U then rec_at env gd g else None)" for g
      by (auto simp: gs(2))
    then show ?thesis
      by (simp add: scanned_def)
  qed
  have "spec calm b gd sd (scan_loop env (map (file_name_of env) gs) [])
      (\<lambda>rs gd' sd'. scanned env gd ({} \<union> set gs) rs \<and> gd' = gd \<and> sd' = sd) E K"
    by (rule spec_scan_loop [OF law gok _ start]) (auto simp: gs(2) io dead)
  then show ?thesis
    unfolding scan_records_def by (intro spec_value [OF look]) (simp add: same)
qed

lemma scanned_keys: "scanned env gd U records \<Longrightarrow> fst ` set records = {g \<in> U. rec_at env gd g \<noteq> None}"
  unfolding dom_map_of_conv_image_fst [symmetric] by (auto simp: scanned_def dom_def split: if_splits)

lemma scanned_values:
  assumes "scanned env gd U records"
  shows "r \<in> set (values_in_order records) \<longleftrightarrow> (\<exists>g \<in> U. rec_at env gd g = Some r)"
proof -
  have "r \<in> set (values_in_order records) \<longleftrightarrow> (\<exists>g. (g, r) \<in> set records)"
    by (force simp: values_in_order_def)
  also have "\<dots> \<longleftrightarrow> (\<exists>g. map_of records g = Some r)"
    using assms map_of_eq_Some_iff [of records] by (auto simp only: scanned_def)
  also have "\<dots> \<longleftrightarrow> (\<exists>g \<in> U. rec_at env gd g = Some r)"
    using assms by (auto simp: scanned_def split: if_splits)
  finally show ?thesis .
qed

lemma distinct_value_ids:
  assumes law: "lawful env U S sess" and gok: "goals_ok env U sess gd" and scan: "scanned env gd U records"
  shows "distinct (map goal_id (values_in_order records))"
proof -
  have "goal_id r = g" if "(g, r) \<in> set records" for g r
  proof -
    have "map_of records g = Some r"
      using scan that map_of_eq_Some_iff [of records g r] by (auto simp only: scanned_def)
    then have "g \<in> U" "rec_at env gd g = Some r"
      using scan by (auto simp: scanned_def split: if_splits)
    then show ?thesis
      using rec_at_admissible [OF law gok] by simp
  qed
  then have "map goal_id (values_in_order records) = map fst (sort_key fst records)"
    by (auto simp: values_in_order_def)
  moreover have "distinct (map fst (sort_key fst records))"
    using scan by (simp add: scanned_def distinct_map)
  ultimately show ?thesis
    by simp
qed

section \<open>Repairing\<close>

text \<open>The index of a session names exactly the goals of that session that are on disk.\<close>

definition complete :: "'t env \<Rightarrow> ustr set \<Rightarrow> (ustr \<Rightarrow> ustr) \<Rightarrow> 't dir \<Rightarrow> 't dir \<Rightarrow> ustr \<Rightarrow> bool" where
  "complete env U sess gd sd s \<longleftrightarrow> set (ix_goal_ids (index_at env sd s)) = {g \<in> U. sess g = s \<and> rec_at env gd g \<noteq> None}"

lemma highest_ordinal_ge:
  "hw \<le> highest_ordinal s ids hw"
  "g \<in> set ids \<Longrightarrow> generated_goal_ordinal s g = Some k \<Longrightarrow> k \<le> highest_ordinal s ids hw"
proof -
  have fold_ge: "x \<le> fold max xs x \<and> (\<forall>y \<in> set xs. y \<le> fold max xs x)" for x :: u64 and xs
  proof (induction xs arbitrary: x)
    case (Cons a xs)
    from Cons.IH [of "max a x"] show ?case
      by simp
  qed simp
  show "hw \<le> highest_ordinal s ids hw"
    using fold_ge by (simp add: highest_ordinal_def)
  show "k \<le> highest_ordinal s ids hw" if "g \<in> set ids" "generated_goal_ordinal s g = Some k"
  proof -
    have "k \<in> set (List.map_filter (generated_goal_ordinal s) ids)"
      using that by (force simp: List.map_filter_def)
    then show ?thesis
      using fold_ge by (simp add: highest_ordinal_def)
  qed
qed

lemma repaired_index_facts:
  assumes law: "lawful env U S sess" and gok: "goals_ok env U sess gd" and scan: "scanned env gd U records"
    and fits: "index_fits env U S sess n ix" and sid: "ix_session_id ix = s"
  defines "kept \<equiv> filter (\<lambda>g. g \<in> fst ` set records) (ix_goal_ids ix)"
  shows "index_fits env U S sess n (repaired_index records s ix)"
    and "ix_session_id (repaired_index records s ix) = s"
    and "set (ix_goal_ids (repaired_index records s ix)) = {g \<in> U. sess g = s \<and> rec_at env gd g \<noteq> None}"
    and "ix_goal_ids (repaired_index records s ix) = kept @ map goal_id (orphans_of records s kept)"
proof -
  let ?ids = "kept @ map goal_id (orphans_of records s kept)"
  show ids: "ix_goal_ids (repaired_index records s ix) = ?ids"
    by (simp add: repaired_index_def kept_def Let_def)
  show sid': "ix_session_id (repaired_index records s ix) = s"
    by (simp add: repaired_index_def Let_def sid)
  have own: "g \<in> U" "sess g = s" if "g \<in> set (ix_goal_ids ix)" for g
    using fits that sid by (auto simp: index_fits_def)
  have orphans: "goal_id ` set (orphans_of records s kept) = {g \<in> U. sess g = s \<and> rec_at env gd g \<noteq> None} - set kept"
  proof -
    have "goal_id ` set (orphans_of records s kept) =
        {goal_id r |r g. g \<in> U \<and> rec_at env gd g = Some r \<and> session_id r = s \<and> goal_id r \<notin> set kept}"
      using scanned_values [OF scan] by (auto simp: orphans_of_def)
    also have "\<dots> = {g \<in> U. sess g = s \<and> rec_at env gd g \<noteq> None} - set kept"
      using rec_at_admissible [OF law gok] by (fastforce simp: admissible_def)
    finally show ?thesis .
  qed
  have kept_set: "set kept = {g \<in> set (ix_goal_ids ix). rec_at env gd g \<noteq> None}"
    using own(1) by (auto simp: kept_def scanned_keys [OF scan])
  show whole: "set (ix_goal_ids (repaired_index records s ix)) = {g \<in> U. sess g = s \<and> rec_at env gd g \<noteq> None}"
    unfolding ids set_append set_map orphans using own by (auto simp: kept_set)
  have "distinct (map goal_id (filter (\<lambda>r. session_id r = s \<and> goal_id r \<notin> set kept) (values_in_order records)))"
    using distinct_value_ids [OF law gok scan] by (rule distinct_map_filter)
  then have "distinct (map goal_id (orphans_of records s kept))"
    unfolding orphans_of_def distinct_map by simp
  then have dist: "distinct ?ids"
    using fits orphans by (auto simp: kept_def index_fits_def)
  have high: "k \<le> ix_high_water (repaired_index records s ix)"
    if "g \<in> set ?ids" "generated_goal_ordinal s g = Some k" for g k
    using highest_ordinal_ge(2) [OF that] by (simp add: repaired_index_def kept_def Let_def)
  have mine: "g \<in> U \<and> sess g = s" if "g \<in> set ?ids" for g
    using whole that unfolding ids by blast
  show "index_fits env U S sess n (repaired_index records s ix)"
    using fits dist high mine unfolding index_fits_def ids sid' sid by blast
qed

lemma session_listing_names:
  assumes law: "lawful env U S sess" and sok: "sessions_ok env U S sess sd"
  obtains ss where "dir_listing sd = map (file_name_of env) ss" and "set ss = {s \<in> S. lookup_file sd (file_name_of env s) \<noteq> None}"
proof -
  have "\<exists>s. s \<in> S \<and> n = file_name_of env s" if n: "n \<in> set (dir_listing sd)" for n
  proof -
    obtain t where t: "lookup_file sd n = Some t"
      using n by (auto simp: set_dir_listing)
    then have "Some t \<in> set (versions sd n)"
      using sok lookup_in_versions [of sd n] by (simp add: sessions_ok_def)
    then obtain ix where "index_fits env U S sess n ix"
      using sok unfolding sessions_ok_def by blast
    then show ?thesis
      by (auto simp: index_fits_def)
  qed
  then have "\<forall>n \<in> set (dir_listing sd). \<exists>s. s \<in> S \<and> n = file_name_of env s"
    by blast
  then obtain f where f: "\<forall>n \<in> set (dir_listing sd). f n \<in> S \<and> n = file_name_of env (f n)"
    by (rule bchoice [THEN exE])
  show thesis
  proof (rule that)
    show "dir_listing sd = map (file_name_of env) (map f (dir_listing sd))"
      using f by (simp add: comp_def map_idI)
    show "set (map f (dir_listing sd)) = {s \<in> S. lookup_file sd (file_name_of env s) \<noteq> None}"
    proof (intro equalityI subsetI)
      fix s
      assume s: "s \<in> set (map f (dir_listing sd))"
      then obtain n where n: "n \<in> set (dir_listing sd)" "s = f n"
        by auto
      then have "s \<in> S" "n = file_name_of env s"
        using bspec [OF f n(1)] by blast+
      then show "s \<in> {s \<in> S. lookup_file sd (file_name_of env s) \<noteq> None}"
        using n(1) by (simp add: set_dir_listing)
    next
      fix s
      assume s: "s \<in> {s \<in> S. lookup_file sd (file_name_of env s) \<noteq> None}"
      then have listed: "file_name_of env s \<in> set (dir_listing sd)"
        by (simp add: set_dir_listing)
      then have "f (file_name_of env s) \<in> S" "file_name_of env s = file_name_of env (f (file_name_of env s))"
        using bspec [OF f listed] by blast+
      moreover have "s \<in> S"
        using s by simp
      ultimately have "f (file_name_of env s) = s"
        using session_name_inject [OF law \<open>s \<in> S\<close>, of "f (file_name_of env s)"] by (simp only:)
      with listed show "s \<in> set (map f (dir_listing sd))"
        by (metis image_eqI set_map)
    qed
  qed
qed

lemma spec_indexed_sessions:
  assumes law: "lawful env U S sess" and sok: "sessions_ok env U S sess sd"
    and "set ss \<subseteq> {s \<in> S. lookup_file sd (file_name_of env s) \<noteq> None}" and "distinct acc"
    and io: "\<And>p e. \<not> calm \<Longrightarrow> E (Io p e) gd sd" and dead: "\<not> calm \<Longrightarrow> K gd sd"
  shows "spec calm b gd sd (indexed_sessions_loop env (map (file_name_of env) ss) acc)
     (\<lambda>xs gd' sd'. (set xs = set acc \<union> set ss \<and> distinct xs) \<and> gd' = gd \<and> sd' = sd) E K"
  using assms(3,4)
proof (induction ss arbitrary: acc)
  case Nil
  then show ?case
    by (simp add: spec_ok)
next
  case (Cons s ss)
  then obtain t where sS: "s \<in> S" and t: "lookup_file sd (file_name_of env s) = Some t"
    by auto
  obtain ix where ix: "decode_index env (file_name_of env s) t = Ok ix" "ix_session_id ix = s"
    by (rule sessions_ok_lookup [OF law sok sS t])
  have look: "spec calm b gd sd (read_to_string SESSIONS_DIR (file_name_of env s)) (\<lambda>x gd' sd'. x = Some t \<and> gd' = gd \<and> sd' = sd) E K"
    by (rule spec_read_to_string) (simp_all add: t io dead)
  have parse: "spec calm b gd sd (io_of (decode_index env (file_name_of env s) t)) (\<lambda>x gd' sd'. x = ix \<and> gd' = gd \<and> sd' = sd) E K"
    by (rule spec_of_Ok [OF ix(1)]) simp
  have "spec calm b gd sd (indexed_sessions_loop env (map (file_name_of env) ss) (List.insert s acc))
     (\<lambda>xs gd' sd'. (set xs = set (List.insert s acc) \<union> set ss \<and> distinct xs) \<and> gd' = gd \<and> sd' = sd) E K"
    by (rule Cons.IH) (use Cons.prems in auto)
  then show ?case
    unfolding list.map indexed_sessions_loop.simps
    by (intro spec_value [OF look]) (simp, rule spec_value [OF parse], simp add: ix(2))
qed

lemma spec_sessions_to_repair:
  assumes law: "lawful env U S sess" and gok: "goals_ok env U sess gd" and sok: "sessions_ok env U S sess sd"
    and scan: "scanned env gd U records"
    and io: "\<And>p e. \<not> calm \<Longrightarrow> E (Io p e) gd sd" and dead: "\<not> calm \<Longrightarrow> K gd sd"
  shows "spec calm b gd sd (sessions_to_repair env records)
     (\<lambda>xs gd' sd'. (set xs = {s \<in> S. lookup_file sd (file_name_of env s) \<noteq> None \<or> (\<exists>g \<in> U. sess g = s \<and> rec_at env gd g \<noteq> None)}
        \<and> distinct xs) \<and> gd' = gd \<and> sd' = sd) E K"
proof -
  let ?named = "remdups (map session_id (values_in_order records))"
  obtain ss where ss: "dir_listing sd = map (file_name_of env) ss" "set ss = {s \<in> S. lookup_file sd (file_name_of env s) \<noteq> None}"
    by (rule session_listing_names [OF law sok])
  have named: "set ?named = {s \<in> S. \<exists>g \<in> U. sess g = s \<and> rec_at env gd g \<noteq> None}"
  proof -
    have own: "session_id r = sess g" if "g \<in> U" "rec_at env gd g = Some r" for g r
      using rec_at_admissible [OF law gok that] by (simp add: admissible_def)
    have "set ?named = {s. \<exists>g \<in> U. sess g = s \<and> rec_at env gd g \<noteq> None}"
    proof (intro equalityI subsetI)
      fix s
      assume "s \<in> set ?named"
      then obtain r where "r \<in> set (values_in_order records)" and s: "s = session_id r"
        by auto
      then obtain g where "g \<in> U" "rec_at env gd g = Some r"
        using scanned_values [OF scan] by blast
      then show "s \<in> {s. \<exists>g \<in> U. sess g = s \<and> rec_at env gd g \<noteq> None}"
        using own [of g r] s by auto
    next
      fix s
      assume "s \<in> {s. \<exists>g \<in> U. sess g = s \<and> rec_at env gd g \<noteq> None}"
      then obtain g r where g: "g \<in> U" "sess g = s" "rec_at env gd g = Some r"
        by auto
      then have "r \<in> set (values_in_order records)"
        using scanned_values [OF scan] by blast
      then show "s \<in> set ?named"
        using own [OF g(1,3)] g(2) by auto
    qed
    also have "\<dots> = {s \<in> S. \<exists>g \<in> U. sess g = s \<and> rec_at env gd g \<noteq> None}"
      using law by (auto simp: lawful_def)
    finally show ?thesis .
  qed
  have look: "spec calm b gd sd (syscall (PDir SESSIONS_DIR) (\<lambda>w. (dir_listing (sessions_dir w), w)))
      (\<lambda>x gd' sd'. x = map (file_name_of env) ss \<and> gd' = gd \<and> sd' = sd) E K"
    by (rule spec_look) (auto simp: at_disk_def ss(1) io dead)
  have collect: "spec calm b gd sd (indexed_sessions_loop env (map (file_name_of env) ss) ?named)
     (\<lambda>xs gd' sd'. (set xs = set ?named \<union> set ss \<and> distinct xs) \<and> gd' = gd \<and> sd' = sd) E K"
    by (rule spec_indexed_sessions [OF law sok]) (auto simp: ss(2) io dead)
  show ?thesis
    unfolding sessions_to_repair_def
  proof (rule spec_value [OF look], rule spec_bind [OF collect])
    fix xs gd' sd'
    assume xs: "(set xs = set ?named \<union> set ss \<and> distinct xs) \<and> gd' = gd \<and> sd' = sd"
    have "set (sort xs) = {s \<in> S. lookup_file sd (file_name_of env s) \<noteq> None \<or> (\<exists>g \<in> U. sess g = s \<and> rec_at env gd g \<noteq> None)}"
      unfolding set_sort using xs unfolding named ss(2) by blast
    moreover have "distinct (sort xs)"
      using xs by simp
    ultimately show "spec calm b gd' sd' (io_ok (sort xs))
     (\<lambda>xs gd' sd'. (set xs = {s \<in> S. lookup_file sd (file_name_of env s) \<noteq> None \<or> (\<exists>g \<in> U. sess g = s \<and> rec_at env gd g \<noteq> None)}
        \<and> distinct xs) \<and> gd' = gd \<and> sd' = sd) E K"
      using xs by (intro spec_ok conjI) simp_all
  qed
qed

text \<open>One session: afterwards its index is complete and the others are as they were.\<close>

definition repaired :: "'t env \<Rightarrow> ustr set \<Rightarrow> ustr set \<Rightarrow> (ustr \<Rightarrow> ustr) \<Rightarrow> 't dir \<Rightarrow> ustr set \<Rightarrow> 't dir \<Rightarrow> 't dir \<Rightarrow> bool" where
  "repaired env U S sess gd ss sd sd' \<longleftrightarrow>
     sessions_ok env U S sess sd' \<and> (\<forall>s \<in> ss. complete env U sess gd sd' s)
     \<and> (\<forall>s \<in> S - ss. lookup_file sd' (file_name_of env s) = lookup_file sd (file_name_of env s))"

lemma index_at_cong: "lookup_file sd' (file_name_of env s) = lookup_file sd (file_name_of env s) \<Longrightarrow> index_at env sd' s = index_at env sd s"
  by (simp add: index_at_def)

lemma repaired_step:
  assumes "repaired env U S sess gd {s} sd sd1" and "repaired env U S sess gd ss sd1 sd2" and "s \<notin> ss" and "s \<in> S"
  shows "repaired env U S sess gd (insert s ss) sd sd2"
proof -
  have "lookup_file sd2 (file_name_of env s) = lookup_file sd1 (file_name_of env s)"
    using assms(2-4) by (simp add: repaired_def)
  then have "index_at env sd2 s = index_at env sd1 s"
    by (rule index_at_cong)
  then have "complete env U sess gd sd2 s"
    using assms(1) by (simp add: repaired_def complete_def)
  then show ?thesis
    using assms(1,2) by (auto simp: repaired_def)
qed

lemma length_filter_all: "length xs - length (filter P xs) = 0 \<Longrightarrow> filter P xs = xs"
  by (metis diff_is_0_eq filter_True length_filter_less linorder_not_le)

lemma spec_repair_session:
  assumes law: "lawful env U S sess" and gok: "goals_ok env U sess gd" and sok: "sessions_ok env U S sess sd"
    and scan: "scanned env gd U records" and s: "s \<in> S"
  defines "ix \<equiv> index_at env sd s"
  defines "kept \<equiv> filter (\<lambda>gid. gid \<in> fst ` set records) (ix_goal_ids ix)"
  shows "spec calm b gd sd
     (if ix_schema ix \<noteq> SESSION_INDEX_SCHEMA_VERSION \<or> 0 < length (ix_goal_ids ix) - length kept \<or> 0 < length (orphans_of records s kept)
         \<or> ix_high_water (repaired_index records s ix) \<noteq> ix_high_water ix
      then write_index env (repaired_index records s ix) else io_ok ())
     (\<lambda>_ gd' sd'. gd' = gd \<and> repaired env U S sess gd {s} sd sd')
     (\<lambda>_ gd' sd'. \<not> calm \<and> gd' = gd \<and> sessions_ok env U S sess sd')
     (\<lambda>gd' sd'. \<not> calm \<and> gd' = gd \<and> sessions_ok env U S sess sd')"
proof -
  have fits: "index_fits env U S sess (file_name_of env s) ix" "ix_session_id ix = s"
    unfolding ix_def using index_at_fits [OF law sok s] by simp_all
  note facts = repaired_index_facts [OF law gok scan fits, folded kept_def]
  have writing: "spec calm b gd sd (write_index env (repaired_index records s ix))
     (\<lambda>_ gd' sd'. gd' = gd \<and> repaired env U S sess gd {s} sd sd')
     (\<lambda>_ gd' sd'. \<not> calm \<and> gd' = gd \<and> sessions_ok env U S sess sd')
     (\<lambda>gd' sd'. \<not> calm \<and> gd' = gd \<and> sessions_ok env U S sess sd')"
  proof (rule spec_write_index [OF law sok facts(1) facts(2)])
    fix sd'
    assume "sessions_ok env U S sess sd'" and re: "reindexed env S sd s (repaired_index records s ix) sd'"
    then show "gd = gd \<and> repaired env U S sess gd {s} sd sd'"
      by (simp add: repaired_def complete_def reindexed_def facts(3))
  qed simp_all
  have keep: "repaired env U S sess gd {s} sd sd"
    if "length (ix_goal_ids ix) - length kept = 0" "length (orphans_of records s kept) = 0"
  proof -
    have "kept = ix_goal_ids ix"
      using that(1) unfolding kept_def by (rule length_filter_all)
    then have "ix_goal_ids (repaired_index records s ix) = ix_goal_ids ix"
      using facts(4) that(2) by simp
    then show ?thesis
      using facts(3) sok by (simp add: repaired_def complete_def ix_def [symmetric])
  qed
  show ?thesis
    using writing keep by (auto intro: spec_ok)
qed

lemma spec_repair_loop:
  assumes law: "lawful env U S sess" and gok: "goals_ok env U sess gd"
    and scan: "scanned env gd U records" and "set ss \<subseteq> S" and "distinct ss" and "sessions_ok env U S sess sd"
  shows "spec calm b gd sd (repair_loop env records ss report)
     (\<lambda>_ gd' sd'. gd' = gd \<and> repaired env U S sess gd (set ss) sd sd')
     (\<lambda>_ gd' sd'. \<not> calm \<and> gd' = gd \<and> sessions_ok env U S sess sd')
     (\<lambda>gd' sd'. \<not> calm \<and> gd' = gd \<and> sessions_ok env U S sess sd')"
  using assms(4-6)
proof (induction ss arbitrary: sd report)
  case Nil
  then show ?case
    by (simp add: repaired_def spec_ok)
next
  case (Cons s ss)
  let ?E = "\<lambda>_ gd' sd'. \<not> calm \<and> gd' = gd \<and> sessions_ok env U S sess sd'"
  let ?K = "\<lambda>gd' sd'. \<not> calm \<and> gd' = gd \<and> sessions_ok env U S sess sd'"
  have s: "s \<in> S" "s \<notin> set ss"
    using Cons.prems by simp_all
  have name: "spec calm b gd sd (io_of (case session_id_new s of Ok sid \<Rightarrow> Ok sid
       | Err e \<Rightarrow> Err (Corrupt (PFile SESSIONS_DIR (file_name_of env s)) (Invalid ''session_id'' (domain_error_display e)))))
      (\<lambda>x gd' sd'. x = s \<and> gd' = gd \<and> sd' = sd) ?E ?K"
    using law s by (intro spec_of_Ok [of _ s]) (simp_all add: lawful_def)
  have look: "spec calm b gd sd (read_index env s) (\<lambda>x gd' sd'. x = index_at env sd s \<and> gd' = gd \<and> sd' = sd) ?E ?K"
    by (rule spec_read_index [OF law Cons.prems(3) s(1)]) (use Cons.prems(3) in simp_all)
  have rest: "spec calm b gd' sd' (repair_loop env records ss report')
     (\<lambda>_ gd' sd'. gd' = gd \<and> repaired env U S sess gd (set (s # ss)) sd sd') ?E ?K"
    if "gd' = gd \<and> repaired env U S sess gd {s} sd sd'" for gd' sd' report'
  proof -
    have "spec calm b gd sd' (repair_loop env records ss report')
      (\<lambda>_ gd'' sd''. gd'' = gd \<and> repaired env U S sess gd (set ss) sd' sd'') ?E ?K"
      by (rule Cons.IH) (use Cons.prems that in \<open>auto simp: repaired_def\<close>)
    then show ?thesis
      using that s by (auto elim!: spec_conseq intro: repaired_step)
  qed
  show ?case
    unfolding repair_loop.simps Let_def
    by (rule spec_value [OF name], rule spec_value [OF look],
        rule spec_bind [OF spec_repair_session [OF law gok Cons.prems(3) scan s(1)]]) (rule rest)
qed

section \<open>Opening the store\<close>

lemma spec_recover:
  assumes law: "lawful env U S sess" and gok: "goals_ok env U sess gd" and sok: "sessions_ok env U S sess sd"
  shows "spec calm b gd sd (recover env)
     (\<lambda>_ gd' sd'. gd' = gd \<and> repaired env U S sess gd S sd sd')
     (\<lambda>_ gd' sd'. \<not> calm \<and> gd' = gd \<and> sessions_ok env U S sess sd')
     (\<lambda>gd' sd'. \<not> calm \<and> gd' = gd \<and> sessions_ok env U S sess sd')" (is "spec calm b gd sd _ ?Q ?E ?K")
proof -
  have io: "?E (Io p e) gd sd" and dead: "?K gd sd" if "\<not> calm" for p e
    using that sok by simp_all
  have repair: "spec calm b gd sd (repair_loop env records ss report) ?Q ?E ?K"
    if ss: "set ss = {s \<in> S. lookup_file sd (file_name_of env s) \<noteq> None \<or> (\<exists>g \<in> U. sess g = s \<and> rec_at env gd g \<noteq> None)}"
      and "distinct ss" and scan: "scanned env gd U records" for records ss report
  proof (rule spec_conseq [OF spec_repair_loop [OF law gok scan _ \<open>distinct ss\<close> sok]])
    show "set ss \<subseteq> S"
      using ss by blast
    fix a :: recovery_report and gd' sd'
    assume done_ss: "gd' = gd \<and> repaired env U S sess gd (set ss) sd sd'"
    have "complete env U sess gd sd' s" if "s \<in> S" for s
    proof (cases "s \<in> set ss")
      case False
      then have none: "lookup_file sd (file_name_of env s) = None" "{g \<in> U. sess g = s \<and> rec_at env gd g \<noteq> None} = {}"
        using that ss by auto
      have "lookup_file sd' (file_name_of env s) = None"
        using done_ss False that none(1) by (simp add: repaired_def)
      then have "index_at env sd' s = empty_index s"
        by (simp add: index_at_def)
      then show ?thesis
        unfolding complete_def none(2) by (simp add: empty_index_def)
    qed (use done_ss in \<open>simp add: repaired_def\<close>)
    then show "?Q a gd' sd'"
      using done_ss by (simp add: repaired_def)
  qed simp_all
  show ?thesis
    unfolding recover_def
    apply (rule spec_then [OF spec_discard_temps], use io in simp, use dead in simp)
    apply (rule spec_then [OF spec_discard_temps], use io in simp, use dead in simp)
    apply (rule spec_bind [OF spec_scan_records [OF law gok]], use io in simp, use dead in simp)
    apply (clarify)
    apply (rule spec_bind [OF spec_sessions_to_repair [OF law gok sok]], assumption, use io in simp, use dead in simp)
    by (use repair in blast)
qed

lemma spec_open:
  assumes law: "lawful env U S sess" and gok: "goals_ok env U sess gd" and sok: "sessions_ok env U S sess sd"
  shows "spec calm None gd sd (open_with_budget env pid budget)
     (\<lambda>_ gd' sd'. gd' = gd \<and> repaired env U S sess gd S sd sd')
     (\<lambda>_ gd' sd'. \<not> calm \<and> gd' = gd \<and> sessions_ok env U S sess sd')
     (\<lambda>gd' sd'. \<not> calm \<and> gd' = gd \<and> sessions_ok env U S sess sd')" (is "spec calm None gd sd _ ?Q ?E ?K")
proof -
  have quiet: "spec calm None gd sd (syscall p (\<lambda>w. ((), w))) (\<lambda>_ gd' sd'. gd' = gd \<and> sd' = sd) ?E ?K" for p
    by (rule spec_syscall_quiet) (use sok in simp_all)
  have fresh: "spec calm None gd sd (io_modify (\<lambda>w. w\<lparr>store := st\<rparr>)) (\<lambda>_ gd' sd'. gd' = gd \<and> sd' = sd) ?E ?K" for st
    by (rule spec_modify_disk) (simp_all add: at_disk_def)
  have locked: "spec calm None gd sd (with_store_lock (recover env))
      (\<lambda>_ gd' sd'. gd' = gd \<and> repaired env U S sess gd S sd sd') ?E ?K"
    by (rule spec_lock [OF spec_recover [OF law gok sok]]) (use sok in \<open>auto simp: repaired_def\<close>)
  have finish: "spec calm None gd' sd' (io_modify (\<lambda>w. w\<lparr>store := (store w)\<lparr>gs_recovery := report\<rparr>\<rparr>)) ?Q ?E ?K"
    if "gd' = gd \<and> repaired env U S sess gd S sd sd'" for report gd' sd'
    by (rule spec_modify_disk) (use that in \<open>simp_all add: at_disk_def\<close>)
  show ?thesis
    unfolding open_with_budget_def
    by (rule spec_then [OF quiet], rule spec_then [OF quiet], rule spec_then [OF quiet], rule spec_then [OF fresh],
        rule spec_bind [OF locked]) (rule finish)
qed

section \<open>Compaction\<close>

text \<open>A record of which the oldest entries were dropped; identity, status and objective are kept.\<close>

definition shrinks :: "goal_record \<Rightarrow> goal_record \<Rightarrow> bool" where
  "shrinks r r' \<longleftrightarrow> (\<exists>k c v. r' = r\<lparr>progress := drop k (progress r), compacted_entries := c, revision := v\<rparr>)"

lemma shrinks_refl: "shrinks r r"
  unfolding shrinks_def by (intro exI [of _ 0] exI [of _ "compacted_entries r"] exI [of _ "revision r"]) simp

lemma shrinks_trans:
  assumes "shrinks r r'" and "shrinks r' r''"
  shows "shrinks r r''"
proof -
  obtain k c v l d u where "r' = r\<lparr>progress := drop k (progress r), compacted_entries := c, revision := v\<rparr>"
      and "r'' = r'\<lparr>progress := drop l (progress r'), compacted_entries := d, revision := u\<rparr>"
    using assms unfolding shrinks_def by blast
  then have "r'' = r\<lparr>progress := drop (l + k) (progress r), compacted_entries := d, revision := u\<rparr>"
    by simp
  then show ?thesis
    unfolding shrinks_def by blast
qed

definition shrunk :: "'t env \<Rightarrow> 't dir \<Rightarrow> 't dir \<Rightarrow> bool" where
  "shrunk env gd gd' \<longleftrightarrow>
     (\<forall>n t'. Some t' \<in> set (versions gd' n) \<longrightarrow>
        (\<exists>t r r'. Some t \<in> set (versions gd n) \<and> decode_goal (goal_json env) t = Ok r \<and> decode_goal (goal_json env) t' = Ok r' \<and> shrinks r r'))
     \<and> (\<forall>n. None \<in> set (versions gd' n) \<longrightarrow> None \<in> set (versions gd n))"

lemma shrunk_refl: "goals_ok env U sess gd \<Longrightarrow> shrunk env gd gd"
  unfolding shrunk_def goals_ok_def using shrinks_refl by blast

lemma shrunk_trans:
  assumes one: "shrunk env gd gd'" and two: "shrunk env gd' gd''"
  shows "shrunk env gd gd''"
  unfolding shrunk_def
proof (intro conjI allI impI)
  fix n t''
  assume "Some t'' \<in> set (versions gd'' n)"
  then obtain t' r' r'' where t': "Some t' \<in> set (versions gd' n)" "decode_goal (goal_json env) t' = Ok r'"
      and r'': "decode_goal (goal_json env) t'' = Ok r''" "shrinks r' r''"
    using two unfolding shrunk_def by blast
  obtain t r q where t: "Some t \<in> set (versions gd n)" "decode_goal (goal_json env) t = Ok r"
      and q: "decode_goal (goal_json env) t' = Ok q" "shrinks r q"
    using one t'(1) unfolding shrunk_def by blast
  have "q = r'"
    using q(1) t'(2) by simp
  then have "shrinks r r''"
    using shrinks_trans [OF q(2)] r''(2) by simp
  with t r'' show "\<exists>t r r'. Some t \<in> set (versions gd n) \<and> decode_goal (goal_json env) t = Ok r \<and>
      decode_goal (goal_json env) t'' = Ok r' \<and> shrinks r r'"
    by blast
qed (use one two in \<open>auto simp: shrunk_def\<close>)

lemma compacted_admissible: "admissible U sess r \<Longrightarrow> admissible U sess (compacted_record k r)"
  by (auto simp: admissible_def storable_def compacted_record_def saturating_succ_nonzero drop_map [symmetric]
      sorted_wrt_drop list_all_iff dest: in_set_dropD)

lemma compacted_shrinks: "shrinks r (compacted_record k r)"
  unfolding shrinks_def compacted_record_def by blast

lemma shrunk_publish:
  assumes law: "lawful env U S sess" and gok: "goals_ok env U sess gd" and g: "g \<in> U" and r: "rec_at env gd g = Some r"
    and enc: "encode_goal (goal_json env) (compacted_record k r) = Ok t"
  shows "goals_ok env U sess (publish (file_name_of env g) t gd)" and "shrunk env gd (publish (file_name_of env g) t gd)"
    and "shrunk env gd (sync_dir (publish (file_name_of env g) t gd))"
proof -
  have adm: "admissible U sess r" "goal_id r = g"
    using rec_at_admissible [OF law gok g r] by simp_all
  have adm': "admissible U sess (compacted_record k r)" "goal_id (compacted_record k r) = g"
    using compacted_admissible [OF adm(1)] adm(2) by (simp_all add: compacted_record_def)
  show pub: "goals_ok env U sess (publish (file_name_of env g) t gd)"
    using goals_ok_publish [OF law gok adm'(1) enc] adm'(2) by simp
  have dec: "decode_goal (goal_json env) t = Ok (compacted_record k r)"
    using encode_decodes [OF law _ enc] adm'(1) by (simp add: admissible_def)
  obtain t0 where t0: "lookup_file gd (file_name_of env g) = Some t0" "decode_goal (goal_json env) t0 = Ok r"
    using r by (auto simp: rec_at_def rec_sized_def split: option.splits result.splits)
  have "Some t0 \<in> set (versions gd (file_name_of env g))"
    using gok lookup_in_versions [of gd "file_name_of env g"] t0(1) by (simp add: goals_ok_def)
  then show shr: "shrunk env gd (publish (file_name_of env g) t gd)"
    using shrunk_refl [OF gok] t0(2) dec compacted_shrinks [of r k] unfolding shrunk_def versions_publish by auto
  have wf: "dir_wf (publish (file_name_of env g) t gd)"
    using pub by (simp add: goals_ok_def)
  have "set (versions (sync_dir (publish (file_name_of env g) t gd)) n) \<subseteq> set (versions (publish (file_name_of env g) t gd) n)" for n
    using lookup_in_versions [OF wf, of n] by (simp add: versions_sync)
  then show "shrunk env gd (sync_dir (publish (file_name_of env g) t gd))"
    using shr unfolding shrunk_def by blast
qed

definition compact_safe :: "'t env \<Rightarrow> ustr set \<Rightarrow> (ustr \<Rightarrow> ustr) \<Rightarrow> 't dir \<Rightarrow> 't dir \<Rightarrow> 't dir \<Rightarrow> 't dir \<Rightarrow> bool" where
  "compact_safe env U sess gd sd gd' sd' \<longleftrightarrow> goals_ok env U sess gd' \<and> shrunk env gd gd' \<and> sd' = sd"

lemma spec_rewrite:
  assumes law: "lawful env U S sess" and gok: "goals_ok env U sess gd" and g: "g \<in> U" and r: "rec_at env gd g = Some r"
    and enc: "encode_goal (goal_json env) (compacted_record k r) = Ok t"
  shows "spec calm b gd sd (write_atomically env GOALS_DIR (file_name_of env g) t)
     (\<lambda>_. compact_safe env U sess gd sd) (\<lambda>_. compact_safe env U sess gd sd) (compact_safe env U sess gd sd)"
proof -
  note pub = shrunk_publish [OF law gok g r enc]
  have "is_unix env"
    using law by (simp add: lawful_def)
  then show ?thesis
    using gok pub goals_ok_sync [OF pub(1)] shrunk_refl [OF gok]
    by (intro spec_write_atomically) (auto simp: put_def compact_safe_def)
qed

lemma spec_compact_loop:
  assumes law: "lawful env U S sess" and "goals_ok env U sess gd" and "set ids \<subseteq> U"
  shows "spec calm b gd sd (compact_loop env keep ids summary)
     (\<lambda>_. compact_safe env U sess gd sd) (\<lambda>_. compact_safe env U sess gd sd) (compact_safe env U sess gd sd)"
  using assms(2,3)
proof (induction ids arbitrary: gd summary)
  case Nil
  then show ?case
    by (auto simp: compact_safe_def shrunk_refl intro: spec_ok)
next
  case (Cons g ids)
  note gok = Cons.prems(1)
  let ?post = "compact_safe env U sess gd sd" and ?n = "file_name_of env g"
  have gU: "g \<in> U" and idsU: "set ids \<subseteq> U"
    using Cons.prems(2) by simp_all
  have here: "?post gd sd"
    using gok by (simp add: compact_safe_def shrunk_refl)
  have rest: "spec calm b gd' sd' (compact_loop env keep ids summary') (\<lambda>_. ?post) (\<lambda>_. ?post) ?post" if "?post gd' sd'" for gd' sd' summary'
  proof -
    have sd': "sd' = sd" and gok': "goals_ok env U sess gd'" and shr: "shrunk env gd gd'"
      using that by (simp_all add: compact_safe_def)
    have "compact_safe env U sess gd' sd x y \<Longrightarrow> ?post x y" for x y
      using shrunk_trans [OF shr] by (simp add: compact_safe_def)
    then show ?thesis
      unfolding sd' by (intro spec_conseq [OF Cons.IH [OF gok' idsU]])
  qed
  have look: "spec calm b gd sd (read_record_at env ?n) (\<lambda>x gd' sd'. x = rec_at env gd g \<and> gd' = gd \<and> sd' = sd) (\<lambda>_. ?post) ?post"
    by (rule spec_read_record_at [OF law gok gU]) (use here in simp_all)
  have size: "spec calm b gd sd (syscall (PFile GOALS_DIR ?n) (\<lambda>w. (lookup_file (goals_dir w) ?n, w)))
      (\<lambda>x gd' sd'. x = lookup_file gd ?n \<and> gd' = gd \<and> sd' = sd) (\<lambda>_. ?post) ?post"
    by (rule spec_look) (use here in \<open>auto simp: at_disk_def\<close>)
  have rewritten: "spec calm b gd sd (io_bind (write_atomically env GOALS_DIR ?n t) (\<lambda>_.
        io_bind (bump accepted_writes_update) (\<lambda>_. compact_loop env keep ids summary'))) (\<lambda>_. ?post) (\<lambda>_. ?post) ?post"
    if "rec_at env gd g = Some r" "encode_goal (goal_json env) (compacted_record k r) = Ok t" for r k t summary'
  proof (rule spec_bind [OF spec_rewrite [OF law gok gU that]])
    fix a :: unit and gd' sd'
    assume "?post gd' sd'"
    from rest [OF this] show "spec calm b gd' sd' (io_bind (bump accepted_writes_update) (\<lambda>_. compact_loop env keep ids summary'))
        (\<lambda>_. ?post) (\<lambda>_. ?post) ?post"
      by (intro spec_then [OF spec_bump]) simp_all
  qed
  show ?case
    unfolding compact_loop.simps Let_def
    apply (rule spec_value [OF look])
    apply (cases "rec_at env gd g")
     apply (simp add: spec_err here)
    apply (simp only: option.case split: if_split)
    apply (intro conjI impI)
       apply (rule rest [OF here])+
    apply (rule spec_value [OF size])
    apply (cases "lookup_file gd (file_name_of env g)")
     apply (simp add: spec_err here)
    apply (simp only: option.case split: result.split)
    apply (intro conjI allI impI)
     apply (erule rewritten, assumption)
    apply (rule spec_err, rule here)
    done
qed

lemma spec_compact:
  assumes law: "lawful env U S sess" and gok: "goals_ok env U sess gd" and sok: "sessions_ok env U S sess sd" and s: "s \<in> S"
  shows "spec calm b gd sd (compact_closed_history env s keep)
     (\<lambda>_. compact_safe env U sess gd sd) (\<lambda>_. compact_safe env U sess gd sd) (compact_safe env U sess gd sd)"
proof -
  have here: "compact_safe env U sess gd sd gd sd"
    using gok by (simp add: compact_safe_def shrunk_refl)
  have look: "spec calm b gd sd (read_index env s) (\<lambda>x gd' sd'. x = index_at env sd s \<and> gd' = gd \<and> sd' = sd)
      (\<lambda>_. compact_safe env U sess gd sd) (compact_safe env U sess gd sd)"
    by (rule spec_read_index [OF law sok s]) (use here in simp_all)
  have "set (ix_goal_ids (index_at env sd s)) \<subseteq> U"
    using index_at_fits [OF law sok s] by (simp add: index_fits_def)
  then show ?thesis
    unfolding compact_closed_history_def
    by (intro spec_lock spec_value [OF look] spec_compact_loop [OF law gok]) (use here in simp_all)
qed

section \<open>Histories of failures\<close>

text \<open>
  A power loss leaves one of the versions of each file. What is known of a goal is the set of records
  it may hold: an acknowledged save pins it, a save that failed while writing adds a possibility, and a
  refused save changes nothing. Re-saving a record that the store already holds rewrites nothing, so
  it pins nothing either.
\<close>

definition survives :: "'t dir \<Rightarrow> 't dir \<Rightarrow> bool" where
  "survives d d' \<longleftrightarrow> dir_wf d' \<and> (\<forall>n. \<exists>v \<in> set (versions d n). versions d' n = [v])"

type_synonym held = "ustr \<Rightarrow> goal_record option set"

definition after_save :: "'t env \<Rightarrow> 't world \<Rightarrow> goal_record \<Rightarrow> unit outcome \<Rightarrow> held \<Rightarrow> held" where
  "after_save env w r out held =
     held(goal_id r :=
       (case out of
          Done (Ok _) \<Rightarrow> if rec_at env (goals_dir w) (goal_id r) = Some r then held (goal_id r) else {Some r}
        | Done (Err e) \<Rightarrow> if write_failure e then insert (Some r) (held (goal_id r)) else held (goal_id r)
        | Killed \<Rightarrow> insert (Some r) (held (goal_id r))))"

definition after_compaction :: "held \<Rightarrow> held" where
  "after_compaction held g = held g \<union> {Some r' |r r'. Some r \<in> held g \<and> shrinks r r'}"

datatype store_event = SaveE goal_record | CompactE ustr nat | OpenE nat goal_budget | OtherE | PowerLossE

inductive store_step ::
  "'t env \<Rightarrow> ustr set \<Rightarrow> ustr set \<Rightarrow> (ustr \<Rightarrow> ustr) \<Rightarrow> held \<times> 't world \<Rightarrow> store_event \<Rightarrow> held \<times> 't world \<Rightarrow> bool"
  for env U S sess where
  save: "admissible U sess r \<Longrightarrow> save_blocking env r w = (out, w') \<Longrightarrow>
    store_step env U S sess (held, w) (SaveE r) (after_save env w r out held, w')"
| compact: "s \<in> S \<Longrightarrow> compact_closed_history env s keep w = (out, w') \<Longrightarrow>
    store_step env U S sess (held, w) (CompactE s keep) (after_compaction held, w')"
| reopen: "open_with_budget env pid budget w = (out, w') \<Longrightarrow>
    store_step env U S sess (held, w) (OpenE pid budget) (held, w')"
| other: "goals_dir w' = goals_dir w \<Longrightarrow> sessions_dir w' = sessions_dir w \<Longrightarrow>
    store_step env U S sess (held, w) OtherE (held, w')"
| power_loss: "survives (goals_dir w) (goals_dir w') \<Longrightarrow> survives (sessions_dir w) (sessions_dir w') \<Longrightarrow>
    store_step env U S sess (held, w) PowerLossE (held, w')"

definition store_init :: "held \<times> 't world \<Rightarrow> bool" where
  "store_init st \<longleftrightarrow> fst st = (\<lambda>_. {None}) \<and> goals_dir (snd st) = [] \<and> sessions_dir (snd st) = []"

definition decoded :: "'t env \<Rightarrow> 't option \<Rightarrow> goal_record option" where
  "decoded env v = (case v of None \<Rightarrow> None | Some t \<Rightarrow> (case decode_goal (goal_json env) t of Ok r \<Rightarrow> Some r | Err _ \<Rightarrow> None))"

definition tracked :: "'t env \<Rightarrow> ustr set \<Rightarrow> held \<Rightarrow> 't dir \<Rightarrow> bool" where
  "tracked env U held gd \<longleftrightarrow> (\<forall>g \<in> U. decoded env ` set (versions gd (file_name_of env g)) \<subseteq> held g)"

definition store_inv :: "'t env \<Rightarrow> ustr set \<Rightarrow> ustr set \<Rightarrow> (ustr \<Rightarrow> ustr) \<Rightarrow> held \<times> 't world \<Rightarrow> bool" where
  "store_inv env U S sess st \<longleftrightarrow>
     (lawful env U S sess \<longrightarrow>
        goals_ok env U sess (goals_dir (snd st)) \<and> sessions_ok env U S sess (sessions_dir (snd st))
        \<and> tracked env U (fst st) (goals_dir (snd st)))"

lemma tracked_subset:
  "tracked env U held gd \<Longrightarrow> (\<And>n. set (versions gd' n) \<subseteq> set (versions gd n)) \<Longrightarrow> tracked env U held gd'"
  unfolding tracked_def by blast

lemma ends_cases:
  assumes "spec calm b gd sd m Q E K" and "at_disk calm b gd sd w" and "m w = (out, w')"
  shows "case out of Done (Ok a) \<Rightarrow> Q a (goals_dir w') (sessions_dir w') | Done (Err e) \<Rightarrow> E e (goals_dir w') (sessions_dir w')
         | Killed \<Rightarrow> K (goals_dir w') (sessions_dir w')"
  using specD [OF assms(1,2)] unfolding assms(3) ends_def by simp

lemma at_disk_any: "at_disk False None (goals_dir w) (sessions_dir w) w" "at_disk False (Some (gs_budget (store w))) (goals_dir w) (sessions_dir w) w"
  by (simp_all add: at_disk_def)

lemma tracked_grew:
  assumes law: "lawful env U S sess" and tr: "tracked env U held gd" and grow: "grew env (goal_id r) t gd gd'"
    and dec: "decode_goal (goal_json env) t = Ok r" and gU: "goal_id r \<in> U"
  shows "tracked env U (held(goal_id r := insert (Some r) (held (goal_id r)))) gd'"
  unfolding tracked_def
proof
  fix g
  assume g: "g \<in> U"
  have "set (versions gd' (file_name_of env g)) \<subseteq> set (versions gd (file_name_of env g)) \<union> (if g = goal_id r then {Some t} else {})"
    using grow unfolding grew_def goal_name_inject [OF law g gU, symmetric] by (rule spec)
  then have "decoded env ` set (versions gd' (file_name_of env g)) \<subseteq>
      decoded env ` set (versions gd (file_name_of env g)) \<union> (if g = goal_id r then {Some r} else {})"
    using dec by (auto simp: decoded_def split: if_splits)
  also have "\<dots> \<subseteq> (held(goal_id r := insert (Some r) (held (goal_id r)))) g"
    using tr g by (auto simp: tracked_def)
  finally show "decoded env ` set (versions gd' (file_name_of env g)) \<subseteq> (held(goal_id r := insert (Some r) (held (goal_id r)))) g" .
qed

text \<open>The pinning case: the file holds nothing but the record that was written.\<close>

lemma tracked_pinned:
  assumes law: "lawful env U S sess" and tr: "tracked env U held gd" and grow: "grew env (goal_id r) t gd gd'"
    and dec: "decode_goal (goal_json env) t = Ok r" and gU: "goal_id r \<in> U"
    and pin: "versions gd' (file_name_of env (goal_id r)) = [Some t]"
  shows "tracked env U (held(goal_id r := {Some r})) gd'"
  unfolding tracked_def
proof
  fix g
  assume g: "g \<in> U"
  show "decoded env ` set (versions gd' (file_name_of env g)) \<subseteq> (held(goal_id r := {Some r})) g"
  proof (cases "g = goal_id r")
    case True
    then show ?thesis
      using pin dec by (simp add: decoded_def)
  next
    case False
    have "decoded env ` set (versions gd' (file_name_of env g)) \<subseteq> (held(goal_id r := insert (Some r) (held (goal_id r)))) g"
      using tracked_grew [OF law tr grow dec gU] g unfolding tracked_def by (rule bspec)
    then show ?thesis
      using False by simp
  qed
qed

lemma save_keeps_inv:
  assumes law: "lawful env U S sess" and adm: "admissible U sess r" and run: "save_blocking env r w = (out, w')"
    and gok: "goals_ok env U sess (goals_dir w)" and sok: "sessions_ok env U S sess (sessions_dir w)"
    and tr: "tracked env U held (goals_dir w)"
  shows "goals_ok env U sess (goals_dir w') \<and> sessions_ok env U S sess (sessions_dir w')
    \<and> tracked env U (after_save env w r out held) (goals_dir w')"
proof (cases "encode_goal (goal_json env) r")
  case (Err e)
  then have "out = Done (Err (Encoding e))" "w' = w"
    using run by (simp_all add: save_blocking_def io_err_def)
  then show ?thesis
    using gok sok tr by (simp add: after_save_def write_failure_def)
next
  case (Ok t)
  have gU: "goal_id r \<in> U" and dec: "decode_goal (goal_json env) t = Ok r"
    using adm encode_decodes [OF law _ Ok] by (simp_all add: admissible_def)
  note result = ends_cases [OF spec_save_blocking [OF law gok sok adm Ok, of False "gs_budget (store w)"] at_disk_any(2) run]
  show ?thesis
  proof (cases out)
    case Killed
    then have "save_safe env U S sess r t (goals_dir w) (sessions_dir w) (goals_dir w') (sessions_dir w')"
      using result by simp
    then show ?thesis
      using tracked_grew [OF law tr _ dec gU] by (simp add: save_safe_def after_save_def Killed)
  next
    case (Done res)
    show ?thesis
    proof (cases res)
      case (Err e)
      then have safe: "save_safe env U S sess r t (goals_dir w) (sessions_dir w) (goals_dir w') (sessions_dir w')"
          and same: "\<not> write_failure e \<Longrightarrow> goals_dir w' = goals_dir w"
        using result Done by simp_all
      show ?thesis
        using safe same tr tracked_grew [OF law tr _ dec gU] by (simp add: save_safe_def after_save_def Done Err)
    next
      case (Ok u)
      then have done_save: "save_done env U S sess r t (goals_dir w) (sessions_dir w) (goals_dir w') (sessions_dir w')"
        using result Done by simp
      then have safe: "goals_ok env U sess (goals_dir w')" "sessions_ok env U S sess (sessions_dir w')"
          and grow: "grew env (goal_id r) t (goals_dir w) (goals_dir w')"
        by (simp_all add: save_done_def save_safe_def)
      show ?thesis
      proof (cases "rec_at env (goals_dir w) (goal_id r) = Some r")
        case True
        then have "Some r \<in> held (goal_id r)"
          using tr gU lookup_in_versions [of "goals_dir w" "file_name_of env (goal_id r)"] gok
          by (fastforce simp: tracked_def goals_ok_def rec_at_def rec_sized_def decoded_def split: option.splits result.splits)
        then have "held(goal_id r := insert (Some r) (held (goal_id r))) = held"
          by (simp add: insert_absorb)
        then show ?thesis
          using safe tracked_grew [OF law tr grow dec gU] True by (simp add: after_save_def Done Ok)
      next
        case False
        then have "versions (goals_dir w') (file_name_of env (goal_id r)) = [Some t]"
          using done_save by (simp add: save_done_def)
        then show ?thesis
          using safe tracked_pinned [OF law tr grow dec gU] False by (simp add: after_save_def Done Ok)
      qed
    qed
  qed
qed

lemma compact_keeps_inv:
  assumes law: "lawful env U S sess" and s: "s \<in> S" and run: "compact_closed_history env s keep w = (out, w')"
    and gok: "goals_ok env U sess (goals_dir w)" and sok: "sessions_ok env U S sess (sessions_dir w)"
    and tr: "tracked env U held (goals_dir w)"
  shows "goals_ok env U sess (goals_dir w') \<and> sessions_ok env U S sess (sessions_dir w')
    \<and> tracked env U (after_compaction held) (goals_dir w')"
proof -
  have safe: "compact_safe env U sess (goals_dir w) (sessions_dir w) (goals_dir w') (sessions_dir w')"
    using ends_cases [OF spec_compact [OF law gok sok s, of False None keep] at_disk_any(1) run]
    by (simp split: outcome.splits result.splits)
  then have shr: "shrunk env (goals_dir w) (goals_dir w')"
    by (simp add: compact_safe_def)
  have "decoded env v \<in> after_compaction held g" if g: "g \<in> U" and v: "v \<in> set (versions (goals_dir w') (file_name_of env g))" for g v
  proof (cases v)
    case None
    then have "None \<in> set (versions (goals_dir w) (file_name_of env g))"
      using shr v unfolding shrunk_def by blast
    then have "decoded env None \<in> held g"
      using tr g unfolding tracked_def by blast
    then show ?thesis
      by (simp add: None after_compaction_def)
  next
    case (Some t')
    then obtain t r r' where t: "Some t \<in> set (versions (goals_dir w) (file_name_of env g))" "decode_goal (goal_json env) t = Ok r"
        and r': "decode_goal (goal_json env) t' = Ok r'" "shrinks r r'"
      using shr v unfolding shrunk_def by blast
    have "decoded env (Some t) \<in> held g"
      using tr g t(1) unfolding tracked_def by blast
    then have "Some r \<in> held g"
      using t(2) by (simp add: decoded_def)
    then show ?thesis
      using r' by (auto simp: Some decoded_def after_compaction_def)
  qed
  then show ?thesis
    using safe sok by (auto simp: compact_safe_def tracked_def)
qed

lemma open_keeps_inv:
  assumes law: "lawful env U S sess" and run: "open_with_budget env pid budget w = (out, w')"
    and gok: "goals_ok env U sess (goals_dir w)" and sok: "sessions_ok env U S sess (sessions_dir w)"
  shows "goals_dir w' = goals_dir w \<and> sessions_ok env U S sess (sessions_dir w')"
  using ends_cases [OF spec_open [OF law gok sok, of False pid budget] at_disk_any(1) run]
  by (simp add: repaired_def split: outcome.splits result.splits)

lemma survives_subset: "survives d d' \<Longrightarrow> set (versions d' n) \<subseteq> set (versions d n)"
  unfolding survives_def by (metis empty_set empty_subsetI insert_subset list.simps(15))

lemma store_step_inv:
  assumes "store_step env U S sess st e st'" and inv: "store_inv env U S sess st"
  shows "store_inv env U S sess st'"
  unfolding store_inv_def
proof
  assume law: "lawful env U S sess"
  from assms(1) show "goals_ok env U sess (goals_dir (snd st')) \<and> sessions_ok env U S sess (sessions_dir (snd st'))
      \<and> tracked env U (fst st') (goals_dir (snd st'))"
  proof cases
    case (save r w out w' held)
    then show ?thesis
      using save_keeps_inv [OF law save(4,5), of held] inv law by (simp add: store_inv_def)
  next
    case (compact s keep w out w' held)
    then show ?thesis
      using compact_keeps_inv [OF law compact(4,5), of held] inv law by (simp add: store_inv_def)
  next
    case (reopen pid budget w out w' held)
    then show ?thesis
      using open_keeps_inv [OF law reopen(4)] inv law by (simp add: store_inv_def)
  next
    case (other w' w held)
    then show ?thesis
      using inv law by (simp add: store_inv_def)
  next
    case (power_loss w w' held)
    have gok: "goals_ok env U sess (goals_dir w)" and sok: "sessions_ok env U S sess (sessions_dir w)" and tr: "tracked env U held (goals_dir w)"
      using inv law power_loss(1) by (simp_all add: store_inv_def)
    have "goals_ok env U sess (goals_dir w')"
      by (rule goals_ok_subset [OF gok _ survives_subset [OF power_loss(4)]]) (use power_loss(4) in \<open>simp add: survives_def\<close>)
    moreover have "sessions_ok env U S sess (sessions_dir w')"
      by (rule sessions_ok_subset [OF sok _ survives_subset [OF power_loss(5)]]) (use power_loss(5) in \<open>simp add: survives_def\<close>)
    moreover have "tracked env U held (goals_dir w')"
      by (rule tracked_subset [OF tr survives_subset [OF power_loss(4)]])
    ultimately show ?thesis
      using power_loss by simp
  qed
qed

lemma store_init_inv: "store_init st \<Longrightarrow> store_inv env U S sess st"
  by (auto simp: store_init_def store_inv_def goals_ok_def sessions_ok_def dir_wf_def tracked_def versions_def decoded_def)

interpretation goal_store_run: invariant_system store_init "store_step env U S sess" "store_inv env U S sess"
  for env U S sess
  by unfold_locales (simp_all add: store_init_inv store_step_inv)

end
