(* ===== verification/Goal_Guarantees.thy ===== *)
theory Goal_Guarantees
  imports Goal_Recovery
begin

text \<open>
  What the file store of goals guarantees over whole histories: nothing acknowledged is lost, a save
  is exact and never overwrites a concurrent one, and numbers are not handed out twice; with a
  concrete store on which the guarantees are tried, and the one acknowledged save a power loss undoes.
\<close>

section \<open>What a reopened store lists\<close>


text \<open>A run that meets no failure of the file system and finds the lock of the store free.\<close>

abbreviation undisturbed :: "'t world \<Rightarrow> bool" where
  "undisturbed w \<equiv> faults w = [] \<and> locks w = []"

lemma at_disk_here:
  "at_disk (undisturbed w) None (goals_dir w) (sessions_dir w) w"
  "at_disk (undisturbed w) (Some (gs_budget (store w))) (goals_dir w) (sessions_dir w) w"
  by (simp_all add: at_disk_def)


section \<open>A concrete store\<close>

text \<open>A text is the value it prints, and the digest is the text itself.\<close>

definition demo_env :: "(goal_envelope + durable_session_index) env" where
  "demo_env =
     \<lparr>goal_json = \<lparr>to_string_pretty = (\<lambda>e. Ok (Inl e)),
         from_str = (\<lambda>t. case t of Inl e \<Rightarrow> Ok e | Inr _ \<Rightarrow> Err (lit ''not a goal'')), push_newline = id\<rparr>,
      print_index = (\<lambda>d. Ok (Inr d)),
      parse_index = (\<lambda>t. case t of
          Inr d \<Rightarrow> Ok \<lparr>ie_schema = di_schema d, ie_session_id = di_session_id d,
                      ie_goal_ids = Durable (di_entries d) (di_high_water d), ie_high_water = 0\<rparr>
        | Inl _ \<Rightarrow> Err (lit ''not an index'')),
      text_len = (\<lambda>_. 100), sha256 = map of_nat, is_unix = True\<rparr>"

definition demo_first :: goal_record where
  "demo_first = demo_goal\<lparr>revision := 1\<rparr>"

definition demo_world :: "(goal_envelope + durable_session_index) world" where
  "demo_world =
     \<lparr>goals_dir = [], sessions_dir = [], goals_temps = [], sessions_temps = [], faults = [], locks = [],
      store = \<lparr>gs_budget = default_budget, gs_recovery = recovery_default, gs_pid = 7, gs_sequence = 0, accepted_writes = 0,
               synced_publications = 0, unsynced_publications = 0, unlock_failures = 0\<rparr>\<rparr>"

lemma demo_lawful: "lawful demo_env {goal_id demo_goal} {session_id demo_goal} (\<lambda>_. session_id demo_goal)"
  using demo_goal_storable by (auto simp: lawful_def demo_env_def storable_def split: sum.splits)

lemma demo_first_admissible: "admissible {goal_id demo_goal} (\<lambda>_. session_id demo_goal) demo_first"
  using demo_goal_storable by (simp add: admissible_def demo_first_def storable_def)

lemmas store_eval = io_ok_def io_err_def io_of_def io_bind_def io_get_def io_modify_def attempt_def syscall_def on_dir_def
  on_temps_def get_dir_def get_temps_def bump_def read_to_string_def sync_directory_entries_def write_atomically_def
  read_record_sized_def read_record_at_def decode_index_def empty_index_def read_index_def index_text_def write_index_def
  release_def with_store_lock_def usage_of_index_def enlisted_def expected_revision_def
  adopts_identical_orphan_def save_locked_def save_blocking_def versions_def lookup_file_def publish_def sync_dir_def Let_def

lemma acquire_free: "locks w = [] \<Longrightarrow> acquire WRITE_LOCK_ATTEMPTS w = (Done (Ok ()), w)"
  by (simp add: WRITE_LOCK_ATTEMPTS_def eval_nat_numeral)

lemma demo_encode: "encode_goal (goal_json demo_env) r = Ok (Inl (goal_envelope_of r))"
  by (simp add: encode_goal_def demo_env_def)

lemma demo_decode: "decode_goal (goal_json demo_env) (Inl (goal_envelope_of demo_first)) = Ok demo_first"
  using encode_decodes [OF demo_lawful _ demo_encode] demo_first_admissible by (simp add: admissible_def)

lemma demo_env_sel:
  "print_index demo_env d = Ok (Inr d)" "text_len demo_env t = 100" "is_unix demo_env" "push_newline (goal_json demo_env) t = t"
  "parse_index demo_env (Inr d) = Ok \<lparr>ie_schema = di_schema d, ie_session_id = di_session_id d,
                      ie_goal_ids = Durable (di_entries d) (di_high_water d), ie_high_water = 0\<rparr>"
  by (simp_all add: demo_env_def)

lemma demo_first_sel: "goal_id demo_first = goal_id demo_goal" "session_id demo_first = session_id demo_goal" "revision demo_first = 1"
  by (simp_all add: demo_first_def)

lemma demo_fits_budget: "budget_admit default_budget \<lparr>bu_goals = 0, bu_bytes = 0\<rparr> 100 True = Ok \<lparr>bu_goals = 1, bu_bytes = 100\<rparr>"
  by (simp add: budget_admit_def default_budget_def Let_def saturating_add_def)

lemma demo_ordinal: "generated_goal_ordinal (session_id demo_goal) (goal_id demo_goal) = Some 1"
  by (simp add: generated_goal_ordinal_def demo_goal_def strip_prefix_def lit_def parse_u64_def Let_def)

lemma demo_session: "session_id_new (session_id demo_goal) = Ok (session_id demo_goal)"
  using demo_goal_storable by (simp add: storable_def)

lemmas demo_eval = store_eval acquire_free demo_encode demo_decode demo_env_sel demo_first_sel demo_fits_budget demo_ordinal demo_world_def

definition demo_index :: durable_session_index where
  "demo_index =
     \<lparr>di_schema = SESSION_INDEX_SCHEMA_VERSION, di_session_id = session_id demo_goal, di_entries = [goal_id demo_goal], di_high_water = 1\<rparr>"
lemma demo_save_runs:
  "save_blocking demo_env demo_first demo_world =
     (Done (Ok ()), demo_world\<lparr>goals_dir := [(file_name_of demo_env (goal_id demo_goal), [Some (Inl (goal_envelope_of demo_first))])],
        sessions_dir := [(file_name_of demo_env (session_id demo_goal), [Some (Inr demo_index)])], 
        store := (store demo_world)\<lparr>gs_sequence := 2, accepted_writes := 1, synced_publications := 2\<rparr>\<rparr>)"
  by (simp add: demo_eval demo_index_def)


definition demo_orphaned :: "(goal_envelope + durable_session_index) world" where
  "demo_orphaned = demo_world\<lparr>goals_dir := [(file_name_of demo_env (goal_id demo_goal), [Some (Inl (goal_envelope_of demo_first)), None])],
        store := (store demo_world)\<lparr>gs_sequence := 1, unsynced_publications := 1\<rparr>\<rparr>"

lemma demo_unsynced:
  "save_blocking demo_env demo_first (demo_world\<lparr>faults := [Works, Works, Works, Works, Works, Works, Fails (lit ''EIO'')]\<rparr>) =
     (Done (Err (CommittedButNotDurable (PFile GOALS_DIR (file_name_of demo_env (goal_id demo_goal))) (lit ''EIO''))), demo_orphaned)"
  by (simp add: demo_eval demo_orphaned_def)

lemma demo_retry:
  "save_blocking demo_env demo_first demo_orphaned =
     (Done (Ok ()), demo_orphaned\<lparr>
        sessions_dir := [(file_name_of demo_env (session_id demo_goal), [Some (Inr demo_index)])],
        store := (store demo_orphaned)\<lparr>gs_sequence := 2, accepted_writes := 1, synced_publications := 1\<rparr>\<rparr>)"
  by (simp add: demo_eval demo_orphaned_def demo_index_def)

definition demo_lost :: "(goal_envelope + durable_session_index) world" where
  "demo_lost = demo_world\<lparr>sessions_dir := [(file_name_of demo_env (session_id demo_goal), [Some (Inr demo_index)])]\<rparr>"

lemma demo_lost_survives:
  "survives (goals_dir (snd (save_blocking demo_env demo_first demo_orphaned))) (goals_dir demo_lost)"
  "survives (sessions_dir (snd (save_blocking demo_env demo_first demo_orphaned))) (sessions_dir demo_lost)"
  unfolding demo_retry by (simp_all add: survives_def demo_lost_def demo_world_def demo_orphaned_def dir_wf_def versions_def)

lemma demo_lost_opens:
  "fst (open_with_budget demo_env 7 default_budget demo_lost) = Done (Ok ())"
  "fst (list_blocking demo_env (session_id demo_goal) (snd (open_with_budget demo_env 7 default_budget demo_lost))) = Done (Ok [])"
   by (simp_all add: demo_eval demo_lost_def demo_index_def open_with_budget_def list_blocking_def recover_def
     discard_temps_def scan_records_def sessions_to_repair_def dir_listing_def values_in_order_def demo_session
     repaired_index_def orphans_of_def highest_ordinal_def map_filter_def)

lemma demo_start:
  "reach store_init (store_step demo_env {goal_id demo_goal} {session_id demo_goal} (\<lambda>_. session_id demo_goal)) (\<lambda>_. {None}, demo_world)"
  by (rule reach.reach_init) (simp add: store_init_def demo_world_def)

lemma demo_calm: "faults demo_world = []" "locks demo_world = []"
  by (simp_all add: demo_world_def)

lemma demo_saved_calm:
  "faults (snd (save_blocking demo_env demo_first demo_world)) = []" "locks (snd (save_blocking demo_env demo_first demo_world)) = []"
  unfolding demo_save_runs by (simp_all add: demo_world_def)

section \<open>One operation in a store with any history\<close>

lemma reached_directories:
  assumes "lawful env U S sess" and "reach store_init (store_step env U S sess) (held, w)"
  shows "goals_ok env U sess (goals_dir w)" and "sessions_ok env U S sess (sessions_dir w)"
  using goal_store_run.reach_inv [OF assms(2)] assms(1) by (simp_all add: store_inv_def)

lemma any_open:
  assumes law: "lawful env U S sess" and gok: "goals_ok env U sess (goals_dir w)" and sok: "sessions_ok env U S sess (sessions_dir w)"
    and run: "open_with_budget env pid budget w = (out, w')"
  shows "at_disk (undisturbed w) None (goals_dir w') (sessions_dir w') w' \<and>
    (case out of
       Done (Ok _) \<Rightarrow> goals_dir w' = goals_dir w \<and> repaired env U S sess (goals_dir w) S (sessions_dir w) (sessions_dir w')
     | _ \<Rightarrow> \<not> undisturbed w)"
  using specD [OF spec_open [OF law gok sok, of _ pid budget] at_disk_here(1)] unfolding run ends_def
  by (auto split: outcome.splits result.splits)

lemma any_save:
  assumes law: "lawful env U S sess" and gok: "goals_ok env U sess (goals_dir w)" and sok: "sessions_ok env U S sess (sessions_dir w)"
    and adm: "admissible U sess r" and enc: "encode_goal (goal_json env) r = Ok t" and run: "save_blocking env r w = (out, w')"
  shows "case out of
      Done (Ok _) \<Rightarrow> revision_gate env (goals_dir w) (sessions_dir w) r
        \<and> is_ok (budget_gate (gs_budget (store w)) env (goals_dir w) (sessions_dir w) r t)
        \<and> save_done env U S sess r t (goals_dir w) (sessions_dir w) (goals_dir w') (sessions_dir w')
    | Done (Err e) \<Rightarrow> save_safe env U S sess r t (goals_dir w) (sessions_dir w) (goals_dir w') (sessions_dir w')
        \<and> (write_failure e \<longrightarrow> \<not> undisturbed w)
        \<and> (\<not> write_failure e \<longrightarrow> goals_dir w' = goals_dir w \<and> sessions_dir w' = sessions_dir w
             \<and> (refused (gs_budget (store w)) env (goals_dir w) (sessions_dir w) r t e \<or> \<not> undisturbed w \<and> (\<exists>n. e = Busy n)))
    | Killed \<Rightarrow> \<not> undisturbed w
        \<and> save_safe env U S sess r t (goals_dir w) (sessions_dir w) (goals_dir w') (sessions_dir w')"
  using ends_cases [OF spec_save_blocking [OF law gok sok adm enc] at_disk_here(2) run] by simp

text \<open>A save that did not pass the gate of the revisions has changed nothing, however it ended.\<close>

lemma gated_unchanged:
  assumes "save_safe env U S sess r t gd sd gd' sd'" and "\<not> revision_gate env gd sd r"
  shows "gd' = gd" and "sd' = sd"
  using assms by (simp_all add: save_safe_def moved_def)

section \<open>Properties\<close>



text \<open>
  Property C10. Saving is exact. In a store that any history of failures has left, an acknowledged save,
  whatever failures it met, carried the revision after the stored one (or is the identical record
  missing from its index) and fitted the budget, and its record is stored and listed by its session. A
  save that meets no failure and finds the lock free is acknowledged in just these cases; otherwise
  the answer names the failed check and nothing on disk has changed. Under failures, an answer may also
  say that the store is busy or that the file system failed, and the disk may have changed only by a
  failure of the file system or a crash after the revision had been accepted.
\<close>

theorem save_is_exact:
  assumes "lawful env U S sess" and "reach store_init (store_step env U S sess) (held, w)"
    and "admissible U sess r" and "encode_goal (goal_json env) r = Ok t"
  shows "case save_blocking env r w of
      (Done (Ok _), w') \<Rightarrow>
        revision_gate env (goals_dir w) (sessions_dir w) r
        \<and> is_ok (budget_gate (gs_budget (store w)) env (goals_dir w) (sessions_dir w) r t)
        \<and> rec_at env (goals_dir w') (goal_id r) = Some r
        \<and> goal_id r \<in> set (ix_goal_ids (index_at env (sessions_dir w') (session_id r)))
    | (Done (Err e), w') \<Rightarrow>
        (refused (gs_budget (store w)) env (goals_dir w) (sessions_dir w) r t e
         \<or> \<not> undisturbed w \<and> (write_failure e \<or> (\<exists>n. e = Busy n)))
        \<and> (goals_dir w' = goals_dir w \<and> sessions_dir w' = sessions_dir w
           \<or> write_failure e \<and> revision_gate env (goals_dir w) (sessions_dir w) r)
    | (Killed, w') \<Rightarrow> \<not> undisturbed w
        \<and> (goals_dir w' = goals_dir w \<and> sessions_dir w' = sessions_dir w
           \<or> revision_gate env (goals_dir w) (sessions_dir w) r)"
proof -
  obtain out w' where run: "save_blocking env r w = (out, w')"
    by fastforce
  from any_save [OF assms(1) reached_directories [OF assms(1,2)] assms(3,4) run] gated_unchanged
  show ?thesis
    by (auto simp: run save_done_def split: outcome.splits result.splits)
qed

theorem save_is_exact_witness:
  "case save_blocking demo_env demo_first demo_world of
      (Done (Ok _), w') \<Rightarrow> rec_at demo_env (goals_dir w') (goal_id demo_first) = Some demo_first
    | _ \<Rightarrow> False"
  using save_is_exact [OF demo_lawful demo_start demo_first_admissible demo_encode] by (simp add: demo_save_runs)





text \<open>
  An acknowledged save that a power loss undoes. The first save published the record and then could
  not synchronize its directory; the retry finds the identical record missing from its index, adds it
  to the index, and is acknowledged without synchronizing the directory of records again.
\<close>

lemma adopted_record_lost:
  "fst (save_blocking demo_env demo_first (demo_world\<lparr>faults := [Works, Works, Works, Works, Works, Works, Fails (lit ''EIO'')]\<rparr>))
     = Done (Err (CommittedButNotDurable (PFile GOALS_DIR (file_name_of demo_env (goal_id demo_goal))) (lit ''EIO'')))
   \<and> fst (save_blocking demo_env demo_first demo_orphaned) = Done (Ok ())
   \<and> survives (goals_dir (snd (save_blocking demo_env demo_first demo_orphaned))) (goals_dir demo_lost)
   \<and> survives (sessions_dir (snd (save_blocking demo_env demo_first demo_orphaned))) (sessions_dir demo_lost)
   \<and> fst (list_blocking demo_env (session_id demo_goal) (snd (open_with_budget demo_env 7 default_budget demo_lost))) = Done (Ok [])"
  using demo_lost_survives demo_lost_opens by (simp add: demo_unsynced demo_retry)

section \<open>Numbers\<close>

text \<open>Decimal printing is read back by \<open>parse::<u64>\<close>.\<close>

lemma digit_code: "d < 10 \<Longrightarrow> of_char (''0123456789abcdef'' ! d) = (48 + d :: nat)"
proof -
  assume "d < 10"
  then have "d \<in> {0, 1, 2, 3, 4, 5, 6, 7, 8, 9}"
    by auto
  then show ?thesis
    by auto
qed

lemma show_dec_digits:
  "lit (show_dec n) \<noteq> [] \<and> list_all (\<lambda>c. 48 \<le> c \<and> c \<le> 57) (lit (show_dec n))
   \<and> foldl (\<lambda>n c. 10 * n + (c - 48)) 0 (lit (show_dec n)) = n"
proof (induction n rule: less_induct)
  case (less n)
  show ?case
  proof (cases "n < 10")
    case True
    then show ?thesis
      by (simp add: show_dec_def show_base.simps [of 10 n] lit_def digit_code)
  next
    case False
    then have "show_dec n = show_dec (n div 10) @ [''0123456789abcdef'' ! (n mod 10)]"
      by (simp add: show_dec_def show_base.simps [of 10 n])
    then have split: "lit (show_dec n) = lit (show_dec (n div 10)) @ [48 + n mod 10]"
      by (simp add: lit_def digit_code)
    show ?thesis
      using less.IH [of "n div 10"] False unfolding split by simp
  qed
qed

lemma parse_u64_show: "parse_u64 (lit (show_dec (unat n))) = Some n"
proof -
  let ?s = "lit (show_dec (unat n))"
  have plain: "(case ?s of c # r \<Rightarrow> if c = of_char CHR ''+'' \<and> r \<noteq> [] then r else ?s | [] \<Rightarrow> []) = ?s"
    using show_dec_digits [of "unat n"] by (cases ?s) auto
  have small: "unat n < 2 ^ 64"
    using unat_bound [of n] by simp
  show ?thesis
    unfolding parse_u64_def plain Let_def using show_dec_digits [of "unat n"] small by simp
qed

lemma generated_ordinal_of_id:
  "generated_goal_ordinal s (s @ lit '':goal-'' @ lit (show_dec (unat n))) = Some n"
  by (simp add: generated_goal_ordinal_def strip_prefix_def parse_u64_show)

lemma checked_succ:
  fixes h :: u64
  shows "checked_add h 1 = Some n \<Longrightarrow> h < n" and "checked_add h 1 = None \<Longrightarrow> h = - 1"
  using unat_bound [of h]
  by (auto simp: checked_add_def word_less_nat_alt unat_word_ariths word_unat_eq_iff unat_minus_one_max split: if_splits)

text \<open>A complete index has seen the number of every goal of its session.\<close>

lemma high_water_covers:
  assumes "lawful env U S sess" and "sessions_ok env U S sess sd" and comp: "complete env U sess gd sd s" and "s \<in> S"
    and "g \<in> U" "sess g = s" "rec_at env gd g \<noteq> None" "generated_goal_ordinal s g = Some k"
  shows "k \<le> ix_high_water (index_at env sd s)"
proof -
  have fits: "index_fits env U S sess (file_name_of env s) (index_at env sd s)"
    and sid: "ix_session_id (index_at env sd s) = s"
    using index_at_fits [OF assms(1,2,4)] by simp_all
  have "g \<in> set (ix_goal_ids (index_at env sd s))"
    using comp assms(5-7) by (simp add: complete_def)
  then have "\<forall>k. generated_goal_ordinal s g = Some k \<longrightarrow> k \<le> ix_high_water (index_at env sd s)"
    using fits sid unfolding index_fits_def by metis
  with assms(8) show ?thesis by blast
qed

text \<open>
  Property C30. Numbers are fresh. Whatever history of failures a store has behind it, once an opening
  has succeeded, whatever failures it met, the next number of a session that can be read is above the
  number of every goal of the session that is on disk, so the identifier built from it names none of
  them. If nothing fails and the lock is free, the opening succeeds and there is such a number, unless
  the numbers are exhausted.
\<close>

theorem next_ordinal_is_fresh:
  assumes "lawful env U S sess" and "reach store_init (store_step env U S sess) (held, w)" and "s \<in> S"
  shows "case open_with_budget env pid budget w of
      (Done (Ok _), w') \<Rightarrow>
        (case next_goal_ordinal_blocking env s w' of
           (Done (Ok n), _) \<Rightarrow>
             (\<forall>g \<in> U. sess g = s \<and> rec_at env (goals_dir w') g \<noteq> None \<longrightarrow>
                g \<noteq> s @ lit '':goal-'' @ lit (show_dec (unat n)) \<and> (\<forall>k. generated_goal_ordinal s g = Some k \<longrightarrow> k < n))
         | (Done (Err _), _) \<Rightarrow> undisturbed w \<longrightarrow> ix_high_water (index_at env (sessions_dir w') s) = - 1
         | (Killed, _) \<Rightarrow> \<not> undisturbed w)
    | _ \<Rightarrow> \<not> undisturbed w"
proof (cases "\<exists>u w'. open_with_budget env pid budget w = (Done (Ok u), w')")
  case False
  obtain out w' where run: "open_with_budget env pid budget w = (out, w')"
    by fastforce
  with False any_open [OF assms(1) reached_directories [OF assms(1,2)] run] show ?thesis
    by (auto split: outcome.splits result.splits)
next
  case True
  note law = assms(1) and dirs = reached_directories [OF assms(1,2)]
  obtain w' where opened: "open_with_budget env pid budget w = (Done (Ok ()), w')"
    using True by auto
  note after = any_open [OF law dirs opened]
  have dir: "goals_dir w' = goals_dir w"
      and rep: "repaired env U S sess (goals_dir w) S (sessions_dir w) (sessions_dir w')"
      and here: "at_disk (undisturbed w) None (goals_dir w') (sessions_dir w') w'"
    using after by auto
  have sok: "sessions_ok env U S sess (sessions_dir w')" and comp: "complete env U sess (goals_dir w) (sessions_dir w') s"
    using rep assms(3) by (simp_all add: repaired_def)
  obtain out w'' where run: "next_goal_ordinal_blocking env s w' = (out, w'')"
    by fastforce
  have named: "g \<noteq> s @ lit '':goal-'' @ lit (show_dec (unat n)) \<and> (\<forall>k. generated_goal_ordinal s g = Some k \<longrightarrow> k < n)"
    if "checked_add (ix_high_water (index_at env (sessions_dir w') s)) 1 = Some n"
      and "g \<in> U" "sess g = s" "rec_at env (goals_dir w) g \<noteq> None" for g n
    using high_water_covers [OF law sok comp assms(3) that(2-4)] checked_succ(1) [OF that(1)] generated_ordinal_of_id [of s n]
    by (auto dest: le_less_trans)
  from ends_cases [OF spec_next_ordinal [OF law sok assms(3)] here run] show ?thesis
    using named checked_succ(2) by (auto simp: opened run dir split: outcome.splits result.splits)
qed

lemma demo_reopens:
  "open_with_budget demo_env 8 default_budget (snd (save_blocking demo_env demo_first demo_world)) =
     (Done (Ok ()), (snd (save_blocking demo_env demo_first demo_world))\<lparr>store :=
        \<lparr>gs_budget = default_budget, gs_recovery = recovery_default, gs_pid = 8, gs_sequence = 0, accepted_writes = 0,
          synced_publications = 0, unsynced_publications = 0, unlock_failures = 0\<rparr>\<rparr>)"
  unfolding demo_save_runs
  by (simp add: demo_eval demo_index_def open_with_budget_def recover_def discard_temps_def scan_records_def sessions_to_repair_def
      dir_listing_def values_in_order_def demo_session repaired_index_def orphans_of_def highest_ordinal_def map_filter_def recovery_default_def)

theorem next_ordinal_is_fresh_witness:
  "case next_goal_ordinal_blocking demo_env (session_id demo_goal)
      (snd (open_with_budget demo_env 8 default_budget (snd (save_blocking demo_env demo_first demo_world)))) of
     (Done (Ok n), _) \<Rightarrow> 1 < n
   | (Done (Err _), _) \<Rightarrow> False
   | (Killed, _) \<Rightarrow> False"
proof -
  let ?w = "snd (save_blocking demo_env demo_first demo_world)"
  obtain w' where w': "open_with_budget demo_env 8 default_budget ?w = (Done (Ok ()), w')"
      "rec_at demo_env (goals_dir w') (goal_id demo_goal) = Some demo_first"
      "ix_high_water (index_at demo_env (sessions_dir w') (session_id demo_goal)) = 1"
    using demo_reopens
    by (simp add: demo_save_runs rec_at_def rec_sized_def index_at_def lookup_file_def versions_def demo_decode decode_index_def
        demo_env_sel demo_index_def)
  have "store_step demo_env {goal_id demo_goal} {session_id demo_goal} (\<lambda>_. session_id demo_goal) (\<lambda>_. {None}, demo_world)
      (SaveE demo_first) (after_save demo_env demo_world demo_first (Done (Ok ())) (\<lambda>_. {None}), ?w)"
    by (rule store_step.save [OF demo_first_admissible]) (simp add: demo_save_runs)
  from next_ordinal_is_fresh [OF demo_lawful reach.reach_step [OF demo_start this], of "session_id demo_goal" 8 default_budget]
  show ?thesis
    using w' demo_ordinal demo_saved_calm by (auto split: prod.splits outcome.splits result.splits)
qed

end
