(* ===== verification/Goal_Session.thy ===== *)
theory Goal_Session
  imports Goal_Contract Goal_Guarantees
begin

text \<open>
  The goal service over the file store: the store meets the contract of the goal ports under every
  script of faults, so what the service guarantees holds of the two together.
\<close>

section \<open>The file store meets the contract\<close>

definition file_stored :: "'t env \<Rightarrow> 't host record_view" where
  "file_stored env h g = rec_at env (goals_dir (host_world h)) g"

definition file_listed :: "'t env \<Rightarrow> 't host list_view" where
  "file_listed env h s = ix_goal_ids (index_at env (sessions_dir (host_world h)) s)"

text \<open>The directories are in order, and no index names a record that is not there.\<close>

definition file_good :: "'t env \<Rightarrow> ustr set \<Rightarrow> ustr set \<Rightarrow> (ustr \<Rightarrow> ustr) \<Rightarrow> 't host \<Rightarrow> bool" where
  "file_good env U S sess h \<longleftrightarrow>
     lawful env U S sess \<and> goals_ok env U sess (goals_dir (host_world h)) \<and> sessions_ok env U S sess (sessions_dir (host_world h))
     \<and> (\<forall>s \<in> S. \<forall>g \<in> set (file_listed env h s). file_stored env h g \<noteq> None)"

lemma runs_of_store:
  assumes "spec False b gd sd m Q E K" and "at_disk False b gd sd (host_world h)"
    and "\<And>a w. Q a (goals_dir w) (sessions_dir w) \<Longrightarrow> P (Some (Ok a)) (h\<lparr>host_world := w\<rparr>)"
    and "\<And>e x w. E e (goals_dir w) (sessions_dir w) \<Longrightarrow> P (Some (Err x)) (h\<lparr>host_world := w\<rparr>)"
    and "\<And>w. K (goals_dir w) (sessions_dir w) \<Longrightarrow> P None (h\<lparr>host_world := w\<rparr>)"
  shows "runs (of_store shown m) h P"
proof -
  obtain out w where run: "m (host_world h) = (out, w)"
    by fastforce
  show ?thesis
    using ends_cases [OF assms(1,2) run] assms(3-) run
    by (auto simp: runs_def of_store_def split: outcome.splits result.splits)
qed

lemma file_good_same:
  "file_good env U S sess h \<Longrightarrow> goals_dir w = goals_dir (host_world h) \<Longrightarrow> sessions_dir w = sessions_dir (host_world h) \<Longrightarrow>
   file_good env U S sess (h\<lparr>host_world := w\<rparr>) \<and> file_stored env (h\<lparr>host_world := w\<rparr>) = file_stored env h
   \<and> file_listed env (h\<lparr>host_world := w\<rparr>) = file_listed env h"
  by (simp add: file_good_def file_stored_def file_listed_def fun_eq_iff)

lemma file_gate:
  assumes "session_id r = s"
  shows "revision_gate env (goals_dir (host_world h)) (sessions_dir (host_world h)) r \<longleftrightarrow> save_gate (file_stored env) (file_listed env) h r"
  by (auto simp: revision_gate_def save_gate_def file_stored_def file_listed_def adopts_identical_orphan_def expected_revision_def
      rec_at_def split: option.splits)

lemma file_save_view:
  assumes law: "lawful env U S sess" and adm: "admissible U sess r" and dec: "decode_goal (goal_json env) t = Ok r"
    and moved: "moved env S r t (goals_dir (host_world h)) (sessions_dir (host_world h)) (goals_dir w) (sessions_dir w)"
  shows "save_view U S (file_stored env) (file_listed env) h r (h\<lparr>host_world := w\<rparr>)"
proof (cases "goals_dir w = goals_dir (host_world h) \<and> sessions_dir w = sessions_dir (host_world h)")
  case True
  then show ?thesis
    by (simp add: save_view_def file_stored_def file_listed_def)
next
  case False
  let ?gd = "goals_dir (host_world h)" and ?sd = "sessions_dir (host_world h)"
  have gate: "revision_gate env ?gd ?sd r"
    and files: "\<And>n. lookup_file (goals_dir w) n = lookup_file ?gd n \<or> n = file_name_of env (goal_id r) \<and> lookup_file (goals_dir w) n = Some t"
    and index: "sessions_dir w = ?sd \<or> rec_at env (goals_dir w) (goal_id r) = Some r
        \<and> goal_id r \<notin> set (ix_goal_ids (index_at env ?sd (session_id r)))
        \<and> reindexed env S ?sd (session_id r) (enlisted (index_at env ?sd (session_id r)) r) (sessions_dir w)"
    using moved False by (auto simp: moved_def)
  have gU: "goal_id r \<in> U"
    using adm by (simp add: admissible_def)
  have others: "rec_at env (goals_dir w) g = rec_at env ?gd g" if "g \<in> U" "g \<noteq> goal_id r" for g
    using files [of "file_name_of env g"] goal_name_inject [OF law that(1) gU] that(2) by (simp add: rec_at_def rec_sized_def)
  have mine: "rec_at env (goals_dir w) (goal_id r) = rec_at env ?gd (goal_id r) \<or> rec_at env (goals_dir w) (goal_id r) = Some r"
    using files [of "file_name_of env (goal_id r)"] dec by (auto simp: rec_at_def rec_sized_def)
  have lists: "ix_goal_ids (index_at env (sessions_dir w) s) = ix_goal_ids (index_at env ?sd s)
      \<or> s = session_id r \<and> goal_id r \<notin> set (ix_goal_ids (index_at env ?sd s)) \<and> rec_at env (goals_dir w) (goal_id r) = Some r
        \<and> ix_goal_ids (index_at env (sessions_dir w) s) = ix_goal_ids (index_at env ?sd s) @ [goal_id r]" if "s \<in> S" for s
  proof (cases "s = session_id r")
    case True
    then show ?thesis
      using index by (auto simp: reindexed_def enlisted_def)
  next
    case False
    then show ?thesis
      using index that index_at_cong [of "sessions_dir w" env s ?sd] by (auto simp: reindexed_def)
  qed
  show ?thesis
    unfolding save_view_def file_gate [OF refl, symmetric]
    using gate others mine lists by (auto simp: file_stored_def file_listed_def)
qed

lemma file_good_saved:
  assumes "file_good env U S sess h" and "save_view U S (file_stored env) (file_listed env) h r (h\<lparr>host_world := w\<rparr>)"
    and "goals_ok env U sess (goals_dir w)" and "sessions_ok env U S sess (sessions_dir w)"
  shows "file_good env U S sess (h\<lparr>host_world := w\<rparr>)"
proof -
  let ?h = "h\<lparr>host_world := w\<rparr>"
  have "file_stored env ?h g \<noteq> None" if s: "s \<in> S" and g: "g \<in> set (file_listed env ?h s)" for s g
  proof (cases "g \<in> set (file_listed env h s)")
    case True
    then have old: "file_stored env h g \<noteq> None"
      using assms(1) s by (simp add: file_good_def)
    have law: "lawful env U S sess" and sok: "sessions_ok env U S sess (sessions_dir (host_world h))"
      using assms(1) by (simp_all add: file_good_def)
    have "g \<in> U"
      using True index_at_fits [OF law sok s] by (auto simp: index_fits_def file_listed_def)
    then show ?thesis
      using old assms(2) by (cases "g = goal_id r") (auto simp: save_view_def)
  next
    case False
    have "file_listed env ?h s = file_listed env h s
        \<or> file_stored env ?h (goal_id r) = Some r \<and> file_listed env ?h s = file_listed env h s @ [goal_id r]"
      using assms(2) s by (auto simp: save_view_def)
    then show ?thesis
      using False g by auto
  qed
  then show ?thesis
    using assms(1,3,4) by (simp add: file_good_def)
qed

lemma file_read_law:
  assumes "spec False None (goals_dir (host_world h)) (sessions_dir (host_world h)) m
      (\<lambda>a gd' sd'. V a \<and> gd' = goals_dir (host_world h) \<and> sd' = sessions_dir (host_world h))
      (\<lambda>_ gd' sd'. gd' = goals_dir (host_world h) \<and> sd' = sessions_dir (host_world h))
      (\<lambda>gd' sd'. gd' = goals_dir (host_world h) \<and> sd' = sessions_dir (host_world h))"
    and "file_good env U S sess h"
  shows "runs (of_store shown m) h (\<lambda>out h'. file_good env U S sess h' \<and> file_stored env h' = file_stored env h
     \<and> file_listed env h' = file_listed env h \<and> (\<forall>a. out = Some (Ok a) \<longrightarrow> V a))"
  by (rule runs_of_store [OF assms(1) at_disk_any(1)]) (use file_good_same [OF assms(2)] in auto)

lemma file_save_law:
  assumes good: "file_good env U S sess h" and adm: "admissible U sess r"
  shows "runs (of_store shown (save_blocking env r)) h (\<lambda>out h'. file_good env U S sess h'
     \<and> save_view U S (file_stored env) (file_listed env) h r h' \<and> (out = Some (Ok ()) \<longrightarrow> saved_view (file_stored env) (file_listed env) h r h'))"
proof (cases "encode_goal (goal_json env) r")
  case (Err e)
  then show ?thesis
    using good by (simp add: runs_def of_store_def save_blocking_def io_err_def save_view_def)
next
  case (Ok t)
  have law: "lawful env U S sess" and gok: "goals_ok env U sess (goals_dir (host_world h))"
    and sok: "sessions_ok env U S sess (sessions_dir (host_world h))"
    using good by (simp_all add: file_good_def)
  have dec: "decode_goal (goal_json env) t = Ok r"
    using encode_decodes [OF law _ Ok] adm by (simp add: admissible_def)
  have safe: "file_good env U S sess (h\<lparr>host_world := w\<rparr>) \<and> save_view U S (file_stored env) (file_listed env) h r (h\<lparr>host_world := w\<rparr>)"
    if "save_safe env U S sess r t (goals_dir (host_world h)) (sessions_dir (host_world h)) (goals_dir w) (sessions_dir w)" for w
  proof -
    have view: "save_view U S (file_stored env) (file_listed env) h r (h\<lparr>host_world := w\<rparr>)"
      using that by (intro file_save_view [OF law adm dec]) (simp add: save_safe_def)
    show ?thesis
      using view file_good_saved [OF good view] that by (simp add: save_safe_def)
  qed
  show ?thesis
  proof (rule runs_of_store [OF spec_save_blocking [OF law gok sok adm Ok] at_disk_any(2)], goal_cases)
    case (1 a w)
    then show ?case
      using safe [of w] file_gate [OF refl, of env h r] by (simp add: save_done_def saved_view_def file_stored_def file_listed_def)
  next
    case (2 e x w)
    then show ?case
      using safe [of w] by simp
  next
    case (3 w)
    then show ?case
      using safe [of w] by simp
  qed
qed

interpretation file_goals: goal_port_contract "file_goal_ports shown env" "file_good env U S sess" U S sess "file_stored env" "file_listed env"
proof unfold_locales
  fix h :: "'a host" and g r
  assume "file_good env U S sess h" "g \<in> U" "file_stored env h g = Some r"
  then show "goal_id r = g \<and> admissible U sess r"
    using rec_at_admissible [of env U S sess "goals_dir (host_world h)" g r] by (simp add: file_good_def file_stored_def)
next
  fix h :: "'a host" and sid g
  assume *: "file_good env U S sess h" "sid \<in> S" "g \<in> set (file_listed env h sid)"
  then have law: "lawful env U S sess" and sok: "sessions_ok env U S sess (sessions_dir (host_world h))"
    by (simp_all add: file_good_def)
  show "g \<in> U \<and> sess g = sid \<and> file_stored env h g \<noteq> None"
    using * index_at_fits [OF law sok *(2)] by (auto simp: file_good_def index_fits_def file_listed_def)
next
  fix h :: "'a host" and sid
  assume "file_good env U S sess h" "sid \<in> S"
  then show "session_id_new sid = Ok sid"
    by (simp add: file_good_def lawful_def)
next
  fix h :: "'a host" and g
  assume "file_good env U S sess h" "g \<in> U"
  then show "sess g \<in> S"
    by (auto simp: file_good_def lawful_def)
next
  fix h :: "'a host" and sid
  assume *: "file_good env U S sess h" "sid \<in> S"
  then have law: "lawful env U S sess" and gok: "goals_ok env U sess (goals_dir (host_world h))"
      and sok: "sessions_ok env U S sess (sessions_dir (host_world h))"
      and there: "\<forall>g \<in> set (ix_goal_ids (index_at env (sessions_dir (host_world h)) sid)). rec_at env (goals_dir (host_world h)) g \<noteq> None"
    by (simp_all add: file_good_def file_listed_def file_stored_def)
  show "runs (port_list (file_goal_ports shown env) sid) h (\<lambda>out h'. file_good env U S sess h' \<and> file_stored env h' = file_stored env h
      \<and> file_listed env h' = file_listed env h \<and> (\<forall>rs. out = Some (Ok rs) \<longrightarrow> rs = goals_of (file_stored env) (file_listed env) h sid))"
    unfolding file_goal_ports_def goal_ports.simps
  proof (rule file_read_law [OF _ *(1)])
    show "spec False None (goals_dir (host_world h)) (sessions_dir (host_world h)) (list_blocking env sid)
      (\<lambda>rs gd' sd'. rs = goals_of (file_stored env) (file_listed env) h sid \<and> gd' = goals_dir (host_world h) \<and> sd' = sessions_dir (host_world h))
      (\<lambda>_ gd' sd'. gd' = goals_dir (host_world h) \<and> sd' = sessions_dir (host_world h))
      (\<lambda>gd' sd'. gd' = goals_dir (host_world h) \<and> sd' = sessions_dir (host_world h))"
      by (rule spec_conseq [OF spec_list_blocking [OF law gok sok *(2) there]]) (simp_all add: goals_of_def file_stored_def file_listed_def)
  qed
next
  fix h :: "'a host" and g
  assume *: "file_good env U S sess h" "g \<in> U"
  then have law: "lawful env U S sess" and gok: "goals_ok env U sess (goals_dir (host_world h))"
    by (simp_all add: file_good_def)
  show "runs (port_load (file_goal_ports shown env) g) h (\<lambda>out h'. file_good env U S sess h' \<and> file_stored env h' = file_stored env h
      \<and> file_listed env h' = file_listed env h \<and> (\<forall>r. out = Some (Ok r) \<longrightarrow> r = file_stored env h g))"
    unfolding file_goal_ports_def goal_ports.simps load_goal_def
    by (rule file_read_law [OF _ *(1)], rule spec_conseq [OF spec_read_record_at [OF law gok *(2)]])
      (simp_all add: file_stored_def)
next
  fix h :: "'a host" and sid
  assume *: "file_good env U S sess h" "sid \<in> S"
  then have law: "lawful env U S sess" and sok: "sessions_ok env U S sess (sessions_dir (host_world h))"
    by (simp_all add: file_good_def)
  have "runs (of_store shown (next_goal_ordinal_blocking env sid)) h (\<lambda>out h'. file_good env U S sess h' \<and> file_stored env h' = file_stored env h
      \<and> file_listed env h' = file_listed env h \<and> (\<forall>a. out = Some (Ok a) \<longrightarrow> True))"
    by (rule file_read_law [OF _ *(1)], rule spec_conseq [OF spec_next_ordinal [OF law sok *(2)]]) simp_all
  then show "runs (port_next_ordinal (file_goal_ports shown env) sid) h (\<lambda>out h'. file_good env U S sess h' \<and> file_stored env h' = file_stored env h
      \<and> file_listed env h' = file_listed env h)"
    by (simp add: file_goal_ports_def)
next
  fix h :: "'a host"
  assume "file_good env U S sess h"
  then show "runs (clock_now (file_goal_ports shown env)) h (\<lambda>out h'. file_good env U S sess h' \<and> file_stored env h' = file_stored env h
      \<and> file_listed env h' = file_listed env h)"
    by (simp add: runs_def clock_now_def file_goal_ports_def file_good_def file_stored_def file_listed_def fun_eq_iff)
next
  fix h :: "'a host" and r
  assume "file_good env U S sess h" "admissible U sess r"
  from file_save_law [OF this]
  show "runs (port_save (file_goal_ports shown env) r) h (\<lambda>out h'. file_good env U S sess h' \<and> save_view U S (file_stored env) (file_listed env) h r h'
      \<and> (out = Some (Ok ()) \<longrightarrow> saved_view (file_stored env) (file_listed env) h r h'))"
    by (simp add: file_goal_ports_def)
qed

section \<open>Histories of the service\<close>

datatype service_event = CommandE session_id | ToolE session_id | WeatherE

text \<open>
  A service starts on a store that any history of failures has left and that was opened. It then runs
  the operator's commands and the model's tool calls; in between the faults that lie ahead may change.
  Tool calls are made while no counter of a goal is within three entries of its end.
\<close>

definition service_init :: "'t env \<Rightarrow> ustr set \<Rightarrow> ustr set \<Rightarrow> (ustr \<Rightarrow> ustr) \<Rightarrow> 't host \<Rightarrow> bool" where
  "service_init env U S sess h \<longleftrightarrow>
     (\<exists>held w pid budget. reach store_init (store_step env U S sess) (held, w)
        \<and> open_with_budget env pid budget w = (Done (Ok ()), host_world h))"

inductive service_step ::
  "(path \<Rightarrow> ustr) \<Rightarrow> 't env \<Rightarrow> goal_config \<Rightarrow> (ustr \<Rightarrow> (goal_action, ustr) result) \<Rightarrow> ustr set \<Rightarrow> ustr set
   \<Rightarrow> 't host \<Rightarrow> service_event \<Rightarrow> 't host \<Rightarrow> bool"
  for shown env config parsed U S where
  command: "sid \<in> S \<Longrightarrow> apply_command_effect (file_goal_ports shown env) config sid (effect :: unit goal_effect) h = (out, h') \<Longrightarrow>
    service_step shown env config parsed U S h (CommandE sid) h'"
| tool: "sid \<in> S \<Longrightarrow> roomy U (file_stored env) 3 h \<Longrightarrow>
    invoke_goal_tool parsed (file_goal_ports shown env) config sid arguments h = (out, h') \<Longrightarrow>
    service_step shown env config parsed U S h (ToolE sid) h'"
| weather: "goals_dir (host_world h') = goals_dir (host_world h) \<Longrightarrow> sessions_dir (host_world h') = sessions_dir (host_world h) \<Longrightarrow>
    service_step shown env config parsed U S h WeatherE h'"

definition service_inv :: "'t env \<Rightarrow> ustr set \<Rightarrow> ustr set \<Rightarrow> (ustr \<Rightarrow> ustr) \<Rightarrow> 't host \<Rightarrow> bool" where
  "service_inv env U S sess h \<longleftrightarrow> (lawful env U S sess \<and> (\<forall>sid \<in> S. mints U sess sid) \<longrightarrow> file_good env U S sess h)"

lemma opened_file_good:
  assumes law: "lawful env U S sess" and "service_init env U S sess h"
  shows "file_good env U S sess h"
proof -
  obtain held w pid budget where reached: "reach store_init (store_step env U S sess) (held, w)"
      and opened: "open_with_budget env pid budget w = (Done (Ok ()), host_world h)"
    using assms(2) by (auto simp: service_init_def)
  note dirs = reached_directories [OF law reached]
  have "repaired env U S sess (goals_dir w) S (sessions_dir w) (sessions_dir (host_world h))" "goals_dir (host_world h) = goals_dir w"
    using ends_cases [OF spec_open [OF law dirs, of False pid budget] at_disk_any(1) opened] by simp_all
  then show ?thesis
    using law dirs by (auto simp: file_good_def file_listed_def file_stored_def repaired_def complete_def)
qed

lemma service_step_moves:
  assumes "lawful env U S sess" and mint: "\<forall>sid \<in> S. mints U sess sid" and good: "file_good env U S sess h"
    and "service_step shown env config parsed U S h e h'"
  shows "file_good env U S sess h' \<and> evolved U (file_stored env) h h'"
  using assms(4)
proof cases
  case (command sid effect out)
  then show ?thesis
    using file_goals.apply_command_runs [OF good command(2), where shown = shown and config = config and effect = effect] mint
    by (auto simp: runs_def)
next
  case (tool sid arguments out)
  then show ?thesis
    using file_goals.invoke_tool_runs [OF good tool(2), where shown = shown and config = config and parsed = parsed and arguments = arguments] mint
    by (auto simp: runs_def)
next
  case weather
  then show ?thesis
    using good by (simp add: file_good_def file_listed_def file_stored_def evolved_def)
qed

interpretation goal_service_run: invariant_system "service_init env U S sess" "service_step shown env config parsed U S" "service_inv env U S sess"
  by unfold_locales (auto simp: service_inv_def opened_file_good dest: service_step_moves)

section \<open>A concrete service\<close>

definition demo_ids :: "ustr set" where
  "demo_ids = {g. \<exists>n. goal_id_new (minted_id (session_id demo_goal) n) = Ok g}"

lemma trim_subset: "set (str_trim s) \<subseteq> set s"
  by (auto simp: str_trim_def dest!: set_dropWhileD)

lemma lit_small: "c \<in> set (lit t) \<Longrightarrow> c < 256"
  using nat_of_char_less_256 by (auto simp: lit_def)

lemma demo_ids_small: "g \<in> demo_ids \<Longrightarrow> c \<in> set g \<Longrightarrow> c < 256"
proof -
  assume g: "g \<in> demo_ids" and c: "c \<in> set g"
  obtain n where n: "goal_id_new (minted_id (session_id demo_goal) n) = Ok g"
    using g by (auto simp: demo_ids_def)
  then have "g = str_trim (minted_id (session_id demo_goal) n)"
    by (auto simp: goal_id_new_def parse_identifier_def Let_def split: if_splits)
  then have "c \<in> set (minted_id (session_id demo_goal) n)"
    using c trim_subset by blast
  then have "c \<in> set (lit ''s'') \<or> c \<in> set (lit '':goal-'') \<or> c \<in> set (lit (show_dec (unat n)))"
    by (auto simp: minted_id_def demo_goal_def)
  then show ?thesis
    using lit_small by blast
qed

lemma demo_digest_inj: "inj_on (sha256 demo_env) demo_ids"
proof (rule inj_onI)
  fix g h
  assume g: "g \<in> demo_ids" and h: "h \<in> demo_ids" and eq: "sha256 demo_env g = sha256 demo_env h"
  have inv: "map unat (map (of_nat :: nat \<Rightarrow> u8) k) = k" if "k \<in> demo_ids" for k
    using demo_ids_small [OF that] by (simp add: map_idI unat_of_nat)
  have "map (of_nat :: nat \<Rightarrow> u8) g = map of_nat h"
    using eq by (simp add: demo_env_def)
  then show "g = h"
    using inv [OF g] inv [OF h] by metis
qed

lemma demo_service_lawful: "lawful demo_env demo_ids {session_id demo_goal} (\<lambda>_. session_id demo_goal)"
  using demo_lawful demo_digest_inj by (auto simp: lawful_def)

lemma demo_mints: "mints demo_ids (\<lambda>_. session_id demo_goal) (session_id demo_goal)"
  by (auto simp: mints_def demo_ids_def)

definition demo_host :: "(goal_envelope + durable_session_index) host" where
  "demo_host = \<lparr>host_world = demo_world, host_clock = (\<lambda>n. int n), host_ticks = 0\<rparr>"

lemma demo_opens: "open_with_budget demo_env 7 default_budget demo_world = (Done (Ok ()), demo_world)"
  by (simp add: demo_eval open_with_budget_def recover_def discard_temps_def scan_records_def sessions_to_repair_def
      dir_listing_def values_in_order_def recovery_default_def)

lemma demo_service_start: "service_init demo_env demo_ids {session_id demo_goal} (\<lambda>_. session_id demo_goal) demo_host"
proof -
  have "reach store_init (store_step demo_env demo_ids {session_id demo_goal} (\<lambda>_. session_id demo_goal)) (\<lambda>_. {None}, demo_world)"
    by (rule reach.reach_init) (simp add: store_init_def demo_world_def)
  then show ?thesis
    using demo_opens by (auto simp: service_init_def demo_host_def)
qed

definition demo_new :: goal_record where
  "demo_new = new_goal (session_id demo_goal) (goal_id demo_goal) (objective demo_goal) 0"

lemma demo_minted: "minted_id (session_id demo_goal) 1 = goal_id demo_goal"
  by (simp add: minted_id_def demo_goal_def show_dec_def show_base.simps lit_def)

lemma demo_goal_id: "goal_id_new (goal_id demo_goal) = Ok (goal_id demo_goal)"
  using demo_goal_storable by (simp add: storable_def)

lemma demo_validated: "validate_objective default_goal_config (objective demo_goal) = Ok (objective demo_goal)"
  by (simp add: validate_objective_def default_goal_config_def demo_goal_def lit_def str_trim_def char_is_whitespace_def utf8_length_def len_utf8_def Let_def)

definition demo_shown :: "path \<Rightarrow> ustr" where
  "demo_shown p = []"

lemmas prog_eval = prog_ok_def prog_err_def prog_of_def prog_bind_def port_call_def clock_now_def active_def of_store_def
  file_goal_ports_def demo_host_def

definition demo_started :: "(goal_envelope + durable_session_index) host" where
  "demo_started = demo_host\<lparr>
     host_world := demo_world\<lparr>goals_dir := [(file_name_of demo_env (goal_id demo_goal), [Some (Inl (goal_envelope_of demo_new))])],
        sessions_dir := [(file_name_of demo_env (session_id demo_goal), [Some (Inr demo_index)])],
        store := (store demo_world)\<lparr>gs_sequence := 2, accepted_writes := 1, synced_publications := 2\<rparr>\<rparr>,
     host_ticks := 1\<rparr>"

lemmas start_eval = start_goal_def prog_eval demo_validated demo_minted demo_goal_id demo_eval set_goal_def replace_active_def
  next_goal_ordinal_blocking_def load_goal_def list_blocking_def newest_active_def checked_add_def

lemma demo_starts:
  "start_goal (file_goal_ports demo_shown demo_env) default_goal_config (session_id demo_goal) (objective demo_goal) demo_host =
     (Some (Ok demo_new), demo_started)"
  by (simp add: start_eval demo_new_def new_goal_def demo_started_def demo_index_def)

lemma demo_new_decode: "decode_goal (goal_json demo_env) (Inl (goal_envelope_of demo_new)) = Ok demo_new"
proof -
  have "storable demo_new"
    unfolding demo_new_def using demo_goal_storable by (intro new_goal_storable) (simp_all add: storable_def)
  then show ?thesis
    using encode_decodes [OF demo_lawful _ demo_encode] by blast
qed

lemma demo_started_view:
  "file_stored demo_env demo_started (goal_id demo_goal) = Some demo_new"
  "file_listed demo_env demo_started (session_id demo_goal) = [goal_id demo_goal]"
  by (simp_all add: file_stored_def file_listed_def demo_started_def demo_host_def rec_at_def rec_sized_def index_at_def lookup_file_def
      versions_def demo_new_decode decode_index_def demo_env_sel demo_index_def)

section \<open>Properties\<close>

text \<open>
  Property C8. Goals only move along legal steps. Whatever commands and tool calls the service runs on a
  store, and wherever they fail or are cut off, a goal on disk stays on disk, each change of it is one
  the status machine admits and raises its revision by one, and a closed goal never changes again. The
  histories are those of one service: no other writer acts between its port calls, and the compaction
  of closed goals is not among its steps.
\<close>

theorem service_moves_goals_legally:
  assumes "lawful env U S sess" and "\<And>sid. sid \<in> S \<Longrightarrow> mints U sess sid"
    and "reach (service_init env U S sess) (service_step shown env config parsed U S) h"
    and "service_step shown env config parsed U S h e h'"
    and "g \<in> U" and "file_stored env h g = Some q"
  shows "\<exists>q'. file_stored env h' g = Some q' \<and> goal_step\<^sup>*\<^sup>* q q' \<and> (goal_is_closed (status q) \<longrightarrow> q' = q)"
proof -
  have mint: "\<forall>sid \<in> S. mints U sess sid"
    using assms(2) by blast
  have "file_good env U S sess h"
    using goal_service_run.reach_inv [OF assms(3)] assms(1) mint by (simp add: service_inv_def)
  then have "evolved U (file_stored env) h h'"
    using service_step_moves [OF assms(1) mint _ assms(4)] by blast
  then obtain q' where "file_stored env h' g = Some q'" "goal_step\<^sup>*\<^sup>* q q'"
    using assms(5,6) unfolding evolved_def by blast
  then show ?thesis
    using closed_is_final by blast
qed

theorem service_moves_goals_legally_witness:
  "\<exists>q'. file_stored demo_env (snd (apply_command_effect (file_goal_ports demo_shown demo_env) default_goal_config
       (session_id demo_goal) (CloseGoal Achieved :: unit goal_effect) demo_started)) (goal_id demo_goal) = Some q'
     \<and> goal_step\<^sup>*\<^sup>* demo_new q'"
proof -
  let ?S = "{session_id demo_goal}" and ?sess = "\<lambda>_ :: ustr. session_id demo_goal" and ?parsed = "\<lambda>_ :: ustr. Err []"
  let ?step = "service_step demo_shown demo_env default_goal_config ?parsed demo_ids ?S"
  have "apply_command_effect (file_goal_ports demo_shown demo_env) default_goal_config (session_id demo_goal)
      (SetGoal (objective demo_goal) :: unit goal_effect) demo_host = (Some (Ok (GoalSet demo_new)), demo_started)"
    by (simp add: apply_command_effect_def map_prog_err_def prog_bind_def start_with_conflict_recovery_def start_attempts.simps
        demo_starts prog_ok_def)
  then have "?step demo_host (CommandE (session_id demo_goal)) demo_started"
    by (blast intro: service_step.command)
  moreover have "reach (service_init demo_env demo_ids ?S ?sess) ?step demo_host"
    by (rule reach.reach_init) (rule demo_service_start)
  ultimately have reached: "reach (service_init demo_env demo_ids ?S ?sess) ?step demo_started"
    by (rule reach.reach_step [rotated])
  have step: "?step demo_started (CommandE (session_id demo_goal)) (snd (apply_command_effect (file_goal_ports demo_shown demo_env)
      default_goal_config (session_id demo_goal) (CloseGoal Achieved :: unit goal_effect) demo_started))"
    by (rule service_step.command [OF singletonI prod.collapse [symmetric]])
  have "goal_id demo_goal \<in> demo_ids"
    using demo_minted demo_goal_id by (auto simp: demo_ids_def intro!: exI [of _ 1])
  then show ?thesis
    using service_moves_goals_legally [OF demo_service_lawful _ reached step _ demo_started_view(1)] demo_mints by auto
qed

text \<open>
  Property C7. Setting a goal never leaves a session without one. If the session had an active goal, it
  has one after setting another, however the attempt ends: refused, failed at any file-system call, or
  cut off between the write of the replacement and the close of the replaced. If it succeeds, the goal
  it answers with is the one the session's next read returns. No other writer acts between the port
  calls of the service.
\<close>

theorem setting_keeps_a_goal:
  assumes "lawful env U S sess" and "\<And>sid. sid \<in> S \<Longrightarrow> mints U sess sid"
    and "reach (service_init env U S sess) (service_step shown env config parsed U S) h" and "sid \<in> S"
  shows "case start_with_conflict_recovery (file_goal_ports shown env) config sid t h of (out, h') \<Rightarrow>
     (has_active (file_stored env) (file_listed env) h sid \<longrightarrow> has_active (file_stored env) (file_listed env) h' sid)
     \<and> (\<forall>r. out = Some (Ok r) \<longrightarrow> newest_active (goals_of (file_stored env) (file_listed env) h' sid) = Some r)"
proof -
  have mint: "\<forall>sid \<in> S. mints U sess sid"
    using assms(2) by blast
  have "file_good env U S sess h"
    using goal_service_run.reach_inv [OF assms(3)] assms(1) mint by (simp add: service_inv_def)
  from file_goals.start_with_recovery_runs [OF this assms(4), where shown = shown and config = config and t = t]
  show ?thesis
    using mint assms(4) by (simp add: runs_def file_goals.set_safe_def split: prod.splits)
qed

theorem setting_keeps_a_goal_witness:
  "newest_active (goals_of (file_stored demo_env) (file_listed demo_env)
     (snd (start_with_conflict_recovery (file_goal_ports demo_shown demo_env) default_goal_config (session_id demo_goal)
        (objective demo_goal) demo_host)) (session_id demo_goal)) = Some demo_new"
proof -
  have "start_with_conflict_recovery (file_goal_ports demo_shown demo_env) default_goal_config (session_id demo_goal)
      (objective demo_goal) demo_host = (Some (Ok demo_new), demo_started)"
    by (simp add: start_with_conflict_recovery_def start_attempts.simps demo_starts)
  moreover have "reach (service_init demo_env demo_ids {session_id demo_goal} (\<lambda>_. session_id demo_goal))
      (service_step demo_shown demo_env default_goal_config (\<lambda>_. Err []) demo_ids {session_id demo_goal}) demo_host"
    by (rule reach.reach_init) (rule demo_service_start)
  ultimately show ?thesis
    using setting_keeps_a_goal [OF demo_service_lawful, of demo_shown default_goal_config "\<lambda>_. Err []" demo_host "session_id demo_goal"
        "objective demo_goal"] demo_mints by simp
qed

text \<open>
  Property C31. The history of a goal is bounded and nothing recorded in it goes uncounted: after a note
  is added to a valid goal there are at most the configured number of entries, the entries folded into
  the summary and those still there add up to one more than before, the goal is valid, its indices
  strictly increase, and with room for two entries the last one is the note.
\<close>

theorem progress_bounded_and_counted:
  assumes "storable r" and "room 1 r" and "str_trim note \<noteq> []" and "0 < max_progress_entries config"
  shows "length (progress (with_progress config now note r)) \<le> max_progress_entries config
    \<and> recorded_entries (with_progress config now note r) = recorded_entries r + 1
    \<and> storable (with_progress config now note r)
    \<and> (1 < max_progress_entries config \<longrightarrow> pr_note (last (progress (with_progress config now note r))) = note
         \<and> pr_recorded_at (last (progress (with_progress config now note r))) = now)"
proof -
  let ?r = "r\<lparr>progress := progress r @ [\<lparr>pr_index = next_progress_index r, pr_note = note, pr_recorded_at = now, pr_compacted = False\<rparr>]\<rparr>"
  have "length (progress (with_progress config now note r)) \<le> max_progress_entries config"
    using compact_progress_length [OF assms(4), of now ?r] by (simp add: with_progress_def Let_def)
  moreover have "last (progress (with_progress config now note r)) = last (progress ?r)" if "1 < max_progress_entries config"
    using that by (auto simp: with_progress_def compact_progress_def Let_def)
  moreover have "room (Suc 0) r"
    using assms(2) by simp
  ultimately show ?thesis
    using assms with_progress_entries [of 0 r] with_progress_storable [of r 0] by auto
qed

theorem progress_bounded_and_counted_witness:
  "recorded_entries (with_progress default_goal_config 7 (lit ''done'') demo_goal) = recorded_entries demo_goal + 1"
proof -
  have "room 1 demo_goal" "str_trim (lit ''done'') \<noteq> []" "0 < max_progress_entries default_goal_config"
    by (simp_all add: room_def recorded_entries_def demo_goal_def str_trim_eq_Nil lit_def char_is_whitespace_def default_goal_config_def)
  then show ?thesis
    using progress_bounded_and_counted [OF demo_goal_storable] by blast
qed

text \<open>
  A record whose index entry could not be written blocks the session. The number of the next goal is
  still that of the record, so every goal with another objective is answered with a conflict until the
  store is opened again.
\<close>

definition demo_stuck :: "nat \<Rightarrow> (goal_envelope + durable_session_index) host" where
  "demo_stuck k = demo_host\<lparr>
     host_world := demo_world\<lparr>goals_dir := [(file_name_of demo_env (goal_id demo_goal), [Some (Inl (goal_envelope_of demo_new))])],
        store := (store demo_world)\<lparr>gs_sequence := 2, synced_publications := 1\<rparr>\<rparr>,
     host_ticks := k\<rparr>"

lemma demo_index_write_fails:
  "start_goal (file_goal_ports demo_shown demo_env) default_goal_config (session_id demo_goal) (objective demo_goal)
     (demo_host\<lparr>host_world := demo_world\<lparr>faults :=
        [Works, Works, Works, Works, Works, Works, Works, Works, Works, Works, Works, Works, Fails (lit ''EIO'')]\<rparr>\<rparr>) =
   (Some (Err (Port (PortUnavailable (lit ''goal store io failed at : EIO'')))), demo_stuck 1)"
  by (simp add: start_eval demo_new_def new_goal_def demo_stuck_def port_error_from_def store_error_display_def demo_shown_def) (simp add: lit_def)

lemma demo_validated_other: "validate_objective default_goal_config (lit ''other'') = Ok (lit ''other'')"
  by (simp add: validate_objective_def default_goal_config_def lit_def str_trim_def char_is_whitespace_def utf8_length_def len_utf8_def Let_def)

lemma demo_objectives_differ: "objective demo_goal \<noteq> lit ''other''"
  by (simp add: demo_goal_def lit_def)

lemma demo_new_sel:
  "objective demo_new = objective demo_goal" "revision demo_new = 1" "goal_id demo_new = goal_id demo_goal"
  by (simp_all add: demo_new_def new_goal_def)

lemma demo_conflict:
  "start_goal (file_goal_ports demo_shown demo_env) default_goal_config (session_id demo_goal) (lit ''other'') (demo_stuck k) =
   (Some (Err (Port (PortConflict (lit (''expected revision '' @ show_dec 2 @ '', caller held '' @ show_dec 1))))), demo_stuck (Suc k))"
  using demo_objectives_differ
  by (simp add: start_eval demo_validated_other demo_stuck_def demo_new_decode is_equivalent_new_goal_def demo_new_sel new_goal_def
      port_error_from_def saturating_add_def) (simp add: demo_new_def new_goal_def)

lemma orphan_blocks_session:
  "fst (start_goal (file_goal_ports demo_shown demo_env) default_goal_config (session_id demo_goal) (objective demo_goal)
     (demo_host\<lparr>host_world := demo_world\<lparr>faults :=
        [Works, Works, Works, Works, Works, Works, Works, Works, Works, Works, Works, Works, Fails (lit ''EIO'')]\<rparr>\<rparr>))
     = Some (Err (Port (PortUnavailable (lit ''goal store io failed at : EIO''))))
   \<and> fst (start_with_conflict_recovery (file_goal_ports demo_shown demo_env) default_goal_config (session_id demo_goal) (lit ''other'') (demo_stuck 1))
     = Some (Err (Port (PortConflict (lit (''expected revision '' @ show_dec 2 @ '', caller held '' @ show_dec 1)))))"
proof -
  have quiet: "active (file_goal_ports demo_shown demo_env) (session_id demo_goal) (demo_stuck k) = (Some (Ok None), demo_stuck k)" for k
    by (simp add: prog_eval demo_eval list_blocking_def newest_active_def demo_stuck_def)
  show ?thesis
    by (simp add: demo_index_write_fails start_with_conflict_recovery_def MAX_CONFLICT_ATTEMPTS_def start_attempts.simps demo_conflict quiet
        is_conflict_def eval_nat_numeral)
qed

end
