(* ===== verification/Runtime_Stream.thy ===== *)
theory Runtime_Stream
  imports Goal_Model
begin

text \<open>
  The assembler that turns the chunks of a provider stream into one assistant message and numbered
  events (crates/claw-runtime/src/stream.rs), with the message values it builds
  (crates/claw-application/src/model/message.rs) and the chunks it takes
  (crates/claw-application/src/ports/provider.rs). Lengths are those of the UTF-8 encoding.
\<close>

section \<open>Messages, chunks and events\<close>

record pending_tool_call =
  pc_call_id :: ustr
  pc_name :: ustr
  pc_partial_arguments :: ustr

record assistant_message =
  am_text :: ustr
  am_reasoning :: ustr
  am_tool_calls :: "tool_call list"

record partial_assistant_message =
  pm_text :: ustr
  pm_reasoning :: ustr
  pm_tool_calls :: "tool_call list"
  pm_pending_tool_calls :: "pending_tool_call list"
  pm_next_sequence :: u64

definition partial_is_empty :: "partial_assistant_message \<Rightarrow> bool" where
  "partial_is_empty p \<longleftrightarrow>
     pm_text p = [] \<and> pm_reasoning p = [] \<and> pm_tool_calls p = [] \<and> pm_pending_tool_calls p = []"

datatype provider_chunk =
    TextDelta ustr
  | ReasoningDelta ustr
  | ToolCallBegin ustr ustr
  | ToolCallArgumentsDelta ustr ustr
  | ToolCallEnd ustr
  | MessageEnd

datatype stream_error =
    DuplicateToolCall ustr
  | UnknownToolCall ustr
  | EmptyToolName ustr
  | ContentAfterEnd
  | UnterminatedToolCall ustr
  | MessageTooLarge nat nat

fun stream_error_display :: "stream_error \<Rightarrow> ustr" where
  "stream_error_display (DuplicateToolCall i) = lit ''tool call '' @ i @ lit '' was opened twice''"
| "stream_error_display (UnknownToolCall i) = lit ''tool call '' @ i @ lit '' was never opened''"
| "stream_error_display (EmptyToolName i) = lit ''tool call '' @ i @ lit '' has no tool name''"
| "stream_error_display ContentAfterEnd = lit ''provider sent content after the message ended''"
| "stream_error_display (UnterminatedToolCall i) =
     lit ''message ended while tool call '' @ i @ lit '' was open''"
| "stream_error_display (MessageTooLarge l actual) =
     lit (''assembled message is '' @ show_dec actual @ '' bytes, limit '' @ show_dec l)"

datatype stream_payload =
    EventTextDelta ustr
  | EventReasoningDelta ustr
  | ToolCallStarted ustr ustr
  | ToolCallCompleted tool_call
  | MessageCompleted assistant_message

record stream_event =
  ev_sequence :: u64
  ev_payload :: stream_payload

section \<open>The assembler\<close>

definition MAX_ASSEMBLED_BYTES :: nat where
  "MAX_ASSEMBLED_BYTES = 4 * 1024 * 1024"

definition USIZE_MAX :: nat where
  "USIZE_MAX = 2 ^ 64 - 1"

definition usize_saturating_add :: "nat \<Rightarrow> nat \<Rightarrow> nat" where
  "usize_saturating_add a b = min (a + b) USIZE_MAX"

record open_tool_call =
  oc_call_id :: ustr
  oc_name :: ustr
  oc_arguments :: ustr

record stream_assembler =
  sa_text :: ustr
  sa_reasoning :: ustr
  sa_tool_calls :: "tool_call list"
  sa_open :: "open_tool_call list"
  sa_assembled :: nat
  sa_next_sequence :: u64
  sa_limit :: nat
  sa_ended :: bool

definition assembler_with_limit :: "nat \<Rightarrow> stream_assembler" where
  "assembler_with_limit limit =
     \<lparr>sa_text = [], sa_reasoning = [], sa_tool_calls = [], sa_open = [], sa_assembled = 0,
      sa_next_sequence = 0, sa_limit = limit, sa_ended = False\<rparr>"

definition new_assembler :: stream_assembler where
  "new_assembler = assembler_with_limit MAX_ASSEMBLED_BYTES"

definition reopened :: "pending_tool_call \<Rightarrow> open_tool_call" where
  "reopened p = \<lparr>oc_call_id = pc_call_id p, oc_name = pc_name p, oc_arguments = pc_partial_arguments p\<rparr>"

definition call_bytes :: "tool_call \<Rightarrow> nat" where
  "call_bytes c = utf8_length (tc_name c) + utf8_length (tc_arguments c)"

definition open_bytes :: "open_tool_call \<Rightarrow> nat" where
  "open_bytes c = utf8_length (oc_name c) + utf8_length (oc_arguments c)"

text \<open>The sum in \<open>resume\<close> uses \<open>+\<close> on \<open>usize\<close>, which wraps.\<close>

definition resume_assembler :: "partial_assistant_message \<Rightarrow> nat \<Rightarrow> stream_assembler" where
  "resume_assembler p limit =
     (let open_calls = map reopened (pm_pending_tool_calls p);
          assembled = (utf8_length (pm_text p) + utf8_length (pm_reasoning p)
            + sum_list (map call_bytes (pm_tool_calls p)) + sum_list (map open_bytes open_calls)) mod 2 ^ 64
      in \<lparr>sa_text = pm_text p, sa_reasoning = pm_reasoning p, sa_tool_calls = pm_tool_calls p,
          sa_open = open_calls, sa_assembled = assembled, sa_next_sequence = pm_next_sequence p,
          sa_limit = limit, sa_ended = False\<rparr>)"

definition open_tool_calls :: "stream_assembler \<Rightarrow> ustr list" where
  "open_tool_calls a = map oc_call_id (sa_open a)"

definition is_known :: "stream_assembler \<Rightarrow> ustr \<Rightarrow> bool" where
  "is_known a i \<longleftrightarrow> (\<exists>c \<in> set (sa_open a). oc_call_id c = i) \<or> (\<exists>c \<in> set (sa_tool_calls a). tc_call_id c = i)"

definition reserve_bytes :: "stream_assembler \<Rightarrow> nat \<Rightarrow> (unit, stream_error) result" where
  "reserve_bytes a additional =
     (let actual = usize_saturating_add (sa_assembled a) additional
      in if actual > sa_limit a then Err (MessageTooLarge (sa_limit a) actual) else Ok ())"

definition emit_event :: "stream_assembler \<Rightarrow> stream_payload \<Rightarrow> stream_event \<times> stream_assembler" where
  "emit_event a payload =
     (\<lparr>ev_sequence = sa_next_sequence a, ev_payload = payload\<rparr>,
      a\<lparr>sa_next_sequence := saturating_add (sa_next_sequence a) 1\<rparr>)"

text \<open>
  \<open>iter_mut().find(..)\<close> with the update of the call it finds, and \<open>position(..)\<close> with \<open>remove\<close>: both act
  on the first call that has the identifier.
\<close>

fun append_arguments :: "ustr \<Rightarrow> ustr \<Rightarrow> open_tool_call list \<Rightarrow> open_tool_call list option" where
  "append_arguments i fragment [] = None"
| "append_arguments i fragment (c # cs) =
     (if oc_call_id c = i then Some (c\<lparr>oc_arguments := oc_arguments c @ fragment\<rparr> # cs)
      else map_option (Cons c) (append_arguments i fragment cs))"

fun remove_open :: "ustr \<Rightarrow> open_tool_call list \<Rightarrow> (open_tool_call \<times> open_tool_call list) option" where
  "remove_open i [] = None"
| "remove_open i (c # cs) =
     (if oc_call_id c = i then Some (c, cs)
      else map_option (\<lambda>(d, ds). (d, c # ds)) (remove_open i cs))"

definition completed_call :: "open_tool_call \<Rightarrow> tool_call" where
  "completed_call c = \<lparr>tc_call_id = oc_call_id c, tc_name = oc_name c, tc_arguments = oc_arguments c\<rparr>"

definition assembled_message :: "stream_assembler \<Rightarrow> assistant_message" where
  "assembled_message a =
     \<lparr>am_text = sa_text a, am_reasoning = sa_reasoning a, am_tool_calls = sa_tool_calls a\<rparr>"

definition emitting :: "stream_assembler \<Rightarrow> stream_payload \<Rightarrow> (stream_event list, stream_error) result \<times> stream_assembler" where
  "emitting a payload = (case emit_event a payload of (e, a') \<Rightarrow> (Ok [e], a'))"

definition push_chunk ::
  "stream_assembler \<Rightarrow> provider_chunk \<Rightarrow> (stream_event list, stream_error) result \<times> stream_assembler"
where
  "push_chunk a chunk =
    (if sa_ended a then (Err ContentAfterEnd, a)
     else case chunk of
       TextDelta t \<Rightarrow>
         if t = [] then (Ok [], a)
         else (case reserve_bytes a (utf8_length t) of
             Err e \<Rightarrow> (Err e, a)
           | Ok _ \<Rightarrow> emitting
               (a\<lparr>sa_text := sa_text a @ t, sa_assembled := usize_saturating_add (sa_assembled a) (utf8_length t)\<rparr>)
               (EventTextDelta t))
     | ReasoningDelta t \<Rightarrow>
         if t = [] then (Ok [], a)
         else (case reserve_bytes a (utf8_length t) of
             Err e \<Rightarrow> (Err e, a)
           | Ok _ \<Rightarrow> emitting
               (a\<lparr>sa_reasoning := sa_reasoning a @ t, sa_assembled := usize_saturating_add (sa_assembled a) (utf8_length t)\<rparr>)
               (EventReasoningDelta t))
     | ToolCallBegin i name \<Rightarrow>
         if str_trim name = [] then (Err (EmptyToolName i), a)
         else if is_known a i then (Err (DuplicateToolCall i), a)
         else (case reserve_bytes a (utf8_length name) of
             Err e \<Rightarrow> (Err e, a)
           | Ok _ \<Rightarrow> emitting
               (a\<lparr>sa_assembled := usize_saturating_add (sa_assembled a) (utf8_length name),
                  sa_open := sa_open a @ [\<lparr>oc_call_id = i, oc_name = name, oc_arguments = []\<rparr>]\<rparr>)
               (ToolCallStarted i name))
     | ToolCallArgumentsDelta i fragment \<Rightarrow>
         (case reserve_bytes a (utf8_length fragment) of
             Err e \<Rightarrow> (Err e, a)
           | Ok _ \<Rightarrow> (case append_arguments i fragment (sa_open a) of
               None \<Rightarrow> (Err (UnknownToolCall i), a)
             | Some calls \<Rightarrow>
                 (Ok [], a\<lparr>sa_open := calls,
                    sa_assembled := usize_saturating_add (sa_assembled a) (utf8_length fragment)\<rparr>)))
     | ToolCallEnd i \<Rightarrow>
         (case remove_open i (sa_open a) of
             None \<Rightarrow> (Err (UnknownToolCall i), a)
           | Some (c, rest) \<Rightarrow> emitting
               (a\<lparr>sa_open := rest, sa_tool_calls := sa_tool_calls a @ [completed_call c]\<rparr>)
               (ToolCallCompleted (completed_call c)))
     | MessageEnd \<Rightarrow>
         (case sa_open a of
             c # _ \<Rightarrow> (Err (UnterminatedToolCall (oc_call_id c)), a)
           | [] \<Rightarrow> emitting (a\<lparr>sa_ended := True\<rparr>) (MessageCompleted (assembled_message a))))"

definition finish_message :: "stream_assembler \<Rightarrow> assistant_message option" where
  "finish_message a = (if sa_ended a then Some (assembled_message a) else None)"

definition left_open :: "open_tool_call \<Rightarrow> pending_tool_call" where
  "left_open c = \<lparr>pc_call_id = oc_call_id c, pc_name = oc_name c, pc_partial_arguments = oc_arguments c\<rparr>"

definition into_partial :: "stream_assembler \<Rightarrow> partial_assistant_message" where
  "into_partial a =
     \<lparr>pm_text = sa_text a, pm_reasoning = sa_reasoning a, pm_tool_calls = sa_tool_calls a,
      pm_pending_tool_calls = map left_open (sa_open a), pm_next_sequence = sa_next_sequence a\<rparr>"

section \<open>What a history of chunks means\<close>

text \<open>
  The reference the assembler is compared with has no state: it reads everything from the list of
  the chunks accepted so far, by projecting the parts of one text or of one call.
\<close>

fun chunk_text :: "provider_chunk \<Rightarrow> ustr" where
  "chunk_text (TextDelta t) = t"
| "chunk_text _ = []"

fun chunk_reasoning :: "provider_chunk \<Rightarrow> ustr" where
  "chunk_reasoning (ReasoningDelta t) = t"
| "chunk_reasoning _ = []"

fun chunk_begins :: "provider_chunk \<Rightarrow> ustr list" where
  "chunk_begins (ToolCallBegin i _) = [i]"
| "chunk_begins _ = []"

fun chunk_ends :: "provider_chunk \<Rightarrow> ustr list" where
  "chunk_ends (ToolCallEnd i) = [i]"
| "chunk_ends _ = []"

fun chunk_name :: "ustr \<Rightarrow> provider_chunk \<Rightarrow> ustr" where
  "chunk_name i (ToolCallBegin j name) = (if j = i then name else [])"
| "chunk_name i _ = []"

fun chunk_fragment :: "ustr \<Rightarrow> provider_chunk \<Rightarrow> ustr" where
  "chunk_fragment i (ToolCallArgumentsDelta j fragment) = (if j = i then fragment else [])"
| "chunk_fragment i _ = []"

fun chunk_bytes :: "provider_chunk \<Rightarrow> nat" where
  "chunk_bytes (TextDelta t) = utf8_length t"
| "chunk_bytes (ReasoningDelta t) = utf8_length t"
| "chunk_bytes (ToolCallBegin _ name) = utf8_length name"
| "chunk_bytes (ToolCallArgumentsDelta _ fragment) = utf8_length fragment"
| "chunk_bytes _ = 0"

definition begun :: "provider_chunk list \<Rightarrow> ustr list" where
  "begun cs = concat (map chunk_begins cs)"

definition closed_calls :: "provider_chunk list \<Rightarrow> ustr list" where
  "closed_calls cs = concat (map chunk_ends cs)"

definition still_open :: "provider_chunk list \<Rightarrow> ustr list" where
  "still_open cs = filter (\<lambda>i. i \<notin> set (closed_calls cs)) (begun cs)"

definition history_call :: "provider_chunk list \<Rightarrow> ustr \<Rightarrow> tool_call" where
  "history_call cs i =
     \<lparr>tc_call_id = i, tc_name = concat (map (chunk_name i) cs), tc_arguments = concat (map (chunk_fragment i) cs)\<rparr>"

definition history_message :: "provider_chunk list \<Rightarrow> assistant_message" where
  "history_message cs =
     \<lparr>am_text = concat (map chunk_text cs), am_reasoning = concat (map chunk_reasoning cs),
      am_tool_calls = map (history_call cs) (closed_calls cs)\<rparr>"

definition history_bytes :: "provider_chunk list \<Rightarrow> nat" where
  "history_bytes cs = sum_list (map chunk_bytes cs)"

text \<open>When a chunk may follow a history, and the event it then causes.\<close>

definition may_follow :: "nat \<Rightarrow> provider_chunk list \<Rightarrow> provider_chunk \<Rightarrow> bool" where
  "may_follow limit cs c \<longleftrightarrow>
     MessageEnd \<notin> set cs \<and> history_bytes cs + chunk_bytes c \<le> limit \<and>
     (case c of
        ToolCallBegin i name \<Rightarrow> str_trim name \<noteq> [] \<and> i \<notin> set (begun cs)
      | ToolCallArgumentsDelta i _ \<Rightarrow> i \<in> set (still_open cs)
      | ToolCallEnd i \<Rightarrow> i \<in> set (still_open cs)
      | MessageEnd \<Rightarrow> still_open cs = []
      | _ \<Rightarrow> True)"

fun chunk_payloads :: "provider_chunk list \<Rightarrow> provider_chunk \<Rightarrow> stream_payload list" where
  "chunk_payloads cs (TextDelta t) = (if t = [] then [] else [EventTextDelta t])"
| "chunk_payloads cs (ReasoningDelta t) = (if t = [] then [] else [EventReasoningDelta t])"
| "chunk_payloads cs (ToolCallBegin i name) = [ToolCallStarted i name]"
| "chunk_payloads cs (ToolCallArgumentsDelta i _) = []"
| "chunk_payloads cs (ToolCallEnd i) = [ToolCallCompleted (history_call cs i)]"
| "chunk_payloads cs MessageEnd = [MessageCompleted (history_message cs)]"

fun admissible_after :: "nat \<Rightarrow> provider_chunk list \<Rightarrow> provider_chunk list \<Rightarrow> bool" where
  "admissible_after limit past [] \<longleftrightarrow> True"
| "admissible_after limit past (c # cs) \<longleftrightarrow> may_follow limit past c \<and> admissible_after limit (past @ [c]) cs"

fun payloads_after :: "provider_chunk list \<Rightarrow> provider_chunk list \<Rightarrow> stream_payload list" where
  "payloads_after past [] = []"
| "payloads_after past (c # cs) = chunk_payloads past c @ payloads_after (past @ [c]) cs"

text \<open>A stream is pushed chunk by chunk until one is refused.\<close>

fun feed ::
  "stream_assembler \<Rightarrow> provider_chunk list \<Rightarrow> stream_event list \<times> stream_error option \<times> stream_assembler"
where
  "feed a [] = ([], None, a)"
| "feed a (c # cs) = (case push_chunk a c of
      (Err e, b) \<Rightarrow> ([], Some e, b)
    | (Ok es, b) \<Rightarrow> (case feed b cs of (fs, r, d) \<Rightarrow> (es @ fs, r, d)))"

section \<open>Sizes\<close>

lemma utf8_length_simps [simp]:
  "utf8_length [] = 0"
  "utf8_length (s @ t) = utf8_length s + utf8_length t"
  by (simp_all add: utf8_length_def)

definition assembled_total :: "stream_assembler \<Rightarrow> nat" where
  "assembled_total a = utf8_length (sa_text a) + utf8_length (sa_reasoning a)
     + sum_list (map call_bytes (sa_tool_calls a)) + sum_list (map open_bytes (sa_open a))"

definition counted :: "stream_assembler \<Rightarrow> bool" where
  "counted a \<longleftrightarrow> sa_assembled a = assembled_total a \<and> assembled_total a \<le> sa_limit a \<and> sa_limit a < USIZE_MAX"

lemma reserve_bytes_Ok [simp]:
  "sa_limit a < USIZE_MAX \<Longrightarrow> reserve_bytes a n = Ok u \<longleftrightarrow> sa_assembled a + n \<le> sa_limit a"
  by (cases u) (auto simp: reserve_bytes_def usize_saturating_add_def)

lemma reserve_bytes_split:
  assumes "sa_limit a < USIZE_MAX"
  shows "(case reserve_bytes a n of Err e \<Rightarrow> f e | Ok u \<Rightarrow> g u) =
    (if sa_assembled a + n \<le> sa_limit a then g ()
     else f (MessageTooLarge (sa_limit a) (min (sa_assembled a + n) USIZE_MAX)))"
  using assms by (auto simp: reserve_bytes_def usize_saturating_add_def Let_def)

lemma usize_saturating_add_below:
  "a + n \<le> limit \<Longrightarrow> limit < USIZE_MAX \<Longrightarrow> usize_saturating_add a n = a + n"
  by (simp add: usize_saturating_add_def)

lemma append_arguments_bytes:
  "append_arguments i fragment cs = Some ds \<Longrightarrow>
     sum_list (map open_bytes ds) = sum_list (map open_bytes cs) + utf8_length fragment"
  by (induction cs arbitrary: ds) (auto simp: open_bytes_def split: if_splits)

lemma remove_open_bytes:
  "remove_open i cs = Some (d, ds) \<Longrightarrow>
     sum_list (map open_bytes cs) = call_bytes (completed_call d) + sum_list (map open_bytes ds)"
  by (induction cs arbitrary: ds)
    (auto simp: open_bytes_def call_bytes_def completed_call_def split: if_splits)

lemma emitting_eq:
  "emitting a p =
     (Ok [\<lparr>ev_sequence = sa_next_sequence a, ev_payload = p\<rparr>],
      a\<lparr>sa_next_sequence := saturating_add (sa_next_sequence a) 1\<rparr>)"
  by (simp add: emitting_def emit_event_def)

text \<open>A refused chunk changes nothing.\<close>

lemma refused_unchanged: "push_chunk a c = (Err e, b) \<Longrightarrow> b = a"
  by (simp add: push_chunk_def emitting_eq split: if_splits provider_chunk.splits result.splits option.splits
      list.splits prod.splits)

lemma push_limit: "push_chunk a c = (r, b) \<Longrightarrow> sa_limit b = sa_limit a"
  by (auto simp: push_chunk_def emitting_eq split: if_splits provider_chunk.splits result.splits option.splits
      list.splits prod.splits)

lemma push_counted:
  assumes "push_chunk a c = (r, b)" and "counted a"
  shows "counted b"
proof (cases c)
  case (ToolCallArgumentsDelta i fragment)
  then show ?thesis using assms
    by (auto simp: push_chunk_def counted_def assembled_total_def reserve_bytes_split
        usize_saturating_add_below append_arguments_bytes split: if_splits option.splits)
next
  case (ToolCallEnd i)
  then show ?thesis using assms
    by (auto simp: push_chunk_def emitting_eq counted_def assembled_total_def remove_open_bytes
        split: if_splits option.splits prod.splits)
next
  case MessageEnd
  then show ?thesis using assms
    by (auto simp: push_chunk_def emitting_eq counted_def assembled_total_def split: if_splits list.splits)
qed (use assms in \<open>auto simp: push_chunk_def emitting_eq counted_def assembled_total_def reserve_bytes_split
        usize_saturating_add_below open_bytes_def split: if_splits\<close>)

lemma feed_counted: "feed a cs = (es, r, b) \<Longrightarrow> counted a \<Longrightarrow> counted b"
proof (induction cs arbitrary: a es)
  case (Cons c cs)
  then show ?case by (auto split: prod.splits result.splits dest: push_counted)
qed simp

lemma counted_new: "limit < USIZE_MAX \<Longrightarrow> counted (assembler_with_limit limit)"
  by (simp add: counted_def assembler_with_limit_def assembled_total_def)

lemma feed_limit: "feed a cs = (es, r, b) \<Longrightarrow> sa_limit b = sa_limit a"
proof (induction cs arbitrary: a es)
  case (Cons c cs)
  then show ?case by (auto split: prod.splits result.splits dest: push_limit)
qed simp

lemma feed_append:
  "feed a cs = (es, None, b) \<Longrightarrow> feed a (cs @ ds) = (case feed b ds of (fs, r, d) \<Rightarrow> (es @ fs, r, d))"
proof (induction cs arbitrary: a es)
  case (Cons c cs)
  then show ?case by (auto split: prod.splits result.splits)
qed (simp split: prod.splits)

lemma resume_into_partial:
  assumes "counted a" and "\<not> sa_ended a"
  shows "resume_assembler (into_partial a) (sa_limit a) = a"
proof -
  have reopen: "map reopened (map left_open cs) = cs" for cs
    by (induction cs) (simp_all add: reopened_def left_open_def)
  have "sa_assembled a < 2 ^ 64"
    using assms(1) by (simp add: counted_def USIZE_MAX_def)
  then show ?thesis
    using assms unfolding resume_assembler_def into_partial_def
    by (simp add: reopen counted_def assembled_total_def Let_def del: map_map)
qed

section \<open>The assembler computes the history's message\<close>

definition history_open :: "provider_chunk list \<Rightarrow> ustr \<Rightarrow> open_tool_call" where
  "history_open cs i =
     \<lparr>oc_call_id = i, oc_name = tc_name (history_call cs i), oc_arguments = tc_arguments (history_call cs i)\<rparr>"

definition orderly :: "provider_chunk list \<Rightarrow> bool" where
  "orderly cs \<longleftrightarrow> distinct (begun cs) \<and> distinct (closed_calls cs) \<and> set (closed_calls cs) \<subseteq> set (begun cs) \<and>
     (\<forall>i. i \<notin> set (begun cs) \<longrightarrow> tc_name (history_call cs i) = [] \<and> tc_arguments (history_call cs i) = [])"

definition represents :: "provider_chunk list \<Rightarrow> stream_assembler \<Rightarrow> bool" where
  "represents cs a \<longleftrightarrow>
     sa_text a = am_text (history_message cs) \<and> sa_reasoning a = am_reasoning (history_message cs) \<and>
     sa_tool_calls a = am_tool_calls (history_message cs) \<and> sa_open a = map (history_open cs) (still_open cs) \<and>
     sa_assembled a = history_bytes cs \<and> sa_ended a = (MessageEnd \<in> set cs)"

lemmas history_defs =
  begun_def closed_calls_def still_open_def history_call_def history_message_def history_bytes_def
  history_open_def

lemma represents_new: "represents [] (assembler_with_limit limit)" "orderly []"
  by (simp_all add: represents_def orderly_def assembler_with_limit_def history_defs)

lemma is_known_iff:
  assumes "represents cs a" and "orderly cs"
  shows "is_known a i \<longleftrightarrow> i \<in> set (begun cs)"
  using assms
  by (auto simp: is_known_def represents_def orderly_def history_message_def history_call_def history_open_def
      still_open_def)

lemma append_arguments_map:
  "distinct is \<Longrightarrow> append_arguments i fragment (map (history_open cs) is) =
     (if i \<in> set is then Some (map (history_open (cs @ [ToolCallArgumentsDelta i fragment])) is) else None)"
proof (induction "is")
  case (Cons j js)
  have other: "history_open (cs @ [ToolCallArgumentsDelta i fragment]) k = history_open cs k" if "k \<noteq> i" for k
    using that by (simp add: history_defs)
  have same: "map (history_open (cs @ [ToolCallArgumentsDelta i fragment])) js = map (history_open cs) js"
    if "i \<notin> set js" using that by (intro map_cong refl other) auto
  show ?case
  proof (cases "j = i")
    case True
    then show ?thesis using Cons.prems same by (simp add: history_defs)
  next
    case False
    then show ?thesis using Cons other by (simp add: history_open_def [of cs j])
  qed
qed simp

lemma remove_open_map:
  "distinct is \<Longrightarrow> remove_open i (map (history_open cs) is) =
     (if i \<in> set is then Some (history_open cs i, map (history_open cs) (filter (\<lambda>j. j \<noteq> i) is)) else None)"
proof (induction "is")
  case (Cons j js)
  have "filter (\<lambda>k. k \<noteq> j) js = js" using Cons.prems by (auto intro: filter_True)
  then show ?case using Cons by (auto simp: history_open_def [of cs j])
qed simp

lemma history_ended_other:
  assumes "i \<in> set (closed_calls cs)" and "j \<notin> set (closed_calls cs)"
  shows "history_call (cs @ [ToolCallArgumentsDelta j fragment]) i = history_call cs i"
  using assms by (auto simp: history_call_def)

text \<open>
  The simulation: the chunks that may follow the history are accepted, cause its event and lead to
  the state of the longer history; every other chunk is refused.
\<close>

lemma push_accepted_begin:
  assumes "represents cs a" and "orderly cs" and "sa_limit a < USIZE_MAX" and "may_follow (sa_limit a) cs c"
    and c: "c = ToolCallBegin i name"
  shows "\<exists>es b. push_chunk a c = (Ok es, b) \<and> map ev_payload es = chunk_payloads cs c \<and>
    represents (cs @ [c]) b \<and> orderly (cs @ [c])"
proof -
  have fresh: "i \<notin> set (begun cs)" "i \<notin> set (closed_calls cs)"
    using assms(2,4) c by (auto simp: may_follow_def orderly_def)
  have none: "concat (map (chunk_name i) cs) = []" "concat (map (chunk_fragment i) cs) = []"
    using assms(2) fresh(1) by (simp_all add: orderly_def history_call_def)
  have calls: "map (history_call (cs @ [c])) (closed_calls cs) = map (history_call cs) (closed_calls cs)"
    using fresh by (intro map_cong refl) (auto simp: c history_call_def)
  have opened: "map (history_open (cs @ [c])) (still_open cs) = map (history_open cs) (still_open cs)"
    using fresh by (intro map_cong refl) (auto simp: c history_open_def history_call_def still_open_def)
  have lists: "begun (cs @ [c]) = begun cs @ [i]" "closed_calls (cs @ [c]) = closed_calls cs"
    "still_open (cs @ [c]) = still_open cs @ [i]"
    using fresh by (simp_all add: c begun_def closed_calls_def still_open_def)
  have "history_open (cs @ [c]) i = \<lparr>oc_call_id = i, oc_name = name, oc_arguments = []\<rparr>"
    using none by (simp add: c history_open_def history_call_def)
  moreover have "orderly (cs @ [c])"
    using assms(2) fresh by (auto simp: orderly_def lists) (auto simp: c history_call_def)
  ultimately show ?thesis
    using assms calls opened is_known_iff [OF assms(1,2), of i] unfolding c
    by (auto simp: may_follow_def push_chunk_def emitting_eq represents_def reserve_bytes_split
        usize_saturating_add_below history_message_def history_bytes_def lists [unfolded c])
qed

lemma push_accepted_fragment:
  assumes "represents cs a" and "orderly cs" and "sa_limit a < USIZE_MAX" and "may_follow (sa_limit a) cs c"
    and c: "c = ToolCallArgumentsDelta i fragment"
  shows "\<exists>es b. push_chunk a c = (Ok es, b) \<and> map ev_payload es = chunk_payloads cs c \<and>
    represents (cs @ [c]) b \<and> orderly (cs @ [c])"
proof -
  have i: "i \<in> set (still_open cs)" using assms(4) by (simp add: may_follow_def c)
  have "distinct (still_open cs)" using assms(2) by (simp add: orderly_def still_open_def)
  note opened = append_arguments_map [OF this, of i fragment cs]
  have calls: "map (history_call (cs @ [c])) (closed_calls cs) = map (history_call cs) (closed_calls cs)"
    using i by (intro map_cong refl) (simp add: c history_ended_other still_open_def)
  have lists: "begun (cs @ [c]) = begun cs" "closed_calls (cs @ [c]) = closed_calls cs"
    "still_open (cs @ [c]) = still_open cs"
    by (simp_all add: c begun_def closed_calls_def still_open_def)
  have "orderly (cs @ [c])"
    using assms(2) i by (auto simp: orderly_def lists still_open_def) (auto simp: c history_call_def)
  then show ?thesis
    using assms calls opened i unfolding c
    by (auto simp: may_follow_def push_chunk_def represents_def reserve_bytes_split
        usize_saturating_add_below history_message_def history_bytes_def lists [unfolded c])
qed

lemma push_accepted_end:
  assumes "represents cs a" and "orderly cs" and "sa_limit a < USIZE_MAX" and "may_follow (sa_limit a) cs c"
    and c: "c = ToolCallEnd i"
  shows "\<exists>es b. push_chunk a c = (Ok es, b) \<and> map ev_payload es = chunk_payloads cs c \<and>
    represents (cs @ [c]) b \<and> orderly (cs @ [c])"
proof -
  have i: "i \<in> set (still_open cs)" using assms(4) by (simp add: may_follow_def c)
  have "distinct (still_open cs)" using assms(2) by (simp add: orderly_def still_open_def)
  note opened = remove_open_map [OF this, of i cs]
  have same: "history_call (cs @ [c]) = history_call cs" "history_open (cs @ [c]) = history_open cs"
    by (auto simp: c history_open_def history_call_def)
  have lists: "begun (cs @ [c]) = begun cs" "closed_calls (cs @ [c]) = closed_calls cs @ [i]"
    "still_open (cs @ [c]) = filter (\<lambda>j. j \<noteq> i) (still_open cs)"
    by (auto simp: c begun_def closed_calls_def still_open_def intro: filter_cong)
  have "orderly (cs @ [c])"
    using assms(2) i by (auto simp: orderly_def lists same still_open_def)
  moreover have "completed_call (history_open cs i) = history_call cs i"
    by (simp add: completed_call_def history_open_def history_call_def)
  ultimately show ?thesis
    using assms opened i same lists unfolding c
    by (auto simp: may_follow_def push_chunk_def emitting_eq represents_def history_message_def history_bytes_def)
qed

lemma push_accepted:
  assumes "represents cs a" and "orderly cs" and "sa_limit a < USIZE_MAX" and "may_follow (sa_limit a) cs c"
  shows "\<exists>es b. push_chunk a c = (Ok es, b) \<and> map ev_payload es = chunk_payloads cs c \<and>
    represents (cs @ [c]) b \<and> orderly (cs @ [c])"
proof (cases c)
  case (TextDelta t)
  then show ?thesis using assms
    by (auto simp: may_follow_def push_chunk_def emitting_eq represents_def orderly_def reserve_bytes_split
        usize_saturating_add_below history_defs)
next
  case (ReasoningDelta t)
  then show ?thesis using assms
    by (auto simp: may_follow_def push_chunk_def emitting_eq represents_def orderly_def reserve_bytes_split
        usize_saturating_add_below history_defs)
next
  case (ToolCallBegin i name)
  then show ?thesis by (rule push_accepted_begin [OF assms])
next
  case (ToolCallArgumentsDelta i fragment)
  then show ?thesis by (rule push_accepted_fragment [OF assms])
next
  case (ToolCallEnd i)
  then show ?thesis by (rule push_accepted_end [OF assms])
next
  case MessageEnd
  have same: "history_call (cs @ [c]) = history_call cs" "history_open (cs @ [c]) = history_open cs"
    by (auto simp: MessageEnd history_open_def history_call_def)
  have lists: "begun (cs @ [c]) = begun cs" "closed_calls (cs @ [c]) = closed_calls cs"
    "still_open (cs @ [c]) = still_open cs"
    by (simp_all add: MessageEnd begun_def closed_calls_def still_open_def)
  have "orderly (cs @ [c])" using assms(2) by (simp add: orderly_def lists same)
  then show ?thesis using assms same lists unfolding MessageEnd
    by (auto simp: may_follow_def push_chunk_def emitting_eq represents_def assembled_message_def
        history_message_def history_bytes_def)
qed

lemma push_refused:
  assumes "represents cs a" and "orderly cs" and "counted a" and "\<not> may_follow (sa_limit a) cs c"
  shows "\<exists>e. push_chunk a c = (Err e, a)"
proof -
  have room: "sa_assembled a \<le> sa_limit a" "sa_limit a < USIZE_MAX" and sum: "sa_assembled a = history_bytes cs"
    using assms(1,3) by (simp_all add: counted_def represents_def)
  have "distinct (still_open cs)" using assms(2) by (simp add: orderly_def still_open_def)
  note found = append_arguments_map [OF this] remove_open_map [OF this]
  show ?thesis
  proof (cases "c = MessageEnd")
    case True
    then show ?thesis using assms(1,4) room sum
      by (cases "still_open cs") (auto simp: may_follow_def push_chunk_def represents_def)
  next
    case False
    then show ?thesis using assms(1,4) room sum is_known_iff [OF assms(1,2)]
      by (cases c) (auto simp: may_follow_def push_chunk_def represents_def reserve_bytes_split found)
  qed
qed

lemma feed_history:
  assumes "represents cs a" and "orderly cs" and "counted a" and "feed a ds = (es, r, b)"
  shows "(r = None \<longleftrightarrow> admissible_after (sa_limit a) cs ds) \<and>
    (r = None \<longrightarrow> map ev_payload es = payloads_after cs ds \<and> represents (cs @ ds) b)"
  using assms
proof (induction ds arbitrary: cs a es)
  case (Cons c ds)
  show ?case
  proof (cases "may_follow (sa_limit a) cs c")
    case True
    have limit: "sa_limit a < USIZE_MAX" using Cons.prems(3) by (simp add: counted_def)
    obtain fs d where push: "push_chunk a c = (Ok fs, d)" "map ev_payload fs = chunk_payloads cs c"
      and next_state: "represents (cs @ [c]) d" "orderly (cs @ [c])"
      using push_accepted [OF Cons.prems(1,2) limit True] by blast
    obtain gs where gs: "feed d ds = (gs, r, b)" "es = fs @ gs"
      using Cons.prems(4) push(1) by (auto split: prod.splits)
    have "sa_limit d = sa_limit a" using push(1) by (rule push_limit)
    with Cons.IH [OF next_state push_counted [OF push(1) Cons.prems(3)] gs(1)] True push(2) gs(2)
    show ?thesis by simp
  next
    case False
    from push_refused [OF Cons.prems(1-3) this] obtain e where "push_chunk a c = (Err e, a)" by blast
    with False Cons.prems(4) show ?thesis by auto
  qed
qed simp

lemmas feed_from_start = feed_history [OF represents_new counted_new]

section \<open>Sequence numbers\<close>

lemma push_sequence:
  assumes "push_chunk a c = (Ok es, b)"
  shows "es = [] \<and> sa_next_sequence b = sa_next_sequence a \<or>
    (\<exists>p. es = [\<lparr>ev_sequence = sa_next_sequence a, ev_payload = p\<rparr>]) \<and>
      sa_next_sequence b = saturating_add (sa_next_sequence a) 1"
  using assms
  by (auto simp: push_chunk_def emitting_eq split: if_splits provider_chunk.splits result.splits option.splits
      list.splits prod.splits)

lemma feed_sequence:
  assumes "feed a cs = (es, r, b)" and "unat (sa_next_sequence a) + length es < 2 ^ 64"
  shows "map (\<lambda>e. unat (ev_sequence e)) es = [unat (sa_next_sequence a)..<unat (sa_next_sequence a) + length es]"
    and "unat (sa_next_sequence b) = unat (sa_next_sequence a) + length es"
proof -
  have "map (\<lambda>e. unat (ev_sequence e)) es = [unat (sa_next_sequence a)..<unat (sa_next_sequence a) + length es] \<and>
      unat (sa_next_sequence b) = unat (sa_next_sequence a) + length es"
    using assms
  proof (induction cs arbitrary: a es)
    case (Cons c cs)
    show ?case
    proof (cases "push_chunk a c")
      case (Pair res d)
      show ?thesis
      proof (cases res)
        case (Ok fs)
        obtain gs where gs: "feed d cs = (gs, r, b)" "es = fs @ gs"
          using Cons.prems(1) Pair Ok by (auto split: prod.splits)
        from push_sequence [OF Pair [unfolded Ok]] show ?thesis
        proof (elim disjE conjE exE)
          assume "fs = []" "sa_next_sequence d = sa_next_sequence a"
          then show ?thesis using Cons.IH [OF gs(1)] Cons.prems(2) gs(2) by simp
        next
          fix p assume fs: "fs = [\<lparr>ev_sequence = sa_next_sequence a, ev_payload = p\<rparr>]"
            and succ: "sa_next_sequence d = saturating_add (sa_next_sequence a) 1"
          have "unat (sa_next_sequence d) = Suc (unat (sa_next_sequence a))"
            using Cons.prems(2) gs(2) fs unfolding succ by (simp add: unat_saturating_add)
          then show ?thesis using Cons.IH [OF gs(1)] Cons.prems(2) gs(2) fs
            by (simp add: upt_conv_Cons del: upt_Suc)
        qed
      next
        case (Err e)
        then show ?thesis using Cons.prems(1) Pair refused_unchanged [of a c e d] by simp
      qed
    qed
  qed simp
  then show "map (\<lambda>e. unat (ev_sequence e)) es = [unat (sa_next_sequence a)..<unat (sa_next_sequence a) + length es]"
    and "unat (sa_next_sequence b) = unat (sa_next_sequence a) + length es" by simp_all
qed

section \<open>The properties of the assembler\<close>

text \<open>
  Property C12. The assembler accepts exactly the streams in which every chunk may follow the chunks
  before it, and then the events carry what those chunks say and the finished message is the one read
  from the whole history: each text and each call's arguments is the concatenation of its own
  fragments, however the fragments of different calls are interleaved.
\<close>

theorem assembler_matches_history:
  assumes "limit < USIZE_MAX" and "feed (assembler_with_limit limit) cs = (es, r, a)"
  shows "(r = None \<longleftrightarrow> admissible_after limit [] cs) \<and>
    (r = None \<longrightarrow> map ev_payload es = payloads_after [] cs \<and>
       finish_message a = (if MessageEnd \<in> set cs then Some (history_message cs) else None))"
proof -
  have "finish_message a = (if MessageEnd \<in> set cs then Some (history_message cs) else None)"
    if "represents cs a"
    using that by (auto simp: finish_message_def represents_def assembled_message_def history_message_def)
  then show ?thesis
    using feed_from_start [OF assms] by (simp add: assembler_with_limit_def)
qed

definition demo_chunks :: "provider_chunk list" where
  "demo_chunks =
     [TextDelta (lit ''hi''), ToolCallBegin (lit ''a'') (lit ''f''), ToolCallBegin (lit ''b'') (lit ''g''),
      ToolCallArgumentsDelta (lit ''a'') (lit ''1''), ToolCallArgumentsDelta (lit ''b'') (lit ''2''),
      ToolCallArgumentsDelta (lit ''a'') (lit ''3'')]"

definition demo_rest :: "provider_chunk list" where
  "demo_rest = [ToolCallEnd (lit ''b''), ToolCallEnd (lit ''a''), MessageEnd]"

lemma lit_simps [simp]: "lit [] = []" "lit (c # s) = of_char c # lit s"
  by (simp_all add: lit_def)

lemmas stream_eval =
  feed.simps push_chunk_def emitting_eq reserve_bytes_def usize_saturating_add_def utf8_length_def len_utf8_def
  is_known_def assembler_with_limit_def completed_call_def str_trim_def char_is_whitespace_def USIZE_MAX_def
  demo_chunks_def demo_rest_def saturating_add_def assembled_message_def finish_message_def history_message_def
  closed_calls_def history_call_def

theorem assembler_matches_history_witness:
  "finish_message (snd (snd (feed (assembler_with_limit 64) (demo_chunks @ demo_rest)))) =
     Some (history_message (demo_chunks @ demo_rest)) \<and>
   am_tool_calls (history_message (demo_chunks @ demo_rest)) =
     [\<lparr>tc_call_id = lit ''b'', tc_name = lit ''g'', tc_arguments = lit ''2''\<rparr>,
      \<lparr>tc_call_id = lit ''a'', tc_name = lit ''f'', tc_arguments = lit ''13''\<rparr>]"
proof -
  obtain es a where fed: "feed (assembler_with_limit 64) (demo_chunks @ demo_rest) = (es, None, a)"
    by (simp add: stream_eval)
  have "(64 :: nat) < USIZE_MAX" by (simp add: USIZE_MAX_def)
  from assembler_matches_history [OF this fed] show ?thesis
    by (simp add: fed) (simp add: demo_chunks_def demo_rest_def history_message_def closed_calls_def history_call_def)
qed

text \<open>
  Property C14. An interruption is invisible: wherever the stream stops, with or without a refused
  chunk, resuming from the partial message gives the state that stopped. The chunks that follow then
  have the outcome they would have had, and the events of both parts are numbered without a gap.
\<close>

theorem interruption_is_transparent:
  assumes "limit < USIZE_MAX" and "feed (assembler_with_limit limit) cs = (es, r, a)" and "\<not> sa_ended a"
    and "feed (resume_assembler (into_partial a) limit) ds = (fs, q, b)"
  shows "(r = None \<longrightarrow> feed (assembler_with_limit limit) (cs @ ds) = (es @ fs, q, b)) \<and>
    feed a ds = (fs, q, b) \<and>
    (length es + length fs < 2 ^ 64 \<longrightarrow>
       map (\<lambda>e. unat (ev_sequence e)) (es @ fs) = [0..<length es + length fs])"
proof -
  have limit: "sa_limit a = limit"
    using feed_limit [OF assms(2)] by (simp add: assembler_with_limit_def)
  have same: "resume_assembler (into_partial a) limit = a"
    using resume_into_partial [OF feed_counted [OF assms(2) counted_new [OF assms(1)]] assms(3)] limit by simp
  have rest: "feed a ds = (fs, q, b)" using assms(4) by (simp add: same)
  have "map (\<lambda>e. unat (ev_sequence e)) (es @ fs) = [0..<length es + length fs]"
    if "length es + length fs < 2 ^ 64"
  proof -
    have start: "unat (sa_next_sequence (assembler_with_limit limit)) = 0" by (simp add: assembler_with_limit_def)
    have first: "map (\<lambda>e. unat (ev_sequence e)) es = [0..<length es]" "unat (sa_next_sequence a) = length es"
      using feed_sequence [OF assms(2)] start that by simp_all
    have "map (\<lambda>e. unat (ev_sequence e)) fs = [length es..<length es + length fs]"
      using feed_sequence(1) [OF rest] first(2) that by simp
    then show ?thesis using first(1) upt_add_eq_append [of 0 "length es" "length fs"] by simp
  qed
  then show ?thesis
    using rest feed_append [of "assembler_with_limit limit" cs es a ds] assms(2) by simp
qed

theorem interruption_is_transparent_witness:
  "snd (snd (feed (assembler_with_limit 64) (demo_chunks @ demo_rest))) =
     snd (snd (feed (resume_assembler (into_partial (snd (snd (feed (assembler_with_limit 64) demo_chunks)))) 64) demo_rest)) \<and>
   map (\<lambda>e. unat (ev_sequence e)) (fst (feed (assembler_with_limit 64) (demo_chunks @ demo_rest))) = [0, 1, 2, 3, 4, 5]"
proof -
  obtain es a where first: "feed (assembler_with_limit 64) demo_chunks = (es, None, a)"
    and going: "\<not> sa_ended a" and len: "length es = 3"
    by (simp add: stream_eval)
  obtain fs q b where rest: "feed (resume_assembler (into_partial a) 64) demo_rest = (fs, q, b)"
    by (cases "feed (resume_assembler (into_partial a) 64) demo_rest") auto
  have whole: "length (fst (feed (assembler_with_limit 64) (demo_chunks @ demo_rest))) = 6"
    by (simp add: stream_eval)
  have "(64 :: nat) < USIZE_MAX" by (simp add: USIZE_MAX_def)
  note fact = interruption_is_transparent [OF this first going rest]
  then have "length fs = 3" using whole len by simp
  then show ?thesis using fact first rest len by (simp add: upt_rec)
qed
lemma feed_prefix:
  assumes "represents cs a" and "orderly cs" and "counted a" and "feed a ds = (es, r, b)"
  shows "\<exists>k. represents (cs @ take k ds) b \<and> orderly (cs @ take k ds)"
  using assms
proof (induction ds arbitrary: cs a es)
  case (Cons c ds)
  show ?case
  proof (cases "may_follow (sa_limit a) cs c")
    case True
    have limit: "sa_limit a < USIZE_MAX" using Cons.prems(3) by (simp add: counted_def)
    obtain fs d where push: "push_chunk a c = (Ok fs, d)"
      and next_state: "represents (cs @ [c]) d" "orderly (cs @ [c])"
      using push_accepted [OF Cons.prems(1,2) limit True] by blast
    obtain gs where "feed d ds = (gs, r, b)" using Cons.prems(4) push by (auto split: prod.splits)
    from Cons.IH [OF next_state push_counted [OF push Cons.prems(3)] this]
    obtain k where "represents ((cs @ [c]) @ take k ds) b \<and> orderly ((cs @ [c]) @ take k ds)" by blast
    then show ?thesis by (intro exI [of _ "Suc k"]) simp
  next
    case False
    from push_refused [OF Cons.prems(1-3) this] obtain e where "push_chunk a c = (Err e, a)" by blast
    with Cons.prems(1,2,4) show ?thesis by (intro exI [of _ 0]) simp
  qed
qed auto

lemma represents_distinct:
  assumes "represents cs a" and "orderly cs"
  shows "distinct (map tc_call_id (sa_tool_calls a) @ open_tool_calls a)"
proof -
  have "map tc_call_id (sa_tool_calls a) = closed_calls cs"
    using assms(1) by (simp add: represents_def history_message_def history_call_def comp_def)
  moreover have "open_tool_calls a = still_open cs"
    using assms(1) by (simp add: represents_def open_tool_calls_def history_open_def comp_def)
  ultimately show ?thesis using assms(2) by (auto simp: orderly_def still_open_def)
qed

text \<open>
  Property C26. The running byte count is exactly the size of everything assembled, stays within the
  limit, and no two calls of one message share an identifier, whatever chunks arrive.
\<close>

theorem assembled_size_exact:
  assumes "limit < USIZE_MAX" and "feed (assembler_with_limit limit) cs = (es, r, a)"
  shows "sa_assembled a = assembled_total a \<and> assembled_total a \<le> limit \<and>
    distinct (map tc_call_id (sa_tool_calls a) @ open_tool_calls a)"
proof -
  have "counted a" using feed_counted [OF assms(2) counted_new [OF assms(1)]] .
  moreover have "sa_limit a = limit"
    using feed_limit [OF assms(2)] by (simp add: assembler_with_limit_def)
  moreover obtain k where "represents (take k cs) a" "orderly (take k cs)"
    using feed_prefix [OF represents_new counted_new [OF assms(1)] assms(2)] by auto
  ultimately show ?thesis using represents_distinct by (simp add: counted_def)
qed

theorem assembled_size_exact_witness:
  "assembled_total (snd (snd (feed (assembler_with_limit 6) demo_chunks))) \<le> 6 \<and>
   fst (snd (feed (assembler_with_limit 6) demo_chunks)) = Some (MessageTooLarge 6 7)"
proof -
  have big: "(6 :: nat) < USIZE_MAX" by (simp add: USIZE_MAX_def)
  obtain es r a where fed: "feed (assembler_with_limit 6) demo_chunks = (es, r, a)" by (rule prod_cases3)
  moreover have "fst (snd (feed (assembler_with_limit 6) demo_chunks)) = Some (MessageTooLarge 6 7)"
    by (simp add: stream_eval)
  ultimately show ?thesis using assembled_size_exact [OF big fed] by simp
qed

end
