(* ===== verification/Runtime_Approval.thy ===== *)
theory Runtime_Approval
  imports Goal_Service "HOL-Library.AList"
begin

text \<open>
  The approval broker that gates tool calls on the decisions of an operator
  (crates/claw-runtime/src/approval.rs), with the values it exchanges
  (crates/claw-application/src/model/approval.rs, model/time.rs) and the caller's authority and the
  tool publication a request may be bound to (crates/claw-application/src/ports/tool.rs). Every
  section of \<open>request_inner\<close> between two points where other tasks can act is one definition, so that the
  step relation of the next theory can interleave them.
\<close>

section \<open>Decisions\<close>

datatype approval_scope = ScopeOnce | ScopeSession

fun scope_label :: "approval_scope \<Rightarrow> string" where
  "scope_label ScopeOnce = ''once''"
| "scope_label ScopeSession = ''session''"

definition is_remembered :: "approval_scope \<Rightarrow> bool" where
  "is_remembered s \<longleftrightarrow> s = ScopeSession"

datatype approval_verdict = Approve | Deny

fun verdict_label :: "approval_verdict \<Rightarrow> string" where
  "verdict_label Approve = ''approve''"
| "verdict_label Deny = ''deny''"

record approval_decision =
  ad_verdict :: approval_verdict
  ad_scope :: approval_scope

definition approve_once :: approval_decision where
  "approve_once = \<lparr>ad_verdict = Approve, ad_scope = ScopeOnce\<rparr>"

definition approve_for_session :: approval_decision where
  "approve_for_session = \<lparr>ad_verdict = Approve, ad_scope = ScopeSession\<rparr>"

definition deny_once :: approval_decision where
  "deny_once = \<lparr>ad_verdict = Deny, ad_scope = ScopeOnce\<rparr>"

definition deny_for_session :: approval_decision where
  "deny_for_session = \<lparr>ad_verdict = Deny, ad_scope = ScopeSession\<rparr>"

text \<open>A \<open>Timestamp\<close> is a signed 64-bit number of milliseconds.\<close>

type_synonym timestamp = int

record approval_request =
  ar_approval_id :: ustr
  ar_session_id :: session_id
  ar_turn :: u64
  ar_call_id :: ustr
  ar_tool_name :: ustr
  ar_arguments :: ustr
  ar_requested_at :: timestamp
  ar_expires_at :: timestamp

datatype approval_withdrawal = WithdrawnTimedOut | WithdrawnCancelled

fun withdrawal_label :: "approval_withdrawal \<Rightarrow> string" where
  "withdrawal_label WithdrawnTimedOut = ''timed_out''"
| "withdrawal_label WithdrawnCancelled = ''cancelled''"

datatype approval_outcome = Decided approval_decision bool | Withdrawn approval_withdrawal

fun is_approved :: "approval_outcome \<Rightarrow> bool" where
  "is_approved (Decided d _) \<longleftrightarrow> ad_verdict d = Approve"
| "is_approved (Withdrawn _) \<longleftrightarrow> False"

text \<open>\<open>Timestamp::checked_add\<close>; a \<open>Duration\<close> is its number of nanoseconds.\<close>

definition timestamp_checked_add :: "timestamp \<Rightarrow> nat \<Rightarrow> timestamp option" where
  "timestamp_checked_add t d =
     (let millis = int (d div 1000000) in
      if millis > 2 ^ 63 - 1 then None
      else if t + millis > 2 ^ 63 - 1 then None else Some (t + millis))"

section \<open>Callers and publications\<close>

datatype invocation_source = SourceGateway | SourceHttp | SourceMcp | SourceChannel

datatype invocation_access = AccessReadOnly | AccessExecute | AccessOwner

text \<open>
  The revocation of a grant is a signal the host owns; a grant carries the number of its signal, and
  the signals that have fired are a set.
\<close>

record invocation_authority =
  ia_source :: invocation_source
  ia_subject :: ustr
  ia_account :: "ustr option"
  ia_access :: invocation_access
  ia_generation :: u64
  ia_revocation :: "nat option"

definition invalid_claim :: "ustr \<Rightarrow> bool" where
  "invalid_claim v \<longleftrightarrow> v = [] \<or> utf8_length v > 256 \<or> list_ex is_control_char v"

definition new_authority ::
  "invocation_source \<Rightarrow> ustr \<Rightarrow> ustr option \<Rightarrow> invocation_access \<Rightarrow> u64 \<Rightarrow> (invocation_authority, port_error) result"
where
  "new_authority source subject account access generation =
     (if list_ex invalid_claim (subject # (case account of None \<Rightarrow> [] | Some a \<Rightarrow> [a]))
      then Err (PortInvalid (lit ''invalid authenticated invocation identity''))
      else Ok \<lparr>ia_source = source, ia_subject = subject, ia_account = account, ia_access = access,
               ia_generation = generation, ia_revocation = None\<rparr>)"

definition at_generation :: "invocation_authority \<Rightarrow> u64 \<Rightarrow> invocation_authority" where
  "at_generation a g = a\<lparr>ia_generation := g\<rparr>"

definition with_revocation :: "invocation_authority \<Rightarrow> nat \<Rightarrow> invocation_authority" where
  "with_revocation a signal = a\<lparr>ia_revocation := Some signal\<rparr>"

definition is_revoked :: "nat set \<Rightarrow> invocation_authority \<Rightarrow> bool" where
  "is_revoked fired a \<longleftrightarrow> (case ia_revocation a of None \<Rightarrow> False | Some signal \<Rightarrow> signal \<in> fired)"

definition can_execute :: "nat set \<Rightarrow> invocation_authority \<Rightarrow> bool" where
  "can_execute fired a \<longleftrightarrow> ia_access a \<noteq> AccessReadOnly \<and> \<not> is_revoked fired a"

definition is_owner :: "nat set \<Rightarrow> invocation_authority \<Rightarrow> bool" where
  "is_owner fired a \<longleftrightarrow> ia_access a = AccessOwner \<and> \<not> is_revoked fired a"

record tool_binding =
  tb_identity :: ustr
  tb_revision :: u64
  tb_resource :: "ustr option"

definition new_tool_binding :: "ustr \<Rightarrow> u64 \<Rightarrow> (tool_binding, port_error) result" where
  "new_tool_binding identity number =
     (if invalid_claim identity \<or> number = 0 then Err (PortInvalid (lit ''invalid tool publication binding''))
      else Ok \<lparr>tb_identity = identity, tb_revision = number, tb_resource = None\<rparr>)"

definition with_resource :: "tool_binding \<Rightarrow> ustr \<Rightarrow> (tool_binding, port_error) result" where
  "with_resource b resource =
     (if resource = [] \<or> utf8_length resource > 2048 \<or> list_ex is_control_char resource
      then Err (PortInvalid (lit ''invalid tool resource description''))
      else Ok (b\<lparr>tb_resource := Some resource\<rparr>))"

section \<open>The broker's state\<close>

datatype approval_error =
    ApprovalPort port_error
  | ApprovalUnknown ustr
  | DeadlineOverflow
  | ApprovalIdentifier string

fun approval_error_display :: "approval_error \<Rightarrow> ustr" where
  "approval_error_display (ApprovalPort e) = lit ''approval port failed: '' @ port_error_display e"
| "approval_error_display (ApprovalUnknown i) = lit ''approval '' @ i @ lit '' is not outstanding''"
| "approval_error_display DeadlineOverflow = lit ''approval deadline overflowed the clock''"
| "approval_error_display (ApprovalIdentifier reason) = lit (''approval identifier rejected: '' @ reason)"

record approval_ticket =
  at_session_id :: session_id
  at_turn :: u64
  at_call_id :: ustr
  at_tool_name :: ustr
  at_arguments :: ustr

text \<open>
  One call of \<open>request_inner\<close> is a waiter, and a pending entry names the waiter that owns its other end:
  \<open>pa_waiter\<close> stands for the sender of the one-shot channel and for the shared \<open>decision_accepted\<close> flag.
  \<open>pa_cancellation\<close> is the number of the cancellation token.
\<close>

record pending_approval =
  pa_request :: approval_request
  pa_authority :: "invocation_authority option"
  pa_binding :: "tool_binding option"
  pa_binding_token :: "ustr option"
  pa_waiter :: nat
  pa_cancellation :: nat

record broker_state =
  br_pending :: "(ustr \<times> pending_approval) list"
  br_remembered :: "(ustr \<times> (ustr \<times> approval_decision) list) list"
  br_next_id :: u64

definition broker_default :: broker_state where
  "broker_default = \<lparr>br_pending = [], br_remembered = [], br_next_id = 0\<rparr>"

text \<open>Where a call of \<open>request_inner\<close> stands, and what the presentation port was told.\<close>

datatype waiter_phase =
    Asked
  | Numbered
  | Presenting
  | Waiting
  | Woken "approval_decision option"
  | Withdrawing approval_withdrawal
  | Settling approval_decision
  | Returned "(approval_outcome, approval_error) result"
  | Abandoned

record waiter =
  wt_ticket :: approval_ticket
  wt_authority :: "invocation_authority option"
  wt_binding :: "tool_binding option"
  wt_cancel :: nat
  wt_request :: "approval_request option"
  wt_binding_token :: "ustr option"
  wt_accepted :: bool
  wt_sent :: "approval_decision option"
  wt_phase :: waiter_phase

datatype approval_call =
    CallPresent approval_request
  | CallPresentAuthorized approval_request invocation_authority
  | CallSettle ustr
  | CallWithdraw ustr approval_withdrawal
  | CallAbandon ustr

record approval_world =
  wd_broker :: broker_state
  wd_waiters :: "waiter list"
  wd_now :: timestamp
  wd_cancelled :: "nat set"
  wd_revoked :: "nat set"
  wd_elapsed :: "nat set"
  wd_calls :: "approval_call list"

abbreviation pending_of :: "approval_world \<Rightarrow> ustr \<Rightarrow> pending_approval option" where
  "pending_of w i \<equiv> map_of (br_pending (wd_broker w)) i"

definition set_pending :: "(ustr \<times> pending_approval) list \<Rightarrow> approval_world \<Rightarrow> approval_world" where
  "set_pending ps w = w\<lparr>wd_broker := (wd_broker w)\<lparr>br_pending := ps\<rparr>\<rparr>"

definition set_waiter :: "nat \<Rightarrow> (waiter \<Rightarrow> waiter) \<Rightarrow> approval_world \<Rightarrow> approval_world" where
  "set_waiter h f w = w\<lparr>wd_waiters := (wd_waiters w)[h := f (wd_waiters w ! h)]\<rparr>"

definition enter :: "nat \<Rightarrow> waiter_phase \<Rightarrow> approval_world \<Rightarrow> approval_world" where
  "enter h p = set_waiter h (\<lambda>x. x\<lparr>wt_phase := p\<rparr>)"

definition tell :: "approval_call \<Rightarrow> approval_world \<Rightarrow> approval_world" where
  "tell c w = w\<lparr>wd_calls := wd_calls w @ [c]\<rparr>"

section \<open>Queries and memory\<close>

definition request_before :: "approval_request \<Rightarrow> approval_request \<Rightarrow> bool" where
  "request_before p q \<longleftrightarrow>
     ar_requested_at p < ar_requested_at q \<or>
     ar_requested_at p = ar_requested_at q \<and> lexordp_eq (ar_approval_id p) (ar_approval_id q)"

fun insert_request :: "approval_request \<Rightarrow> approval_request list \<Rightarrow> approval_request list" where
  "insert_request p [] = [p]"
| "insert_request p (q # qs) = (if request_before p q then p # q # qs else q # insert_request p qs)"

definition outstanding :: "approval_world \<Rightarrow> approval_request list" where
  "outstanding w = foldr insert_request (map (pa_request \<circ> snd) (br_pending (wd_broker w))) []"

definition approval_authority :: "approval_world \<Rightarrow> ustr \<Rightarrow> invocation_authority option" where
  "approval_authority w i = (case pending_of w i of None \<Rightarrow> None | Some p \<Rightarrow> pa_authority p)"

definition approval_binding :: "approval_world \<Rightarrow> ustr \<Rightarrow> (tool_binding \<times> ustr) option" where
  "approval_binding w i =
     (case pending_of w i of
        None \<Rightarrow> None
      | Some p \<Rightarrow> (case pa_binding p of
          None \<Rightarrow> None
        | Some b \<Rightarrow> map_option (Pair b) (pa_binding_token p)))"

definition recall :: "approval_world \<Rightarrow> session_id \<Rightarrow> ustr \<Rightarrow> approval_decision option" where
  "recall w s tool =
     (case map_of (br_remembered (wd_broker w)) s of None \<Rightarrow> None | Some tools \<Rightarrow> map_of tools tool)"

definition set_remembered :: "(ustr \<times> (ustr \<times> approval_decision) list) list \<Rightarrow> approval_world \<Rightarrow> approval_world" where
  "set_remembered m w = w\<lparr>wd_broker := (wd_broker w)\<lparr>br_remembered := m\<rparr>\<rparr>"

definition forget_decision :: "session_id \<Rightarrow> ustr \<Rightarrow> approval_world \<Rightarrow> bool \<times> approval_world" where
  "forget_decision s tool w =
     (let m = br_remembered (wd_broker w) in
      case map_of m s of
        None \<Rightarrow> (False, w)
      | Some tools \<Rightarrow>
          (let rest = AList.delete tool tools in
           (map_of tools tool \<noteq> None,
            set_remembered (if rest = [] then AList.delete s m else AList.update s rest m) w)))"

definition forget_session :: "session_id \<Rightarrow> approval_world \<Rightarrow> nat \<times> approval_world" where
  "forget_session s w =
     (let m = br_remembered (wd_broker w) in
      (case map_of m s of None \<Rightarrow> 0 | Some tools \<Rightarrow> length tools, set_remembered (AList.delete s m) w))"

section \<open>Answering\<close>

text \<open>The receiver lives as long as the waiter may still be told.\<close>

definition responder_is_closed :: "approval_world \<Rightarrow> nat \<Rightarrow> bool" where
  "responder_is_closed w h \<longleftrightarrow> wt_phase (wd_waiters w ! h) \<notin> {Presenting, Waiting}"

definition remember :: "approval_request \<Rightarrow> approval_decision \<Rightarrow> approval_world \<Rightarrow> approval_world" where
  "remember r d w =
     (let m = br_remembered (wd_broker w);
          tools = (case map_of m (ar_session_id r) of None \<Rightarrow> [] | Some tools \<Rightarrow> tools)
      in set_remembered (AList.update (ar_session_id r) (AList.update (ar_tool_name r) d tools) m) w)"

definition resolve_inner ::
  "ustr \<Rightarrow> approval_decision \<Rightarrow> ustr option \<Rightarrow> approval_world \<Rightarrow> (unit, approval_error) result \<times> approval_world"
where
  "resolve_inner i d token w =
     (case pending_of w i of
        None \<Rightarrow> (Err (ApprovalUnknown i), w)
      | Some p \<Rightarrow>
          if pa_cancellation p \<in> wd_cancelled w
             \<or> (case pa_authority p of None \<Rightarrow> False | Some a \<Rightarrow> \<not> can_execute (wd_revoked w) a)
             \<or> responder_is_closed w (pa_waiter p)
             \<or> wd_now w \<ge> ar_expires_at (pa_request p)
          then (Err (ApprovalUnknown i), w)
          else if pa_authority p \<noteq> None \<and> is_remembered (ad_scope d)
          then (Err (ApprovalPort (PortInvalid
                  (lit ''authenticated tool approvals are restricted to this invocation''))), w)
          else if pa_binding_token p \<noteq> token then (Err (ApprovalUnknown i), w)
          else (Ok (),
            set_waiter (pa_waiter p) (\<lambda>x. x\<lparr>wt_accepted := True, wt_sent := Some d\<rparr>)
              ((if is_remembered (ad_scope d) then remember (pa_request p) d else id)
                (set_pending (AList.delete i (br_pending (wd_broker w))) w))))"

definition resolve :: "ustr \<Rightarrow> approval_decision \<Rightarrow> approval_world \<Rightarrow> (unit, approval_error) result \<times> approval_world" where
  "resolve i d = resolve_inner i d None"

definition resolve_bound ::
  "ustr \<Rightarrow> approval_decision \<Rightarrow> ustr \<Rightarrow> approval_world \<Rightarrow> (unit, approval_error) result \<times> approval_world"
where
  "resolve_bound i d token = resolve_inner i d (Some token)"

text \<open>\<open>answer\<close> is what the presentation port returns for an identifier.\<close>

fun first_error :: "(ustr \<Rightarrow> (unit, port_error) result) \<Rightarrow> ustr list \<Rightarrow> (unit, approval_error) result" where
  "first_error answer [] = Ok ()"
| "first_error answer (i # is) =
     (case answer i of Err e \<Rightarrow> Err (ApprovalPort e) | Ok _ \<Rightarrow> first_error answer is)"

definition withdraw_all ::
  "(ustr \<Rightarrow> (unit, port_error) result) \<Rightarrow> approval_withdrawal \<Rightarrow> approval_world
    \<Rightarrow> (unit, approval_error) result \<times> approval_world"
where
  "withdraw_all answer reason w =
     (let drained = map fst (br_pending (wd_broker w)) in
      (first_error answer drained,
       fold (\<lambda>i. tell (CallWithdraw i reason)) drained (set_pending [] w)))"

definition discard :: "ustr \<Rightarrow> approval_world \<Rightarrow> bool \<times> approval_world" where
  "discard i w = (pending_of w i \<noteq> None, set_pending (AList.delete i (br_pending (wd_broker w))) w)"

section \<open>Asking\<close>

text \<open>The checks before anything is registered.\<close>

definition request_ask ::
  "approval_ticket \<Rightarrow> invocation_authority option \<Rightarrow> tool_binding option \<Rightarrow> nat \<Rightarrow> approval_world \<Rightarrow> approval_world"
where
  "request_ask ticket authority binding cancel w =
     (let p = (if cancel \<in> wd_cancelled w
                 \<or> (case authority of None \<Rightarrow> False | Some a \<Rightarrow> \<not> can_execute (wd_revoked w) a)
               then Returned (Ok (Withdrawn WithdrawnCancelled))
               else case (if authority = None then recall w (at_session_id ticket) (at_tool_name ticket) else None) of
                   Some d \<Rightarrow> Returned (Ok (Decided d True))
                 | None \<Rightarrow> Asked)
      in w\<lparr>wd_waiters := wd_waiters w @ [\<lparr>wt_ticket = ticket, wt_authority = authority, wt_binding = binding,
            wt_cancel = cancel, wt_request = None, wt_binding_token = None, wt_accepted = False, wt_sent = None,
            wt_phase = p\<rparr>]\<rparr>)"

text \<open>The three public ways to ask: anonymously, with a caller, and bound to a publication.\<close>

definition request_anonymous :: "approval_ticket \<Rightarrow> nat \<Rightarrow> approval_world \<Rightarrow> approval_world" where
  "request_anonymous ticket = request_ask ticket None None"

definition request_authorized ::
  "approval_ticket \<Rightarrow> invocation_authority \<Rightarrow> nat \<Rightarrow> approval_world \<Rightarrow> approval_world"
where
  "request_authorized ticket a = request_ask ticket (Some a) None"

definition request_bound ::
  "approval_ticket \<Rightarrow> invocation_authority \<Rightarrow> tool_binding \<Rightarrow> nat \<Rightarrow> approval_world \<Rightarrow> approval_world"
where
  "request_bound ticket a b = request_ask ticket (Some a) (Some b)"

definition approval_id_new :: "ustr \<Rightarrow> (ustr, port_identifier_error) result" where
  "approval_id_new v = parse_identifier ''approval id'' v"

definition ticket_request :: "ustr \<Rightarrow> approval_ticket \<Rightarrow> timestamp \<Rightarrow> timestamp \<Rightarrow> approval_request" where
  "ticket_request i t requested expires =
     \<lparr>ar_approval_id = i, ar_session_id = at_session_id t, ar_turn = at_turn t, ar_call_id = at_call_id t,
      ar_tool_name = at_tool_name t, ar_arguments = at_arguments t, ar_requested_at = requested,
      ar_expires_at = expires\<rparr>"

text \<open>The deadline and the identifier.\<close>

definition request_number :: "nat \<Rightarrow> nat \<Rightarrow> approval_world \<Rightarrow> approval_world" where
  "request_number timeout h w =
     (case timestamp_checked_add (wd_now w) timeout of
        None \<Rightarrow> enter h (Returned (Err DeadlineOverflow)) w
      | Some expires \<Rightarrow>
          (case checked_add (br_next_id (wd_broker w)) 1 of
             None \<Rightarrow> enter h (Returned (Err (ApprovalIdentifier ''the broker has exhausted its identifier space''))) w
           | Some ordinal \<Rightarrow>
               (let w' = w\<lparr>wd_broker := (wd_broker w)\<lparr>br_next_id := ordinal\<rparr>\<rparr> in
                case approval_id_new (lit (''approval-'' @ show_dec (unat ordinal))) of
                  Err (IdentifierError _ reason) \<Rightarrow> enter h (Returned (Err (ApprovalIdentifier reason))) w'
                | Ok i \<Rightarrow> set_waiter h (\<lambda>x. x\<lparr>wt_phase := Numbered,
                    wt_request := Some (ticket_request i (wt_ticket x) (wd_now w) expires)\<rparr>) w')))"

definition is_ascii_hexdigit :: "nat \<Rightarrow> bool" where
  "is_ascii_hexdigit c \<longleftrightarrow> 48 \<le> c \<and> c \<le> 57 \<or> 65 \<le> c \<and> c \<le> 70 \<or> 97 \<le> c \<and> c \<le> 102"

text \<open>
  Minting the preview token, registering the entry with its guard, and presenting it. All characters of
  a token that passes are one byte long.
\<close>

definition minted_token :: "(ustr, port_error) result \<Rightarrow> tool_binding option \<Rightarrow> (ustr option, approval_error) result" where
  "minted_token minted binding =
     (if binding = None then Ok None
      else case minted of
          Err e \<Rightarrow> Err (ApprovalPort e)
        | Ok token \<Rightarrow>
            if utf8_length token \<noteq> 64 \<or> \<not> list_all is_ascii_hexdigit token
            then Err (ApprovalPort (PortInvalid (lit ''approval binding token is not a 256-bit encoded value'')))
            else Ok (Some token))"

definition request_register :: "(ustr, port_error) result \<Rightarrow> nat \<Rightarrow> approval_request \<Rightarrow> approval_world \<Rightarrow> approval_world" where
  "request_register minted h r w =
     (let x = wd_waiters w ! h in
      case minted_token minted (wt_binding x) of
        Err e \<Rightarrow> enter h (Returned (Err e)) w
      | Ok token \<Rightarrow>
          tell (case wt_authority x of None \<Rightarrow> CallPresent r | Some a \<Rightarrow> CallPresentAuthorized r a)
            (set_waiter h (\<lambda>x. x\<lparr>wt_phase := Presenting, wt_binding_token := token\<rparr>)
              (set_pending (AList.update (ar_approval_id r)
                 \<lparr>pa_request = r, pa_authority = wt_authority x, pa_binding = wt_binding x,
                  pa_binding_token = token, pa_waiter = h, pa_cancellation = wt_cancel x\<rparr>
                 (br_pending (wd_broker w))) w)))"

definition request_presented :: "(unit, port_error) result \<Rightarrow> nat \<Rightarrow> approval_request \<Rightarrow> approval_world \<Rightarrow> approval_world" where
  "request_presented presented h r w =
     (case presented of
        Err e \<Rightarrow> enter h (Returned (Err (ApprovalPort e))) (snd (discard (ar_approval_id r) w))
      | Ok _ \<Rightarrow> enter h Waiting w)"

text \<open>
  The biased \<open>select!\<close>, from what one poll saw: the cancellation, the revocation, the channel, and the
  end of the sleep. A channel whose sender is gone without an answer yields \<open>None\<close> as well.
\<close>

record wake_observation =
  saw_cancel :: bool
  saw_revoked :: bool
  saw_channel :: bool
  saw_deadline :: bool

definition channel_closed :: "approval_world \<Rightarrow> nat \<Rightarrow> bool" where
  "channel_closed w h \<longleftrightarrow> \<not> list_ex (\<lambda>(_, p). pa_waiter p = h) (br_pending (wd_broker w))"

definition request_poll :: "wake_observation \<Rightarrow> waiter \<Rightarrow> approval_decision option option" where
  "request_poll seen x =
     (if saw_cancel seen then Some None
      else if saw_revoked seen \<and> wt_authority x \<noteq> None then Some None
      else if saw_channel seen then Some (wt_sent x)
      else if saw_deadline seen then Some None
      else None)"

definition withdrawal_reason :: "approval_world \<Rightarrow> waiter \<Rightarrow> approval_withdrawal" where
  "withdrawal_reason w x =
     (if wt_cancel x \<in> wd_cancelled w
         \<or> (case wt_authority x of None \<Rightarrow> False | Some a \<Rightarrow> is_revoked (wd_revoked w) a)
      then WithdrawnCancelled else WithdrawnTimedOut)"

definition request_finish :: "nat \<Rightarrow> approval_request \<Rightarrow> approval_decision option \<Rightarrow> approval_world \<Rightarrow> approval_world" where
  "request_finish h r decision w =
     (case decision of
        None \<Rightarrow>
          (case discard (ar_approval_id r) w of (still_pending, w') \<Rightarrow>
             (let x = wd_waiters w' ! h; reason = withdrawal_reason w' x in
              if still_pending \<or> wt_accepted x
              then enter h (Withdrawing reason) (tell (CallWithdraw (ar_approval_id r) reason) w')
              else enter h (Returned (Ok (Withdrawn reason))) w'))
      | Some d \<Rightarrow> enter h (Settling d) (tell (CallSettle (ar_approval_id r)) w))"

definition request_notified :: "(unit, port_error) result \<Rightarrow> nat \<Rightarrow> approval_outcome \<Rightarrow> approval_world \<Rightarrow> approval_world" where
  "request_notified answered h outcome w =
     (case answered of
        Err e \<Rightarrow> enter h (Returned (Err (ApprovalPort e))) w
      | Ok _ \<Rightarrow> enter h (Returned (Ok outcome)) w)"

text \<open>\<open>PendingGuard::drop\<close>, while the guard is armed.\<close>

definition guard_drop :: "nat \<Rightarrow> approval_request \<Rightarrow> approval_world \<Rightarrow> approval_world" where
  "guard_drop h r w =
     (case discard (ar_approval_id r) w of (removed, w') \<Rightarrow>
        if removed \<or> wt_accepted (wd_waiters w' ! h) then tell (CallAbandon (ar_approval_id r)) w' else w')"

definition request_dropped :: "nat \<Rightarrow> approval_world \<Rightarrow> approval_world" where
  "request_dropped h w =
     (let x = wd_waiters w ! h in
      case (wt_phase x, wt_request x) of
        (Presenting, Some r) \<Rightarrow> enter h Abandoned (guard_drop h r w)
      | (Waiting, Some r) \<Rightarrow> enter h Abandoned (guard_drop h r w)
      | (Withdrawing _, _) \<Rightarrow> enter h Abandoned w
      | (Settling _, _) \<Rightarrow> enter h Abandoned w
      | _ \<Rightarrow> w)"

end
