(* ===== verification/Approval_Protocol.thy ===== *)
theory Approval_Protocol
  imports Runtime_Approval
begin

text \<open>
  The approval broker with any number of requests, answers, cancellations and dropped futures
  interleaved (crates/claw-runtime/src/approval.rs): its step relation, the invariant of the
  outstanding entries, and what a decision that reaches a waiter has behind it.
\<close>

section \<open>Steps\<close>

datatype approval_event =
    Asks nat
  | Proceeds nat
  | Drops nat
  | Answers ustr approval_decision "ustr option" "(unit, approval_error) result"
  | Forgets
  | WithdrawsAll
  | Outside

definition empty_approvals :: "timestamp \<Rightarrow> approval_world" where
  "empty_approvals now =
     \<lparr>wd_broker = broker_default, wd_waiters = [], wd_now = now, wd_cancelled = {}, wd_revoked = {}, wd_elapsed = {}, wd_calls = []\<rparr>"

text \<open>
  A poll of the waiting future may see a flag before or after it was set, but nothing that has not
  happened. The sleep of a request ends when the clock says so, which may run in any way;
  \<open>wd_elapsed\<close> holds the requests whose sleep is over.
\<close>

definition may_observe :: "approval_world \<Rightarrow> nat \<Rightarrow> wake_observation \<Rightarrow> bool" where
  "may_observe w h seen \<longleftrightarrow>
     (saw_cancel seen \<longrightarrow> wt_cancel (wd_waiters w ! h) \<in> wd_cancelled w) \<and>
     (saw_revoked seen \<longrightarrow> (case wt_authority (wd_waiters w ! h) of None \<Rightarrow> False | Some a \<Rightarrow> is_revoked (wd_revoked w) a)) \<and>
     (saw_channel seen \<longrightarrow> wt_sent (wd_waiters w ! h) \<noteq> None \<or> channel_closed w h) \<and>
     (saw_deadline seen \<longrightarrow> h \<in> wd_elapsed w)"

fun at_await :: "waiter_phase \<Rightarrow> bool" where
  "at_await Presenting = True"
| "at_await Waiting = True"
| "at_await (Withdrawing _) = True"
| "at_await (Settling _) = True"
| "at_await _ = False"

inductive approval_step :: "nat \<Rightarrow> approval_world \<Rightarrow> approval_event \<Rightarrow> approval_world \<Rightarrow> bool"
  for timeout :: nat
where
  step_ask: "approval_step timeout w (Asks (length (wd_waiters w))) (request_anonymous ticket cancel w)"
| step_ask_authorized:
    "approval_step timeout w (Asks (length (wd_waiters w))) (request_authorized ticket a cancel w)"
| step_ask_bound:
    "approval_step timeout w (Asks (length (wd_waiters w))) (request_bound ticket a b cancel w)"
| step_number: "h < length (wd_waiters w) \<Longrightarrow> wt_phase (wd_waiters w ! h) = Asked \<Longrightarrow>
    approval_step timeout w (Proceeds h) (request_number timeout h w)"
| step_register: "h < length (wd_waiters w) \<Longrightarrow> wt_phase (wd_waiters w ! h) = Numbered \<Longrightarrow>
    wt_request (wd_waiters w ! h) = Some r \<Longrightarrow> approval_step timeout w (Proceeds h) (request_register minted h r w)"
| step_presented: "h < length (wd_waiters w) \<Longrightarrow> wt_phase (wd_waiters w ! h) = Presenting \<Longrightarrow>
    wt_request (wd_waiters w ! h) = Some r \<Longrightarrow> approval_step timeout w (Proceeds h) (request_presented presented h r w)"
| step_poll: "h < length (wd_waiters w) \<Longrightarrow> wt_phase (wd_waiters w ! h) = Waiting \<Longrightarrow> may_observe w h seen \<Longrightarrow>
    request_poll seen (wd_waiters w ! h) = Some d \<Longrightarrow> approval_step timeout w (Proceeds h) (enter h (Woken d) w)"
| step_finish: "h < length (wd_waiters w) \<Longrightarrow> wt_phase (wd_waiters w ! h) = Woken d \<Longrightarrow>
    wt_request (wd_waiters w ! h) = Some r \<Longrightarrow> approval_step timeout w (Proceeds h) (request_finish h r d w)"
| step_withdrawn: "h < length (wd_waiters w) \<Longrightarrow> wt_phase (wd_waiters w ! h) = Withdrawing reason \<Longrightarrow>
    approval_step timeout w (Proceeds h) (request_notified answered h (Withdrawn reason) w)"
| step_settled: "h < length (wd_waiters w) \<Longrightarrow> wt_phase (wd_waiters w ! h) = Settling d' \<Longrightarrow>
    approval_step timeout w (Proceeds h) (request_notified answered h (Decided d' False) w)"
| step_drop: "h < length (wd_waiters w) \<Longrightarrow> at_await (wt_phase (wd_waiters w ! h)) \<Longrightarrow>
    approval_step timeout w (Drops h) (request_dropped h w)"
| step_resolve: "resolve i d' w = (res, w') \<Longrightarrow> approval_step timeout w (Answers i d' None res) w'"
| step_resolve_bound: "resolve_bound i d' tok w = (res, w') \<Longrightarrow> approval_step timeout w (Answers i d' (Some tok) res) w'"
| step_forget: "approval_step timeout w Forgets (snd (forget_decision s tool w))"
| step_forget_session: "approval_step timeout w Forgets (snd (forget_session s w))"
| step_withdraw_all: "approval_step timeout w WithdrawsAll (snd (withdraw_all answer reason w))"
| step_cancel: "approval_step timeout w Outside (w\<lparr>wd_cancelled := insert c (wd_cancelled w)\<rparr>)"
| step_revoke: "approval_step timeout w Outside (w\<lparr>wd_revoked := insert signal (wd_revoked w)\<rparr>)"
| step_clock: "approval_step timeout w Outside (w\<lparr>wd_now := now\<rparr>)"
| step_elapse: "approval_step timeout w Outside (w\<lparr>wd_elapsed := insert h (wd_elapsed w)\<rparr>)"

section \<open>The invariant\<close>

fun holds_entry :: "waiter_phase \<Rightarrow> bool" where
  "holds_entry Presenting = True"
| "holds_entry Waiting = True"
| "holds_entry (Woken None) = True"
| "holds_entry _ = False"

definition entry_ok :: "waiter list \<Rightarrow> ustr \<Rightarrow> pending_approval \<Rightarrow> bool" where
  "entry_ok xs i p \<longleftrightarrow> pa_waiter p < length xs \<and>
     (let x = xs ! pa_waiter p in
      wt_request x = Some (pa_request p) \<and> ar_approval_id (pa_request p) = i \<and> pa_authority p = wt_authority x \<and>
      pa_binding_token p = wt_binding_token x \<and> wt_sent x = None \<and> holds_entry (wt_phase x))"

text \<open>An operator decided, for the whole session, about an anonymous request of this session and tool.\<close>

definition granted :: "waiter list \<Rightarrow> session_id \<Rightarrow> ustr \<Rightarrow> approval_decision \<Rightarrow> bool" where
  "granted xs s tool d \<longleftrightarrow> is_remembered (ad_scope d) \<and>
     (\<exists>x \<in> set xs. wt_authority x = None \<and> wt_sent x = Some d \<and>
        (\<exists>r. wt_request x = Some r \<and> ar_session_id r = s \<and> ar_tool_name r = tool))"

definition phase_ok :: "waiter list \<Rightarrow> waiter \<Rightarrow> bool" where
  "phase_ok xs x \<longleftrightarrow>
     (case wt_phase x of
        Asked \<Rightarrow> wt_request x = None
      | Numbered \<Rightarrow> wt_sent x = None \<and> wt_request x \<noteq> None
      | Presenting \<Rightarrow> wt_request x \<noteq> None
      | Waiting \<Rightarrow> wt_request x \<noteq> None
      | Woken None \<Rightarrow> wt_request x \<noteq> None
      | Woken (Some d) \<Rightarrow> wt_sent x = Some d
      | Settling d \<Rightarrow> wt_sent x = Some d
      | Returned (Ok (Decided d True)) \<Rightarrow>
          wt_authority x = None \<and> granted xs (at_session_id (wt_ticket x)) (at_tool_name (wt_ticket x)) d
      | Returned (Ok (Decided d False)) \<Rightarrow> wt_sent x = Some d
      | _ \<Rightarrow> True)"

definition waiter_ok :: "waiter list \<Rightarrow> waiter \<Rightarrow> bool" where
  "waiter_ok xs x \<longleftrightarrow> (wt_accepted x \<longleftrightarrow> wt_sent x \<noteq> None) \<and> (wt_request x = None \<longrightarrow> wt_sent x = None) \<and> phase_ok xs x"

definition approval_name :: "nat \<Rightarrow> ustr" where
  "approval_name n = lit (''approval-'' @ show_dec n)"

definition waiter_ids :: "waiter list \<Rightarrow> ustr list" where
  "waiter_ids xs = map (ar_approval_id \<circ> the \<circ> wt_request) (filter (\<lambda>x. wt_request x \<noteq> None) xs)"

definition ids_ok :: "u64 \<Rightarrow> waiter list \<Rightarrow> bool" where
  "ids_ok next_id xs \<longleftrightarrow> distinct (waiter_ids xs) \<and> set (waiter_ids xs) \<subseteq> approval_name ` {1..unat next_id}"

definition broker_inv :: "approval_world \<Rightarrow> bool" where
  "broker_inv w \<longleftrightarrow>
     (\<forall>i p. pending_of w i = Some p \<longrightarrow> entry_ok (wd_waiters w) i p) \<and>
     (\<forall>x \<in> set (wd_waiters w). waiter_ok (wd_waiters w) x) \<and>
     ids_ok (br_next_id (wd_broker w)) (wd_waiters w) \<and>
     (\<forall>s tool d. recall w s tool = Some d \<longrightarrow> granted (wd_waiters w) s tool d)"

section \<open>Small changes of the world\<close>

lemma broker_inv_irrelevant [simp]:
  "broker_inv (tell c w) = broker_inv w"
  "broker_inv (w\<lparr>wd_cancelled := cs\<rparr>) = broker_inv w"
  "broker_inv (w\<lparr>wd_revoked := rs\<rparr>) = broker_inv w"
  "broker_inv (w\<lparr>wd_now := t\<rparr>) = broker_inv w"
  "broker_inv (w\<lparr>wd_elapsed := hs\<rparr>) = broker_inv w"
  by (simp_all add: broker_inv_def tell_def recall_def)

lemma world_simps [simp]:
  "wd_waiters (set_pending ps w) = wd_waiters w" "br_pending (wd_broker (set_pending ps w)) = ps"
  "br_next_id (wd_broker (set_pending ps w)) = br_next_id (wd_broker w)"
  "recall (set_pending ps w) = recall w"
  "br_remembered (wd_broker (set_pending ps w)) = br_remembered (wd_broker w)"
  "br_remembered (wd_broker (set_remembered m w)) = m"
  "wd_waiters (set_remembered m w) = wd_waiters w" "br_pending (wd_broker (set_remembered m w)) = br_pending (wd_broker w)"
  "br_next_id (wd_broker (set_remembered m w)) = br_next_id (wd_broker w)"
  "wd_broker (set_waiter h f w) = wd_broker w" "wd_waiters (set_waiter h f w) = (wd_waiters w)[h := f (wd_waiters w ! h)]"
  "recall (set_waiter h f w) = recall w"
  "wd_waiters (tell c w) = wd_waiters w" "wd_broker (tell c w) = wd_broker w" "recall (tell c w) = recall w"
  "wd_broker (enter h q w) = wd_broker w" "recall (enter h q w) = recall w"
  "wd_waiters (enter h q w) = (wd_waiters w)[h := (wd_waiters w ! h)\<lparr>wt_phase := q\<rparr>]"
  by (auto simp: set_pending_def set_remembered_def set_waiter_def tell_def enter_def recall_def fun_eq_iff)

lemma granted_mono:
  assumes "granted xs s tool d" and "h < length xs"
    and "wt_authority y = wt_authority (xs ! h)" and "\<And>e. wt_sent (xs ! h) = Some e \<Longrightarrow> wt_sent y = Some e"
    and "\<And>r. wt_request (xs ! h) = Some r \<Longrightarrow> wt_request y = Some r"
  shows "granted (xs[h := y]) s tool d"
proof -
  from assms(1) obtain x r where x: "x \<in> set xs" "wt_authority x = None" "wt_sent x = Some d" "wt_request x = Some r"
    "ar_session_id r = s" "ar_tool_name r = tool" and scope: "is_remembered (ad_scope d)"
    by (auto simp: granted_def)
  from x(1) obtain k where k: "k < length xs" "xs ! k = x" by (auto simp: in_set_conv_nth)
  have "xs[h := y] ! k \<in> set (xs[h := y])" using k(1) by simp
  moreover have "wt_authority (xs[h := y] ! k) = None \<and> wt_sent (xs[h := y] ! k) = Some d \<and> wt_request (xs[h := y] ! k) = Some r"
    using k x(2-4) assms(2-5) by (cases "k = h") auto
  ultimately show ?thesis using scope x(5,6) by (auto simp: granted_def)
qed

lemma granted_append: "granted xs s tool d \<Longrightarrow> granted (xs @ ys) s tool d"
  by (auto simp: granted_def)

lemma phase_ok_granted:
  assumes "phase_ok xs x" and "\<And>s tool d. granted xs s tool d \<Longrightarrow> granted ys s tool d"
  shows "phase_ok ys x"
  using assms by (auto simp: phase_ok_def split: waiter_phase.splits option.splits result.splits approval_outcome.splits bool.splits)

lemma waiter_ids_update:
  assumes "h < length xs" and "wt_request y = wt_request (xs ! h)"
  shows "waiter_ids (xs[h := y]) = waiter_ids xs"
proof -
  have "xs = take h xs @ (xs ! h) # drop (Suc h) xs" using assms(1) by (rule id_take_nth_drop)
  then have "waiter_ids xs = waiter_ids (take h xs @ (xs ! h) # drop (Suc h) xs)" by simp
  then show ?thesis using assms by (simp add: upd_conv_take_nth_drop waiter_ids_def)
qed

text \<open>A waiter that changes its phase, or is told a decision.\<close>

lemma inv_update_waiter:
  assumes inv: "broker_inv w" and h: "h < length (wd_waiters w)"
    and same: "wt_request y = wt_request (wd_waiters w ! h)" "wt_authority y = wt_authority (wd_waiters w ! h)"
    and sent: "\<And>e. wt_sent (wd_waiters w ! h) = Some e \<Longrightarrow> wt_sent y = Some e"
    and ok: "waiter_ok ((wd_waiters w)[h := y]) y"
    and entry: "\<And>i p. pending_of w i = Some p \<Longrightarrow> pa_waiter p = h \<Longrightarrow>
      holds_entry (wt_phase y) \<and> wt_sent y = None \<and> wt_binding_token y = wt_binding_token (wd_waiters w ! h)"
  shows "broker_inv (set_waiter h (\<lambda>_. y) w)"
proof -
  let ?xs = "wd_waiters w" and ?ys = "(wd_waiters w)[h := y]"
  have granted: "granted ?xs s tool d \<Longrightarrow> granted ?ys s tool d" for s tool d
    using granted_mono [of ?xs s tool d h y] h same sent by simp
  have "waiter_ok ?ys x" if "x \<in> set ?ys" for x
  proof (cases "x = y")
    case False
    then have "x \<in> set ?xs" using that set_update_subset_insert [of ?xs h y] by auto
    then have "waiter_ok ?xs x" using inv by (simp add: broker_inv_def)
    then show ?thesis using granted by (auto simp: waiter_ok_def intro: phase_ok_granted)
  qed (use ok in simp)
  moreover have "entry_ok ?ys i p" if "pending_of w i = Some p" for i p
  proof -
    have "entry_ok ?xs i p" using inv that by (simp add: broker_inv_def)
    then show ?thesis using entry [OF that] same h
      by (cases "pa_waiter p = h") (auto simp: entry_ok_def Let_def)
  qed
  moreover have "waiter_ids ?ys = waiter_ids ?xs" using h same(1) by (rule waiter_ids_update)
  moreover have "granted ?ys s tool d" if "recall w s tool = Some d" for s tool d
    using inv that granted by (simp add: broker_inv_def)
  ultimately show ?thesis using inv by (simp add: broker_inv_def ids_ok_def)
qed

lemma inv_enter:
  assumes "broker_inv w" and "h < length (wd_waiters w)"
    and "phase_ok (wd_waiters w) ((wd_waiters w ! h)\<lparr>wt_phase := q\<rparr>)"
    and "\<And>i p. pending_of w i = Some p \<Longrightarrow> pa_waiter p = h \<Longrightarrow> holds_entry q"
  shows "broker_inv (enter h q w)"
proof -
  let ?x = "wd_waiters w ! h"
  have "waiter_ok (wd_waiters w) ?x" using assms(1,2) by (simp add: broker_inv_def)
  moreover have "granted (wd_waiters w) s tool d \<Longrightarrow> granted ((wd_waiters w)[h := ?x\<lparr>wt_phase := q\<rparr>]) s tool d" for s tool d
    using granted_mono [of "wd_waiters w" s tool d h "?x\<lparr>wt_phase := q\<rparr>"] assms(2) by simp
  ultimately have "waiter_ok ((wd_waiters w)[h := ?x\<lparr>wt_phase := q\<rparr>]) (?x\<lparr>wt_phase := q\<rparr>)"
    using phase_ok_granted [OF assms(3)] by (auto simp: waiter_ok_def)
  moreover have "wt_sent ?x = None" if "pending_of w i = Some p" "pa_waiter p = h" for i p
    using that assms(1) by (auto simp: broker_inv_def entry_ok_def Let_def)
  ultimately have "broker_inv (set_waiter h (\<lambda>_. ?x\<lparr>wt_phase := q\<rparr>) w)"
    using assms by (intro inv_update_waiter) auto
  moreover have "set_waiter h (\<lambda>_. ?x\<lparr>wt_phase := q\<rparr>) w = enter h q w"
    by (simp add: set_waiter_def enter_def)
  ultimately show ?thesis by simp
qed

lemma inv_delete:
  assumes "broker_inv w"
  shows "broker_inv (set_pending (AList.delete i (br_pending (wd_broker w))) w)"
  using assms by (auto simp: broker_inv_def delete_conv' split: if_splits)

text \<open>Only the entry under a waiter's own identifier belongs to it.\<close>

lemma own_entry:
  assumes "broker_inv w" and "pending_of w i = Some p" and "wt_request (wd_waiters w ! pa_waiter p) = Some r"
  shows "i = ar_approval_id r"
  using assms by (auto simp: broker_inv_def entry_ok_def Let_def)

lemma discard_waiters [simp]: "wd_waiters (snd (discard i w)) = wd_waiters w"
  by (simp add: discard_def)

lemma inv_discard_enter:
  assumes "broker_inv w" and "h < length (wd_waiters w)" and "wt_request (wd_waiters w ! h) = Some r"
    and "phase_ok (wd_waiters w) ((wd_waiters w ! h)\<lparr>wt_phase := q\<rparr>)"
  shows "broker_inv (enter h q (snd (discard (ar_approval_id r) w)))"
proof (rule inv_enter)
  show "broker_inv (snd (discard (ar_approval_id r) w))"
    using inv_delete [OF assms(1)] by (simp add: discard_def)
  fix i p assume "pending_of (snd (discard (ar_approval_id r) w)) i = Some p" and "pa_waiter p = h"
  then show "holds_entry q" using own_entry [OF assms(1), of i p r] assms(3)
    by (auto simp: discard_def delete_conv' split: if_splits)
qed (use assms in simp_all)

section \<open>Identifiers\<close>

lemma digit_char:
  assumes "c \<in> set (show_dec n)"
  shows "c \<in> set ''0123456789abcdef''"
proof -
  have "set (show_base 10 n) \<subseteq> set ''0123456789abcdef''" by (rule show_base_digits) simp_all
  with assms show ?thesis unfolding show_dec_def by (rule subsetD [rotated])
qed

lemma approval_name_plain: "c \<in> set (approval_name n) \<Longrightarrow> \<not> char_is_whitespace c"
proof -
  assume "c \<in> set (approval_name n)"
  then obtain d where d: "d \<in> set (''approval-'' @ show_dec n)" "c = of_char d"
    unfolding approval_name_def lit_def set_map by (rule imageE) blast
  have "d \<in> set (''approval-'' @ ''0123456789abcdef'')"
    using d(1) digit_char [of d n] unfolding set_append by blast
  moreover have "list_all (\<lambda>d. \<not> char_is_whitespace (of_char d)) (''approval-'' @ ''0123456789abcdef'')"
    by (simp add: char_is_whitespace_def)
  ultimately show ?thesis unfolding list_all_iff d(2) by blast
qed

lemma str_trim_plain: "(\<And>c. c \<in> set s \<Longrightarrow> \<not> char_is_whitespace c) \<Longrightarrow> str_trim s = s"
proof -
  assume plain: "\<And>c. c \<in> set s \<Longrightarrow> \<not> char_is_whitespace c"
  have keep: "dropWhile char_is_whitespace t = t" if "set t \<subseteq> set s" for t
    using that plain by (cases t) auto
  show ?thesis by (simp add: str_trim_def keep)
qed

lemma approval_name_inject: "approval_name m = approval_name n \<longleftrightarrow> m = n"
proof
  assume "approval_name m = approval_name n"
  then have "show_dec m = show_dec n" by (simp add: approval_name_def)
  then have "read_base 10 (show_base 10 m) = read_base 10 (show_base 10 n)" by (simp add: show_dec_def)
  then show "m = n" by (simp add: read_show_base)
qed simp

lemma approval_id_fresh:
  assumes "approval_id_new (lit (''approval-'' @ show_dec n)) = Ok i"
  shows "i = approval_name n"
  using assms str_trim_plain [OF approval_name_plain]
  by (auto simp: approval_id_new_def parse_identifier_def approval_name_def Let_def split: if_splits)

section \<open>Every step keeps the invariant\<close>

lemma inv_empty: "broker_inv (empty_approvals now)"
  by (simp add: broker_inv_def empty_approvals_def broker_default_def recall_def ids_ok_def waiter_ids_def)

lemma inv_ask:
  assumes "broker_inv w"
  shows "broker_inv (request_ask ticket authority binding cancel w)"
proof -
  let ?w = "request_ask ticket authority binding cancel w"
  obtain q where x: "wd_waiters ?w = wd_waiters w @ [\<lparr>wt_ticket = ticket, wt_authority = authority, wt_binding = binding,
      wt_cancel = cancel, wt_request = None, wt_binding_token = None, wt_accepted = False, wt_sent = None, wt_phase = q\<rparr>]"
    (is "_ = _ @ [?x]")
    and q: "q = Asked \<or> q = Returned (Ok (Withdrawn WithdrawnCancelled)) \<or>
      (\<exists>d. q = Returned (Ok (Decided d True)) \<and> authority = None \<and> recall w (at_session_id ticket) (at_tool_name ticket) = Some d)"
    by (auto simp: request_ask_def Let_def split: option.splits if_splits)
  have broker: "wd_broker ?w = wd_broker w" by (simp add: request_ask_def Let_def)
  have recall: "recall ?w = recall w" by (auto simp: fun_eq_iff recall_def broker)
  have "phase_ok (wd_waiters w @ [?x]) ?x"
  proof -
    have "granted (wd_waiters w) s tool d" if "recall w s tool = Some d" for s tool d
      using assms that by (simp add: broker_inv_def)
    from granted_append [OF this] q show ?thesis by (auto simp: phase_ok_def)
  qed
  moreover have "phase_ok (wd_waiters w @ [?x]) y" if "waiter_ok (wd_waiters w) y" for y
    using that granted_append by (auto simp: waiter_ok_def intro: phase_ok_granted)
  moreover have "waiter_ids (wd_waiters ?w) = waiter_ids (wd_waiters w)" by (simp add: x waiter_ids_def)
  moreover have "entry_ok (wd_waiters w @ [?x]) i p" if "entry_ok (wd_waiters w) i p" for i p
    using that by (auto simp: entry_ok_def Let_def nth_append)
  ultimately show ?thesis
    using assms unfolding broker_inv_def broker recall
    by (auto simp: x waiter_ok_def ids_ok_def intro: granted_append)
qed

lemma waiter_ids_assign:
  assumes "h < length xs" and "wt_request (xs ! h) = None" and "wt_request y = Some r"
  shows "set (waiter_ids (xs[h := y])) = insert (ar_approval_id r) (set (waiter_ids xs))"
    and "distinct (waiter_ids xs) \<Longrightarrow> ar_approval_id r \<notin> set (waiter_ids xs) \<Longrightarrow> distinct (waiter_ids (xs[h := y]))"
proof -
  let ?f = "waiter_ids (take h xs)" and ?l = "waiter_ids (drop (Suc h) xs)"
  have "waiter_ids xs = waiter_ids (take h xs @ (xs ! h) # drop (Suc h) xs)"
    using id_take_nth_drop [OF assms(1)] by simp
  then have old: "waiter_ids xs = ?f @ ?l" using assms(2) by (simp add: waiter_ids_def)
  have new: "waiter_ids (xs[h := y]) = ?f @ ar_approval_id r # ?l"
    using assms(1,3) by (simp add: upd_conv_take_nth_drop waiter_ids_def)
  show "set (waiter_ids (xs[h := y])) = insert (ar_approval_id r) (set (waiter_ids xs))"
    and "distinct (waiter_ids xs) \<Longrightarrow> ar_approval_id r \<notin> set (waiter_ids xs) \<Longrightarrow> distinct (waiter_ids (xs[h := y]))"
    unfolding old new by auto
qed

lemma inv_waiterD: "broker_inv w \<Longrightarrow> h < length (wd_waiters w) \<Longrightarrow> waiter_ok (wd_waiters w) (wd_waiters w ! h)"
  by (simp add: broker_inv_def)

lemma inv_entryD: "broker_inv w \<Longrightarrow> pending_of w i = Some p \<Longrightarrow> entry_ok (wd_waiters w) i p"
  by (simp add: broker_inv_def)

lemma inv_memoryD: "broker_inv w \<Longrightarrow> recall w s tool = Some d \<Longrightarrow> granted (wd_waiters w) s tool d"
  by (simp add: broker_inv_def)

definition numbering :: "u64 \<Rightarrow> approval_world \<Rightarrow> approval_world" where
  "numbering n w = w\<lparr>wd_broker := (wd_broker w)\<lparr>br_next_id := n\<rparr>\<rparr>"

lemma numbering_simps [simp]:
  "wd_waiters (numbering n w) = wd_waiters w" "br_pending (wd_broker (numbering n w)) = br_pending (wd_broker w)"
  "br_next_id (wd_broker (numbering n w)) = n" "recall (numbering n w) = recall w"
  by (auto simp: numbering_def recall_def fun_eq_iff)

lemma inv_numbering:
  assumes "broker_inv w" and "unat n = Suc (unat (br_next_id (wd_broker w)))"
  shows "broker_inv (numbering n w)"
proof -
  have "approval_name ` {1..unat (br_next_id (wd_broker w))} \<subseteq> approval_name ` {1..unat n}" using assms(2) by auto
  then show ?thesis using assms(1) by (auto simp: broker_inv_def ids_ok_def)
qed

lemma asked_waiter:
  assumes "broker_inv w" and "h < length (wd_waiters w)" and "wt_phase (wd_waiters w ! h) = Asked"
  shows "wt_request (wd_waiters w ! h) = None" "wt_sent (wd_waiters w ! h) = None" "\<not> wt_accepted (wd_waiters w ! h)"
  using inv_waiterD [OF assms(1,2)] assms(3) by (simp_all add: waiter_ok_def phase_ok_def)

lemma unnumbered_free:
  assumes "broker_inv w" and "wt_request (wd_waiters w ! h) = None" and "pending_of w i = Some p"
  shows "pa_waiter p \<noteq> h"
  using inv_entryD [OF assms(1,3)] assms(2) by (auto simp: entry_ok_def Let_def)

lemma inv_assign:
  assumes inv: "broker_inv w" and h: "h < length (wd_waiters w)" and asked: "wt_phase (wd_waiters w ! h) = Asked"
    and n: "unat n = Suc (unat (br_next_id (wd_broker w)))" and r: "ar_approval_id r = approval_name (unat n)"
  shows "broker_inv (set_waiter h (\<lambda>x. x\<lparr>wt_phase := Numbered, wt_request := Some r\<rparr>) (numbering n w))"
proof -
  let ?xs = "wd_waiters w"
  let ?y = "(?xs ! h)\<lparr>wt_phase := Numbered, wt_request := Some r\<rparr>"
  note none = asked_waiter [OF inv h asked]
  have "approval_name (unat n) \<notin> approval_name ` {1..unat (br_next_id (wd_broker w))}"
    using n by (auto simp: approval_name_inject)
  then have "ar_approval_id r \<notin> set (waiter_ids ?xs)"
    using inv r by (auto simp: broker_inv_def ids_ok_def)
  moreover have "ids_ok n ?xs" using inv_numbering [OF inv n] by (simp add: broker_inv_def)
  ultimately have ids: "ids_ok n (?xs[h := ?y])"
    using n waiter_ids_assign [OF h none(1), of ?y r] by (auto simp: ids_ok_def r)
  have granted: "granted ?xs s tool d \<Longrightarrow> granted (?xs[h := ?y]) s tool d" for s tool d
    using granted_mono [of ?xs s tool d h ?y] h none by simp
  have "waiter_ok (?xs[h := ?y]) x" if "x \<in> set (?xs[h := ?y])" for x
  proof (cases "x = ?y")
    case True
    then show ?thesis using none by (simp add: waiter_ok_def phase_ok_def)
  next
    case False
    then have "x \<in> set ?xs" using that set_update_subset_insert [of ?xs h ?y] by blast
    then have "waiter_ok ?xs x" using inv by (simp add: broker_inv_def)
    then show ?thesis using granted by (auto simp: waiter_ok_def intro: phase_ok_granted)
  qed
  moreover have "entry_ok (?xs[h := ?y]) i p" if "pending_of w i = Some p" for i p
    using inv_entryD [OF inv that] unnumbered_free [OF inv none(1) that] by (simp add: entry_ok_def Let_def)
  ultimately show ?thesis
    using ids granted inv_memoryD [OF inv] by (simp add: broker_inv_def)
qed

lemma inv_refuse:
  assumes "broker_inv w" and "h < length (wd_waiters w)" and "wt_request (wd_waiters w ! h) = None"
  shows "broker_inv (enter h (Returned (Err e)) w)"
  using assms unnumbered_free [OF assms(1,3)] by (intro inv_enter) (auto simp: phase_ok_def)

lemma request_number_cases:
  obtains e where "request_number timeout h w = enter h (Returned (Err e)) w"
  | e n where "unat n = Suc (unat (br_next_id (wd_broker w)))"
      "request_number timeout h w = enter h (Returned (Err e)) (numbering n w)"
  | n r where "unat n = Suc (unat (br_next_id (wd_broker w)))" "ar_approval_id r = approval_name (unat n)"
      "ar_session_id r = at_session_id (wt_ticket (wd_waiters w ! h))"
      "ar_tool_name r = at_tool_name (wt_ticket (wd_waiters w ! h))"
      "request_number timeout h w =
         set_waiter h (\<lambda>x. x\<lparr>wt_phase := Numbered, wt_request := Some r\<rparr>) (numbering n w)"
proof (cases "timestamp_checked_add (wd_now w) timeout")
  case None
  then show ?thesis using that(1) by (simp add: request_number_def)
next
  case deadline: (Some expires)
  show ?thesis
  proof (cases "checked_add (br_next_id (wd_broker w)) 1")
    case None
    then show ?thesis using that(1) deadline by (simp add: request_number_def)
  next
    case (Some n)
    then have n: "unat n = Suc (unat (br_next_id (wd_broker w)))" by (simp add: checked_add_eq_Some)
    show ?thesis
    proof (cases "approval_id_new (lit (''approval-'' @ show_dec (unat n)))")
      case (Ok i)
      let ?r = "ticket_request i (wt_ticket (wd_waiters w ! h)) (wd_now w) expires"
      have "request_number timeout h w =
          set_waiter h (\<lambda>x. x\<lparr>wt_phase := Numbered, wt_request := Some ?r\<rparr>) (numbering n w)"
        using Ok Some deadline by (simp add: request_number_def numbering_def set_waiter_def)
      moreover have "ar_approval_id ?r = approval_name (unat n)"
        using approval_id_fresh [OF Ok] by (simp add: ticket_request_def)
      ultimately show ?thesis using that(3) [of n ?r] n by (simp add: ticket_request_def)
    next
      case (Err e)
      then show ?thesis using that(2) [of n] n Some deadline
        by (cases e) (simp add: request_number_def numbering_def)
    qed
  qed
qed

lemma inv_number:
  assumes "broker_inv w" and "h < length (wd_waiters w)" and "wt_phase (wd_waiters w ! h) = Asked"
  shows "broker_inv (request_number timeout h w)"
proof (cases rule: request_number_cases [of timeout h w])
  case (1 e)
  then show ?thesis using inv_refuse [OF assms(1,2) asked_waiter(1) [OF assms]] by simp
next
  case (2 e n)
  then show ?thesis using inv_refuse [OF inv_numbering [OF assms(1) 2(1)]] assms(2) asked_waiter(1) [OF assms] by simp
next
  case (3 n r)
  then show ?thesis using inv_assign [OF assms 3(1,2)] by simp
qed

lemma inv_register:
  assumes inv: "broker_inv w" and h: "h < length (wd_waiters w)" and numbered: "wt_phase (wd_waiters w ! h) = Numbered"
    and r: "wt_request (wd_waiters w ! h) = Some r"
  shows "broker_inv (request_register minted h r w)"
proof -
  let ?x = "wd_waiters w ! h"
  have sent: "wt_sent ?x = None" and fresh: "\<not> wt_accepted ?x"
    using inv_waiterD [OF inv h] numbered by (simp_all add: waiter_ok_def phase_ok_def)
  have free: "pa_waiter p \<noteq> h" if "pending_of w i = Some p" for i p
    using inv_entryD [OF inv that] numbered by (auto simp: entry_ok_def Let_def)
  show ?thesis
  proof (cases "minted_token minted (wt_binding ?x)")
    case (Err e)
    then show ?thesis using inv h free
      by (auto simp: request_register_def Let_def phase_ok_def intro!: inv_enter)
  next
    case (Ok token)
    let ?y = "?x\<lparr>wt_phase := Presenting, wt_binding_token := token\<rparr>"
    let ?p = "\<lparr>pa_request = r, pa_authority = wt_authority ?x, pa_binding = wt_binding ?x,
      pa_binding_token = token, pa_waiter = h, pa_cancellation = wt_cancel ?x\<rparr>"
    have "broker_inv (set_waiter h (\<lambda>_. ?y) w)"
      using h free sent fresh by (intro inv_update_waiter [OF inv]) (auto simp: waiter_ok_def phase_ok_def r)
    moreover have "entry_ok ((wd_waiters w)[h := ?y]) (ar_approval_id r) ?p"
      using h r sent by (simp add: entry_ok_def)
    ultimately have "broker_inv (set_pending (AList.update (ar_approval_id r) ?p (br_pending (wd_broker w)))
        (set_waiter h (\<lambda>_. ?y) w))"
      by (auto simp: broker_inv_def update_conv')
    moreover have "set_waiter h (\<lambda>x. x\<lparr>wt_phase := Presenting, wt_binding_token := token\<rparr>) (set_pending ps w) =
        set_pending ps (set_waiter h (\<lambda>_. ?y) w)" for ps
      by (simp add: set_waiter_def set_pending_def)
    ultimately show ?thesis using Ok by (simp add: request_register_def Let_def)
  qed
qed

lemma inv_presented:
  assumes "broker_inv w" and "h < length (wd_waiters w)" and "wt_request (wd_waiters w ! h) = Some r"
  shows "broker_inv (request_presented presented h r w)"
  using inv_discard_enter [OF assms, of "Returned (Err e)" for e] inv_enter [OF assms(1,2), of Waiting]
  by (auto simp: request_presented_def phase_ok_def assms(3) split: result.splits)

lemma inv_poll:
  assumes inv: "broker_inv w" and h: "h < length (wd_waiters w)" and waiting: "wt_phase (wd_waiters w ! h) = Waiting"
    and seen: "may_observe w h seen" and poll: "request_poll seen (wd_waiters w ! h) = Some d"
  shows "broker_inv (enter h (Woken d) w)"
proof (rule inv_enter [OF inv h])
  have d: "d = None \<or> d = wt_sent (wd_waiters w ! h)"
    using poll by (auto simp: request_poll_def split: if_splits)
  moreover have "wt_request (wd_waiters w ! h) \<noteq> None"
    using inv_waiterD [OF inv h] waiting by (simp add: waiter_ok_def phase_ok_def)
  ultimately show "phase_ok (wd_waiters w) ((wd_waiters w ! h)\<lparr>wt_phase := Woken d\<rparr>)"
    by (auto simp: phase_ok_def split: option.splits)
  fix i p assume "pending_of w i = Some p" and "pa_waiter p = h"
  then have "wt_sent (wd_waiters w ! h) = None"
    using inv_entryD [OF inv] by (auto simp: entry_ok_def Let_def)
  with d show "holds_entry (Woken d)" by auto
qed

lemma discard_pair: "discard i w = (b, v) \<Longrightarrow> v = snd (discard i w) \<and> b = (pending_of w i \<noteq> None)"
  by (auto simp: discard_def)

lemma enter_tell: "enter h q (tell c w) = tell c (enter h q w)"
  by (simp add: enter_def set_waiter_def tell_def)

lemma no_entry_when_sent:
  assumes "broker_inv w" and "wt_sent (wd_waiters w ! h) \<noteq> None" and "pending_of w i = Some p"
  shows "pa_waiter p \<noteq> h"
  using inv_entryD [OF assms(1,3)] assms(2) by (auto simp: entry_ok_def Let_def)

lemma inv_finish:
  assumes inv: "broker_inv w" and h: "h < length (wd_waiters w)" and woken: "wt_phase (wd_waiters w ! h) = Woken d"
    and r: "wt_request (wd_waiters w ! h) = Some r"
  shows "broker_inv (request_finish h r d w)"
proof (cases d)
  case None
  then show ?thesis
    using inv_discard_enter [OF inv h r, of "Withdrawing q" for q]
      inv_discard_enter [OF inv h r, of "Returned (Ok (Withdrawn q))" for q]
    by (auto simp: request_finish_def Let_def phase_ok_def enter_tell dest!: discard_pair split: prod.splits)
next
  case (Some e)
  have "wt_sent (wd_waiters w ! h) = Some e"
    using inv_waiterD [OF inv h] woken Some by (simp add: waiter_ok_def phase_ok_def)
  then have "broker_inv (enter h (Settling e) w)"
    using no_entry_when_sent [OF inv, of h] by (intro inv_enter [OF inv h]) (auto simp: phase_ok_def)
  then show ?thesis using Some by (simp add: request_finish_def enter_tell)
qed

text \<open>A waiter past its wait holds no entry.\<close>

lemma no_entry_in_phase:
  assumes "broker_inv w" and "\<not> holds_entry (wt_phase (wd_waiters w ! h))" and "pending_of w i = Some p"
  shows "pa_waiter p \<noteq> h"
  using inv_entryD [OF assms(1,3)] assms(2) by (auto simp: entry_ok_def Let_def)

lemma inv_notified:
  assumes "broker_inv w" and "h < length (wd_waiters w)" and "\<not> holds_entry (wt_phase (wd_waiters w ! h))"
    and "\<And>d b. outcome = Decided d b \<Longrightarrow> \<not> b \<and> wt_sent (wd_waiters w ! h) = Some d"
  shows "broker_inv (request_notified answered h outcome w)"
proof -
  have ends: "broker_inv (enter h (Returned q) w)"
    if "\<And>d b. q = Ok (Decided d b) \<Longrightarrow> \<not> b \<and> wt_sent (wd_waiters w ! h) = Some d" for q
    using that no_entry_in_phase [OF assms(1,3)]
    by (intro inv_enter [OF assms(1,2)]) (auto simp: phase_ok_def split: result.splits approval_outcome.splits bool.splits)
  show ?thesis using ends [of "Ok outcome"] ends [of "Err e" for e] assms(4)
    by (auto simp: request_notified_def split: result.splits)
qed

lemma inv_dropped:
  assumes inv: "broker_inv w" and h: "h < length (wd_waiters w)"
  shows "broker_inv (request_dropped h w)"
proof -
  let ?x = "wd_waiters w ! h"
  have guarded: "broker_inv (enter h Abandoned (guard_drop h r w))" if "wt_request ?x = Some r" for r
    using inv_discard_enter [OF inv h that, of Abandoned]
    by (auto simp: guard_drop_def phase_ok_def enter_tell dest!: discard_pair split: prod.splits)
  have plain: "broker_inv (enter h Abandoned w)" if "\<not> holds_entry (wt_phase ?x)"
    using no_entry_in_phase [OF inv that] by (intro inv_enter [OF inv h]) (auto simp: phase_ok_def)
  show ?thesis
  proof (cases "wt_phase ?x")
    case Presenting
    then show ?thesis using guarded inv by (cases "wt_request ?x") (simp_all add: request_dropped_def)
  next
    case Waiting
    then show ?thesis using guarded inv by (cases "wt_request ?x") (simp_all add: request_dropped_def)
  qed (use plain inv in \<open>simp_all add: request_dropped_def\<close>)
qed

lemma recall_set_remembered:
  "recall (set_remembered m w) s tool = (case map_of m s of None \<Rightarrow> None | Some tools \<Rightarrow> map_of tools tool)"
  by (simp add: recall_def set_remembered_def)

lemma inv_set_remembered:
  assumes "broker_inv w"
    and "\<And>s tool d. recall (set_remembered m w) s tool = Some d \<Longrightarrow> granted (wd_waiters w) s tool d"
  shows "broker_inv (set_remembered m w)"
  using assms by (simp add: broker_inv_def)

lemma recall_forget:
  "recall (snd (forget_decision s tool w)) s' tool' =
     (if s' = s \<and> tool' = tool then None else recall w s' tool')"
proof (cases "map_of (br_remembered (wd_broker w)) s")
  case None
  then show ?thesis by (auto simp: forget_decision_def Let_def recall_def)
next
  case (Some tools)
  have gone: "map_of tools tool' = None" if "AList.delete tool tools = []" "tool' \<noteq> tool" for tool'
    using that delete_conv' [of tool tools] by (metis fun_upd_other map_of.simps(1))
  show ?thesis
    using Some gone by (auto simp: forget_decision_def Let_def recall_set_remembered recall_def delete_conv' update_conv')
qed

lemma recall_forget_session:
  "recall (snd (forget_session s w)) s' tool' = (if s' = s then None else recall w s' tool')"
  by (auto simp: forget_session_def Let_def recall_set_remembered recall_def delete_conv')

lemma recall_remember:
  "recall (remember r d w) s tool =
     (if s = ar_session_id r \<and> tool = ar_tool_name r then Some d else recall w s tool)"
  by (auto simp: remember_def Let_def recall_set_remembered recall_def update_conv' split: option.splits)

lemma inv_forget: "broker_inv w \<Longrightarrow> broker_inv (snd (forget_decision s tool w))"
proof -
  assume inv: "broker_inv w"
  obtain m where m: "snd (forget_decision s tool w) = w \<or> snd (forget_decision s tool w) = set_remembered m w"
    by (cases "map_of (br_remembered (wd_broker w)) s") (auto simp: forget_decision_def Let_def)
  have kept: "granted (wd_waiters w) s' tool' d"
    if "recall (snd (forget_decision s tool w)) s' tool' = Some d" for s' tool' d
    using that inv_memoryD [OF inv] by (simp add: recall_forget split: if_splits)
  show ?thesis
  proof (cases "snd (forget_decision s tool w) = w")
    case False
    with m have eq: "snd (forget_decision s tool w) = set_remembered m w" by blast
    show ?thesis unfolding eq using inv kept [unfolded eq] by (rule inv_set_remembered)
  qed (simp add: inv)
qed

lemma inv_forget_session: "broker_inv w \<Longrightarrow> broker_inv (snd (forget_session s w))"
  using recall_forget_session [of s w] inv_memoryD [of w]
  by (auto simp: forget_session_def Let_def split: if_splits intro!: inv_set_remembered)

lemma fold_tell: "\<exists>cs. fold (\<lambda>i. tell (f i)) is w = w\<lparr>wd_calls := cs\<rparr>"
proof (induction "is" arbitrary: w)
  case (Cons i "is")
  obtain cs where "fold (\<lambda>i. tell (f i)) is (tell (f i) w) = (tell (f i) w)\<lparr>wd_calls := cs\<rparr>" using Cons by blast
  moreover have "(tell (f i) w)\<lparr>wd_calls := cs\<rparr> = w\<lparr>wd_calls := cs\<rparr>" by (simp add: tell_def)
  ultimately show ?case by auto
next
  case Nil
  show ?case by (rule exI [of _ "wd_calls w"]) simp
qed

lemma withdraw_all_world:
  obtains cs where "snd (withdraw_all answer reason w) = (set_pending [] w)\<lparr>wd_calls := cs\<rparr>"
  using fold_tell [of "\<lambda>i. CallWithdraw i reason" "map fst (br_pending (wd_broker w))" "set_pending [] w"]
  by (auto simp: withdraw_all_def Let_def)

lemma inv_withdraw_all:
  assumes "broker_inv w"
  shows "broker_inv (snd (withdraw_all answer reason w))"
proof -
  have cleared: "broker_inv (set_pending [] w)" using assms by (simp add: broker_inv_def)
  obtain cs where "snd (withdraw_all answer reason w) = (set_pending [] w)\<lparr>wd_calls := cs\<rparr>" by (rule withdraw_all_world)
  then show ?thesis using cleared by (simp add: broker_inv_def recall_def)
qed

text \<open>What a successful answer needs and does.\<close>

lemma resolve_accepted:
  assumes "resolve_inner i d token w = (Ok u, w')"
  obtains p where "pending_of w i = Some p" "pa_binding_token p = token"
    "wt_phase (wd_waiters w ! pa_waiter p) \<in> {Presenting, Waiting}"
    "pa_authority p \<noteq> None \<longrightarrow> \<not> is_remembered (ad_scope d)"
    "w' = set_waiter (pa_waiter p) (\<lambda>x. x\<lparr>wt_accepted := True, wt_sent := Some d\<rparr>)
       ((if is_remembered (ad_scope d) then remember (pa_request p) d else id)
         (set_pending (AList.delete i (br_pending (wd_broker w))) w))"
  using assms by (auto simp: resolve_inner_def responder_is_closed_def split: option.splits if_splits)

lemma resolve_refused: "resolve_inner i d token w = (Err e, w') \<Longrightarrow> w' = w"
  by (auto simp: resolve_inner_def split: option.splits if_splits)

lemma set_waiter_remember: "set_waiter h f (remember r d w) = remember r d (set_waiter h f w)"
  by (simp add: set_waiter_def remember_def set_remembered_def Let_def)

lemma inv_resolve:
  assumes inv: "broker_inv w" and res: "resolve_inner i d token w = (res, w')"
  shows "broker_inv w'"
proof (cases res)
  case (Err e)
  then show ?thesis using res inv resolve_refused by blast
next
  case (Ok u)
  from res [unfolded Ok] obtain p where p: "pending_of w i = Some p" "pa_binding_token p = token"
      "wt_phase (wd_waiters w ! pa_waiter p) \<in> {Presenting, Waiting}"
      "pa_authority p \<noteq> None \<longrightarrow> \<not> is_remembered (ad_scope d)"
      and w': "w' = set_waiter (pa_waiter p) (\<lambda>x. x\<lparr>wt_accepted := True, wt_sent := Some d\<rparr>)
       ((if is_remembered (ad_scope d) then remember (pa_request p) d else id)
         (set_pending (AList.delete i (br_pending (wd_broker w))) w))"
    by (rule resolve_accepted)
  let ?h = "pa_waiter p" and ?v = "set_pending (AList.delete i (br_pending (wd_broker w))) w"
  let ?x = "wd_waiters w ! ?h"
  let ?y = "?x\<lparr>wt_accepted := True, wt_sent := Some d\<rparr>"
  have h: "?h < length (wd_waiters w)" and req: "wt_request ?x = Some (pa_request p)" "ar_approval_id (pa_request p) = i"
    and sent: "wt_sent ?x = None" and auth: "pa_authority p = wt_authority ?x"
    using inv_entryD [OF inv p(1)] by (simp_all add: entry_ok_def Let_def)
  have "waiter_ok ((wd_waiters w)[?h := ?y]) ?y"
    using p(3) req by (auto simp: waiter_ok_def phase_ok_def)
  moreover have "pa_waiter q \<noteq> ?h" if "pending_of ?v k = Some q" for k q
    using that own_entry [OF inv, of k q] req by (auto simp: delete_conv' split: if_splits)
  ultimately have told: "broker_inv (set_waiter ?h (\<lambda>_. ?y) ?v)"
    using h sent by (intro inv_update_waiter [OF inv_delete [OF inv]]) auto
  have step: "set_waiter ?h (\<lambda>x. x\<lparr>wt_accepted := True, wt_sent := Some d\<rparr>) ?v = set_waiter ?h (\<lambda>_. ?y) ?v"
    by (simp add: set_waiter_def)
  show ?thesis
  proof (cases "is_remembered (ad_scope d)")
    case True
    have "?y \<in> set ((wd_waiters w)[?h := ?y])" using h by (simp add: set_update_memI)
    moreover have "wt_authority ?x = None" using p(4) True auth by auto
    ultimately have "granted ((wd_waiters w)[?h := ?y]) (ar_session_id (pa_request p)) (ar_tool_name (pa_request p)) d"
      using True req(1) unfolding granted_def by (intro conjI bexI [of _ ?y]) simp_all
    then have "granted ((wd_waiters w)[?h := ?y]) s tool e"
      if "recall (remember (pa_request p) d (set_waiter ?h (\<lambda>_. ?y) ?v)) s tool = Some e" for s tool e
      using that inv_memoryD [OF told] by (auto simp: recall_remember split: if_splits)
    then have "broker_inv (remember (pa_request p) d (set_waiter ?h (\<lambda>_. ?y) ?v))"
      using told unfolding remember_def Let_def by (intro inv_set_remembered) simp_all
    then show ?thesis using True w' step by (simp add: set_waiter_remember)
  next
    case False
    then show ?thesis using told w' step by simp
  qed
qed

lemma inv_step: "approval_step timeout w e w' \<Longrightarrow> broker_inv w \<Longrightarrow> broker_inv w'"
proof (induction rule: approval_step.induct)
  case (step_settled h w d answered)
  then have "wt_sent (wd_waiters w ! h) = Some d"
    using inv_waiterD [of w h] by (simp add: waiter_ok_def phase_ok_def)
  then show ?case using step_settled by (intro inv_notified) auto
qed (auto simp: request_anonymous_def request_authorized_def request_bound_def resolve_def resolve_bound_def
    intro: inv_ask inv_number inv_register inv_presented inv_poll inv_finish inv_dropped inv_resolve inv_forget
    inv_forget_session inv_withdraw_all intro!: inv_notified)

interpretation broker: invariant_system "\<lambda>w. \<exists>now. w = empty_approvals now" "approval_step timeout" broker_inv
  for timeout
  by unfold_locales (auto intro: inv_empty inv_step)

section \<open>Who answered\<close>

text \<open>The accepted answers to an identifier in a history.\<close>

fun accepted_answer :: "ustr \<Rightarrow> approval_event \<Rightarrow> (approval_decision \<times> ustr option) list" where
  "accepted_answer i (Answers j d token (Ok _)) = (if j = i then [(d, token)] else [])"
| "accepted_answer i _ = []"

definition answers :: "approval_event list \<Rightarrow> ustr \<Rightarrow> (approval_decision \<times> ustr option) list" where
  "answers es i = concat (map (accepted_answer i) es)"

definition sent_answers :: "waiter \<Rightarrow> (approval_decision \<times> ustr option) list" where
  "sent_answers x = (case wt_sent x of None \<Rightarrow> [] | Some d \<Rightarrow> [(d, wt_binding_token x)])"

definition answered :: "approval_event list \<Rightarrow> approval_world \<Rightarrow> bool" where
  "answered es w \<longleftrightarrow> broker_inv w \<and>
     (\<forall>x \<in> set (wd_waiters w). \<forall>r. wt_request x = Some r \<longrightarrow> answers es (ar_approval_id r) = sent_answers x) \<and>
     (\<forall>i. answers es i \<noteq> [] \<longrightarrow> i \<in> set (waiter_ids (wd_waiters w)))"

lemma sent_answers_phase [simp]: "sent_answers (x\<lparr>wt_phase := q\<rparr>) = sent_answers x"
  by (simp add: sent_answers_def split: option.split)

lemma in_waiter_ids: "i \<in> set (waiter_ids xs) \<longleftrightarrow> (\<exists>x \<in> set xs. \<exists>r. wt_request x = Some r \<and> ar_approval_id r = i)"
  by (force simp: waiter_ids_def)

lemma answers_append [simp]: "answers (es @ [e]) i = answers es i @ accepted_answer i e"
  by (simp add: answers_def)

text \<open>
  Every step but an accepted answer and the numbering leaves the answers of every waiter as they
  were: it replaces a waiter, if any, by one with the same request and answers, or adds one that has
  no request yet.
\<close>

definition same_answers :: "waiter list \<Rightarrow> waiter list \<Rightarrow> bool" where
  "same_answers xs ys \<longleftrightarrow>
     (\<forall>y \<in> set ys. wt_request y = None \<or> (\<exists>x \<in> set xs. wt_request x = wt_request y \<and> sent_answers x = sent_answers y)) \<and>
     set (waiter_ids xs) \<subseteq> set (waiter_ids ys)"

lemma same_answers_refl: "same_answers xs xs"
  by (auto simp: same_answers_def)

lemma same_answers_update:
  assumes "h < length xs" and "wt_request y = wt_request (xs ! h)" and "sent_answers y = sent_answers (xs ! h)"
  shows "same_answers xs (xs[h := y])"
proof -
  have "wt_request z = None \<or> (\<exists>x \<in> set xs. wt_request x = wt_request z \<and> sent_answers x = sent_answers z)"
    if "z \<in> set (xs[h := y])" for z
  proof (cases "z = y")
    case True
    then show ?thesis using assms by (intro disjI2 bexI [of _ "xs ! h"]) simp_all
  next
    case False
    then have "z \<in> set xs" using that set_update_subset_insert [of xs h y] by blast
    then show ?thesis by blast
  qed
  then show ?thesis using waiter_ids_update [OF assms(1,2)] by (simp add: same_answers_def)
qed

lemma answered_silent:
  assumes "answered es w" and "broker_inv w'" and "same_answers (wd_waiters w) (wd_waiters w')"
    and "\<And>i. accepted_answer i e = []"
  shows "answered (es @ [e]) w'"
proof -
  have "answers es (ar_approval_id r) = sent_answers y" if y: "y \<in> set (wd_waiters w')" "wt_request y = Some r" for y r
  proof -
    obtain x where "x \<in> set (wd_waiters w)" "wt_request x = Some r" "sent_answers x = sent_answers y"
      using assms(3) y by (force simp: same_answers_def)
    then show ?thesis using assms(1) by (auto simp: answered_def)
  qed
  then show ?thesis using assms by (auto simp: answered_def same_answers_def)
qed

lemma waiter_ids_nth_inject:
  assumes "distinct (waiter_ids xs)" and "h < length xs" and "k < length xs"
    and "wt_request (xs ! h) = Some r" and "wt_request (xs ! k) = Some q" and "ar_approval_id r = ar_approval_id q"
  shows "h = k"
proof (rule ccontr)
  assume "h \<noteq> k"
  have "xs ! k \<in> set (take h xs) \<union> set (drop (Suc h) xs)"
  proof (cases "k < h")
    case True
    then show ?thesis using nth_mem [of k "take h xs"] assms(2,3) by simp
  next
    case False
    then show ?thesis using nth_mem [of "k - Suc h" "drop (Suc h) xs"] \<open>h \<noteq> k\<close> assms(3) by simp
  qed
  moreover have "waiter_ids xs = waiter_ids (take h xs @ (xs ! h) # drop (Suc h) xs)"
    using id_take_nth_drop [OF assms(2)] by simp
  moreover have "waiter_ids (take h xs @ (xs ! h) # drop (Suc h) xs) =
      waiter_ids (take h xs) @ ar_approval_id r # waiter_ids (drop (Suc h) xs)"
    using assms(4) by (simp add: waiter_ids_def)
  ultimately show False
    using assms(1,5,6) by (force simp: in_waiter_ids)
qed

lemma answered_number:
  assumes ans: "answered es w" and h: "h < length (wd_waiters w)" and asked: "wt_phase (wd_waiters w ! h) = Asked"
  shows "answered (es @ [Proceeds h]) (request_number timeout h w)"
proof -
  have inv: "broker_inv w" using ans by (simp add: answered_def)
  note after = inv_number [OF inv h asked, of timeout]
  show ?thesis
  proof (cases rule: request_number_cases [of timeout h w])
    case (1 e)
    then show ?thesis using h after
      by (intro answered_silent [OF ans]) (auto intro!: same_answers_update)
  next
    case (2 e n)
    then show ?thesis using h after
      by (intro answered_silent [OF ans]) (auto intro!: same_answers_update)
  next
    case (3 n r)
    let ?xs = "wd_waiters w" and ?y = "(wd_waiters w ! h)\<lparr>wt_phase := Numbered, wt_request := Some r\<rparr>"
    note none = asked_waiter [OF inv h asked]
    have waiters: "wd_waiters (request_number timeout h w) = ?xs[h := ?y]" using 3 by simp
    have "approval_name (unat n) \<notin> approval_name ` {1..unat (br_next_id (wd_broker w))}"
      using 3(1) by (auto simp: approval_name_inject)
    then have "ar_approval_id r \<notin> set (waiter_ids ?xs)"
      using inv 3(2) by (auto simp: broker_inv_def ids_ok_def)
    then have fresh: "answers es (ar_approval_id r) = []" using ans by (auto simp: answered_def)
    have "answers es (ar_approval_id q) = sent_answers z"
      if z: "z \<in> set (?xs[h := ?y])" "wt_request z = Some q" for z q
    proof (cases "z = ?y")
      case True
      then show ?thesis using fresh z(2) none by (simp add: sent_answers_def)
    next
      case False
      then have "z \<in> set ?xs" using z(1) set_update_subset_insert [of ?xs h ?y] by blast
      then show ?thesis using ans z(2) by (simp add: answered_def)
    qed
    moreover have "set (waiter_ids ?xs) \<subseteq> set (waiter_ids (?xs[h := ?y]))"
      using waiter_ids_assign(1) [OF h none(1), of ?y r] by auto
    ultimately show ?thesis using after ans unfolding answered_def waiters by auto
  qed
qed

lemma answered_resolve:
  assumes ans: "answered es w" and res: "resolve_inner i d token w = (res, w')"
  shows "answered (es @ [Answers i d token res]) w'"
proof (cases res)
  case (Err e)
  have "w' = w" using res [unfolded Err] by (rule resolve_refused)
  then show ?thesis using ans Err
    by (intro answered_silent [OF ans]) (auto simp: answered_def same_answers_refl)
next
  case (Ok u)
  have inv: "broker_inv w" using ans by (simp add: answered_def)
  from res [unfolded Ok] obtain p where p: "pending_of w i = Some p" "pa_binding_token p = token"
      "wt_phase (wd_waiters w ! pa_waiter p) \<in> {Presenting, Waiting}"
      "pa_authority p \<noteq> None \<longrightarrow> \<not> is_remembered (ad_scope d)"
      and w': "w' = set_waiter (pa_waiter p) (\<lambda>x. x\<lparr>wt_accepted := True, wt_sent := Some d\<rparr>)
       ((if is_remembered (ad_scope d) then remember (pa_request p) d else id)
         (set_pending (AList.delete i (br_pending (wd_broker w))) w))"
    by (rule resolve_accepted)
  let ?xs = "wd_waiters w" and ?h = "pa_waiter p"
  let ?y = "(?xs ! ?h)\<lparr>wt_accepted := True, wt_sent := Some d\<rparr>"
  have h: "?h < length ?xs" and req: "wt_request (?xs ! ?h) = Some (pa_request p)" "ar_approval_id (pa_request p) = i"
    and sent: "wt_sent (?xs ! ?h) = None" and token: "wt_binding_token (?xs ! ?h) = token"
    using inv_entryD [OF inv p(1)] p(2) by (simp_all add: entry_ok_def Let_def)
  have waiters: "wd_waiters w' = ?xs[?h := ?y]" by (simp add: w' remember_def Let_def)
  have old: "answers es i = []"
    using ans nth_mem [OF h] req sent by (auto simp: answered_def sent_answers_def)
  have each: "answers (es @ [Answers i d token res]) (ar_approval_id q) = sent_answers (?xs[?h := ?y] ! k)"
    if k: "k < length ?xs" and q: "wt_request (?xs[?h := ?y] ! k) = Some q" for k q
  proof (cases "k = ?h")
    case True
    then show ?thesis using h q req old token Ok by (simp add: sent_answers_def)
  next
    case False
    then have "wt_request (?xs ! k) = Some q" using q by simp
    moreover have "distinct (waiter_ids ?xs)" using inv by (simp add: broker_inv_def ids_ok_def)
    ultimately have "ar_approval_id q \<noteq> i"
      using waiter_ids_nth_inject [of ?xs ?h k "pa_request p" q] h k req False by auto
    then show ?thesis using False Ok ans k nth_mem [OF k] \<open>wt_request (?xs ! k) = Some q\<close>
      by (simp add: answered_def)
  qed
  have "\<forall>z \<in> set (?xs[?h := ?y]). \<forall>q. wt_request z = Some q \<longrightarrow>
      answers (es @ [Answers i d token res]) (ar_approval_id q) = sent_answers z"
    using each by (metis in_set_conv_nth length_list_update)
  moreover have "waiter_ids (?xs[?h := ?y]) = waiter_ids ?xs" using h by (rule waiter_ids_update) simp
  moreover have "i \<in> set (waiter_ids ?xs)" using h req by (auto simp: in_waiter_ids)
  moreover have "k \<in> set (waiter_ids ?xs)" if "answers es k \<noteq> []" for k using that ans by (simp add: answered_def)
  ultimately show ?thesis
    using inv_resolve [OF inv res] Ok unfolding answered_def waiters by (auto split: if_splits)
qed

text \<open>The steps of one waiter that keep its request and what it was sent.\<close>

lemma sent_answers_token [simp]:
  "wt_sent x = None \<Longrightarrow> sent_answers (x\<lparr>wt_phase := q, wt_binding_token := t\<rparr>) = sent_answers x"
  by (simp add: sent_answers_def)

lemma same_answers_enter: "h < length (wd_waiters w) \<Longrightarrow> same_answers (wd_waiters w) (wd_waiters (enter h q w))"
  by (auto intro!: same_answers_update)

lemma waiters_register:
  assumes "broker_inv w" and "h < length (wd_waiters w)" and "wt_phase (wd_waiters w ! h) = Numbered"
  shows "same_answers (wd_waiters w) (wd_waiters (request_register minted h r w))"
proof -
  have "wt_sent (wd_waiters w ! h) = None"
    using inv_waiterD [OF assms(1,2)] assms(3) by (simp add: waiter_ok_def phase_ok_def)
  then show ?thesis using assms(2)
    by (auto simp: request_register_def Let_def split: result.splits intro!: same_answers_update)
qed

lemma waiters_finish:
  "h < length (wd_waiters w) \<Longrightarrow> same_answers (wd_waiters w) (wd_waiters (request_finish h r d w))"
  by (auto simp: request_finish_def Let_def dest!: discard_pair split: option.splits prod.splits intro!: same_answers_update)

lemma waiters_dropped:
  "h < length (wd_waiters w) \<Longrightarrow> same_answers (wd_waiters w) (wd_waiters (request_dropped h w))"
  by (auto simp: request_dropped_def guard_drop_def Let_def same_answers_refl dest!: discard_pair
      split: waiter_phase.splits option.splits prod.splits intro!: same_answers_update)

lemma waiters_ask: "same_answers (wd_waiters w) (wd_waiters (request_ask ticket authority binding cancel w))"
  by (auto simp: request_ask_def Let_def same_answers_def waiter_ids_def)

lemma waiters_memory [simp]:
  "wd_waiters (snd (forget_decision s tool w)) = wd_waiters w"
  "wd_waiters (snd (forget_session s w)) = wd_waiters w"
  "wd_waiters (snd (withdraw_all answer reason w)) = wd_waiters w"
proof -
  show "wd_waiters (snd (forget_decision s tool w)) = wd_waiters w"
    by (cases "map_of (br_remembered (wd_broker w)) s") (simp_all add: forget_decision_def Let_def)
  show "wd_waiters (snd (forget_session s w)) = wd_waiters w" by (simp add: forget_session_def Let_def)
  obtain cs where "snd (withdraw_all answer reason w) = (set_pending [] w)\<lparr>wd_calls := cs\<rparr>" by (rule withdraw_all_world)
  then show "wd_waiters (snd (withdraw_all answer reason w)) = wd_waiters w" by simp
qed

lemma answered_step:
  assumes "approval_step timeout w e w'" and "answered es w"
  shows "answered (es @ [e]) w'"
proof -
  have inv: "broker_inv w" using assms(2) by (simp add: answered_def)
  have silent: "answered (es @ [e]) w'"
    if "same_answers (wd_waiters w) (wd_waiters w')" "\<And>i. accepted_answer i e = []"
    using that by (intro answered_silent [OF assms(2) inv_step [OF assms(1) inv]])
  from assms(1) show ?thesis
  proof cases
    case (step_number h)
    then show ?thesis using answered_number [OF assms(2)] by simp
  next
    case (step_resolve i d res)
    then show ?thesis using answered_resolve [OF assms(2)] by (simp add: resolve_def)
  next
    case (step_resolve_bound i d tok res)
    then show ?thesis using answered_resolve [OF assms(2)] by (simp add: resolve_bound_def)
  qed (rule silent; simp add: request_anonymous_def request_authorized_def request_bound_def waiters_ask
      waiters_register [OF inv] waiters_finish waiters_dropped same_answers_enter same_answers_refl
      request_presented_def request_notified_def same_answers_update split: result.split)+
qed

interpretation approvals: history_invariant "approval_step timeout" answered for timeout
  by unfold_locales (rule answered_step)

lemma answered_empty: "answered [] (empty_approvals now)"
  using inv_empty by (simp add: answered_def answers_def empty_approvals_def)

section \<open>The properties of the broker\<close>

lemma answered_reached:
  assumes "steps (approval_step timeout) (empty_approvals now) es w"
  shows "answered es w" and "broker_inv w"
  using approvals.hinv_steps [OF assms answered_empty] by (simp_all add: answered_def)

lemma decided_waiter:
  assumes "answered es w" and "x \<in> set (wd_waiters w)" and "wt_sent x = Some d"
  obtains r where "wt_request x = Some r" "answers es (ar_approval_id r) = [(d, wt_binding_token x)]"
proof -
  have "waiter_ok (wd_waiters w) x" using assms(1,2) by (simp add: answered_def broker_inv_def)
  then obtain r where "wt_request x = Some r" using assms(3) by (auto simp: waiter_ok_def)
  then show ?thesis using that assms by (simp add: answered_def sent_answers_def)
qed

lemma decisions_come_from_operators_lemma:
  assumes "steps (approval_step timeout) (empty_approvals now) es w" and "x \<in> set (wd_waiters w)"
    and "wt_phase x = Returned (Ok (Decided d from_memory))"
  shows "if from_memory
    then wt_authority x = None \<and> ad_scope d = ScopeSession \<and>
      (\<exists>y r. y \<in> set (wd_waiters w) \<and> wt_authority y = None \<and> wt_request y = Some r \<and>
         ar_session_id r = at_session_id (wt_ticket x) \<and> ar_tool_name r = at_tool_name (wt_ticket x) \<and>
         answers es (ar_approval_id r) = [(d, wt_binding_token y)])
    else (\<exists>r. wt_request x = Some r \<and> answers es (ar_approval_id r) = [(d, wt_binding_token x)])"
proof -
  note ans = answered_reached(1) [OF assms(1)]
  have ok: "waiter_ok (wd_waiters w) x" using ans assms(2) by (simp add: answered_def broker_inv_def)
  show ?thesis
  proof (cases from_memory)
    case True
    then have auth: "wt_authority x = None"
      and "granted (wd_waiters w) (at_session_id (wt_ticket x)) (at_tool_name (wt_ticket x)) d"
      using ok assms(3) by (simp_all add: waiter_ok_def phase_ok_def)
    then obtain y r where y: "y \<in> set (wd_waiters w)" "wt_authority y = None" "wt_sent y = Some d"
      "wt_request y = Some r" "ar_session_id r = at_session_id (wt_ticket x)"
      "ar_tool_name r = at_tool_name (wt_ticket x)" and scope: "ad_scope d = ScopeSession"
      by (auto simp: granted_def is_remembered_def)
    have "answers es (ar_approval_id r) = [(d, wt_binding_token y)]"
      using decided_waiter [OF ans y(1,3)] y(4) by auto
    then show ?thesis using True auth scope y by auto
  next
    case False
    then have "wt_sent x = Some d" using ok assms(3) by (simp add: waiter_ok_def phase_ok_def)
    from decided_waiter [OF ans assms(2) this] show ?thesis using False by auto
  qed
qed

text \<open>
  Property C4. A decision that reaches a tool call was given by an operator: either this very request
  was answered, exactly once, with this decision and the preview token it was shown under, or the
  request was anonymous and an operator decided, for the rest of the session, about an earlier
  anonymous request of the same session and tool.
\<close>

theorem decisions_come_from_operators:
  assumes "steps (approval_step timeout) (empty_approvals now) es w" and "x \<in> set (wd_waiters w)"
    and "wt_phase x = Returned (Ok (Decided d from_memory))"
  shows "if from_memory
    then wt_authority x = None \<and> ad_scope d = ScopeSession \<and>
      (\<exists>y r. y \<in> set (wd_waiters w) \<and> wt_authority y = None \<and> wt_request y = Some r \<and>
         ar_session_id r = at_session_id (wt_ticket x) \<and> ar_tool_name r = at_tool_name (wt_ticket x) \<and>
         answers es (ar_approval_id r) = [(d, wt_binding_token y)])
    else (\<exists>r. wt_request x = Some r \<and> answers es (ar_approval_id r) = [(d, wt_binding_token x)])"
  by (rule decisions_come_from_operators_lemma [OF assms])

text \<open>What has left its wait stays so.\<close>

fun past_wait :: "waiter_phase \<Rightarrow> bool" where
  "past_wait Asked = False"
| "past_wait Numbered = False"
| "past_wait Presenting = False"
| "past_wait Waiting = False"
| "past_wait _ = True"

definition retired :: "nat \<Rightarrow> approval_request \<Rightarrow> approval_world \<Rightarrow> bool" where
  "retired h r w \<longleftrightarrow> broker_inv w \<and> h < length (wd_waiters w) \<and> wt_request (wd_waiters w ! h) = Some r \<and>
     past_wait (wt_phase (wd_waiters w ! h))"

lemma request_dropped_waiter:
  "h < length (wd_waiters w) \<Longrightarrow> at_await (wt_phase (wd_waiters w ! h)) \<Longrightarrow>
     wd_waiters (request_dropped h w) = wd_waiters w \<or> wd_waiters (request_dropped h w) = wd_waiters (enter h Abandoned w)"
  by (auto simp: request_dropped_def guard_drop_def Let_def dest!: discard_pair
      split: waiter_phase.splits option.splits prod.splits)

lemma request_finish_waiter:
  "\<exists>q. past_wait q \<and> wd_waiters (request_finish h r d w) = wd_waiters (enter h q w)"
  by (auto simp: request_finish_def Let_def dest!: discard_pair split: option.splits prod.splits intro!: exI)

lemma resolve_waiter:
  assumes "resolve_inner i d token w = (res, w')"
  shows "length (wd_waiters w') = length (wd_waiters w)"
    "wt_request (wd_waiters w' ! h) = wt_request (wd_waiters w ! h)"
    "wt_phase (wd_waiters w' ! h) = wt_phase (wd_waiters w ! h)"
proof -
  have "\<exists>k a s. wd_waiters w' = (wd_waiters w)[k := (wd_waiters w ! k)\<lparr>wt_accepted := a, wt_sent := s\<rparr>]"
  proof (cases res)
    case (Err e)
    have "w' = w" using assms [unfolded Err] by (rule resolve_refused)
    then show ?thesis by (intro exI [of _ "length (wd_waiters w)"]) (simp add: list_update_beyond)
  next
    case (Ok u)
    show ?thesis using assms [unfolded Ok] by (rule resolve_accepted) (auto simp: remember_def Let_def intro!: exI)
  qed
  then obtain k a s where eq: "wd_waiters w' = (wd_waiters w)[k := (wd_waiters w ! k)\<lparr>wt_accepted := a, wt_sent := s\<rparr>]"
    by blast
  show "length (wd_waiters w') = length (wd_waiters w)"
    "wt_request (wd_waiters w' ! h) = wt_request (wd_waiters w ! h)"
    "wt_phase (wd_waiters w' ! h) = wt_phase (wd_waiters w ! h)"
    by (simp_all add: eq nth_list_update_cases)
qed

lemma retired_answers:
  assumes "retired h r w" and "approval_step timeout w e w'"
  shows "accepted_answer (ar_approval_id r) e = []"
proof -
  have "res \<noteq> Ok u" if res: "resolve_inner (ar_approval_id r) d token w = (res, w')" for d token res u
  proof
    assume ok: "res = Ok u"
    from res [unfolded ok] obtain p where p: "pending_of w (ar_approval_id r) = Some p"
      "wt_phase (wd_waiters w ! pa_waiter p) \<in> {Presenting, Waiting}" by (rule resolve_accepted)
    have entry: "entry_ok (wd_waiters w) (ar_approval_id r) p"
      using inv_entryD [OF _ p(1)] assms(1) by (simp add: retired_def)
    then have "pa_waiter p = h"
      using waiter_ids_nth_inject [of "wd_waiters w" "pa_waiter p" h "pa_request p" r] assms(1)
      by (simp add: retired_def broker_inv_def ids_ok_def entry_ok_def Let_def)
    then show False using p(2) assms(1) by (auto simp: retired_def)
  qed
  then have "accepted_answer (ar_approval_id r) (Answers i d token res) = []"
    if "resolve_inner i d token w = (res, w')" for i d token res
    using that by (cases res) auto
  with assms(2) show ?thesis
    by (cases rule: approval_step.cases) (auto simp: resolve_def resolve_bound_def)
qed

lemma retired_step:
  assumes "retired h r w" and "approval_step timeout w e w'"
  shows "retired h r w'"
proof -
  have inv: "broker_inv w'" using inv_step [OF assms(2)] assms(1) by (simp add: retired_def)
  have entered: "retired h r w'"
    if "wd_waiters w' = wd_waiters (enter k q w)" and "k \<noteq> h \<or> past_wait q" for k q
    using that assms(1) inv by (cases "k = h") (auto simp: retired_def)
  have kept: "retired h r w'" if "wd_waiters w' = wd_waiters w"
    using that assms(1) inv by (simp add: retired_def)
  have other: "k \<noteq> h" if "\<not> past_wait (wt_phase (wd_waiters w ! k))" for k
    using that assms(1) by (auto simp: retired_def)
  have resolved: "retired h r w'" if "resolve_inner i d token w = (res, w')" for i d token res
    using assms(1) inv by (simp add: retired_def resolve_waiter [OF that])
  from assms(2) show ?thesis
  proof cases
    case (step_number k)
    then show ?thesis using other [of k] assms(1) inv
      by (cases rule: request_number_cases [of timeout k w]) (auto simp: retired_def)
  next
    case (step_register k q minted)
    then show ?thesis using other [of k] assms(1) inv
      by (auto simp: retired_def request_register_def Let_def split: result.splits)
  next
    case (step_presented k q presented)
    then obtain q' where "wd_waiters w' = wd_waiters (enter k q' w)"
      by (cases presented) (auto simp: request_presented_def)
    then show ?thesis using entered other [of k] step_presented by simp
  next
    case (step_poll k seen d)
    then show ?thesis using other [of k] by (intro entered) auto
  next
    case (step_finish k d q)
    then show ?thesis using request_finish_waiter [of k q d w] entered by metis
  next
    case (step_withdrawn k reason answered)
    then obtain q where "wd_waiters w' = wd_waiters (enter k q w)" "past_wait q"
      by (cases answered) (auto simp: request_notified_def)
    then show ?thesis using entered by blast
  next
    case (step_settled k d answered)
    then obtain q where "wd_waiters w' = wd_waiters (enter k q w)" "past_wait q"
      by (cases answered) (auto simp: request_notified_def)
    then show ?thesis using entered by blast
  next
    case (step_drop k)
    then show ?thesis using request_dropped_waiter [of k w] kept entered by (metis past_wait.simps(9))
  qed (use assms(1) inv kept resolved in \<open>auto simp: retired_def resolve_def resolve_bound_def request_anonymous_def
      request_authorized_def request_bound_def request_ask_def Let_def nth_append\<close>)
qed

interpretation retirement: stable_predicate "approval_step timeout" "retired h r" for timeout h r
  by unfold_locales (rule retired_step)

lemma retired_never_answered:
  "steps (approval_step timeout) w fs w' \<Longrightarrow> retired h r w \<Longrightarrow> answers fs (ar_approval_id r) = []"
proof (induction rule: steps.induct)
  case (steps_cons w e v fs w')
  then show ?case using retired_step retired_answers [of h r w timeout e v] by (simp add: answers_def)
qed (simp add: answers_def)

text \<open>
  Property C11. A request that is over, because its future was dropped, its turn was cancelled, its
  deadline passed or it was answered, can never be answered again, whatever happens later, and once
  its call has returned or been dropped the broker no longer lists it.
\<close>

theorem finished_request_unanswerable:
  assumes "steps (approval_step timeout) (empty_approvals now) es w" and "h < length (wd_waiters w)"
    and "wt_request (wd_waiters w ! h) = Some r" and "past_wait (wt_phase (wd_waiters w ! h))"
    and "steps (approval_step timeout) w fs w'"
  shows "answers fs (ar_approval_id r) = [] \<and>
    (\<not> holds_entry (wt_phase (wd_waiters w' ! h)) \<longrightarrow> pending_of w' (ar_approval_id r) = None)"
proof -
  have old: "retired h r w" using assms(2-4) answered_reached(2) [OF assms(1)] by (simp add: retired_def)
  have new: "retired h r w'" using assms(5) old by (rule retirement.stable_steps)
  have "pending_of w' (ar_approval_id r) = None" if idle: "\<not> holds_entry (wt_phase (wd_waiters w' ! h))"
  proof (cases "pending_of w' (ar_approval_id r)")
    case (Some p)
    have inv: "broker_inv w'" using new by (simp add: retired_def)
    have "entry_ok (wd_waiters w') (ar_approval_id r) p" using inv Some by (rule inv_entryD)
    then have "pa_waiter p = h"
      using waiter_ids_nth_inject [of "wd_waiters w'" "pa_waiter p" h "pa_request p" r] new
      by (simp add: retired_def broker_inv_def ids_ok_def entry_ok_def Let_def)
    then show ?thesis using no_entry_in_phase [OF inv idle Some] by simp
  qed
  then show ?thesis using retired_never_answered [OF assms(5) old] by blast
qed

section \<open>Every cancelled request returns\<close>

fun waiter_rank :: "waiter_phase \<Rightarrow> nat" where
  "waiter_rank Asked = 6"
| "waiter_rank Numbered = 5"
| "waiter_rank Presenting = 4"
| "waiter_rank Waiting = 3"
| "waiter_rank (Woken _) = 2"
| "waiter_rank (Withdrawing _) = 1"
| "waiter_rank (Settling _) = 1"
| "waiter_rank (Returned _) = 0"
| "waiter_rank Abandoned = 0"

abbreviation rank_of :: "approval_world \<Rightarrow> nat \<Rightarrow> nat" where
  "rank_of w h \<equiv> waiter_rank (wt_phase (wd_waiters w ! h))"

lemma phases_after:
  "h < length (wd_waiters w) \<Longrightarrow> rank_of (request_number timeout h w) h \<le> 5"
  "h < length (wd_waiters w) \<Longrightarrow> rank_of (request_register minted h r w) h \<le> 4"
  "h < length (wd_waiters w) \<Longrightarrow> rank_of (request_presented presented h r w) h \<le> 3"
  "h < length (wd_waiters w) \<Longrightarrow> rank_of (request_finish h r d w) h \<le> 1"
  "h < length (wd_waiters w) \<Longrightarrow> rank_of (request_notified told h outcome w) h = 0"
proof -
  assume h: "h < length (wd_waiters w)"
  show "rank_of (request_number timeout h w) h \<le> 5"
    by (cases rule: request_number_cases [of timeout h w]) (simp_all add: h)
  show "rank_of (request_register minted h r w) h \<le> 4"
    using h by (auto simp: request_register_def Let_def split: result.splits)
  show "rank_of (request_presented presented h r w) h \<le> 3"
    using h by (cases presented) (auto simp: request_presented_def)
  show "rank_of (request_finish h r d w) h \<le> 1"
    using h by (auto simp: request_finish_def Let_def dest!: discard_pair split: option.splits prod.splits)
  show "rank_of (request_notified told h outcome w) h = 0"
    using h by (cases told) (simp_all add: request_notified_def)
qed

lemma phases_other:
  "k \<noteq> h \<Longrightarrow> wd_waiters (request_number timeout k w) ! h = wd_waiters w ! h"
  "k \<noteq> h \<Longrightarrow> wd_waiters (request_register minted k r w) ! h = wd_waiters w ! h"
  "k \<noteq> h \<Longrightarrow> wd_waiters (request_presented presented k r w) ! h = wd_waiters w ! h"
  "k \<noteq> h \<Longrightarrow> wd_waiters (request_finish k r d w) ! h = wd_waiters w ! h"
  "k \<noteq> h \<Longrightarrow> wd_waiters (request_notified told k outcome w) ! h = wd_waiters w ! h"
  "k \<noteq> h \<Longrightarrow> wd_waiters (enter k q w) ! h = wd_waiters w ! h"
proof -
  assume k: "k \<noteq> h"
  show "wd_waiters (request_number timeout k w) ! h = wd_waiters w ! h"
    by (cases rule: request_number_cases [of timeout k w]) (simp_all add: k)
  show "wd_waiters (request_register minted k r w) ! h = wd_waiters w ! h"
    using k by (auto simp: request_register_def Let_def split: result.splits)
  show "wd_waiters (request_presented presented k r w) ! h = wd_waiters w ! h"
    using k by (cases presented) (auto simp: request_presented_def)
  show "wd_waiters (request_finish k r d w) ! h = wd_waiters w ! h"
    using k by (auto simp: request_finish_def Let_def dest!: discard_pair split: option.splits prod.splits)
  show "wd_waiters (request_notified told k outcome w) ! h = wd_waiters w ! h"
    using k by (cases told) (simp_all add: request_notified_def)
  show "wd_waiters (enter k q w) ! h = wd_waiters w ! h" using k by simp
qed

lemma own_step_descends:
  assumes "approval_step timeout w (Proceeds h) w'"
  shows "rank_of w' h < rank_of w h"
  using assms
proof cases
  case step_number
  then show ?thesis using phases_after(1) [of h w timeout] by simp
next
  case (step_register r minted)
  then show ?thesis using phases_after(2) [of h w minted r] by simp
next
  case (step_presented r presented)
  then show ?thesis using phases_after(3) [of h w presented r] by simp
next
  case (step_finish d r)
  then show ?thesis using phases_after(4) [of h w r d] by simp
qed (simp_all add: phases_after(5))

lemma rank_falls:
  assumes "approval_step timeout w e w'" and "h < length (wd_waiters w)"
  shows "rank_of w' h \<le> rank_of w h"
proof -
  have dropped: "rank_of (request_dropped k w) h \<le> rank_of w h" if "k < length (wd_waiters w)" "at_await (wt_phase (wd_waiters w ! k))" for k
    using request_dropped_waiter [OF that] assms(2) by (cases "k = h") auto
  have resolved: "rank_of w' h \<le> rank_of w h" if "resolve_inner i d token w = (res, w')" for i d token res
    by (simp add: resolve_waiter [OF that])
  have own: "rank_of w' h \<le> rank_of w h" if "e = Proceeds h"
    using own_step_descends assms(1) that by (simp add: less_imp_le)
  show ?thesis
  proof (cases "e = Proceeds h")
    case False
    with assms(1) show ?thesis
      by cases (use assms(2) dropped resolved in \<open>auto simp: phases_other resolve_def resolve_bound_def
        request_anonymous_def request_authorized_def request_bound_def request_ask_def Let_def nth_append\<close>)
  qed (rule own)
qed

lemma cancelled_wakes:
  assumes "h < length (wd_waiters w)" and "wt_phase (wd_waiters w ! h) = Waiting"
    and "wt_cancel (wd_waiters w ! h) \<in> wd_cancelled w"
  shows "approval_step timeout w (Proceeds h) (enter h (Woken None) w)"
  using assms
  by (intro step_poll [where seen = "\<lparr>saw_cancel = True, saw_revoked = False, saw_channel = False, saw_deadline = False\<rparr>"])
    (simp_all add: may_observe_def request_poll_def)

lemma cancelled_step_enabled:
  assumes inv: "broker_inv w" and h: "h < length (wd_waiters w)" and live: "0 < rank_of w h"
    and cancelled: "wt_cancel (wd_waiters w ! h) \<in> wd_cancelled w"
  shows "\<exists>w'. approval_step timeout w (Proceeds h) w'"
proof -
  have ok: "phase_ok (wd_waiters w) (wd_waiters w ! h)" and req: "wt_request (wd_waiters w ! h) = None \<Longrightarrow> wt_sent (wd_waiters w ! h) = None"
    using inv_waiterD [OF inv h] by (simp_all add: waiter_ok_def)
  show ?thesis
  proof (cases "wt_phase (wd_waiters w ! h)")
    case Asked
    then show ?thesis using h by (blast intro: step_number)
  next
    case Numbered
    then show ?thesis using ok h by (auto simp: phase_ok_def intro: step_register)
  next
    case Presenting
    then show ?thesis using ok h by (auto simp: phase_ok_def intro: step_presented)
  next
    case Waiting
    then show ?thesis using h cancelled by (blast intro: cancelled_wakes)
  next
    case (Woken d)
    then have "wt_request (wd_waiters w ! h) \<noteq> None"
      using ok req by (cases d) (auto simp: phase_ok_def)
    then show ?thesis using Woken h by (auto intro: step_finish)
  next
    case (Withdrawing reason)
    then show ?thesis using h by (blast intro: step_withdrawn)
  next
    case (Settling d)
    then show ?thesis using h by (blast intro: step_settled)
  qed (use live in simp_all)
qed

lemma woken_cancelled:
  assumes "approval_step timeout w (Proceeds h) w'" and "wt_phase (wd_waiters w ! h) = Woken None"
    and "wt_cancel (wd_waiters w ! h) \<in> wd_cancelled w"
  shows "wt_phase (wd_waiters w' ! h) = Withdrawing WithdrawnCancelled \<or>
    wt_phase (wd_waiters w' ! h) = Returned (Ok (Withdrawn WithdrawnCancelled))"
  using assms
proof cases
  case (step_finish d r)
  obtain b v where disc: "discard (ar_approval_id r) w = (b, v)" by force
  then have v: "wd_cancelled v = wd_cancelled w" "wd_waiters v = wd_waiters w"
    by (auto simp: discard_def set_pending_def split: option.splits)
  have "withdrawal_reason v (wd_waiters w ! h) = WithdrawnCancelled"
    using assms(3) v by (simp add: withdrawal_reason_def)
  with step_finish assms(2) v show ?thesis by (auto simp: request_finish_def disc Let_def)
qed (use assms(2) in simp_all)

text \<open>
  Property C24. A request whose turn is cancelled is never stuck in the broker, whether or not an
  operator answers it or its deadline passes: until its call has returned or been dropped it can take
  its next step, where at its awaits on the approval port that step is the port's answer, which the
  code does not race with the cancellation. While it waits for a decision the cancellation alone wakes
  it, without a decision, and it then ends as withdrawn for cancellation. Each of its steps brings it
  closer to returning, six are enough, and nothing that other requests, operators or the clock do ever
  sets it back.
\<close>

theorem cancelled_request_returns:
  assumes "steps (approval_step timeout) (empty_approvals now) es w" and "h < length (wd_waiters w)"
    and "wt_cancel (wd_waiters w ! h) \<in> wd_cancelled w"
  shows "rank_of w h \<le> 6 \<and>
    (rank_of w h = 0 \<longleftrightarrow> (\<exists>res. wt_phase (wd_waiters w ! h) = Returned res) \<or> wt_phase (wd_waiters w ! h) = Abandoned) \<and>
    (0 < rank_of w h \<longrightarrow> (\<exists>w'. approval_step timeout w (Proceeds h) w')) \<and>
    (wt_phase (wd_waiters w ! h) = Waiting \<longrightarrow> approval_step timeout w (Proceeds h) (enter h (Woken None) w)) \<and>
    (wt_phase (wd_waiters w ! h) = Woken None \<longrightarrow> (\<forall>w'. approval_step timeout w (Proceeds h) w' \<longrightarrow>
       wt_phase (wd_waiters w' ! h) = Withdrawing WithdrawnCancelled \<or>
       wt_phase (wd_waiters w' ! h) = Returned (Ok (Withdrawn WithdrawnCancelled)))) \<and>
    (\<forall>w'. approval_step timeout w (Proceeds h) w' \<longrightarrow> rank_of w' h < rank_of w h) \<and>
    (\<forall>e w'. approval_step timeout w e w' \<longrightarrow> rank_of w' h \<le> rank_of w h)"
proof -
  have "rank_of w h \<le> 6" "rank_of w h = 0 \<longleftrightarrow> (\<exists>res. wt_phase (wd_waiters w ! h) = Returned res) \<or> wt_phase (wd_waiters w ! h) = Abandoned"
    by (cases "wt_phase (wd_waiters w ! h)"; simp)+
  then show ?thesis
    using cancelled_step_enabled [OF answered_reached(2) [OF assms(1)] assms(2) _ assms(3)] cancelled_wakes [OF assms(2) _ assms(3)]
      woken_cancelled [OF _ _ assms(3)] own_step_descends rank_falls [OF _ assms(2)] by blast
qed

section \<open>A run\<close>

definition demo_ticket :: approval_ticket where
  "demo_ticket = \<lparr>at_session_id = lit ''s'', at_turn = 0, at_call_id = lit ''c'', at_tool_name = lit ''shell'', at_arguments = []\<rparr>"

definition demo_request :: approval_request where
  "demo_request = ticket_request (approval_name 1) demo_ticket 0 1000"

definition demo_waiter :: "waiter_phase \<Rightarrow> approval_request option \<Rightarrow> approval_decision option \<Rightarrow> waiter" where
  "demo_waiter q r d =
     \<lparr>wt_ticket = demo_ticket, wt_authority = None, wt_binding = None, wt_cancel = 0, wt_request = r,
      wt_binding_token = None, wt_accepted = (d \<noteq> None), wt_sent = d, wt_phase = q\<rparr>"

definition demo_pending :: pending_approval where
  "demo_pending = \<lparr>pa_request = demo_request, pa_authority = None, pa_binding = None, pa_binding_token = None,
     pa_waiter = 0, pa_cancellation = 0\<rparr>"

definition demo_memory :: "(ustr \<times> (ustr \<times> approval_decision) list) list" where
  "demo_memory = [(lit ''s'', [(lit ''shell'', approve_for_session)])]"

definition demo_world ::
  "(ustr \<times> pending_approval) list \<Rightarrow> (ustr \<times> (ustr \<times> approval_decision) list) list \<Rightarrow> u64 \<Rightarrow> waiter list
    \<Rightarrow> approval_call list \<Rightarrow> approval_world"
where
  "demo_world ps m n xs cs =
     \<lparr>wd_broker = \<lparr>br_pending = ps, br_remembered = m, br_next_id = n\<rparr>, wd_waiters = xs, wd_now = 0,
      wd_cancelled = {}, wd_revoked = {}, wd_elapsed = {}, wd_calls = cs\<rparr>"

lemmas demo_defs =
  demo_ticket_def demo_request_def demo_waiter_def demo_pending_def demo_memory_def demo_world_def ticket_request_def
  enter_def set_waiter_def tell_def set_pending_def set_remembered_def

lemma demo_id: "approval_id_new (lit (''approval-'' @ show_dec (unat (1 :: u64)))) = Ok (approval_name 1)"
  by (simp add: approval_id_new_def parse_identifier_def approval_name_def show_dec_def show_base.simps lit_def str_trim_def
      char_is_whitespace_def is_control_char_def utf8_length_def len_utf8_def PORT_MAX_IDENTIFIER_BYTES_def)

abbreviation demo_told :: "approval_call list" where
  "demo_told \<equiv> [CallPresent demo_request]"

abbreviation demo_settled :: "approval_call list" where
  "demo_settled \<equiv> [CallPresent demo_request, CallSettle (approval_name 1)]"

lemma demo_approval_steps:
  "request_anonymous demo_ticket 0 (empty_approvals 0) = demo_world [] [] 0 [demo_waiter Asked None None] []"
  "request_number 1000000000 0 (demo_world [] [] 0 [demo_waiter Asked None None] []) =
     demo_world [] [] 1 [demo_waiter Numbered (Some demo_request) None] []"
  "request_register (Ok []) 0 demo_request (demo_world [] [] 1 [demo_waiter Numbered (Some demo_request) None] []) =
     demo_world [(approval_name 1, demo_pending)] [] 1 [demo_waiter Presenting (Some demo_request) None] demo_told"
  "request_presented (Ok ()) 0 demo_request
      (demo_world [(approval_name 1, demo_pending)] [] 1 [demo_waiter Presenting (Some demo_request) None] demo_told) =
     demo_world [(approval_name 1, demo_pending)] [] 1 [demo_waiter Waiting (Some demo_request) None] demo_told"
  "resolve (approval_name 1) approve_for_session
      (demo_world [(approval_name 1, demo_pending)] [] 1 [demo_waiter Waiting (Some demo_request) None] demo_told) =
     (Ok (), demo_world [] demo_memory 1 [demo_waiter Waiting (Some demo_request) (Some approve_for_session)] demo_told)"
  "enter 0 (Woken (Some approve_for_session))
      (demo_world [] demo_memory 1 [demo_waiter Waiting (Some demo_request) (Some approve_for_session)] demo_told) =
     demo_world [] demo_memory 1 [demo_waiter (Woken (Some approve_for_session)) (Some demo_request) (Some approve_for_session)] demo_told"
  "request_finish 0 demo_request (Some approve_for_session)
      (demo_world [] demo_memory 1 [demo_waiter (Woken (Some approve_for_session)) (Some demo_request) (Some approve_for_session)] demo_told) =
     demo_world [] demo_memory 1 [demo_waiter (Settling approve_for_session) (Some demo_request) (Some approve_for_session)] demo_settled"
  "request_notified (Ok ()) 0 (Decided approve_for_session False)
      (demo_world [] demo_memory 1 [demo_waiter (Settling approve_for_session) (Some demo_request) (Some approve_for_session)] demo_settled) =
     demo_world [] demo_memory 1
       [demo_waiter (Returned (Ok (Decided approve_for_session False))) (Some demo_request) (Some approve_for_session)] demo_settled"
  "request_anonymous demo_ticket 0 (demo_world [] demo_memory 1
       [demo_waiter (Returned (Ok (Decided approve_for_session False))) (Some demo_request) (Some approve_for_session)] demo_settled) =
     demo_world [] demo_memory 1
       [demo_waiter (Returned (Ok (Decided approve_for_session False))) (Some demo_request) (Some approve_for_session),
        demo_waiter (Returned (Ok (Decided approve_for_session True))) None None] demo_settled"
  by (simp_all add: demo_defs request_anonymous_def request_ask_def recall_def empty_approvals_def broker_default_def
      request_number_def demo_id [simplified] timestamp_checked_add_def checked_add_def
      request_register_def minted_token_def request_presented_def resolve_def resolve_inner_def responder_is_closed_def
      remember_def is_remembered_def approve_for_session_def request_finish_def request_notified_def Let_def)

definition demo_before :: approval_world where
  "demo_before = demo_world [] demo_memory 1
     [demo_waiter (Returned (Ok (Decided approve_for_session False))) (Some demo_request) (Some approve_for_session)] demo_settled"

definition demo_after :: approval_world where
  "demo_after = demo_world [] demo_memory 1
     [demo_waiter (Returned (Ok (Decided approve_for_session False))) (Some demo_request) (Some approve_for_session),
      demo_waiter (Returned (Ok (Decided approve_for_session True))) None None] demo_settled"

definition demo_waiting :: approval_world where
  "demo_waiting =
     demo_world [(approval_name 1, demo_pending)] [] 1 [demo_waiter Waiting (Some demo_request) None] demo_told"

definition demo_events :: "approval_event list" where
  "demo_events = [Asks 0, Proceeds 0, Proceeds 0, Proceeds 0, Answers (approval_name 1) approve_for_session None (Ok ()),
     Proceeds 0, Proceeds 0, Proceeds 0]"

lemma demo_phase [simp]: "wt_phase (demo_waiter q r d) = q" "wt_request (demo_waiter q r d) = r"
  "wt_sent (demo_waiter q r d) = d" "wd_waiters (demo_world ps m n xs cs) = xs"
  by (simp_all add: demo_waiter_def demo_world_def)

lemma demo_polled:
  "approval_step 1000000000
     (demo_world [] demo_memory 1 [demo_waiter Waiting (Some demo_request) (Some approve_for_session)] demo_told) (Proceeds 0)
     (demo_world [] demo_memory 1 [demo_waiter (Woken (Some approve_for_session)) (Some demo_request) (Some approve_for_session)] demo_told)"
proof -
  let ?w = "demo_world [] demo_memory 1 [demo_waiter Waiting (Some demo_request) (Some approve_for_session)] demo_told"
  let ?seen = "\<lparr>saw_cancel = False, saw_revoked = False, saw_channel = True, saw_deadline = False\<rparr>"
  have "may_observe ?w 0 ?seen" "request_poll ?seen (wd_waiters ?w ! 0) = Some (Some approve_for_session)"
    by (simp_all add: may_observe_def request_poll_def)
  then have "approval_step 1000000000 ?w (Proceeds 0) (enter 0 (Woken (Some approve_for_session)) ?w)"
    by (intro step_poll) simp_all
  then show ?thesis by (simp only: demo_approval_steps(6))
qed

lemma demo_waiting_reached:
  "steps (approval_step 1000000000) (empty_approvals 0) [Asks 0, Proceeds 0, Proceeds 0, Proceeds 0] demo_waiting"
proof -
  note s = demo_approval_steps
  have 1: "approval_step 1000000000 (empty_approvals 0) (Asks 0) (demo_world [] [] 0 [demo_waiter Asked None None] [])"
    using step_ask [of 1000000000 "empty_approvals 0" demo_ticket 0] by (simp add: s(1)) (simp add: empty_approvals_def)
  have 2: "approval_step 1000000000 (demo_world [] [] 0 [demo_waiter Asked None None] []) (Proceeds 0)
      (demo_world [] [] 1 [demo_waiter Numbered (Some demo_request) None] [])"
    unfolding s(2) [symmetric] by (rule step_number) simp_all
  have 3: "approval_step 1000000000 (demo_world [] [] 1 [demo_waiter Numbered (Some demo_request) None] []) (Proceeds 0)
      (demo_world [(approval_name 1, demo_pending)] [] 1 [demo_waiter Presenting (Some demo_request) None] demo_told)"
    unfolding s(3) [symmetric] by (rule step_register) simp_all
  have 4: "approval_step 1000000000
      (demo_world [(approval_name 1, demo_pending)] [] 1 [demo_waiter Presenting (Some demo_request) None] demo_told) (Proceeds 0)
      demo_waiting"
    unfolding demo_waiting_def s(4) [symmetric] by (rule step_presented) simp_all
  show ?thesis
    by (rule steps_cons, rule 1, rule steps_cons, rule 2, rule steps_cons, rule 3, rule steps_single, rule 4)
qed

lemma demo_reached: "steps (approval_step 1000000000) (empty_approvals 0) demo_events demo_before"
proof -
  note s = demo_approval_steps
  note 5 = step_resolve [OF s(5), of 1000000000, folded demo_waiting_def]
  note 6 = demo_polled
  have 7: "approval_step 1000000000
      (demo_world [] demo_memory 1 [demo_waiter (Woken (Some approve_for_session)) (Some demo_request) (Some approve_for_session)] demo_told)
      (Proceeds 0)
      (demo_world [] demo_memory 1 [demo_waiter (Settling approve_for_session) (Some demo_request) (Some approve_for_session)] demo_settled)"
    unfolding s(7) [symmetric] by (rule step_finish) simp_all
  have 8: "approval_step 1000000000
      (demo_world [] demo_memory 1 [demo_waiter (Settling approve_for_session) (Some demo_request) (Some approve_for_session)] demo_settled)
      (Proceeds 0) demo_before"
    unfolding demo_before_def s(8) [symmetric] by (rule step_settled) simp_all
  have "steps (approval_step 1000000000) demo_waiting
      [Answers (approval_name 1) approve_for_session None (Ok ()), Proceeds 0, Proceeds 0, Proceeds 0] demo_before"
    by (rule steps_cons, rule 5, rule steps_cons, rule 6, rule steps_cons, rule 7, rule steps_single, rule 8)
  from steps_append [OF demo_waiting_reached this] show ?thesis by (simp add: demo_events_def)
qed

lemma demo_asked_again: "approval_step 1000000000 demo_before (Asks 1) demo_after"
proof -
  have "request_anonymous demo_ticket 0 demo_before = demo_after"
    unfolding demo_before_def demo_after_def by (rule demo_approval_steps(9))
  moreover have "length (wd_waiters demo_before) = 1" by (simp add: demo_before_def)
  ultimately show ?thesis using step_ask [of 1000000000 demo_before demo_ticket 0] by simp
qed

theorem decisions_come_from_operators_witness:
  "answers (demo_events @ [Asks 1]) (approval_name 1) = [(approve_for_session, None)] \<and>
   wt_authority (wd_waiters demo_after ! 1) = None"
proof -
  have run: "steps (approval_step 1000000000) (empty_approvals 0) (demo_events @ [Asks 1]) demo_after"
    by (rule steps_append, rule demo_reached, rule steps_single, rule demo_asked_again)
  have "demo_waiter (Returned (Ok (Decided approve_for_session True))) None None \<in> set (wd_waiters demo_after)"
    "demo_waiter (Returned (Ok (Decided approve_for_session False))) (Some demo_request) (Some approve_for_session)
       \<in> set (wd_waiters demo_after)"
    by (simp_all add: demo_after_def)
  note facts = decisions_come_from_operators [OF run this(1), of approve_for_session True]
    decisions_come_from_operators [OF run this(2), of approve_for_session False]
  have "answers (demo_events @ [Asks 1]) (approval_name 1) = [(approve_for_session, None)]"
    using facts(2) by simp (simp add: demo_waiter_def demo_request_def ticket_request_def)
  moreover have "wt_authority (wd_waiters demo_after ! 1) = None"
    using facts(1) by (simp add: demo_after_def)
  ultimately show ?thesis by blast
qed

theorem finished_request_unanswerable_witness:
  "answers [Asks 1] (approval_name 1) = [] \<and> pending_of demo_after (approval_name 1) = None"
proof -
  have "steps (approval_step 1000000000) demo_before [Asks 1] demo_after"
    by (rule steps_single, rule demo_asked_again)
  from finished_request_unanswerable [OF demo_reached _ _ _ this, of 0 demo_request] show ?thesis
    by (simp add: demo_before_def demo_after_def) (simp add: demo_request_def ticket_request_def)
qed

theorem cancelled_request_returns_witness:
  "let w = demo_waiting\<lparr>wd_cancelled := insert 0 (wd_cancelled demo_waiting)\<rparr> in
    approval_step 1000000000 w (Proceeds 0) (enter 0 (Woken None) w)"
proof -
  let ?w = "demo_waiting\<lparr>wd_cancelled := insert 0 (wd_cancelled demo_waiting)\<rparr>"
  have run: "steps (approval_step 1000000000) (empty_approvals 0)
      ([Asks 0, Proceeds 0, Proceeds 0, Proceeds 0] @ [Outside]) ?w"
    by (rule steps_append, rule demo_waiting_reached, rule steps_single, rule step_cancel)
  have "0 < length (wd_waiters ?w)" "wt_cancel (wd_waiters ?w ! 0) \<in> wd_cancelled ?w" and live: "wt_phase (wd_waiters ?w ! 0) = Waiting"
    by (simp_all add: demo_waiting_def demo_waiter_def)
  from cancelled_request_returns [OF run this(1,2)] live show ?thesis unfolding Let_def by blast
qed

section \<open>Two places where the documentation says more than the code\<close>

text \<open>
  \<open>withdraw_all\<close> is documented to wake every waiter with its reason. The waiter only sees its channel
  close, and reports a missed deadline whenever its own turn was not cancelled.
\<close>

lemma withdraw_all_reports_timeout:
  assumes "h < length (wd_waiters w)" and "wt_request (wd_waiters w ! h) = Some r"
    and "\<not> wt_accepted (wd_waiters w ! h)" and "wt_sent (wd_waiters w ! h) = None"
    and "wt_authority (wd_waiters w ! h) = None" and "wt_cancel (wd_waiters w ! h) \<notin> wd_cancelled w"
    and v: "v = snd (withdraw_all answer WithdrawnCancelled w)"
  shows "may_observe v h \<lparr>saw_cancel = False, saw_revoked = False, saw_channel = True, saw_deadline = False\<rparr>"
    and "wt_phase (wd_waiters (request_finish h r None (enter h (Woken None) v)) ! h) =
      Returned (Ok (Withdrawn WithdrawnTimedOut))"
proof -
  obtain cs where eq: "snd (withdraw_all answer WithdrawnCancelled w) = (set_pending [] w)\<lparr>wd_calls := cs\<rparr>"
    by (rule withdraw_all_world)
  show "may_observe v h \<lparr>saw_cancel = False, saw_revoked = False, saw_channel = True, saw_deadline = False\<rparr>"
    by (simp add: may_observe_def channel_closed_def v eq)
  have "wd_cancelled v = wd_cancelled w" "br_pending (wd_broker v) = []"
    by (simp_all add: v eq) (simp add: set_pending_def)
  then show "wt_phase (wd_waiters (request_finish h r None (enter h (Woken None) v)) ! h) =
      Returned (Ok (Withdrawn WithdrawnTimedOut))"
    using assms(1-6) waiters_memory(3) [of answer WithdrawnCancelled w]
    by (simp add: request_finish_def discard_def Let_def withdrawal_reason_def v [symmetric])
      (simp add: enter_def set_waiter_def set_pending_def)
qed

text \<open>
  \<open>outstanding\<close> is documented to list the oldest identifier first. Requests of the same instant are
  ordered by their identifiers as text, which puts the tenth before the ninth.
\<close>

lemma outstanding_orders_text:
  assumes "ar_requested_at p = ar_requested_at q" and "ar_approval_id p = approval_name 10"
    and "ar_approval_id q = approval_name 9"
  shows "request_before p q" and "\<not> request_before q p"
  using assms by (simp_all add: request_before_def approval_name_def show_dec_def show_base.simps lit_def)

end
