(* ===== verification/Runtime_Tool.thy ===== *)
theory Runtime_Tool
  imports Approval_Protocol
begin

text \<open>
  The tool executor (crates/claw-runtime/src/tool.rs) over the tool port
  (crates/claw-application/src/ports/tool.rs) and the approval broker: the gates every call passes, the
  race between the call, its cancellation and its deadline, and the outcome that is reported. The
  last section puts the executor and the broker together.
\<close>

section \<open>Tools, calls and outcomes\<close>

record tool_descriptor =
  td_name :: ustr
  td_summary :: ustr
  td_requires_approval :: bool
  td_mutates_workspace :: bool

record tool_invocation =
  ti_session_id :: session_id
  ti_turn :: u64
  ti_call :: tool_call

datatype tool_status = ToolOk | ToolFailed | ToolDenied | ToolCancelled | ToolTimedOut

fun tool_status_label :: "tool_status \<Rightarrow> string" where
  "tool_status_label ToolOk = ''ok''"
| "tool_status_label ToolFailed = ''failed''"
| "tool_status_label ToolDenied = ''denied''"
| "tool_status_label ToolCancelled = ''cancelled''"
| "tool_status_label ToolTimedOut = ''timed_out''"

definition tool_is_failure :: "tool_status \<Rightarrow> bool" where
  "tool_is_failure s \<longleftrightarrow> s \<noteq> ToolOk"

record tool_outcome =
  to_call_id :: ustr
  to_status :: tool_status
  to_output :: ustr
  to_changed_workspace :: bool

datatype tool_execution_error = ExecutionApproval approval_error | ExecutionOutcomeUnknown ustr

fun tool_execution_error_display :: "tool_execution_error \<Rightarrow> ustr" where
  "tool_execution_error_display (ExecutionApproval e) = lit ''approval failed: '' @ approval_error_display e"
| "tool_execution_error_display (ExecutionOutcomeUnknown detail) =
     lit ''tool outcome is unknown; automatic replay is forbidden: '' @ detail"

text \<open>The calls the executor makes on the tool port.\<close>

datatype tool_port_call =
    PortInvoke tool_invocation
  | PortInvokeBound tool_invocation invocation_authority tool_binding
  | PortCancel ustr

section \<open>One execution\<close>

text \<open>
  What surrounds one execution: the catalogue, how the port binds a call, what the broker returns, the
  cancellation and the fired revocations before and after the approval, the process-wide counter of
  authenticated calls, and which branch of the final \<open>select!\<close> completes. The cancellation and the
  revocation are polled before the call, so they say whether the call had been started by then.
\<close>

datatype call_race =
    RaceCancelled bool
  | RaceRevoked bool
  | RaceFinished "(tool_outcome, port_error) result"
  | RaceDeadline

record tool_environment =
  te_describe :: "tool_descriptor list"
  te_bind :: "tool_invocation \<Rightarrow> invocation_authority \<Rightarrow> (tool_binding, port_error) result"
  te_request :: "approval_ticket \<Rightarrow> invocation_authority option \<Rightarrow> tool_binding option
    \<Rightarrow> (approval_outcome, approval_error) result"
  te_revoked_before :: "nat set"
  te_cancelled_before :: bool
  te_revoked_after :: "nat set"
  te_cancelled_after :: bool
  te_next_invocation :: u64
  te_race :: call_race

definition describe_tool :: "tool_environment \<Rightarrow> ustr \<Rightarrow> tool_descriptor option" where
  "describe_tool env name = find (\<lambda>d. td_name d = name) (te_describe env)"

definition terminal :: "ustr \<Rightarrow> tool_status \<Rightarrow> ustr \<Rightarrow> tool_outcome" where
  "terminal i outcome output = \<lparr>to_call_id = i, to_status = outcome, to_output = output, to_changed_workspace = False\<rparr>"

definition invocation_ticket :: "tool_invocation \<Rightarrow> approval_ticket" where
  "invocation_ticket req =
     \<lparr>at_session_id = ti_session_id req, at_turn = ti_turn req, at_call_id = tc_call_id (ti_call req),
      at_tool_name = tc_name (ti_call req), at_arguments = tc_arguments (ti_call req)\<rparr>"

definition tool_call_id_new :: "ustr \<Rightarrow> (ustr, port_identifier_error) result" where
  "tool_call_id_new v = parse_identifier ''tool call id'' v"

text \<open>A step of the execution ends it with a result and the counter, or goes on.\<close>

type_synonym tool_result = "(tool_outcome, tool_execution_error) result"

datatype 'a gate = Stop tool_result u64 | Go 'a

definition refuse :: "tool_environment \<Rightarrow> tool_invocation \<Rightarrow> tool_status \<Rightarrow> ustr \<Rightarrow> 'a gate" where
  "refuse env req outcome output =
     Stop (Ok (terminal (tc_call_id (ti_call req)) outcome output)) (te_next_invocation env)"

fun gate_bind :: "'a gate \<Rightarrow> ('a \<Rightarrow> 'b gate) \<Rightarrow> 'b gate" where
  "gate_bind (Stop r n) k = Stop r n"
| "gate_bind (Go a) k = k a"

text \<open>The checks before the approval.\<close>

definition admission_gate ::
  "tool_environment \<Rightarrow> tool_invocation \<Rightarrow> invocation_authority option \<Rightarrow> (tool_descriptor \<times> tool_binding option) gate"
where
  "admission_gate env req authority =
     (if (case authority of None \<Rightarrow> False | Some a \<Rightarrow> \<not> can_execute (te_revoked_before env) a)
      then refuse env req ToolDenied (lit ''caller is not authorized to execute tools'')
      else case describe_tool env (tc_name (ti_call req)) of
          None \<Rightarrow> refuse env req ToolFailed (lit ''unknown tool: '' @ tc_name (ti_call req))
        | Some descriptor \<Rightarrow>
            if te_cancelled_before env then refuse env req ToolCancelled (lit ''cancelled'')
            else (case authority of
                None \<Rightarrow> Go (descriptor, None)
              | Some a \<Rightarrow> (case te_bind env req a of
                  Ok b \<Rightarrow> Go (descriptor, Some b)
                | Err e \<Rightarrow> refuse env req ToolFailed (port_error_display e))))"

text \<open>The approval, when the tool needs one.\<close>

definition approval_gate ::
  "tool_environment \<Rightarrow> tool_invocation \<Rightarrow> invocation_authority option \<Rightarrow> tool_descriptor \<Rightarrow> tool_binding option \<Rightarrow> unit gate"
where
  "approval_gate env req authority descriptor binding =
     (if \<not> td_requires_approval descriptor then Go ()
      else if (authority = None) \<noteq> (binding = None)
      then refuse env req ToolFailed (lit ''authenticated publication binding is missing'')
      else case te_request env (invocation_ticket req) authority binding of
          Err e \<Rightarrow> Stop (Err (ExecutionApproval e)) (te_next_invocation env)
        | Ok (Decided d _) \<Rightarrow>
            (if ad_verdict d = Deny then refuse env req ToolDenied (lit ''operator denied the call'') else Go ())
        | Ok (Withdrawn WithdrawnTimedOut) \<Rightarrow>
            refuse env req ToolTimedOut (lit ''no approval decision before the deadline'')
        | Ok (Withdrawn WithdrawnCancelled) \<Rightarrow>
            refuse env req ToolCancelled (lit ''cancelled while awaiting approval''))"

text \<open>The last check, and the identity an authenticated call is run under.\<close>

definition identity_gate :: "tool_environment \<Rightarrow> tool_invocation \<Rightarrow> invocation_authority option \<Rightarrow> (ustr \<times> u64) gate" where
  "identity_gate env req authority =
     (if te_cancelled_after env \<or> (case authority of None \<Rightarrow> False | Some a \<Rightarrow> is_revoked (te_revoked_after env) a)
      then refuse env req ToolCancelled (lit ''cancelled before execution'')
      else if authority = None then Go (tc_call_id (ti_call req), te_next_invocation env)
      else case checked_add (te_next_invocation env) 1 of
          None \<Rightarrow> refuse env req ToolFailed (lit ''host invocation identity exhausted'')
        | Some n \<Rightarrow>
            (case tool_call_id_new (lit (''runtime-tool-'' @ show_dec (unat (te_next_invocation env)))) of
               Err _ \<Rightarrow> Stop (Ok (terminal (tc_call_id (ti_call req)) ToolFailed
                          (lit ''host invocation identity is invalid''))) n
             | Ok i \<Rightarrow> Go (i, n)))"

definition all_gates ::
  "tool_environment \<Rightarrow> tool_invocation \<Rightarrow> invocation_authority option \<Rightarrow> (tool_descriptor \<times> tool_binding option \<times> ustr \<times> u64) gate"
where
  "all_gates env req authority =
     gate_bind (admission_gate env req authority) (\<lambda>(descriptor, binding).
       gate_bind (approval_gate env req authority descriptor binding) (\<lambda>_.
         gate_bind (identity_gate env req authority) (\<lambda>i. Go (descriptor, binding, i))))"

text \<open>The call itself.\<close>

definition with_call_id :: "ustr \<Rightarrow> tool_invocation \<Rightarrow> tool_invocation" where
  "with_call_id i req = req\<lparr>ti_call := (ti_call req)\<lparr>tc_call_id := i\<rparr>\<rparr>"

definition port_invocation :: "ustr \<Rightarrow> tool_invocation \<Rightarrow> invocation_authority option \<Rightarrow> tool_binding option \<Rightarrow> tool_port_call option" where
  "port_invocation i req authority binding =
     (case (authority, binding) of
        (Some a, Some b) \<Rightarrow> Some (PortInvokeBound (with_call_id i req) a b)
      | (None, None) \<Rightarrow> Some (PortInvoke req)
      | _ \<Rightarrow> None)"

definition reported :: "ustr \<Rightarrow> ustr \<Rightarrow> (tool_outcome, port_error) result \<Rightarrow> tool_result" where
  "reported call_id adapter_id result =
     (case result of
        Err (PortCommittedButNotDurable detail) \<Rightarrow> Err (ExecutionOutcomeUnknown detail)
      | Err (PortOutcomeUnknown detail) \<Rightarrow> Err (ExecutionOutcomeUnknown detail)
      | Err e \<Rightarrow> Ok (terminal call_id ToolFailed (port_error_display e))
      | Ok outcome \<Rightarrow>
          if to_call_id outcome = adapter_id then Ok (outcome\<lparr>to_call_id := call_id\<rparr>)
          else Ok (terminal call_id ToolFailed (lit ''tool returned another invocation's result'')))"

definition interrupted :: "tool_status \<Rightarrow> bool \<Rightarrow> ustr \<Rightarrow> tool_result" where
  "interrupted outcome mutating call_id =
     (if mutating
      then Err (ExecutionOutcomeUnknown
             (lit ''mutating invocation was interrupted; reconcile its audit and result before retry''))
      else Ok (terminal call_id outcome
             (lit (if outcome = ToolCancelled then ''cancelled mid-flight'' else ''exceeded the call deadline''))))"

definition invoked_result ::
  "tool_port_call option \<Rightarrow> (tool_outcome, port_error) result \<Rightarrow> (tool_outcome, port_error) result"
where
  "invoked_result invocation result =
     (if invocation = None then Err (PortInvalid (lit ''authenticated publication binding is missing'')) else result)"

definition execute_authorized ::
  "tool_environment \<Rightarrow> tool_invocation \<Rightarrow> invocation_authority option \<Rightarrow> tool_result \<times> tool_port_call list \<times> u64"
where
  "execute_authorized env req authority =
     (let call_id = tc_call_id (ti_call req) in
      case all_gates env req authority of
        Stop r n \<Rightarrow> (r, [], n)
      | Go (descriptor, binding, adapter_id, n) \<Rightarrow>
          (let mutating = (authority \<noteq> None \<and> td_mutates_workspace descriptor);
               invocation = port_invocation adapter_id req authority binding;
               invoked = (case invocation of None \<Rightarrow> [] | Some c \<Rightarrow> [c])
           in case te_race env of
               RaceFinished result \<Rightarrow> (reported call_id adapter_id (invoked_result invocation result), invoked, n)
             | RaceDeadline \<Rightarrow> (interrupted ToolTimedOut mutating call_id, invoked @ [PortCancel adapter_id], n)
             | RaceCancelled started \<Rightarrow>
                 (interrupted ToolCancelled mutating call_id, (if started then invoked else []) @ [PortCancel adapter_id], n)
             | RaceRevoked started \<Rightarrow>
                 (interrupted ToolCancelled mutating call_id, (if started then invoked else []) @ [PortCancel adapter_id], n)))"

definition execute_tool :: "tool_environment \<Rightarrow> tool_invocation \<Rightarrow> tool_result \<times> tool_port_call list \<times> u64" where
  "execute_tool env req = execute_authorized env req None"

section \<open>What passes the gates\<close>

lemma gate_bind_Go [simp]: "gate_bind g k = Go b \<longleftrightarrow> (\<exists>a. g = Go a \<and> k a = Go b)"
  by (cases g) auto

lemma admission_gate_Go:
  assumes "admission_gate env req authority = Go (descriptor, binding)"
  shows "describe_tool env (tc_name (ti_call req)) = Some descriptor \<and> \<not> te_cancelled_before env \<and>
    (case authority of
       None \<Rightarrow> binding = None
     | Some a \<Rightarrow> can_execute (te_revoked_before env) a \<and> (\<exists>b. te_bind env req a = Ok b \<and> binding = Some b))"
  using assms by (auto simp: admission_gate_def refuse_def split: if_splits option.splits result.splits)

lemma approval_gate_Go:
  assumes "approval_gate env req authority descriptor binding = Go ()" and "td_requires_approval descriptor"
  shows "\<exists>d from_memory. te_request env (invocation_ticket req) authority binding = Ok (Decided d from_memory) \<and> ad_verdict d = Approve"
proof -
  have "v \<noteq> Deny \<Longrightarrow> v = Approve" for v by (cases v) auto
  then show ?thesis
    using assms by (auto simp: approval_gate_def refuse_def
        split: if_splits result.splits approval_outcome.splits approval_withdrawal.splits)
qed

lemma tool_name_plain:
  "c \<in> set (lit (''runtime-tool-'' @ show_dec n)) \<Longrightarrow> \<not> char_is_whitespace c"
proof -
  assume "c \<in> set (lit (''runtime-tool-'' @ show_dec n))"
  then obtain d where d: "d \<in> set (''runtime-tool-'' @ show_dec n)" "c = of_char d"
    unfolding lit_def set_map by (rule imageE) blast
  have "d \<in> set (''runtime-tool-'' @ ''0123456789abcdef'')"
    using d(1) digit_char [of d n] unfolding set_append by blast
  moreover have "list_all (\<lambda>d. \<not> char_is_whitespace (of_char d)) (''runtime-tool-'' @ ''0123456789abcdef'')"
    by (simp add: char_is_whitespace_def)
  ultimately show ?thesis unfolding list_all_iff d(2) by blast
qed

lemma tool_call_id_fresh:
  assumes "tool_call_id_new (lit (''runtime-tool-'' @ show_dec n)) = Ok i"
  shows "i = lit (''runtime-tool-'' @ show_dec n)"
  using assms str_trim_plain [OF tool_name_plain]
  by (auto simp: tool_call_id_new_def parse_identifier_def Let_def split: if_splits)

definition host_identity :: "u64 \<Rightarrow> ustr" where
  "host_identity n = lit (''runtime-tool-'' @ show_dec (unat n))"

lemma identity_gate_Go:
  assumes "identity_gate env req authority = Go (i, n)"
  shows "\<not> te_cancelled_after env \<and>
    (case authority of
       None \<Rightarrow> i = tc_call_id (ti_call req) \<and> n = te_next_invocation env
     | Some a \<Rightarrow> \<not> is_revoked (te_revoked_after env) a \<and> i = host_identity (te_next_invocation env) \<and>
         unat n = Suc (unat (te_next_invocation env)))"
  using assms by (auto simp: identity_gate_def refuse_def host_identity_def checked_add_eq_Some dest!: tool_call_id_fresh [simplified]
      split: if_splits option.splits result.splits)

text \<open>Everything that holds when the port is asked to run a call.\<close>

definition cleared :: "tool_environment \<Rightarrow> tool_invocation \<Rightarrow> invocation_authority option \<Rightarrow> tool_port_call \<Rightarrow> bool" where
  "cleared env req authority c \<longleftrightarrow>
     \<not> te_cancelled_before env \<and> \<not> te_cancelled_after env \<and>
     (\<exists>descriptor binding.
        describe_tool env (tc_name (ti_call req)) = Some descriptor \<and>
        (td_requires_approval descriptor \<longrightarrow>
           (\<exists>d from_memory. te_request env (invocation_ticket req) authority binding = Ok (Decided d from_memory) \<and>
              ad_verdict d = Approve)) \<and>
        (case authority of
           None \<Rightarrow> binding = None \<and> c = PortInvoke req
         | Some a \<Rightarrow> can_execute (te_revoked_before env) a \<and> \<not> is_revoked (te_revoked_after env) a \<and>
             (\<exists>b. te_bind env req a = Ok b \<and> binding = Some b \<and>
                c = PortInvokeBound (with_call_id (host_identity (te_next_invocation env)) req) a b)))"

fun is_invocation :: "tool_port_call \<Rightarrow> bool" where
  "is_invocation (PortCancel _) = False"
| "is_invocation _ = True"

lemma gates_clear:
  assumes "all_gates env req authority = Go (descriptor, binding, i, n)"
  obtains c where "port_invocation i req authority binding = Some c" "is_invocation c" "cleared env req authority c"
    "describe_tool env (tc_name (ti_call req)) = Some descriptor"
proof -
  have admitted: "admission_gate env req authority = Go (descriptor, binding)"
    and approved: "approval_gate env req authority descriptor binding = Go ()"
    and named: "identity_gate env req authority = Go (i, n)"
    using assms by (auto simp: all_gates_def)
  note facts = admission_gate_Go [OF admitted] approval_gate_Go [OF approved] identity_gate_Go [OF named]
  show ?thesis
  proof (cases authority)
    case None
    then show ?thesis using facts that [of "PortInvoke req"] by (auto simp: port_invocation_def cleared_def)
  next
    case (Some a)
    then obtain b where b: "te_bind env req a = Ok b" "binding = Some b" using facts(1) by auto
    then show ?thesis using Some facts that [of "PortInvokeBound (with_call_id i req) a b"]
      by (auto simp: port_invocation_def cleared_def)
  qed
qed

lemma execute_calls:
  assumes "execute_authorized env req authority = (r, cs, n)"
  shows "length (filter is_invocation cs) \<le> 1" and "c \<in> set cs \<Longrightarrow> is_invocation c \<Longrightarrow> cleared env req authority c"
proof -
  have "length (filter is_invocation cs) \<le> 1 \<and> (\<forall>c \<in> set cs. is_invocation c \<longrightarrow> cleared env req authority c)"
  proof (cases "all_gates env req authority")
    case (Stop r n)
    then show ?thesis using assms by (simp add: execute_authorized_def)
  next
    case (Go g)
    obtain descriptor binding i k where g: "g = (descriptor, binding, i, k)" by (cases g) auto
    have go: "all_gates env req authority = Go (descriptor, binding, i, k)" using Go g by simp
    obtain c where "port_invocation i req authority binding = Some c" "is_invocation c" "cleared env req authority c"
      using gates_clear [OF go] by blast
    moreover from this have "cs = [c] \<or> cs = [c, PortCancel i] \<or> cs = [PortCancel i]"
      using assms by (simp add: execute_authorized_def go Let_def split: call_race.splits if_splits)
    ultimately show ?thesis by (elim disjE) simp_all
  qed
  then show "length (filter is_invocation cs) \<le> 1" and "c \<in> set cs \<Longrightarrow> is_invocation c \<Longrightarrow> cleared env req authority c"
    by blast+
qed

section \<open>The properties of the executor\<close>

text \<open>
  Property C3. The tool port is asked to run a call at most once, and only the call that was requested:
  its tool is in the catalogue, nothing was cancelled or revoked, an authenticated caller may execute
  and gets exactly the publication that was bound, and where the tool needs approval the broker
  returned, for a request about this call and this publication, a decision of an operator to approve
  it, given for this request or, to an anonymous caller, remembered for the session.
\<close>

theorem tool_runs_only_if_approved:
  assumes "execute_authorized env req authority = (r, cs, n)" and "c \<in> set cs" and "is_invocation c"
    and "describe_tool env (tc_name (ti_call req)) = Some descriptor" and "td_requires_approval descriptor"
    and "steps (approval_step timeout) (empty_approvals now) es w" and "x \<in> set (wd_waiters w)"
    and "wt_ticket x = invocation_ticket req" and "wt_authority x = authority"
    and "wt_binding x = (case authority of None \<Rightarrow> None | Some a \<Rightarrow> (case te_bind env req a of Ok b \<Rightarrow> Some b | Err _ \<Rightarrow> None))"
    and "wt_phase x = Returned (te_request env (wt_ticket x) (wt_authority x) (wt_binding x))"
  shows "length (filter is_invocation cs) = 1 \<and> cleared env req authority c \<and>
    (\<exists>d i token y q. ad_verdict d = Approve \<and> answers es i = [(d, token)] \<and> y \<in> set (wd_waiters w) \<and>
       wt_request y = Some q \<and> ar_approval_id q = i \<and>
       (y = x \<or> authority = None \<and> wt_authority y = None \<and> ad_scope d = ScopeSession \<and>
          ar_session_id q = ti_session_id req \<and> ar_tool_name q = tc_name (ti_call req)))"
proof -
  note calls = execute_calls [OF assms(1)]
  have clear: "cleared env req authority c" using calls(2) assms(2,3) by blast
  have "c \<in> set (filter is_invocation cs)" using assms(2,3) by simp
  then have one: "length (filter is_invocation cs) = 1"
    using calls(1) by (cases "filter is_invocation cs") auto
  have "wt_binding x = binding"
    if "case authority of None \<Rightarrow> binding = None | Some a \<Rightarrow> \<exists>b. te_bind env req a = Ok b \<and> binding = Some b" for binding
    using that assms(10) by (cases authority) auto
  then obtain d from_memory where d: "te_request env (invocation_ticket req) authority (wt_binding x) = Ok (Decided d from_memory)"
    "ad_verdict d = Approve"
    using clear assms(4,5) by (cases authority) (auto simp: cleared_def)
  have phase: "wt_phase x = Returned (Ok (Decided d from_memory))"
    using assms(11) d(1) by (simp add: assms(8,9))
  note decided = decisions_come_from_operators_lemma [OF assms(6,7) phase]
  show ?thesis
  proof (cases from_memory)
    case True
    then obtain y q where "y \<in> set (wd_waiters w)" "wt_authority y = None" "wt_request y = Some q"
      "ar_session_id q = at_session_id (wt_ticket x)" "ar_tool_name q = at_tool_name (wt_ticket x)"
      "answers es (ar_approval_id q) = [(d, wt_binding_token y)]" "wt_authority x = None" "ad_scope d = ScopeSession"
      using decided by auto
    then show ?thesis using one clear d(2) assms(8,9)
      by (intro conjI exI [of _ d] exI [of _ "ar_approval_id q"] exI [of _ "wt_binding_token y"] exI [of _ y] exI [of _ q])
        (auto simp: invocation_ticket_def)
  next
    case False
    then obtain q where "wt_request x = Some q" "answers es (ar_approval_id q) = [(d, wt_binding_token x)]"
      using decided by auto
    then show ?thesis using one clear d(2) assms(7)
      by (intro conjI exI [of _ d] exI [of _ "ar_approval_id q"] exI [of _ "wt_binding_token x"] exI [of _ x] exI [of _ q]) auto
  qed
qed

lemma stopped_outcome:
  assumes "all_gates env req authority = Stop r n"
  shows "(\<exists>e. r = Err (ExecutionApproval e)) \<or>
    (\<exists>s t. r = Ok (terminal (tc_call_id (ti_call req)) s t) \<and> s \<noteq> ToolOk)"
proof -
  have admission: "\<exists>s t. r = Ok (terminal (tc_call_id (ti_call req)) s t) \<and> s \<noteq> ToolOk"
    if "admission_gate env req authority = Stop r n"
    using that by (auto simp: admission_gate_def refuse_def split: if_splits option.splits result.splits)
  have identity: "\<exists>s t. r = Ok (terminal (tc_call_id (ti_call req)) s t) \<and> s \<noteq> ToolOk"
    if "identity_gate env req authority = Stop r n"
    using that by (auto simp: identity_gate_def refuse_def split: if_splits option.splits result.splits)
  have approval: "(\<exists>e. r = Err (ExecutionApproval e)) \<or>
      (\<exists>s t. r = Ok (terminal (tc_call_id (ti_call req)) s t) \<and> s \<noteq> ToolOk)"
    if "approval_gate env req authority descriptor binding = Stop r n" for descriptor binding
    using that by (auto simp: approval_gate_def refuse_def
        split: if_splits result.splits approval_outcome.splits approval_withdrawal.splits)
  show ?thesis
    using assms admission identity approval
    by (cases "admission_gate env req authority"; cases "identity_gate env req authority")
      (auto simp: all_gates_def elim!: gate_bind.elims)
qed

lemma reported_outcome:
  assumes "reported call_id adapter_id result = Ok out"
  shows "to_call_id out = call_id \<and>
    (to_status out = ToolOk \<or> to_changed_workspace out \<longrightarrow>
       (\<exists>p. result = Ok p \<and> to_call_id p = adapter_id \<and> out = p\<lparr>to_call_id := call_id\<rparr>))"
  using assms by (auto simp: reported_def terminal_def split: result.splits port_error.splits if_splits)

text \<open>
  Property C23. A reported outcome always names the call it answers. It claims success, or a changed
  workspace, only when the port returned that outcome under the identity this very execution had given
  out. A call that was interrupted, by its deadline, a cancellation or a revocation, is never reported
  as finished: if it was authenticated and its tool changes the workspace its outcome is reported as
  unknown; every other call, anonymous calls of such tools included, is reported as timed out or
  cancelled, with no claim of a changed workspace.
\<close>

theorem tool_outcome_faithful:
  assumes "execute_authorized env req authority = (r, cs, n)"
  shows "(\<forall>out. r = Ok out \<longrightarrow> to_call_id out = tc_call_id (ti_call req)) \<and>
    (\<forall>out. r = Ok out \<longrightarrow> to_status out = ToolOk \<or> to_changed_workspace out \<longrightarrow>
       (\<exists>p c. te_race env = RaceFinished (Ok p) \<and> c \<in> set cs \<and> cleared env req authority c \<and>
          to_call_id p = (if authority = None then tc_call_id (ti_call req) else host_identity (te_next_invocation env)) \<and>
          out = p\<lparr>to_call_id := tc_call_id (ti_call req)\<rparr>)) \<and>
    (\<forall>i descriptor. PortCancel i \<in> set cs \<longrightarrow> describe_tool env (tc_name (ti_call req)) = Some descriptor \<longrightarrow>
       (if authority \<noteq> None \<and> td_mutates_workspace descriptor then \<exists>detail. r = Err (ExecutionOutcomeUnknown detail)
        else \<exists>out. r = Ok out \<and> to_status out = (if te_race env = RaceDeadline then ToolTimedOut else ToolCancelled) \<and>
          \<not> to_changed_workspace out))"
proof (cases "all_gates env req authority")
  case (Stop s k)
  then have "r = s" "cs = []" using assms by (simp_all add: execute_authorized_def)
  then show ?thesis using stopped_outcome [OF Stop] by (auto simp: terminal_def)
next
  case (Go g)
  obtain descriptor binding i k where g: "g = (descriptor, binding, i, k)" by (cases g) auto
  have go: "all_gates env req authority = Go (descriptor, binding, i, k)" using Go g by simp
  obtain c where c: "port_invocation i req authority binding = Some c" "cleared env req authority c"
    and found: "describe_tool env (tc_name (ti_call req)) = Some descriptor"
    using gates_clear [OF go] by blast
  have "identity_gate env req authority = Go (i, k)" using go by (auto simp: all_gates_def)
  from identity_gate_Go [OF this]
  have i: "i = (if authority = None then tc_call_id (ti_call req) else host_identity (te_next_invocation env))"
    by (cases authority) auto
  have run: "(r, cs) = (case te_race env of
      RaceFinished result \<Rightarrow> (reported (tc_call_id (ti_call req)) i result, [c])
    | RaceDeadline \<Rightarrow> (interrupted ToolTimedOut (authority \<noteq> None \<and> td_mutates_workspace descriptor) (tc_call_id (ti_call req)), [c, PortCancel i])
    | RaceCancelled started \<Rightarrow> (interrupted ToolCancelled (authority \<noteq> None \<and> td_mutates_workspace descriptor) (tc_call_id (ti_call req)),
        (if started then [c] else []) @ [PortCancel i])
    | RaceRevoked started \<Rightarrow> (interrupted ToolCancelled (authority \<noteq> None \<and> td_mutates_workspace descriptor) (tc_call_id (ti_call req)),
        (if started then [c] else []) @ [PortCancel i]))"
    using assms by (cases "te_race env") (auto simp: execute_authorized_def go c(1) invoked_result_def Let_def)
  have not_cancel: "is_invocation c" using c(1) by (auto simp: port_invocation_def split: option.splits)
  show ?thesis
  proof (cases "te_race env")
    case (RaceFinished result)
    then have r: "r = reported (tc_call_id (ti_call req)) i result" "cs = [c]" using run by simp_all
    then show ?thesis using reported_outcome [of "tc_call_id (ti_call req)" i result] c(2) i RaceFinished not_cancel by auto
  qed (use run found in \<open>auto simp: interrupted_def terminal_def split: if_splits\<close>)
qed

section \<open>An approved call\<close>

definition demo_tool :: tool_descriptor where
  "demo_tool = \<lparr>td_name = lit ''shell'', td_summary = [], td_requires_approval = True, td_mutates_workspace = True\<rparr>"

definition demo_invocation :: tool_invocation where
  "demo_invocation = \<lparr>ti_session_id = lit ''s'', ti_turn = 0,
     ti_call = \<lparr>tc_call_id = lit ''c'', tc_name = lit ''shell'', tc_arguments = []\<rparr>\<rparr>"

definition demo_environment :: tool_environment where
  "demo_environment =
     \<lparr>te_describe = [demo_tool], te_bind = (\<lambda>_ _. Err PortCancelled),
      te_request = (\<lambda>_ _ _. Ok (Decided approve_for_session False)), te_revoked_before = {}, te_cancelled_before = False,
      te_revoked_after = {}, te_cancelled_after = False, te_next_invocation = 0,
      te_race = RaceFinished (Ok \<lparr>to_call_id = lit ''c'', to_status = ToolOk, to_output = [], to_changed_workspace = True\<rparr>)\<rparr>"

lemma demo_executed:
  "execute_authorized demo_environment demo_invocation None =
     (Ok \<lparr>to_call_id = lit ''c'', to_status = ToolOk, to_output = [], to_changed_workspace = True\<rparr>,
      [PortInvoke demo_invocation], 0)"
  by (simp add: execute_authorized_def all_gates_def admission_gate_def approval_gate_def identity_gate_def describe_tool_def
      demo_environment_def demo_invocation_def demo_tool_def approve_for_session_def port_invocation_def invoked_result_def
      reported_def Let_def)

theorem tool_runs_only_if_approved_witness:
  "cleared demo_environment demo_invocation None (PortInvoke demo_invocation) \<and>
   (\<exists>d i token. ad_verdict d = Approve \<and> answers demo_events i = [(d, token)])"
proof -
  let ?x = "demo_waiter (Returned (Ok (Decided approve_for_session False))) (Some demo_request) (Some approve_for_session)"
  have found: "describe_tool demo_environment (tc_name (ti_call demo_invocation)) = Some demo_tool"
    "td_requires_approval demo_tool"
    by (simp_all add: describe_tool_def demo_environment_def demo_invocation_def demo_tool_def)
  have x: "?x \<in> set (wd_waiters demo_before)" "wt_ticket ?x = invocation_ticket demo_invocation" "wt_authority ?x = None"
    "wt_binding ?x = None" "wt_phase ?x = Returned (te_request demo_environment (wt_ticket ?x) (wt_authority ?x) (wt_binding ?x))"
    by (simp_all add: demo_before_def demo_waiter_def demo_ticket_def invocation_ticket_def demo_invocation_def
        demo_environment_def)
  from tool_runs_only_if_approved [OF demo_executed _ _ found demo_reached x(1-3) _ x(5), of "PortInvoke demo_invocation"] x(4)
  show ?thesis by auto
qed

definition demo_authority :: invocation_authority where
  "demo_authority = \<lparr>ia_source = SourceGateway, ia_subject = lit ''u'', ia_account = None, ia_access = AccessOwner,
     ia_generation = 1, ia_revocation = None\<rparr>"

definition interrupted_environment :: tool_environment where
  "interrupted_environment = demo_environment\<lparr>
     te_bind := (\<lambda>_ _. Ok \<lparr>tb_identity = lit ''shell'', tb_revision = 1, tb_resource = None\<rparr>), te_race := RaceCancelled True\<rparr>"

lemma demo_identity: "tool_call_id_new (lit (''runtime-tool-'' @ show_dec (unat (0 :: u64)))) = Ok (host_identity 0)"
  by code_simp

lemma demo_interrupted:
  "\<exists>r cs n. execute_authorized interrupted_environment demo_invocation (Some demo_authority) = (r, cs, n) \<and>
     PortCancel (host_identity 0) \<in> set cs"
  using demo_identity
  by (simp add: execute_authorized_def all_gates_def admission_gate_def approval_gate_def identity_gate_def describe_tool_def
      interrupted_environment_def demo_environment_def demo_invocation_def demo_tool_def demo_authority_def can_execute_def
      is_revoked_def approve_for_session_def port_invocation_def checked_add_def Let_def)

theorem tool_outcome_faithful_witness:
  "(\<exists>p. te_race demo_environment = RaceFinished (Ok p) \<and> to_call_id p = lit ''c'') \<and>
   (\<exists>detail. fst (execute_authorized interrupted_environment demo_invocation (Some demo_authority)) =
      Err (ExecutionOutcomeUnknown detail))"
proof -
  obtain r cs n where run: "execute_authorized interrupted_environment demo_invocation (Some demo_authority) = (r, cs, n)"
    "PortCancel (host_identity 0) \<in> set cs"
    using demo_interrupted by blast
  have "describe_tool interrupted_environment (tc_name (ti_call demo_invocation)) = Some demo_tool"
    "td_mutates_workspace demo_tool"
    by (simp_all add: describe_tool_def interrupted_environment_def demo_environment_def demo_invocation_def demo_tool_def)
  with tool_outcome_faithful [OF run(1)] run(2) have "\<exists>detail. r = Err (ExecutionOutcomeUnknown detail)" by fastforce
  moreover have "\<exists>p. te_race demo_environment = RaceFinished (Ok p) \<and> to_call_id p = lit ''c''"
    using tool_outcome_faithful [OF demo_executed] by (auto simp: demo_invocation_def)
  ultimately show ?thesis by (simp add: run(1))
qed

end
