(* ===== verification/Runtime_Turn.thy ===== *)
theory Runtime_Turn
  imports Claw_Text
begin

text \<open>
  The states of a turn and their legal transitions (crates/claw-application/src/model/session.rs), and
  the machine that carries one turn through them and remembers what it paused from
  (crates/claw-runtime/src/session.rs).
\<close>

section \<open>The contract\<close>

datatype turn_state =
    Draft | Queued | Starting | Running | WaitingForApproval | WaitingForAnswer | Paused | Blocked
  | Failed | Cancelled | Completed | CompletedWithChanges

datatype session_event =
    Enqueue | Start | Stream | RequestApproval | ResolveApproval | AskQuestion | ProvideAnswer | Pause | Resume
  | Block | Unblock | Complete | CompleteWithChanges | Cancel | Fail

datatype session_move = To turn_state | RestorePrePause

record illegal_transition =
  it_from :: turn_state
  it_event :: session_event

definition turn_state_ALL :: "turn_state list" where
  "turn_state_ALL = [Draft, Queued, Starting, Running, WaitingForApproval, WaitingForAnswer, Paused, Blocked,
     Failed, Cancelled, Completed, CompletedWithChanges]"

definition session_event_ALL :: "session_event list" where
  "session_event_ALL = [Enqueue, Start, Stream, RequestApproval, ResolveApproval, AskQuestion, ProvideAnswer, Pause,
     Resume, Block, Unblock, Complete, CompleteWithChanges, Cancel, Fail]"

fun turn_state_label :: "turn_state \<Rightarrow> string" where
  "turn_state_label Draft = ''draft''"
| "turn_state_label Queued = ''queued''"
| "turn_state_label Starting = ''starting''"
| "turn_state_label Running = ''running''"
| "turn_state_label WaitingForApproval = ''waiting_for_approval''"
| "turn_state_label WaitingForAnswer = ''waiting_for_answer''"
| "turn_state_label Paused = ''paused''"
| "turn_state_label Blocked = ''blocked''"
| "turn_state_label Failed = ''failed''"
| "turn_state_label Cancelled = ''cancelled''"
| "turn_state_label Completed = ''completed''"
| "turn_state_label CompletedWithChanges = ''completed_with_changes''"

fun session_event_label :: "session_event \<Rightarrow> string" where
  "session_event_label Enqueue = ''enqueue''"
| "session_event_label Start = ''start''"
| "session_event_label Stream = ''stream''"
| "session_event_label RequestApproval = ''request_approval''"
| "session_event_label ResolveApproval = ''resolve_approval''"
| "session_event_label AskQuestion = ''ask_question''"
| "session_event_label ProvideAnswer = ''provide_answer''"
| "session_event_label Pause = ''pause''"
| "session_event_label Resume = ''resume''"
| "session_event_label Block = ''block''"
| "session_event_label Unblock = ''unblock''"
| "session_event_label Complete = ''complete''"
| "session_event_label CompleteWithChanges = ''complete_with_changes''"
| "session_event_label Cancel = ''cancel''"
| "session_event_label Fail = ''fail''"

definition illegal_transition_display :: "illegal_transition \<Rightarrow> string" where
  "illegal_transition_display e =
     ''illegal session transition: '' @ turn_state_label (it_from e) @ '' cannot accept '' @ session_event_label (it_event e)"

definition session_is_terminal :: "turn_state \<Rightarrow> bool" where
  "session_is_terminal s \<longleftrightarrow> s \<in> {Failed, Cancelled, Completed, CompletedWithChanges}"

definition session_is_in_flight :: "turn_state \<Rightarrow> bool" where
  "session_is_in_flight s \<longleftrightarrow> s \<in> {Starting, Running, WaitingForApproval, WaitingForAnswer}"

definition session_is_pausable :: "turn_state \<Rightarrow> bool" where
  "session_is_pausable s \<longleftrightarrow> s \<in> {Queued, Starting, Running, WaitingForApproval, WaitingForAnswer}"

definition session_transition :: "turn_state \<Rightarrow> session_event \<Rightarrow> (session_move, illegal_transition) result" where
  "session_transition s e =
     (if (s, e) \<in> {(Draft, Enqueue), (Blocked, Unblock)} then Ok (To Queued)
      else if (s, e) = (Queued, Start) then Ok (To Starting)
      else if (s, e) \<in> {(Starting, Stream), (WaitingForApproval, ResolveApproval), (WaitingForAnswer, ProvideAnswer)}
      then Ok (To Running)
      else if (s, e) = (Running, RequestApproval) then Ok (To WaitingForApproval)
      else if (s, e) = (Running, AskQuestion) then Ok (To WaitingForAnswer)
      else if e = Pause \<and> s \<in> {Queued, Starting, Running, WaitingForApproval, WaitingForAnswer} then Ok (To Paused)
      else if (s, e) = (Paused, Resume) then Ok RestorePrePause
      else if e = Block \<and> s \<in> {Queued, Starting, Running, WaitingForApproval, WaitingForAnswer} then Ok (To Blocked)
      else if (s, e) = (Running, Complete) then Ok (To Completed)
      else if (s, e) = (Running, CompleteWithChanges) then Ok (To CompletedWithChanges)
      else if e = Cancel \<and> s \<in> {Draft, Queued, Starting, Running, WaitingForApproval, WaitingForAnswer, Paused, Blocked}
      then Ok (To Cancelled)
      else if e = Fail \<and> s \<in> {Draft, Queued, Starting, Running, WaitingForApproval, WaitingForAnswer, Paused, Blocked}
      then Ok (To Failed)
      else Err \<lparr>it_from = s, it_event = e\<rparr>)"

section \<open>The machine\<close>

datatype state_machine_error = IllegalMove illegal_transition | InconsistentSnapshot string

fun state_machine_error_display :: "state_machine_error \<Rightarrow> string" where
  "state_machine_error_display (IllegalMove e) = illegal_transition_display e"
| "state_machine_error_display (InconsistentSnapshot reason) = ''inconsistent session snapshot: '' @ reason"

record turn_machine =
  tm_state :: turn_state
  tm_pre_pause_state :: "turn_state option"
  tm_transitions :: u64

definition new_turn_machine :: turn_machine where
  "new_turn_machine = \<lparr>tm_state = Draft, tm_pre_pause_state = None, tm_transitions = 0\<rparr>"

definition restore_turn_machine ::
  "turn_state \<Rightarrow> turn_state option \<Rightarrow> (turn_machine, state_machine_error) result"
where
  "restore_turn_machine s previous =
     (case (s = Paused, previous) of
        (True, Some p) \<Rightarrow>
          if session_is_pausable p then Ok \<lparr>tm_state = s, tm_pre_pause_state = previous, tm_transitions = 0\<rparr>
          else Err (InconsistentSnapshot ''pre-pause state is not pausable'')
      | (True, None) \<Rightarrow> Err (InconsistentSnapshot ''paused turns must record a pre-pause state'')
      | (False, Some _) \<Rightarrow> Err (InconsistentSnapshot ''only paused turns may record a pre-pause state'')
      | (False, None) \<Rightarrow> Ok \<lparr>tm_state = s, tm_pre_pause_state = previous, tm_transitions = 0\<rparr>)"

definition turn_accepts :: "turn_machine \<Rightarrow> session_event \<Rightarrow> bool" where
  "turn_accepts t e \<longleftrightarrow> is_ok (session_transition (tm_state t) e)"

definition turn_moved :: "turn_machine \<Rightarrow> turn_state \<Rightarrow> (turn_state, state_machine_error) result \<times> turn_machine" where
  "turn_moved t next_state =
     (Ok next_state, t\<lparr>tm_state := next_state, tm_transitions := saturating_add (tm_transitions t) 1\<rparr>)"

definition turn_apply :: "turn_machine \<Rightarrow> session_event \<Rightarrow> (turn_state, state_machine_error) result \<times> turn_machine" where
  "turn_apply t e =
     (case session_transition (tm_state t) e of
        Err illegal \<Rightarrow> (Err (IllegalMove illegal), t)
      | Ok (To target) \<Rightarrow>
          if target = Paused then turn_moved (t\<lparr>tm_pre_pause_state := Some (tm_state t)\<rparr>) Paused
          else turn_moved (t\<lparr>tm_pre_pause_state := None\<rparr>) target
      | Ok RestorePrePause \<Rightarrow>
          (case tm_pre_pause_state t of
             None \<Rightarrow> (Err (InconsistentSnapshot ''paused turns must record a pre-pause state''), t)
           | Some previous \<Rightarrow> turn_moved (t\<lparr>tm_pre_pause_state := None\<rparr>) previous))"

fun turn_run :: "turn_machine \<Rightarrow> session_event list \<Rightarrow> turn_machine" where
  "turn_run t [] = t"
| "turn_run t (e # es) = turn_run (snd (turn_apply t e)) es"

section \<open>The properties of the machine\<close>

definition turn_ok :: "turn_machine \<Rightarrow> bool" where
  "turn_ok t \<longleftrightarrow>
     (case tm_pre_pause_state t of None \<Rightarrow> tm_state t \<noteq> Paused | Some p \<Rightarrow> tm_state t = Paused \<and> session_is_pausable p)"

lemmas session_defs = session_transition_def session_is_pausable_def session_is_terminal_def

lemma turn_ok_new: "turn_ok new_turn_machine"
  by (simp add: turn_ok_def new_turn_machine_def)

lemma turn_ok_apply: "turn_ok t \<Longrightarrow> turn_ok (snd (turn_apply t e))"
  by (cases "tm_state t"; cases e) (auto simp: turn_apply_def turn_ok_def turn_moved_def session_defs split: option.splits)

lemma turn_ok_run: "turn_ok t \<Longrightarrow> turn_ok (turn_run t es)"
  by (induction es arbitrary: t) (auto intro: turn_ok_apply)

lemma snapshot_restores:
  "turn_ok t \<Longrightarrow> restore_turn_machine (tm_state t) (tm_pre_pause_state t) = Ok (t\<lparr>tm_transitions := 0\<rparr>)"
  by (auto simp: turn_ok_def restore_turn_machine_def split: option.splits)

lemma accepts_iff_applies:
  assumes "turn_ok t"
  shows "turn_accepts t e \<longleftrightarrow> is_ok (fst (turn_apply t e))"
  using assms
  by (cases "session_transition (tm_state t) e")
    (auto simp: turn_accepts_def turn_apply_def turn_moved_def turn_ok_def session_transition_def
      split: session_move.splits option.splits if_splits)

lemma terminal_accepts_nothing: "session_is_terminal s \<longleftrightarrow> (\<forall>e. \<not> is_ok (session_transition s e))"
proof
  assume "session_is_terminal s"
  then show "\<forall>e. \<not> is_ok (session_transition s e)" by (auto simp: session_defs)
next
  assume "\<forall>e. \<not> is_ok (session_transition s e)"
  then have "\<not> is_ok (session_transition s Cancel)" by blast
  then show "session_is_terminal s" by (cases s) (simp_all add: session_defs)
qed

text \<open>
  Property C25. Whatever events a turn receives from its start, its snapshot restores to the same
  machine, up to the counter of transitions, which restarts at zero; exactly the states documented as final accept nothing any more, and every other state can
  still be cancelled; the machine applies exactly what it says it accepts; and a pause is undone by
  the resumption.
\<close>

theorem turn_machine_sound:
  "let t = turn_run new_turn_machine es in
    restore_turn_machine (tm_state t) (tm_pre_pause_state t) = Ok (t\<lparr>tm_transitions := 0\<rparr>) \<and>
    (session_is_terminal (tm_state t) = (\<nexists>e. turn_accepts t e)) \<and>
    (session_is_terminal (tm_state t) = (\<not> turn_accepts t Cancel)) \<and>
    {e. turn_accepts t e} = {e. is_ok (fst (turn_apply t e))} \<and>
    (if turn_accepts t Pause then tm_state (turn_run t [Pause, Resume]) = tm_state t
     else turn_run t [Pause] = t)"
proof -
  let ?t = "turn_run new_turn_machine es"
  have ok: "turn_ok ?t" by (intro turn_ok_run turn_ok_new)
  have final: "session_is_terminal (tm_state ?t) = (\<nexists>e. turn_accepts ?t e)"
    by (simp add: terminal_accepts_nothing turn_accepts_def)
  have cancel: "session_is_terminal (tm_state ?t) = (\<not> turn_accepts ?t Cancel)"
    by (cases "tm_state ?t") (simp_all add: turn_accepts_def session_defs)
  have pause: "if turn_accepts ?t Pause then tm_state (turn_run ?t [Pause, Resume]) = tm_state ?t else turn_run ?t [Pause] = ?t"
    using ok by (cases "tm_state ?t")
      (auto simp: turn_accepts_def turn_ok_def turn_apply_def turn_moved_def session_defs split: option.splits)
  show ?thesis unfolding Let_def using snapshot_restores [OF ok] final cancel pause accepts_iff_applies [OF ok] by auto
qed

end
