(* ===== verification/Runtime_Sessions.thy ===== *)
theory Runtime_Sessions
  imports Runtime_Approval
begin

text \<open>
  The registry of conversations the runtime owns (crates/claw-runtime/src/runtime.rs): at most one live
  turn per session, a bounded number of sessions with the least recently used idle one evicted, idle
  sessions that expire, and retirement fenced by generations. The second part interleaves turns that
  are submitted, run and end with destruction, reloading, sweeping and the choice of models.
\<close>

section \<open>The registry\<close>

text \<open>
  A live turn carries the tokens through which its task is cancelled and observed; \<open>lv_task\<close> stands for
  the task they belong to.
\<close>

record live_turn =
  lv_turn :: u64
  lv_task :: nat

record managed_conversation =
  mc_session_id :: session_id
  mc_last_access :: timestamp
  mc_access_order :: u64
  mc_generation :: u64
  mc_live :: "live_turn option"
  mc_model :: "ustr option"
  mc_retiring :: bool

record conversation_registry =
  cr_entries :: "(ustr \<times> managed_conversation) list"
  cr_capacity :: nat
  cr_idle_ttl :: nat
  cr_generation :: u64
  cr_next_access :: u64

datatype session_error =
    ShuttingDown
  | ReloadFenced u64 u64
  | SessionRetiring
  | TurnInFlight u64
  | SessionCapacityReached nat
  | StateStoreFailed

definition new_registry :: "nat \<Rightarrow> nat \<Rightarrow> conversation_registry" where
  "new_registry capacity idle_ttl =
     \<lparr>cr_entries = [], cr_capacity = max capacity 1, cr_idle_ttl = idle_ttl, cr_generation = 0, cr_next_access = 1\<rparr>"

definition next_access :: "conversation_registry \<Rightarrow> u64 \<times> conversation_registry" where
  "next_access g = (cr_next_access g, g\<lparr>cr_next_access := saturating_add (cr_next_access g) 1\<rparr>)"

fun insert_text :: "ustr \<Rightarrow> ustr list \<Rightarrow> ustr list" where
  "insert_text s [] = [s]"
| "insert_text s (t # ts) = (if lexordp_eq s t then s # t # ts else t # insert_text s ts)"

definition sort_texts :: "ustr list \<Rightarrow> ustr list" where
  "sort_texts ts = foldr insert_text ts []"

definition is_expired :: "nat \<Rightarrow> timestamp \<Rightarrow> managed_conversation \<Rightarrow> bool" where
  "is_expired idle_ttl now e \<longleftrightarrow> mc_live e = None \<and>
     (case timestamp_checked_add (mc_last_access e) idle_ttl of None \<Rightarrow> False | Some deadline \<Rightarrow> now > deadline)"

definition sweep :: "timestamp \<Rightarrow> conversation_registry \<Rightarrow> session_id list \<times> conversation_registry" where
  "sweep now g =
     (let expired = sort_texts (map fst (filter (\<lambda>(_, e). is_expired (cr_idle_ttl g) now e) (cr_entries g))) in
      (map mc_session_id (List.map_filter (map_of (cr_entries g)) expired),
       g\<lparr>cr_entries := fold AList.delete expired (cr_entries g)\<rparr>))"

definition older :: "ustr \<times> managed_conversation \<Rightarrow> ustr \<times> managed_conversation \<Rightarrow> bool" where
  "older p q \<longleftrightarrow> mc_access_order (snd p) < mc_access_order (snd q) \<or>
     mc_access_order (snd p) = mc_access_order (snd q) \<and> lexordp_eq (fst p) (fst q)"

fun oldest :: "(ustr \<times> managed_conversation) list \<Rightarrow> (ustr \<times> managed_conversation) option" where
  "oldest [] = None"
| "oldest (p # ps) = (case oldest ps of None \<Rightarrow> Some p | Some q \<Rightarrow> Some (if older p q then p else q))"

definition is_evictable :: "managed_conversation \<Rightarrow> bool" where
  "is_evictable e \<longleftrightarrow> mc_live e = None \<and> \<not> mc_retiring e"

definition make_room ::
  "conversation_registry \<Rightarrow> (session_id option, session_error) result \<times> conversation_registry"
where
  "make_room g =
     (if length (cr_entries g) < cr_capacity g then (Ok None, g)
      else case oldest (filter (\<lambda>(_, e). is_evictable e) (cr_entries g)) of
          None \<Rightarrow> (Err (SessionCapacityReached (cr_capacity g)), g)
        | Some (k, e) \<Rightarrow> (Ok (Some (mc_session_id e)), g\<lparr>cr_entries := AList.delete k (cr_entries g)\<rparr>))"

definition fresh_conversation :: "session_id \<Rightarrow> timestamp \<Rightarrow> u64 \<Rightarrow> u64 \<Rightarrow> managed_conversation" where
  "fresh_conversation sid now access generation =
     \<lparr>mc_session_id = sid, mc_last_access = now, mc_access_order = access, mc_generation = generation,
      mc_live = None, mc_model = None, mc_retiring = False\<rparr>"

text \<open>The entry of a session, made anew if it has none, and changed by \<open>f\<close>; room is made first.\<close>

definition with_entry ::
  "session_id \<Rightarrow> timestamp \<Rightarrow> u64 \<Rightarrow> (u64 \<Rightarrow> managed_conversation \<Rightarrow> managed_conversation) \<Rightarrow> conversation_registry
    \<Rightarrow> (session_id option, session_error) result \<times> conversation_registry"
where
  "with_entry sid now generation f g =
     (case (if map_of (cr_entries g) sid \<noteq> None then (Ok None, g) else make_room g) of
        (Err e, g') \<Rightarrow> (Err e, g')
      | (Ok evicted, g') \<Rightarrow>
          (case next_access g' of (access, g'') \<Rightarrow>
             (let entry = (case map_of (cr_entries g'') sid of
                  Some e \<Rightarrow> e | None \<Rightarrow> fresh_conversation sid now access generation)
              in (Ok evicted, g''\<lparr>cr_entries := AList.update sid (f access entry) (cr_entries g'')\<rparr>))))"

definition claim ::
  "session_id \<Rightarrow> u64 \<Rightarrow> live_turn \<Rightarrow> timestamp \<Rightarrow> conversation_registry
    \<Rightarrow> (session_id option, session_error) result \<times> conversation_registry"
where
  "claim sid expected live now g =
     (if expected \<noteq> cr_generation g then (Err (ReloadFenced expected (cr_generation g)), g)
      else case map_of (cr_entries g) sid of
          Some e \<Rightarrow>
            if mc_retiring e then (Err SessionRetiring, g)
            else (case mc_live e of
                Some l \<Rightarrow> (Err (TurnInFlight (lv_turn l)), g)
              | None \<Rightarrow> with_entry sid now expected (\<lambda>access e. e\<lparr>mc_last_access := now, mc_access_order := access,
                  mc_generation := expected, mc_live := Some live\<rparr>) g)
        | None \<Rightarrow> with_entry sid now expected (\<lambda>access e. e\<lparr>mc_last_access := now, mc_access_order := access,
            mc_generation := expected, mc_live := Some live\<rparr>) g)"

definition model_of :: "session_id \<Rightarrow> timestamp \<Rightarrow> conversation_registry \<Rightarrow> ustr option \<times> conversation_registry" where
  "model_of sid now g =
     (case next_access g of (access, g') \<Rightarrow>
        (case map_of (cr_entries g') sid of
           None \<Rightarrow> (None, g')
         | Some e \<Rightarrow>
             if mc_retiring e then (None, g')
             else (mc_model e,
               g'\<lparr>cr_entries := AList.update sid (e\<lparr>mc_last_access := now, mc_access_order := access\<rparr>) (cr_entries g')\<rparr>)))"

definition set_model ::
  "session_id \<Rightarrow> ustr option \<Rightarrow> timestamp \<Rightarrow> conversation_registry
    \<Rightarrow> (session_id option, session_error) result \<times> conversation_registry"
where
  "set_model sid chosen now g =
     (if (case map_of (cr_entries g) sid of None \<Rightarrow> False | Some e \<Rightarrow> mc_retiring e) then (Err SessionRetiring, g)
      else with_entry sid now (cr_generation g) (\<lambda>access e. e\<lparr>mc_last_access := now, mc_access_order := access,
        mc_model := chosen\<rparr>) g)"

definition release_turn ::
  "session_id \<Rightarrow> u64 \<Rightarrow> u64 \<Rightarrow> timestamp \<Rightarrow> conversation_registry \<Rightarrow> session_id option \<times> conversation_registry"
where
  "release_turn sid turn generation now g =
     (case next_access g of (access, g') \<Rightarrow>
        (case map_of (cr_entries g') sid of
           None \<Rightarrow> (None, g')
         | Some e \<Rightarrow>
             if mc_generation e \<noteq> generation \<or> (case mc_live e of None \<Rightarrow> True | Some l \<Rightarrow> lv_turn l \<noteq> turn)
             then (None, g')
             else (if mc_retiring e then Some (mc_session_id e) else None,
               g'\<lparr>cr_entries := AList.update sid
                    (e\<lparr>mc_live := None, mc_last_access := now, mc_access_order := access\<rparr>) (cr_entries g')\<rparr>)))"

definition finish_retirement :: "session_id \<Rightarrow> u64 \<Rightarrow> conversation_registry \<Rightarrow> conversation_registry" where
  "finish_retirement sid generation g =
     (case map_of (cr_entries g) sid of
        None \<Rightarrow> g
      | Some e \<Rightarrow>
          if mc_retiring e \<and> mc_live e = None \<and> mc_generation e = generation
          then g\<lparr>cr_entries := AList.delete sid (cr_entries g)\<rparr> else g)"

definition retired_entry :: "managed_conversation \<Rightarrow> managed_conversation" where
  "retired_entry e = e\<lparr>mc_model := None, mc_retiring := True\<rparr>"

text \<open>What a retirement leaves to do: an idle session to finish, or the task of a live turn to stop.\<close>

record session_retirement =
  re_existed :: bool
  re_idle :: "(session_id \<times> u64) option"
  re_active :: "nat option"

definition retire :: "session_id \<Rightarrow> conversation_registry \<Rightarrow> session_retirement \<times> conversation_registry" where
  "retire sid g =
     (let g' = g\<lparr>cr_generation := saturating_add (cr_generation g) 1\<rparr> in
      case map_of (cr_entries g') sid of
        None \<Rightarrow> (\<lparr>re_existed = False, re_idle = None, re_active = None\<rparr>, g')
      | Some e \<Rightarrow>
          (\<lparr>re_existed = True,
            re_idle = (if mc_live e = None then Some (mc_session_id e, mc_generation e) else None),
            re_active = map_option lv_task (mc_live e)\<rparr>,
           g'\<lparr>cr_entries := AList.update sid (retired_entry e) (cr_entries g')\<rparr>))"

record reload_plan =
  rp_generation :: u64
  rp_idle :: "(session_id \<times> u64) list"
  rp_active :: "nat list"

definition reload :: "conversation_registry \<Rightarrow> reload_plan \<times> conversation_registry" where
  "reload g =
     (let generation = saturating_add (cr_generation g) 1; es = map snd (cr_entries g) in
      (\<lparr>rp_generation = generation,
        rp_idle = map (\<lambda>e. (mc_session_id e, mc_generation e)) (filter (\<lambda>e. mc_live e = None) es),
        rp_active = List.map_filter (\<lambda>e. map_option lv_task (mc_live e)) es\<rparr>,
       g\<lparr>cr_generation := generation, cr_entries := map (\<lambda>(k, e). (k, retired_entry e)) (cr_entries g)\<rparr>))"

definition clear_registry :: "conversation_registry \<Rightarrow> session_id list \<times> conversation_registry" where
  "clear_registry g = (map (mc_session_id \<circ> snd) (cr_entries g), g\<lparr>cr_entries := []\<rparr>)"

definition registry_ids :: "conversation_registry \<Rightarrow> session_id list" where
  "registry_ids g = sort_texts (map (mc_session_id \<circ> snd) (cr_entries g))"

definition live_count :: "conversation_registry \<Rightarrow> nat" where
  "live_count g = length (filter (\<lambda>(_, e). mc_live e \<noteq> None) (cr_entries g))"

section \<open>Turns and retirements around the registry\<close>

text \<open>
  A turn is submitted by sweeping the expired sessions, reading the generation, and waiting for storage.
  When that is back it looks once more whether the runtime shuts down, claims its session, and is
  spawned as a task that shutdown waits for. Its guard releases the session when the task ends or is
  dropped. The registry is locked for each of these on its own, so that other threads can come in
  between; one step below is one such section. \<open>sw_obligations\<close> holds the idle sessions whose retirement
  is not finished yet, and \<open>sw_forgotten\<close> the sessions whose remembered approvals were dropped, in order.
\<close>

datatype turn_phase =
    Entered
  | Swept
  | Preparing
  | Checked
  | Claimed
  | Live
  | Ending "session_id option"
  | Ended
  | Refused session_error

record turn_task =
  tt_session :: session_id
  tt_turn :: u64
  tt_generation :: u64
  tt_phase :: turn_phase

record session_world =
  sw_registry :: conversation_registry
  sw_tasks :: "turn_task list"
  sw_obligations :: "(session_id \<times> u64) list"
  sw_forgotten :: "session_id list"
  sw_now :: timestamp
  sw_shutdown :: bool

definition cleanup_sessions :: "session_id list \<Rightarrow> session_world \<Rightarrow> session_world" where
  "cleanup_sessions ids w = w\<lparr>sw_forgotten := sw_forgotten w @ ids\<rparr>"

definition sweep_sessions :: "session_world \<Rightarrow> session_world" where
  "sweep_sessions w =
     (case sweep (sw_now w) (sw_registry w) of (expired, g) \<Rightarrow> cleanup_sessions expired (w\<lparr>sw_registry := g\<rparr>))"

definition set_task :: "nat \<Rightarrow> (turn_task \<Rightarrow> turn_task) \<Rightarrow> session_world \<Rightarrow> session_world" where
  "set_task h f w = w\<lparr>sw_tasks := (sw_tasks w)[h := f (sw_tasks w ! h)]\<rparr>"

definition submit_begin :: "session_id \<Rightarrow> session_world \<Rightarrow> session_world" where
  "submit_begin sid w =
     w\<lparr>sw_tasks := sw_tasks w @ [\<lparr>tt_session = sid, tt_turn = 0, tt_generation = 0,
         tt_phase = if sw_shutdown w then Refused ShuttingDown else Entered\<rparr>]\<rparr>"

definition submit_sweep :: "nat \<Rightarrow> session_world \<Rightarrow> session_world" where
  "submit_sweep h w = set_task h (\<lambda>x. x\<lparr>tt_phase := Swept\<rparr>) (sweep_sessions w)"

definition submit_fence :: "nat \<Rightarrow> session_world \<Rightarrow> session_world" where
  "submit_fence h w =
     set_task h (\<lambda>x. x\<lparr>tt_generation := cr_generation (sw_registry w), tt_phase := Preparing\<rparr>) w"

definition submit_failed :: "nat \<Rightarrow> session_world \<Rightarrow> session_world" where
  "submit_failed h = set_task h (\<lambda>x. x\<lparr>tt_phase := Refused StateStoreFailed\<rparr>)"

definition submit_check :: "nat \<Rightarrow> session_world \<Rightarrow> session_world" where
  "submit_check h w = set_task h (\<lambda>x. x\<lparr>tt_phase := if sw_shutdown w then Refused ShuttingDown else Checked\<rparr>) w"

definition submit_claim :: "nat \<Rightarrow> u64 \<Rightarrow> session_world \<Rightarrow> session_world" where
  "submit_claim h turn w =
     (let x = sw_tasks w ! h in
      case claim (tt_session x) (tt_generation x) \<lparr>lv_turn = turn, lv_task = h\<rparr> (sw_now w) (sw_registry w) of
        (Err e, g) \<Rightarrow> set_task h (\<lambda>x. x\<lparr>tt_phase := Refused e\<rparr>) (w\<lparr>sw_registry := g\<rparr>)
      | (Ok evicted, g) \<Rightarrow>
          cleanup_sessions (case evicted of None \<Rightarrow> [] | Some s \<Rightarrow> [s])
            (set_task h (\<lambda>x. x\<lparr>tt_turn := turn, tt_phase := Claimed\<rparr>) (w\<lparr>sw_registry := g\<rparr>)))"

definition submit_spawn :: "nat \<Rightarrow> session_world \<Rightarrow> session_world" where
  "submit_spawn h = set_task h (\<lambda>x. x\<lparr>tt_phase := Live\<rparr>)"

definition guard_release :: "nat \<Rightarrow> session_world \<Rightarrow> session_world" where
  "guard_release h w =
     (let x = sw_tasks w ! h in
      case release_turn (tt_session x) (tt_turn x) (tt_generation x) (sw_now w) (sw_registry w) of (removed, g) \<Rightarrow>
        set_task h (\<lambda>x. x\<lparr>tt_phase := Ending removed\<rparr>) (w\<lparr>sw_registry := g\<rparr>))"

definition guard_finish :: "nat \<Rightarrow> session_id option \<Rightarrow> session_world \<Rightarrow> session_world" where
  "guard_finish h removed w =
     set_task h (\<lambda>x. x\<lparr>tt_phase := Ended\<rparr>)
       (case removed of
          None \<Rightarrow> w
        | Some sid \<Rightarrow> cleanup_sessions [sid]
            (w\<lparr>sw_registry := finish_retirement sid (tt_generation (sw_tasks w ! h)) (sw_registry w)\<rparr>))"

definition retire_session :: "session_id \<Rightarrow> session_world \<Rightarrow> session_world" where
  "retire_session sid w =
     (case retire sid (sw_registry w) of (r, g) \<Rightarrow>
        w\<lparr>sw_registry := g, sw_obligations := sw_obligations w @ (case re_idle r of None \<Rightarrow> [] | Some d \<Rightarrow> [d])\<rparr>)"

definition reload_sessions :: "session_world \<Rightarrow> session_world" where
  "reload_sessions w =
     (case reload (sw_registry w) of (plan, g) \<Rightarrow>
        w\<lparr>sw_registry := g, sw_obligations := sw_obligations w @ rp_idle plan\<rparr>)"

definition finish_idle :: "session_id \<Rightarrow> u64 \<Rightarrow> session_world \<Rightarrow> session_world" where
  "finish_idle sid generation w =
     cleanup_sessions [sid]
       (w\<lparr>sw_registry := finish_retirement sid generation (sw_registry w),
          sw_obligations := remove1 (sid, generation) (sw_obligations w)\<rparr>)"

definition destroy_session :: "session_id \<Rightarrow> session_world \<Rightarrow> session_world" where
  "destroy_session sid w =
     (let w' = sweep_sessions w; w'' = retire_session sid w' in
      case re_idle (fst (retire sid (sw_registry w'))) of
        None \<Rightarrow> w''
      | Some (idle, generation) \<Rightarrow> finish_idle idle generation w'')"

definition managed_session_ids :: "session_world \<Rightarrow> session_id list \<times> session_world" where
  "managed_session_ids w = (let w' = sweep_sessions w in (registry_ids (sw_registry w'), w'))"

definition choose_model :: "session_id \<Rightarrow> ustr option \<Rightarrow> session_world \<Rightarrow> session_world" where
  "choose_model sid chosen w =
     (case set_model sid chosen (sw_now w) (sw_registry w) of (r, g) \<Rightarrow>
        cleanup_sessions (case r of Ok (Some s) \<Rightarrow> [s] | _ \<Rightarrow> []) (w\<lparr>sw_registry := g\<rparr>))"

definition clear_sessions :: "session_world \<Rightarrow> session_world" where
  "clear_sessions w =
     (case clear_registry (sw_registry w) of (ids, g) \<Rightarrow> cleanup_sessions ids (w\<lparr>sw_registry := g\<rparr>))"

text \<open>The tasks that \<open>shutdown\<close> waits for before it clears the registry.\<close>

fun is_tracked :: "turn_phase \<Rightarrow> bool" where
  "is_tracked Live = True"
| "is_tracked (Ending _) = True"
| "is_tracked _ = False"

datatype session_happening =
    Submits nat
  | Advances nat
  | Releases nat
  | Retires
  | Clears
  | Housekeeping

definition session_start :: "nat \<Rightarrow> nat \<Rightarrow> timestamp \<Rightarrow> session_world" where
  "session_start capacity idle_ttl now =
     \<lparr>sw_registry = new_registry capacity idle_ttl, sw_tasks = [], sw_obligations = [], sw_forgotten = [],
      sw_now = now, sw_shutdown = False\<rparr>"

inductive turns_step :: "session_world \<Rightarrow> session_happening \<Rightarrow> session_world \<Rightarrow> bool" where
  submits: "turns_step w (Submits (length (sw_tasks w))) (submit_begin sid w)"
| sweeps_first: "h < length (sw_tasks w) \<Longrightarrow> tt_phase (sw_tasks w ! h) = Entered \<Longrightarrow>
    turns_step w (Advances h) (submit_sweep h w)"
| fences: "h < length (sw_tasks w) \<Longrightarrow> tt_phase (sw_tasks w ! h) = Swept \<Longrightarrow>
    turns_step w (Advances h) (submit_fence h w)"
| checks: "h < length (sw_tasks w) \<Longrightarrow> tt_phase (sw_tasks w ! h) = Preparing \<Longrightarrow>
    turns_step w (Advances h) (submit_check h w)"
| storage_fails: "h < length (sw_tasks w) \<Longrightarrow> tt_phase (sw_tasks w ! h) = Preparing \<Longrightarrow>
    turns_step w (Advances h) (submit_failed h w)"
| claims: "h < length (sw_tasks w) \<Longrightarrow> tt_phase (sw_tasks w ! h) = Checked \<Longrightarrow>
    turns_step w (Advances h) (submit_claim h turn w)"
| spawns: "h < length (sw_tasks w) \<Longrightarrow> tt_phase (sw_tasks w ! h) = Claimed \<Longrightarrow>
    turns_step w (Advances h) (submit_spawn h w)"
| releases: "h < length (sw_tasks w) \<Longrightarrow> tt_phase (sw_tasks w ! h) = Live \<Longrightarrow>
    turns_step w (Releases h) (guard_release h w)"
| finishes: "h < length (sw_tasks w) \<Longrightarrow> tt_phase (sw_tasks w ! h) = Ending removed \<Longrightarrow>
    turns_step w (Releases h) (guard_finish h removed w)"
| destroys: "turns_step w Retires (retire_session sid w)"
| reloads: "turns_step w Retires (reload_sessions w)"
| finishes_idle: "(sid, generation) \<in> set (sw_obligations w) \<Longrightarrow> turns_step w Housekeeping (finish_idle sid generation w)"
| sweeps: "turns_step w Housekeeping (sweep_sessions w)"
| selects: "turns_step w Housekeeping (choose_model sid chosen w)"
| reads_model: "turns_step w Housekeeping (w\<lparr>sw_registry := snd (model_of sid (sw_now w) (sw_registry w))\<rparr>)"
| shuts_down: "turns_step w Housekeeping (w\<lparr>sw_shutdown := True\<rparr>)"
| clears: "sw_shutdown w \<Longrightarrow> \<forall>x \<in> set (sw_tasks w). \<not> is_tracked (tt_phase x) \<Longrightarrow>
    turns_step w Clears (clear_sessions w)"
| clock_moves: "turns_step w Housekeeping (w\<lparr>sw_now := now\<rparr>)"

section \<open>The invariant\<close>

fun phase_holds :: "turn_phase \<Rightarrow> bool" where
  "phase_holds Claimed = True"
| "phase_holds Live = True"
| "phase_holds _ = False"

text \<open>Every session has one entry, under its own name.\<close>

definition keyed :: "(ustr \<times> managed_conversation) list \<Rightarrow> bool" where
  "keyed es \<longleftrightarrow> distinct (map fst es) \<and> (\<forall>k e. map_of es k = Some e \<longrightarrow> mc_session_id e = k)"

definition live_entry :: "(ustr \<times> managed_conversation) list \<Rightarrow> ustr \<Rightarrow> (live_turn \<times> u64) option" where
  "live_entry es k =
     (case map_of es k of None \<Rightarrow> None | Some e \<Rightarrow> map_option (\<lambda>l. (l, mc_generation e)) (mc_live e))"

text \<open>What a live entry says about its task, and what a task that holds its session says about the entry.\<close>

definition backed :: "turn_task list \<Rightarrow> (ustr \<times> managed_conversation) list \<Rightarrow> bool" where
  "backed ts es \<longleftrightarrow> (\<forall>k l g. live_entry es k = Some (l, g) \<longrightarrow> lv_task l < length ts \<and>
     tt_session (ts ! lv_task l) = k \<and> tt_turn (ts ! lv_task l) = lv_turn l \<and> tt_generation (ts ! lv_task l) = g \<and>
     phase_holds (tt_phase (ts ! lv_task l)))"

definition owned :: "turn_task list \<Rightarrow> (ustr \<times> managed_conversation) list \<Rightarrow> bool" where
  "owned ts es \<longleftrightarrow> (\<forall>h < length ts. phase_holds (tt_phase (ts ! h)) \<longrightarrow>
     live_entry es (tt_session (ts ! h)) = Some (\<lparr>lv_turn = tt_turn (ts ! h), lv_task = h\<rparr>, tt_generation (ts ! h)))"

definition sessions_inv :: "session_world \<Rightarrow> bool" where
  "sessions_inv w \<longleftrightarrow>
     (let es = cr_entries (sw_registry w); ts = sw_tasks w in
      0 < cr_capacity (sw_registry w) \<and> length es \<le> cr_capacity (sw_registry w) \<and> keyed es \<and> backed ts es \<and>
      (\<forall>x \<in> set ts. tt_generation x \<le> cr_generation (sw_registry w)) \<and>
      (\<not> sw_shutdown w \<longrightarrow> owned ts es))"

lemma length_update_AList:
  "length (AList.update k v al) = (if map_of al k = None then Suc (length al) else length al)"
  by (induction al) auto

lemma length_delete_AList: "length (AList.delete k al) \<le> length al"
  by (simp add: AList.delete_eq)

lemma length_delete_present: "map_of al k \<noteq> None \<Longrightarrow> length (AList.delete k al) < length al"
proof -
  assume "map_of al k \<noteq> None"
  then obtain v where "(k, v) \<in> set al" by (auto dest: map_of_SomeD)
  then show ?thesis unfolding AList.delete_eq by (intro length_filter_less) auto
qed

lemma keyed_update: "keyed es \<Longrightarrow> mc_session_id e = k \<Longrightarrow> keyed (AList.update k e es)"
  by (auto simp: keyed_def update_conv' distinct_update split: if_splits)

lemma keyed_delete: "keyed es \<Longrightarrow> keyed (AList.delete k es)"
  by (auto simp: keyed_def delete_conv' distinct_delete split: if_splits)

lemma live_entry_update:
  "live_entry (AList.update k e es) = (live_entry es)(k := map_option (\<lambda>l. (l, mc_generation e)) (mc_live e))"
  by (auto simp: live_entry_def update_conv' fun_eq_iff)

lemma live_entry_delete: "live_entry (AList.delete k es) = (live_entry es)(k := None)"
  by (auto simp: live_entry_def delete_conv' fun_eq_iff)

lemma keyed_deletes: "keyed es \<Longrightarrow> keyed (fold AList.delete ks es)"
  by (induction ks arbitrary: es) (auto intro: keyed_delete)

lemma length_deletes: "length (fold AList.delete ks es) \<le> length es"
proof (induction ks arbitrary: es)
  case (Cons k ks)
  show ?case using Cons [of "AList.delete k es"] length_delete_AList [of k es] by simp
qed simp

lemma live_entry_deletes: "live_entry (fold AList.delete ks es) k = (if k \<in> set ks then None else live_entry es k)"
  by (induction ks arbitrary: es) (auto simp: live_entry_delete)

lemma keyedD: "keyed es \<Longrightarrow> map_of es k = Some e \<Longrightarrow> mc_session_id e = k"
  by (simp add: keyed_def)

text \<open>An operation on the registry that keeps its size within the capacity, and every live turn.\<close>

definition keeps_turns :: "conversation_registry \<Rightarrow> conversation_registry \<Rightarrow> bool" where
  "keeps_turns g g' \<longleftrightarrow> keyed (cr_entries g') \<and> live_entry (cr_entries g') = live_entry (cr_entries g) \<and>
     cr_capacity g' = cr_capacity g \<and> cr_generation g \<le> cr_generation g' \<and>
     (length (cr_entries g) \<le> cr_capacity g \<longrightarrow> length (cr_entries g') \<le> cr_capacity g)"

lemma set_insert_text: "set (insert_text s ts) = insert s (set ts)"
  by (induction ts) auto

lemma set_sort_texts: "set (sort_texts ts) = set ts"
  by (induction ts) (auto simp: sort_texts_def set_insert_text)

lemma map_of_filter_idle:
  assumes "keyed es" and "k \<in> fst ` set (filter (\<lambda>(_, e). P e) es)" and "\<And>e. P e \<Longrightarrow> mc_live e = None"
  shows "live_entry es k = None"
proof -
  from assms(2) obtain e where "(k, e) \<in> set es" and "P e" by auto
  with assms(1,3) show ?thesis by (simp add: keyed_def live_entry_def)
qed

lemma expired_idle:
  "keyed (cr_entries g) \<Longrightarrow> k \<in> fst ` set (filter (\<lambda>(_, e). is_expired t now e) (cr_entries g)) \<Longrightarrow>
    live_entry (cr_entries g) k = None"
  by (erule map_of_filter_idle) (auto simp: is_expired_def)

lemma sweep_keeps:
  assumes "keyed (cr_entries g)"
  shows "keeps_turns g (snd (sweep now g))"
proof -
  let ?ks = "sort_texts (map fst (filter (\<lambda>(_, e). is_expired (cr_idle_ttl g) now e) (cr_entries g)))"
  have "live_entry (fold AList.delete ?ks (cr_entries g)) = live_entry (cr_entries g)"
    using expired_idle [OF assms] by (simp add: live_entry_deletes set_sort_texts fun_eq_iff)
  moreover have "length (fold AList.delete ?ks (cr_entries g)) \<le> length (cr_entries g)" by (rule length_deletes)
  moreover have "keyed (fold AList.delete ?ks (cr_entries g))" using assms by (rule keyed_deletes)
  ultimately show ?thesis by (simp add: keeps_turns_def sweep_def Let_def)
qed

lemma oldest_in: "oldest ps = Some p \<Longrightarrow> p \<in> set ps"
  by (induction ps arbitrary: p) (auto split: option.splits if_splits)

lemma evicted_entry:
  assumes "keyed es" and "oldest (filter (\<lambda>(_, e). is_evictable e) es) = Some (k, e)"
  shows "map_of es k = Some e" and "mc_live e = None"
  using oldest_in [OF assms(2)] assms(1) by (auto simp: keyed_def is_evictable_def)

lemma make_room_keeps:
  assumes "keyed (cr_entries g)"
  shows "keeps_turns g (snd (make_room g))"
proof (cases "oldest (filter (\<lambda>(_, e). is_evictable e) (cr_entries g))")
  case None
  with assms show ?thesis by (simp add: make_room_def keeps_turns_def)
next
  case (Some p)
  then obtain k e where p: "oldest (filter (\<lambda>(_, e). is_evictable e) (cr_entries g)) = Some (k, e)" by (cases p) auto
  from evicted_entry [OF assms p] have "live_entry (cr_entries g) k = None" by (simp add: live_entry_def)
  with assms p length_delete_AList [of k "cr_entries g"] show ?thesis
    by (simp add: make_room_def keeps_turns_def keyed_delete live_entry_delete fun_upd_idem)
qed

lemma make_room_fits:
  assumes "keyed (cr_entries g)" and "fst (make_room g) = Ok r" and "0 < cr_capacity g"
    and "length (cr_entries g) \<le> cr_capacity g"
  shows "length (cr_entries (snd (make_room g))) < cr_capacity g"
proof (cases "oldest (filter (\<lambda>(_, e). is_evictable e) (cr_entries g))")
  case None
  with assms show ?thesis by (simp add: make_room_def split: if_splits)
next
  case (Some p)
  then obtain k e where p: "oldest (filter (\<lambda>(_, e). is_evictable e) (cr_entries g)) = Some (k, e)" by (cases p) auto
  from evicted_entry(1) [OF assms(1) p] length_delete_present [of "cr_entries g" k] p assms(4) show ?thesis
    by (simp add: make_room_def)
qed
lemma make_room_generation [simp]: "cr_generation (snd (make_room g)) = cr_generation g"
  by (auto simp: make_room_def split: option.splits)

lemma make_room_sub: "map_of (cr_entries g) k = None \<Longrightarrow> map_of (cr_entries (snd (make_room g))) k = None"
  by (auto simp: make_room_def delete_conv' split: option.splits)

lemma with_entry_present:
  assumes "map_of (cr_entries g) sid = Some e"
  shows "with_entry sid now generation f g =
    (Ok None, g\<lparr>cr_next_access := saturating_add (cr_next_access g) 1,
       cr_entries := AList.update sid (f (cr_next_access g) e) (cr_entries g)\<rparr>)"
  using assms by (simp add: with_entry_def next_access_def)

lemma with_entry_absent:
  assumes "map_of (cr_entries g) sid = None"
  shows "with_entry sid now generation f g =
    (case make_room g of (Err e, g') \<Rightarrow> (Err e, g') | (Ok evicted, g') \<Rightarrow>
       (Ok evicted, g'\<lparr>cr_next_access := saturating_add (cr_next_access g') 1,
          cr_entries := AList.update sid (f (cr_next_access g') (fresh_conversation sid now (cr_next_access g') generation))
            (cr_entries g')\<rparr>))"
  using assms make_room_sub [OF assms]
  by (cases "make_room g") (simp add: with_entry_def next_access_def split: result.splits)

definition room_ok :: "conversation_registry \<Rightarrow> bool" where
  "room_ok g \<longleftrightarrow> 0 < cr_capacity g \<and> length (cr_entries g) \<le> cr_capacity g \<and> keyed (cr_entries g)"

lemma with_entry_failed:
  "with_entry sid now generation f g = (Err e, g') \<Longrightarrow> room_ok g \<Longrightarrow> keeps_turns g g'"
  using make_room_keeps [of g] with_entry_present [of g sid] with_entry_absent [of g sid]
  by (cases "map_of (cr_entries g) sid"; cases "make_room g") (auto simp: room_ok_def split: result.splits)

text \<open>What an entry is after \<open>with_entry\<close>, and that the other sessions keep their turns.\<close>

lemma with_entry_done:
  assumes "with_entry sid now generation f g = (Ok r, g')" and ok: "room_ok g"
    and keeps: "\<And>a e. mc_session_id (f a e) = mc_session_id e"
  obtains a e where "map_of (cr_entries g) sid = Some e \<or>
      map_of (cr_entries g) sid = None \<and> e = fresh_conversation sid now a generation"
    and "live_entry (cr_entries g') =
      (live_entry (cr_entries g))(sid := map_option (\<lambda>l. (l, mc_generation (f a e))) (mc_live (f a e)))"
    and "room_ok g'" and "cr_capacity g' = cr_capacity g" and "cr_generation g' = cr_generation g"
proof (cases "map_of (cr_entries g) sid")
  case (Some e)
  with ok have "mc_session_id e = sid" by (auto simp: room_ok_def dest: keyedD)
  with ok keeps Some show thesis using assms(1) with_entry_present [OF Some, of now generation f]
    by (intro that [of e "cr_next_access g"])
      (auto simp: room_ok_def live_entry_update length_update_AList intro!: keyed_update)
next
  case None
  obtain m g1 where m: "make_room g = (m, g1)" by force
  with assms(1) with_entry_absent [OF None] have done_: "m = Ok r"
    and g': "g' = g1\<lparr>cr_next_access := saturating_add (cr_next_access g1) 1,
          cr_entries := AList.update sid (f (cr_next_access g1) (fresh_conversation sid now (cr_next_access g1) generation))
            (cr_entries g1)\<rparr>"
    by (auto split: result.splits)
  have k: "keeps_turns g g1" "cr_generation g1 = cr_generation g" "map_of (cr_entries g1) sid = None"
    using make_room_keeps [of g] make_room_generation [of g] make_room_sub [OF None] ok m by (simp_all add: room_ok_def)
  have fits: "length (cr_entries g1) < cr_capacity g"
    using make_room_fits [of g] ok m done_ by (simp add: room_ok_def)
  show thesis
  proof (rule that [of "fresh_conversation sid now (cr_next_access g1) generation" "cr_next_access g1"])
    show "room_ok g'" using k fits keeps
      by (auto simp: g' room_ok_def keeps_turns_def length_update_AList fresh_conversation_def intro!: keyed_update)
  qed (use None k in \<open>auto simp: g' keeps_turns_def live_entry_update\<close>)
qed

lemma keeps_room: "keeps_turns g g' \<Longrightarrow> room_ok g \<Longrightarrow> room_ok g'"
  by (simp add: keeps_turns_def room_ok_def)

lemma keeps_refl: "room_ok g \<Longrightarrow> keeps_turns g g"
  by (simp add: keeps_turns_def room_ok_def)

lemma live_entry_fresh: "map_of es k = None \<Longrightarrow> live_entry es k = None"
  by (simp add: live_entry_def)

lemma live_entry_present:
  "map_of es k = Some e \<Longrightarrow> live_entry es k = map_option (\<lambda>l. (l, mc_generation e)) (mc_live e)"
  by (simp add: live_entry_def)

lemma set_model_keeps:
  assumes "room_ok g"
  shows "keeps_turns g (snd (set_model sid chosen now g))"
proof -
  let ?f = "\<lambda>access e. e\<lparr>mc_last_access := now, mc_access_order := access, mc_model := chosen\<rparr>"
  obtain r g' where w: "with_entry sid now (cr_generation g) ?f g = (r, g')" by force
  have "keeps_turns g g'"
  proof (cases r)
    case (Ok x)
    with w have "with_entry sid now (cr_generation g) ?f g = (Ok x, g')" by simp
    then obtain a e where e: "map_of (cr_entries g) sid = Some e \<or>
        map_of (cr_entries g) sid = None \<and> e = fresh_conversation sid now a (cr_generation g)"
      and l: "live_entry (cr_entries g') =
        (live_entry (cr_entries g))(sid := map_option (\<lambda>l. (l, mc_generation (?f a e))) (mc_live (?f a e)))"
      and ok: "room_ok g'" and same: "cr_capacity g' = cr_capacity g" "cr_generation g' = cr_generation g"
      using assms by (rule with_entry_done) auto
    have "live_entry (cr_entries g') = live_entry (cr_entries g)"
      using e l by (auto simp: live_entry_present live_entry_fresh fresh_conversation_def)
    with ok same show ?thesis by (simp add: keeps_turns_def room_ok_def)
  next
    case (Err e)
    with w assms show ?thesis by (auto dest: with_entry_failed)
  qed
  with w keeps_refl [OF assms] show ?thesis by (auto simp: set_model_def)
qed
text \<open>An entry changed without touching its name, its turn or the turn's generation.\<close>

lemma update_keeps:
  assumes "room_ok g" and "map_of (cr_entries g) k = Some e" and "mc_session_id e' = mc_session_id e"
    and "mc_live e' = mc_live e" and "mc_generation e' = mc_generation e"
    and "cr_entries g' = AList.update k e' (cr_entries g)" and "cr_capacity g' = cr_capacity g"
    and "cr_generation g \<le> cr_generation g'"
  shows "keeps_turns g g'"
  using assms keyedD [of "cr_entries g" k e]
  by (auto simp: keeps_turns_def room_ok_def live_entry_update length_update_AList live_entry_present fun_upd_idem
      intro!: keyed_update)

lemma model_of_keeps:
  assumes "room_ok g"
  shows "keeps_turns g (snd (model_of sid now g))"
proof (cases "map_of (cr_entries g) sid")
  case None
  with assms show ?thesis by (simp add: model_of_def next_access_def keeps_turns_def room_ok_def)
next
  case (Some e)
  show ?thesis
  proof (cases "mc_retiring e")
    case True
    with Some assms show ?thesis by (simp add: model_of_def next_access_def keeps_turns_def room_ok_def)
  next
    case False
    with Some show ?thesis by (intro update_keeps [OF assms Some]) (simp_all add: model_of_def next_access_def)
  qed
qed

lemma finish_retirement_keeps:
  assumes "room_ok g"
  shows "keeps_turns g (finish_retirement sid generation g)"
  using assms length_delete_AList [of sid "cr_entries g"]
  by (auto simp: finish_retirement_def keeps_turns_def room_ok_def keyed_delete live_entry_delete live_entry_present
      fun_upd_idem split: option.splits)

lemma retire_keeps:
  assumes "room_ok g"
  shows "keeps_turns g (snd (retire sid g))"
proof (cases "map_of (cr_entries g) sid")
  case None
  with assms show ?thesis by (simp add: retire_def Let_def keeps_turns_def room_ok_def le_saturating_add)
next
  case (Some e)
  then show ?thesis
    by (intro update_keeps [OF assms Some]) (simp_all add: retire_def Let_def retired_entry_def le_saturating_add)
qed

lemma map_of_retired: "map_of (map (\<lambda>(k, e). (k, retired_entry e)) es) k = map_option retired_entry (map_of es k)"
  by (induction es) auto

lemma fst_retired: "map fst (map (\<lambda>(k, e). (k, retired_entry e)) es) = map fst es"
  by (induction es) auto

lemma reload_keeps:
  assumes "room_ok g"
  shows "keeps_turns g (snd (reload g))"
proof -
  let ?es = "map (\<lambda>(k, e). (k, retired_entry e)) (cr_entries g)"
  have "live_entry ?es k = live_entry (cr_entries g) k" for k
    unfolding live_entry_def map_of_retired by (cases "map_of (cr_entries g) k") (simp_all add: retired_entry_def)
  moreover have "keyed ?es"
    using assms unfolding room_ok_def keyed_def fst_retired map_of_retired by (auto simp: retired_entry_def)
  ultimately show ?thesis
    using assms by (simp add: reload_def Let_def keeps_turns_def room_ok_def le_saturating_add fun_eq_iff)
qed

text \<open>A claim takes a free session, and a refused one takes nothing.\<close>

lemma claim_failed: "claim sid expected live now g = (Err e, g') \<Longrightarrow> room_ok g \<Longrightarrow> keeps_turns g g'"
  by (auto simp: claim_def keeps_refl dest: with_entry_failed split: if_splits option.splits)

lemma claim_done:
  assumes "claim sid expected live now g = (Ok r, g')" and "room_ok g"
  shows "live_entry (cr_entries g) sid = None"
    and "live_entry (cr_entries g') = (live_entry (cr_entries g))(sid \<mapsto> (live, expected))"
    and "room_ok g'" and "cr_capacity g' = cr_capacity g" and "cr_generation g' = cr_generation g"
    and "expected = cr_generation g"
proof -
  let ?f = "\<lambda>access e. e\<lparr>mc_last_access := now, mc_access_order := access, mc_generation := expected, mc_live := Some live\<rparr>"
  from assms(1) have w: "with_entry sid now expected ?f g = (Ok r, g')"
    and free: "live_entry (cr_entries g) sid = None" and "expected = cr_generation g"
    by (auto simp: claim_def live_entry_def split: if_splits option.splits)
  from w assms(2) obtain a e where
    "live_entry (cr_entries g') =
      (live_entry (cr_entries g))(sid := map_option (\<lambda>l. (l, mc_generation (?f a e))) (mc_live (?f a e)))"
    and "room_ok g'" and "cr_capacity g' = cr_capacity g" and "cr_generation g' = cr_generation g"
    by (rule with_entry_done) auto
  with free \<open>expected = cr_generation g\<close> show "live_entry (cr_entries g) sid = None"
    and "live_entry (cr_entries g') = (live_entry (cr_entries g))(sid \<mapsto> (live, expected))"
    and "room_ok g'" and "cr_capacity g' = cr_capacity g" and "cr_generation g' = cr_generation g"
    and "expected = cr_generation g" by simp_all
qed

text \<open>The release of a turn by the task that the entry names, and by any other.\<close>

definition without_turn :: "ustr \<Rightarrow> u64 \<Rightarrow> u64 \<Rightarrow> (ustr \<Rightarrow> (live_turn \<times> u64) option) \<Rightarrow> ustr \<Rightarrow> (live_turn \<times> u64) option" where
  "without_turn sid turn generation f =
     (if \<exists>l. f sid = Some (l, generation) \<and> lv_turn l = turn then f(sid := None) else f)"

lemma release_turn_effect:
  assumes "room_ok g" and "release_turn sid turn generation now g = (r, g')"
  shows "live_entry (cr_entries g') = without_turn sid turn generation (live_entry (cr_entries g)) \<and>
    room_ok g' \<and> cr_generation g' = cr_generation g"
proof (cases "map_of (cr_entries g) sid")
  case None
  with assms show ?thesis by (auto simp: release_turn_def next_access_def live_entry_fresh room_ok_def without_turn_def)
next
  case (Some e)
  with assms keyedD [of "cr_entries g" sid e] show ?thesis
    by (auto simp: release_turn_def next_access_def live_entry_update live_entry_present room_ok_def length_update_AList
        without_turn_def intro!: keyed_update split: if_splits option.splits)
qed

lemma sessions_inv_alt:
  "sessions_inv w \<longleftrightarrow> room_ok (sw_registry w) \<and> backed (sw_tasks w) (cr_entries (sw_registry w)) \<and>
     (\<forall>h < length (sw_tasks w). tt_generation (sw_tasks w ! h) \<le> cr_generation (sw_registry w)) \<and>
     (\<not> sw_shutdown w \<longrightarrow> owned (sw_tasks w) (cr_entries (sw_registry w)))"
  by (auto simp: sessions_inv_def Let_def room_ok_def all_set_conv_all_nth)

text \<open>Steps that leave every turn, or every session, as it was.\<close>

lemma inv_keeps:
  assumes "sessions_inv w" and "keeps_turns (sw_registry w) (sw_registry w')" and "sw_tasks w' = sw_tasks w"
    and "sw_shutdown w \<Longrightarrow> sw_shutdown w'"
  shows "sessions_inv w'"
  using assms keeps_room [OF assms(2)]
  by (auto simp: sessions_inv_alt keeps_turns_def backed_def owned_def intro: order_trans)

lemma inv_task:
  assumes "sessions_inv w" and "h < length (sw_tasks w)" and "sw_tasks w' = (sw_tasks w)[h := x]"
    and "sw_registry w' = sw_registry w" and "sw_shutdown w' = sw_shutdown w"
    and "tt_session x = tt_session (sw_tasks w ! h)" and "tt_turn x = tt_turn (sw_tasks w ! h)"
    and "phase_holds (tt_phase x) = phase_holds (tt_phase (sw_tasks w ! h))"
    and "tt_generation x = tt_generation (sw_tasks w ! h) \<or>
      \<not> phase_holds (tt_phase x) \<and> tt_generation x = cr_generation (sw_registry w)"
  shows "sessions_inv w'"
proof -
  have "backed (sw_tasks w') (cr_entries (sw_registry w'))"
    using assms unfolding sessions_inv_alt backed_def by (auto simp: nth_list_update_cases)
  moreover have "owned (sw_tasks w') (cr_entries (sw_registry w'))" if "\<not> sw_shutdown w"
    using assms that unfolding sessions_inv_alt owned_def by (auto simp: nth_list_update_cases)
  ultimately show ?thesis using assms unfolding sessions_inv_alt by (auto simp: nth_list_update_cases)
qed

lemma inv_begin: "sessions_inv w \<Longrightarrow> sessions_inv (submit_begin sid w)"
  unfolding sessions_inv_alt backed_def owned_def
  by (fastforce simp: submit_begin_def nth_append less_Suc_eq)

lemma inv_claim:
  assumes w: "sessions_inv w" and h: "h < length (sw_tasks w)" and "tt_phase (sw_tasks w ! h) = Checked"
  shows "sessions_inv (submit_claim h turn w)"
proof -
  let ?x = "sw_tasks w ! h" and ?l = "\<lparr>lv_turn = turn, lv_task = h\<rparr>"
  obtain r g where c: "claim (tt_session ?x) (tt_generation ?x) ?l (sw_now w) (sw_registry w) = (r, g)" by force
  have ok: "room_ok (sw_registry w)" using w by (simp add: sessions_inv_alt)
  show ?thesis
  proof (cases r)
    case (Err e)
    have "sessions_inv (w\<lparr>sw_registry := g\<rparr>)"
      using c Err claim_failed [of _ _ _ _ "sw_registry w" e g] ok by (intro inv_keeps [OF w]) simp_all
    then show ?thesis
      by (rule inv_task [of _ h _ "?x\<lparr>tt_phase := Refused e\<rparr>"])
        (use h assms(3) Err c in \<open>auto simp: submit_claim_def set_task_def Let_def\<close>)
  next
    case (Ok v)
    note d = claim_done [OF c [unfolded Ok] ok]
    have "backed ((sw_tasks w)[h := ?x\<lparr>tt_turn := turn, tt_phase := Claimed\<rparr>]) (cr_entries g)"
      using w h assms(3) d(1,2) unfolding sessions_inv_alt backed_def by (auto simp: nth_list_update_cases)
    moreover have "owned ((sw_tasks w)[h := ?x\<lparr>tt_turn := turn, tt_phase := Claimed\<rparr>]) (cr_entries g)"
      if "owned (sw_tasks w) (cr_entries (sw_registry w))"
      using that h d(1,2) unfolding owned_def by (auto simp: nth_list_update_cases)
    ultimately show ?thesis
      using w c Ok d(3,5) by (auto simp: sessions_inv_alt submit_claim_def set_task_def cleanup_sessions_def Let_def
        nth_list_update_cases)
  qed
qed

lemma inv_release:
  assumes w: "sessions_inv w" and h: "h < length (sw_tasks w)" and "tt_phase (sw_tasks w ! h) = Live"
  shows "sessions_inv (guard_release h w)"
proof -
  let ?x = "sw_tasks w ! h"
  obtain r g where c: "release_turn (tt_session ?x) (tt_turn ?x) (tt_generation ?x) (sw_now w) (sw_registry w) = (r, g)"
    by force
  have ok: "room_ok (sw_registry w)" using w by (simp add: sessions_inv_alt)
  from release_turn_effect [OF ok c] have d:
      "live_entry (cr_entries g) = without_turn (tt_session ?x) (tt_turn ?x) (tt_generation ?x) (live_entry (cr_entries (sw_registry w)))"
      "room_ok g" "cr_generation g = cr_generation (sw_registry w)"
    by simp_all
  let ?ts = "(sw_tasks w)[h := ?x\<lparr>tt_phase := Ending r\<rparr>]"
  have "backed ?ts (cr_entries g)"
    unfolding backed_def
  proof (intro allI impI)
    fix k l n
    assume live: "live_entry (cr_entries g) k = Some (l, n)"
    then have before: "live_entry (cr_entries (sw_registry w)) k = Some (l, n)" using d(1) by (auto simp: without_turn_def split: if_splits)
    moreover have "lv_task l \<noteq> h" using w live before d(1) unfolding sessions_inv_alt backed_def
      by (fastforce simp: without_turn_def)
    ultimately show "lv_task l < length ?ts \<and> tt_session (?ts ! lv_task l) = k \<and> tt_turn (?ts ! lv_task l) = lv_turn l \<and>
        tt_generation (?ts ! lv_task l) = n \<and> phase_holds (tt_phase (?ts ! lv_task l))"
      using w unfolding sessions_inv_alt backed_def by auto
  qed
  moreover have "owned ?ts (cr_entries g)" if "owned (sw_tasks w) (cr_entries (sw_registry w))"
  proof -
    from that h assms(3) have "live_entry (cr_entries (sw_registry w)) (tt_session ?x) =
        Some (\<lparr>lv_turn = tt_turn ?x, lv_task = h\<rparr>, tt_generation ?x)" by (simp add: owned_def)
    with d(1) have "live_entry (cr_entries g) = (live_entry (cr_entries (sw_registry w)))(tt_session ?x := None)"
      by (simp add: without_turn_def)
    with that h \<open>live_entry _ (tt_session ?x) = _\<close> show ?thesis
      unfolding owned_def by (auto simp: nth_list_update_cases)
  qed
  ultimately show ?thesis
    using w c d(2,3) by (auto simp: sessions_inv_alt guard_release_def set_task_def Let_def nth_list_update_cases)
qed
lemma inv_guard_finish:
  assumes w: "sessions_inv w" and h: "h < length (sw_tasks w)" and "tt_phase (sw_tasks w ! h) = Ending removed"
  shows "sessions_inv (guard_finish h removed w)"
proof -
  let ?w = "case removed of None \<Rightarrow> w | Some sid \<Rightarrow> cleanup_sessions [sid]
      (w\<lparr>sw_registry := finish_retirement sid (tt_generation (sw_tasks w ! h)) (sw_registry w)\<rparr>)"
  have "room_ok (sw_registry w)" using w by (simp add: sessions_inv_alt)
  then have "sessions_inv ?w"
    by (intro inv_keeps [OF w]) (auto simp: cleanup_sessions_def finish_retirement_keeps keeps_refl split: option.splits)
  then show ?thesis
    by (rule inv_task [of _ h _ "(sw_tasks w ! h)\<lparr>tt_phase := Ended\<rparr>"])
      (use h assms(3) in \<open>auto simp: guard_finish_def set_task_def cleanup_sessions_def split: option.splits\<close>)
qed

text \<open>An operation on the registry alone, and a task that moves on without taking or giving up its session.\<close>

lemma inv_registry:
  assumes "sessions_inv w" and "keyed (cr_entries (sw_registry w)) \<Longrightarrow> room_ok (sw_registry w) \<Longrightarrow> keeps_turns (sw_registry w) g"
    and "sw_registry w' = g" and "sw_tasks w' = sw_tasks w" and "sw_shutdown w' = sw_shutdown w"
  shows "sessions_inv w'"
  using assms by (intro inv_keeps [OF assms(1)]) (simp_all add: sessions_inv_alt room_ok_def)

lemma inv_sweep: "sessions_inv w \<Longrightarrow> sessions_inv (sweep_sessions w)"
  by (erule inv_registry [where g = "snd (sweep (sw_now w) (sw_registry w))"])
    (simp_all add: sweep_keeps sweep_sessions_def cleanup_sessions_def split: prod.split)

lemma inv_set_task:
  assumes "sessions_inv w" and "h < length (sw_tasks w)"
    and "tt_session (f (sw_tasks w ! h)) = tt_session (sw_tasks w ! h)"
    and "tt_turn (f (sw_tasks w ! h)) = tt_turn (sw_tasks w ! h)"
    and "phase_holds (tt_phase (f (sw_tasks w ! h))) = phase_holds (tt_phase (sw_tasks w ! h))"
    and "tt_generation (f (sw_tasks w ! h)) = tt_generation (sw_tasks w ! h) \<or>
      \<not> phase_holds (tt_phase (f (sw_tasks w ! h))) \<and> tt_generation (f (sw_tasks w ! h)) = cr_generation (sw_registry w)"
  shows "sessions_inv (set_task h f w)"
  by (rule inv_task [OF assms(1,2) _ _ _ assms(3-6)]) (simp_all add: set_task_def)

lemma sweep_sessions_tasks [simp]:
  "sw_tasks (sweep_sessions w) = sw_tasks w" "sw_shutdown (sweep_sessions w) = sw_shutdown w"
  by (simp_all add: sweep_sessions_def cleanup_sessions_def split: prod.split)

lemma inv_session_step:
  assumes "sessions_inv w" and "turns_step w e w'"
  shows "sessions_inv w'"
  using assms(2)
proof (cases rule: turns_step.cases)
  case (sweeps_first h)
  then show ?thesis using inv_sweep [OF assms(1)]
    by (simp add: submit_sweep_def) (erule inv_set_task, simp_all)
next
  case (fences h)
  then show ?thesis using assms(1) by (simp add: submit_fence_def) (erule inv_set_task, simp_all)
next
  case (checks h)
  then show ?thesis using assms(1) by (simp only: submit_check_def) (erule inv_set_task, simp_all)
next
  case (storage_fails h)
  then show ?thesis using assms(1) by (simp add: submit_failed_def) (erule inv_set_task, simp_all)
next
  case (spawns h)
  then show ?thesis using assms(1) by (simp add: submit_spawn_def) (erule inv_set_task, simp_all)
next
  case (destroys sid)
  then show ?thesis using assms(1)
    by (elim inv_registry [where g = "snd (retire sid (sw_registry w))"])
      (simp_all add: retire_keeps retire_session_def split: prod.split)
next
  case reloads
  then show ?thesis using assms(1)
    by (elim inv_registry [where g = "snd (reload (sw_registry w))"])
      (simp_all add: reload_keeps reload_sessions_def split: prod.split)
next
  case (finishes_idle sid generation)
  then show ?thesis using assms(1)
    by (elim inv_registry [where g = "finish_retirement sid generation (sw_registry w)"])
      (simp_all add: finish_retirement_keeps finish_idle_def cleanup_sessions_def)
next
  case (selects sid chosen)
  then show ?thesis using assms(1)
    by (elim inv_registry [where g = "snd (set_model sid chosen (sw_now w) (sw_registry w))"])
      (simp_all add: set_model_keeps choose_model_def cleanup_sessions_def split: prod.split)
next
  case (reads_model sid)
  then show ?thesis using assms(1)
    by (elim inv_registry [where g = "snd (model_of sid (sw_now w) (sw_registry w))"]) (simp_all add: model_of_keeps)
next
  case clears
  then show ?thesis using assms(1)
    by (simp add: sessions_inv_alt clear_sessions_def clear_registry_def cleanup_sessions_def room_ok_def keyed_def
        backed_def live_entry_def)
next
  case shuts_down
  then show ?thesis using assms(1) by (simp add: sessions_inv_alt)
next
  case (clock_moves now)
  then show ?thesis using assms(1) by (simp add: sessions_inv_alt)
qed (use assms(1) in \<open>auto intro: inv_begin inv_claim inv_release inv_guard_finish inv_sweep\<close>)
lemma inv_start: "sessions_inv (session_start capacity idle_ttl now)"
  by (simp add: sessions_inv_alt session_start_def new_registry_def room_ok_def keyed_def backed_def owned_def live_entry_def)

interpretation sessions: invariant_system "\<lambda>w. \<exists>now. w = session_start capacity idle_ttl now" turns_step sessions_inv
  for capacity idle_ttl
  by unfold_locales (auto intro: inv_start inv_session_step)

lemma sessions_inv_steps:
  "steps turns_step (session_start capacity idle_ttl now) es w \<Longrightarrow> sessions_inv w"
  by (rule sessions.reach_inv [of capacity idle_ttl], erule reach_steps) (rule reach.reach_init, blast)

section \<open>The generation\<close>

lemma fixed_fields [simp]:
  "cr_capacity (snd (make_room g)) = cr_capacity g"
  "cr_capacity (snd (sweep now g)) = cr_capacity g" "cr_generation (snd (sweep now g)) = cr_generation g"
  "cr_capacity (snd (model_of sid now g)) = cr_capacity g" "cr_generation (snd (model_of sid now g)) = cr_generation g"
  "cr_capacity (snd (release_turn sid turn generation now g)) = cr_capacity g"
  "cr_generation (snd (release_turn sid turn generation now g)) = cr_generation g"
  "cr_capacity (finish_retirement sid generation g) = cr_capacity g"
  "cr_generation (finish_retirement sid generation g) = cr_generation g"
  "cr_capacity (snd (retire sid g)) = cr_capacity g" "cr_capacity (snd (reload g)) = cr_capacity g"
  "cr_generation (snd (retire sid g)) = saturating_add (cr_generation g) 1"
  "cr_generation (snd (reload g)) = saturating_add (cr_generation g) 1"
  "cr_capacity (snd (clear_registry g)) = cr_capacity g" "cr_generation (snd (clear_registry g)) = cr_generation g"
  by (auto simp: make_room_def sweep_def model_of_def release_turn_def finish_retirement_def retire_def reload_def
      clear_registry_def next_access_def Let_def split: option.splits)

lemma with_entry_fixed [simp]:
  "cr_capacity (snd (with_entry sid now generation f g)) = cr_capacity g"
  "cr_generation (snd (with_entry sid now generation f g)) = cr_generation g"
  using fixed_fields(1) [of g] make_room_generation [of g]
  by (cases "make_room g", auto simp: with_entry_def next_access_def split: result.splits)+

lemma claim_fixed [simp]:
  "cr_capacity (snd (claim sid expected live now g)) = cr_capacity g"
  "cr_generation (snd (claim sid expected live now g)) = cr_generation g"
  "cr_capacity (snd (set_model sid chosen now g)) = cr_capacity g"
  "cr_generation (snd (set_model sid chosen now g)) = cr_generation g"
  by (auto simp: claim_def set_model_def split: option.splits)

text \<open>Each operation on the world changes the registry by one operation of the registry, or not at all.\<close>

lemma sw_registry_simps [simp]:
  "sw_registry (set_task h f w) = sw_registry w" "sw_registry (cleanup_sessions ids w) = sw_registry w"
  "sw_registry (submit_begin sid w) = sw_registry w"
  "sw_registry (submit_fence h w) = sw_registry w" "sw_registry (submit_check h w) = sw_registry w"
  "sw_registry (submit_failed h w) = sw_registry w" "sw_registry (submit_spawn h w) = sw_registry w"
  by (simp_all add: set_task_def cleanup_sessions_def submit_begin_def submit_fence_def submit_check_def
      submit_failed_def submit_spawn_def)

lemma sweep_sessions_registry [simp]:
  "sw_registry (sweep_sessions w) = snd (sweep (sw_now w) (sw_registry w))"
  by (simp add: sweep_sessions_def split: prod.split)

lemma operation_registry [simp]:
  "sw_registry (submit_sweep h w) = snd (sweep (sw_now w) (sw_registry w))"
  "sw_registry (submit_claim h turn w) = snd (claim (tt_session (sw_tasks w ! h)) (tt_generation (sw_tasks w ! h))
     \<lparr>lv_turn = turn, lv_task = h\<rparr> (sw_now w) (sw_registry w))"
  "sw_registry (guard_release h w) = snd (release_turn (tt_session (sw_tasks w ! h)) (tt_turn (sw_tasks w ! h))
     (tt_generation (sw_tasks w ! h)) (sw_now w) (sw_registry w))"
  "sw_registry (guard_finish h removed w) = (case removed of None \<Rightarrow> sw_registry w
     | Some sid \<Rightarrow> finish_retirement sid (tt_generation (sw_tasks w ! h)) (sw_registry w))"
  "sw_registry (retire_session sid w) = snd (retire sid (sw_registry w))"
  "sw_registry (reload_sessions w) = snd (reload (sw_registry w))"
  "sw_registry (finish_idle sid generation w) = finish_retirement sid generation (sw_registry w)"
  "sw_registry (choose_model sid chosen w) = snd (set_model sid chosen (sw_now w) (sw_registry w))"
  "sw_registry (clear_sessions w) = snd (clear_registry (sw_registry w))"
  by (auto simp: submit_sweep_def submit_claim_def guard_release_def guard_finish_def retire_session_def
      reload_sessions_def finish_idle_def choose_model_def clear_sessions_def Let_def
      split: prod.splits result.splits option.splits)

lemma step_generation:
  assumes "turns_step w e w'"
  shows "cr_capacity (sw_registry w') = cr_capacity (sw_registry w)"
    and "cr_generation (sw_registry w') =
      (if e = Retires then saturating_add (cr_generation (sw_registry w)) 1 else cr_generation (sw_registry w))"
  using assms by (cases rule: turns_step.cases; simp split: option.split)+
interpretation capacity: stable_predicate turns_step "\<lambda>w. cr_capacity (sw_registry w) = n" for n
  by unfold_locales (simp add: step_generation(1))

interpretation generation: stable_predicate turns_step "\<lambda>w. n \<le> cr_generation (sw_registry w)" for n
  by unfold_locales (auto simp: step_generation(2) intro: order_trans le_saturating_add)

text \<open>A retirement moves the generation past everything read before it, unless the counter is exhausted.\<close>

lemma retirement_moves_generation:
  assumes "steps turns_step w es w'" and "Retires \<in> set es" and "cr_generation (sw_registry w') \<noteq> - 1"
  shows "cr_generation (sw_registry w) < cr_generation (sw_registry w')"
  using assms
proof (induction rule: steps.induct)
  case (steps_cons w e v es w')
  let ?g = "\<lambda>w. cr_generation (sw_registry w)"
  have later: "?g v \<le> ?g w'" using generation.stable_steps [OF steps_cons.hyps(2)] by blast
  show ?case
  proof (cases "e = Retires")
    case True
    have "?g w \<noteq> - 1"
    proof
      assume "?g w = - 1"
      with True step_generation(2) [OF steps_cons.hyps(1)] have "?g v = - 1"
        using le_saturating_add [of "- 1 :: u64" 1] by (simp add: word_order.extremum_unique)
      with later steps_cons.prems(2) show False by (simp add: word_order.extremum_unique)
    qed
    with True step_generation(2) [OF steps_cons.hyps(1)] have "?g w < ?g v" by (simp add: less_saturating_succ)
    then show ?thesis using later by (rule less_le_trans)
  next
    case False
    with steps_cons step_generation(2) [OF steps_cons.hyps(1)] show ?thesis by auto
  qed
qed simp

text \<open>A task keeps its session and, once it has read the generation, that generation.\<close>

definition has_read :: "nat \<Rightarrow> u64 \<Rightarrow> session_world \<Rightarrow> bool" where
  "has_read h n w \<longleftrightarrow> h < length (sw_tasks w) \<and> tt_generation (sw_tasks w ! h) = n \<and>
     tt_phase (sw_tasks w ! h) \<noteq> Entered \<and> tt_phase (sw_tasks w ! h) \<noteq> Swept"

lemma has_read_step: "has_read h n w \<Longrightarrow> turns_step w e w' \<Longrightarrow> has_read h n w'"
  by (erule turns_step.cases)
    (auto simp: has_read_def set_task_def cleanup_sessions_def submit_begin_def submit_sweep_def submit_fence_def
      submit_check_def submit_failed_def submit_claim_def submit_spawn_def guard_release_def guard_finish_def
      retire_session_def reload_sessions_def finish_idle_def choose_model_def clear_sessions_def Let_def
      nth_append nth_list_update_cases split: prod.splits result.splits option.splits)

interpretation reading: stable_predicate turns_step "has_read h n" for h n
  by unfold_locales (rule has_read_step)
section \<open>The properties of the registry\<close>

lemma ownedD:
  "owned ts es \<Longrightarrow> h < length ts \<Longrightarrow> phase_holds (tt_phase (ts ! h)) \<Longrightarrow>
    live_entry es (tt_session (ts ! h)) = Some (\<lparr>lv_turn = tt_turn (ts ! h), lv_task = h\<rparr>, tt_generation (ts ! h))"
  by (simp add: owned_def)

lemma owned_inj:
  assumes "owned ts es"
  shows "inj_on (\<lambda>h. tt_session (ts ! h)) {h. h < length ts \<and> phase_holds (tt_phase (ts ! h))}"
proof (rule inj_onI)
  fix h i
  assume h: "h \<in> {h. h < length ts \<and> phase_holds (tt_phase (ts ! h))}"
    and i: "i \<in> {h. h < length ts \<and> phase_holds (tt_phase (ts ! h))}"
    and same: "tt_session (ts ! h) = tt_session (ts ! i)"
  have "live_entry es (tt_session (ts ! i)) = Some (\<lparr>lv_turn = tt_turn (ts ! h), lv_task = h\<rparr>, tt_generation (ts ! h))"
    using ownedD [OF assms, of h] h unfolding same by blast
  moreover have "live_entry es (tt_session (ts ! i)) = Some (\<lparr>lv_turn = tt_turn (ts ! i), lv_task = i\<rparr>, tt_generation (ts ! i))"
    using ownedD [OF assms, of i] i by blast
  ultimately show "h = i" by simp
qed

lemma live_sessions:
  assumes "backed ts es" and "owned ts es"
  shows "dom (live_entry es) = (\<lambda>h. tt_session (ts ! h)) ` {h. h < length ts \<and> phase_holds (tt_phase (ts ! h))}"
proof (intro equalityI subsetI)
  fix k
  assume "k \<in> dom (live_entry es)"
  then obtain l g where "live_entry es k = Some (l, g)" by auto
  with assms(1) show "k \<in> (\<lambda>h. tt_session (ts ! h)) ` {h. h < length ts \<and> phase_holds (tt_phase (ts ! h))}"
    unfolding backed_def by (intro image_eqI [of _ _ "lv_task l"]) auto
qed (use ownedD [OF assms(2)] in auto)

lemma live_names:
  assumes "keyed es"
  shows "set (map fst (filter (\<lambda>(_, e). mc_live e \<noteq> None) es)) = dom (live_entry es)"
proof (intro equalityI subsetI)
  fix k
  assume "k \<in> set (map fst (filter (\<lambda>(_, e). mc_live e \<noteq> None) es))"
  then obtain e where "(k, e) \<in> set es" and "mc_live e \<noteq> None" by auto
  with assms show "k \<in> dom (live_entry es)" by (auto simp: keyed_def live_entry_def)
next
  fix k
  assume "k \<in> dom (live_entry es)"
  then obtain e where "map_of es k = Some e" and "mc_live e \<noteq> None" by (auto simp: live_entry_def split: option.splits)
  then show "k \<in> set (map fst (filter (\<lambda>(_, e). mc_live e \<noteq> None) es))" by (force dest: map_of_SomeD)
qed

lemma live_count_holders:
  assumes "keyed (cr_entries g)" and "backed ts (cr_entries g)" and "owned ts (cr_entries g)"
  shows "live_count g = length (filter (\<lambda>x. phase_holds (tt_phase x)) ts)"
proof -
  let ?es = "cr_entries g" and ?live = "\<lambda>(_ :: ustr, e). mc_live e \<noteq> None"
  let ?H = "{h. h < length ts \<and> phase_holds (tt_phase (ts ! h))}"
  have "live_count g = length (map fst (filter ?live ?es))" by (simp add: live_count_def)
  also have "\<dots> = card (set (map fst (filter ?live ?es)))"
    using assms(1) by (intro distinct_card [symmetric]) (auto simp: keyed_def intro: distinct_map_filter)
  also have "set (map fst (filter ?live ?es)) = dom (live_entry ?es)"
    using assms(1) by (rule live_names)
  also have "dom (live_entry ?es) = (\<lambda>h. tt_session (ts ! h)) ` ?H"
    using assms(2,3) by (rule live_sessions)
  also have "card \<dots> = card ?H"
    using assms(3) by (intro card_image owned_inj)
  also have "\<dots> = length (filter (\<lambda>x. phase_holds (tt_phase x)) ts)" by (simp add: length_filter_conv_card)
  finally show ?thesis .
qed

lemma release_frees:
  assumes "sessions_inv w" and "\<not> sw_shutdown w" and "h < length (sw_tasks w)" and "tt_phase (sw_tasks w ! h) = Live"
  shows "live_entry (cr_entries (sw_registry (guard_release h w))) =
    (live_entry (cr_entries (sw_registry w)))(tt_session (sw_tasks w ! h) := None)"
proof -
  let ?x = "sw_tasks w ! h"
  obtain r g where c: "release_turn (tt_session ?x) (tt_turn ?x) (tt_generation ?x) (sw_now w) (sw_registry w) = (r, g)"
    by force
  from assms have "room_ok (sw_registry w)" and "live_entry (cr_entries (sw_registry w)) (tt_session ?x) =
      Some (\<lparr>lv_turn = tt_turn ?x, lv_task = h\<rparr>, tt_generation ?x)"
    by (auto simp: sessions_inv_alt owned_def)
  with release_turn_effect [OF _ c] c show ?thesis by (simp add: without_turn_def)
qed

text \<open>
  Property C5. While the runtime is not shutting down, the registry stays within its capacity, the
  number of live turns it reports is the number of turns that hold a session, no two turns hold the
  same session, and the end of any running turn frees its session and touches no other turn.
\<close>

theorem turn_slots_exact:
  assumes "steps turns_step (session_start capacity idle_ttl now) es w" and "\<not> sw_shutdown w"
  shows "length (cr_entries (sw_registry w)) \<le> max capacity 1 \<and>
    live_count (sw_registry w) = length (filter (\<lambda>x. phase_holds (tt_phase x)) (sw_tasks w)) \<and>
    inj_on (\<lambda>h. tt_session (sw_tasks w ! h)) {h. h < length (sw_tasks w) \<and> phase_holds (tt_phase (sw_tasks w ! h))} \<and>
    (\<forall>h < length (sw_tasks w). tt_phase (sw_tasks w ! h) = Live \<longrightarrow>
      live_entry (cr_entries (sw_registry (guard_release h w))) =
        (live_entry (cr_entries (sw_registry w)))(tt_session (sw_tasks w ! h) := None))"
proof -
  have ok: "sessions_inv w" using assms(1) by (rule sessions_inv_steps)
  have "cr_capacity (sw_registry w) = max capacity 1"
    using assms(1) by (rule capacity.stable_steps) (simp add: session_start_def new_registry_def)
  moreover have "inj_on (\<lambda>h. tt_session (sw_tasks w ! h)) {h. h < length (sw_tasks w) \<and> phase_holds (tt_phase (sw_tasks w ! h))}"
    by (rule owned_inj [of _ "cr_entries (sw_registry w)"]) (use ok assms(2) in \<open>simp add: sessions_inv_alt\<close>)
  ultimately show ?thesis
    using ok assms(2) live_count_holders [of "sw_registry w" "sw_tasks w"] release_frees [OF ok assms(2)]
    by (auto simp: sessions_inv_alt room_ok_def)
qed

text \<open>
  Property C13. A turn that read the generation of the registry before a session was destroyed or all of
  them were reloaded is refused when it comes to claim its session afterwards, with the two generations
  in the error and the registry as it was. The generation saturates at the largest 64-bit number, where
  the fence would no longer separate; the statement is about the generations below it.
\<close>

theorem stale_claim_refused:
  assumes "steps turns_step (session_start capacity idle_ttl now) past w"
    and "h < length (sw_tasks w)" and "tt_phase (sw_tasks w ! h) \<in> {Preparing, Checked}"
    and "steps turns_step w es w'" and "Retires \<in> set es" and "cr_generation (sw_registry w') \<noteq> - 1"
  shows "submit_claim h turn w' =
    set_task h (\<lambda>x. x\<lparr>tt_phase :=
      Refused (ReloadFenced (tt_generation (sw_tasks w ! h)) (cr_generation (sw_registry w')))\<rparr>) w'"
proof -
  let ?n = "tt_generation (sw_tasks w ! h)"
  have "has_read h ?n w" using assms(2,3) by (auto simp: has_read_def)
  with assms(4) have "has_read h ?n w'" by (rule reading.stable_steps)
  moreover have "?n \<le> cr_generation (sw_registry w)"
    using sessions_inv_steps [OF assms(1)] assms(2) by (simp add: sessions_inv_alt)
  then have "?n < cr_generation (sw_registry w')"
    using retirement_moves_generation [OF assms(4-6)] by (rule le_less_trans)
  ultimately show ?thesis
    by (simp add: submit_claim_def claim_def has_read_def set_task_def Let_def)
qed
text \<open>The inventory names each session once, in order, and sweeps only what expired.\<close>

lemma sorted_insert_text: "sorted_wrt lexordp_eq ts \<Longrightarrow> sorted_wrt lexordp_eq (insert_text s ts)" for s :: ustr
proof (induction ts)
  case (Cons t ts)
  then show ?case
    using lexordp_eq_linear [of s t] lexordp_eq_trans [of s t] by (auto simp: set_insert_text)
qed simp

lemma sorted_sort_texts: "sorted_wrt lexordp_eq (sort_texts ts)"
  by (induction ts) (simp_all add: sort_texts_def sorted_insert_text)

lemma inventory_exact:
  assumes "sessions_inv w"
  shows "sorted_wrt lexordp_eq (fst (managed_session_ids w))"
    and "set (fst (managed_session_ids w)) = dom (map_of (cr_entries (sw_registry (snd (managed_session_ids w)))))"
proof -
  have key: "mc_session_id e = k" if "(k, e) \<in> set (cr_entries (sw_registry (sweep_sessions w)))" for k e
    using inv_sweep [OF assms] that unfolding sessions_inv_alt room_ok_def keyed_def by (metis map_of_is_SomeI)
  show "sorted_wrt lexordp_eq (fst (managed_session_ids w))"
    by (simp add: managed_session_ids_def registry_ids_def Let_def sorted_sort_texts)
  show "set (fst (managed_session_ids w)) = dom (map_of (cr_entries (sw_registry (snd (managed_session_ids w)))))"
    using key unfolding managed_session_ids_def registry_ids_def Let_def fst_conv snd_conv set_sort_texts dom_map_of_conv_image_fst
    by (force intro!: image_cong)
qed

text \<open>A destruction is the sweep, the retirement and the end of an idle session, one after the other.\<close>

lemma destroy_session_steps: "\<exists>es. steps turns_step w es (destroy_session sid w) \<and> Retires \<in> set es"
proof -
  let ?v = "sweep_sessions w"
  have start: "steps turns_step w [Housekeeping, Retires] (retire_session sid ?v)"
    by (rule steps_cons, rule sweeps, rule steps_single, rule destroys)
  show ?thesis
  proof (cases "re_idle (fst (retire sid (sw_registry ?v)))")
    case None
    with start show ?thesis by (intro exI [of _ "[Housekeeping, Retires]"]) (simp add: destroy_session_def Let_def)
  next
    case (Some d)
    then have "(fst d, snd d) \<in> set (sw_obligations (retire_session sid ?v))"
      by (cases d) (auto simp: retire_session_def split: prod.splits)
    then have "steps turns_step (retire_session sid ?v) [Housekeeping] (finish_idle (fst d) (snd d) (retire_session sid ?v))"
      by (intro steps_single finishes_idle)
    with start have "steps turns_step w ([Housekeeping, Retires] @ [Housekeeping]) (finish_idle (fst d) (snd d) (retire_session sid ?v))"
      by (rule steps_append)
    moreover have "destroy_session sid w = finish_idle (fst d) (snd d) (retire_session sid ?v)"
      using Some by (cases d) (simp add: destroy_session_def Let_def)
    ultimately show ?thesis by (intro exI [of _ "[Housekeeping, Retires, Housekeeping]"]) (simp only: append_Cons append_Nil, simp)
  qed
qed

section \<open>Concrete runs\<close>

abbreviation demo_conversation :: session_id where
  "demo_conversation \<equiv> [115]"

definition waiting_world :: session_world where
  "waiting_world = submit_fence 0 (submit_sweep 0 (submit_begin demo_conversation (session_start 2 100 0)))"

definition checked_world :: "session_world \<Rightarrow> session_world" where
  "checked_world w = submit_check 0 w"

definition running_world :: session_world where
  "running_world = submit_spawn 0 (submit_claim 0 1 (checked_world waiting_world))"

lemmas session_run_defs = waiting_world_def checked_world_def running_world_def session_start_def new_registry_def
  submit_begin_def submit_sweep_def submit_fence_def submit_check_def submit_claim_def submit_spawn_def set_task_def
  sweep_sessions_def sweep_def sort_texts_def cleanup_sessions_def claim_def with_entry_def make_room_def next_access_def
  fresh_conversation_def retire_session_def retire_def reload_sessions_def reload_def clear_sessions_def clear_registry_def
  saturating_add_def Let_def

lemma waiting_reached: "steps turns_step (session_start 2 100 0) [Submits 0, Advances 0, Advances 0] waiting_world"
proof -
  let ?a = "session_start 2 100 0" and ?s = demo_conversation
  let ?b = "submit_begin ?s ?a"
  have "turns_step ?a (Submits 0) ?b" using submits [of ?a ?s] by (simp add: session_start_def)
  moreover have "turns_step ?b (Advances 0) (submit_sweep 0 ?b)"
    by (rule sweeps_first) (simp_all add: session_run_defs)
  moreover have "turns_step (submit_sweep 0 ?b) (Advances 0) waiting_world"
    unfolding waiting_world_def by (rule fences) (simp_all add: session_run_defs)
  ultimately show ?thesis by - (rule steps_cons, assumption, rule steps_cons, assumption, rule steps_single, assumption)
qed

lemma running_reached: "steps turns_step waiting_world [Advances 0, Advances 0, Advances 0] running_world"
proof -
  let ?c = "checked_world waiting_world"
  have "turns_step waiting_world (Advances 0) ?c"
    unfolding checked_world_def by (rule checks) (simp_all add: session_run_defs)
  moreover have "turns_step ?c (Advances 0) (submit_claim 0 1 ?c)"
    by (rule claims) (simp_all add: session_run_defs)
  moreover have "turns_step (submit_claim 0 1 ?c) (Advances 0) running_world"
    unfolding running_world_def by (rule spawns) (simp_all add: session_run_defs)
  ultimately show ?thesis by - (rule steps_cons, assumption, rule steps_cons, assumption, rule steps_single, assumption)
qed

theorem turn_slots_exact_witness:
  "live_count (sw_registry running_world) = 1 \<and> live_count (sw_registry (guard_release 0 running_world)) = 0"
proof -
  have run: "steps turns_step (session_start 2 100 0)
      ([Submits 0, Advances 0, Advances 0] @ [Advances 0, Advances 0, Advances 0]) running_world"
    by (rule steps_append, rule waiting_reached, rule running_reached)
  have "\<not> sw_shutdown running_world" by (simp add: session_run_defs)
  from turn_slots_exact [OF run this] show ?thesis
    by (simp add: live_count_def) (simp add: session_run_defs live_count_def guard_release_def release_turn_def)
qed

theorem stale_claim_refused_witness:
  "submit_claim 0 1 (checked_world (reload_sessions waiting_world)) =
    set_task 0 (\<lambda>x. x\<lparr>tt_phase := Refused (ReloadFenced 0 1)\<rparr>) (checked_world (reload_sessions waiting_world))"
proof -
  have "turns_step (reload_sessions waiting_world) (Advances 0) (checked_world (reload_sessions waiting_world))"
    unfolding checked_world_def by (rule checks) (simp_all add: session_run_defs)
  then have run: "steps turns_step waiting_world [Retires, Advances 0] (checked_world (reload_sessions waiting_world))"
    by - (rule steps_cons, rule reloads, rule steps_single, assumption)
  have "0 < length (sw_tasks waiting_world)" "tt_phase (sw_tasks waiting_world ! 0) \<in> {Preparing, Checked}"
    "cr_generation (sw_registry (checked_world (reload_sessions waiting_world))) \<noteq> - 1"
    by (simp_all add: session_run_defs)
  from stale_claim_refused [OF waiting_reached this(1,2) run _ this(3), of 1] show ?thesis
    by (simp add: session_run_defs)
qed

text \<open>
  The check of a submission for a shutdown and its spawn are apart, and shutdown runs on another thread:
  it can find nothing to wait for, clear the registry and return in between. The turn is then claimed and
  spawned after shutdown has returned, and its session stays registered.
\<close>

lemma turn_outlives_shutdown:
  "\<exists>v. steps turns_step (session_start 2 100 0)
      [Submits 0, Advances 0, Advances 0, Advances 0, Housekeeping, Clears, Advances 0, Advances 0] v \<and>
    sw_shutdown v \<and> tt_phase (sw_tasks v ! 0) = Live \<and> live_count (sw_registry v) = 1"
proof -
  let ?c = "checked_world waiting_world"
  let ?d = "?c\<lparr>sw_shutdown := True\<rparr>"
  let ?e = "clear_sessions ?d"
  let ?f = "submit_claim 0 1 ?e"
  have "turns_step waiting_world (Advances 0) ?c"
    unfolding checked_world_def by (rule checks) (simp_all add: session_run_defs)
  moreover have "turns_step ?c Housekeeping ?d" by (rule shuts_down)
  moreover have "turns_step ?d Clears ?e" by (rule clears) (simp_all add: session_run_defs)
  moreover have "turns_step ?e (Advances 0) ?f" by (rule claims) (simp_all add: session_run_defs)
  moreover have "turns_step ?f (Advances 0) (submit_spawn 0 ?f)" by (rule spawns) (simp_all add: session_run_defs)
  ultimately have "steps turns_step waiting_world
      [Advances 0, Housekeeping, Clears, Advances 0, Advances 0] (submit_spawn 0 ?f)"
    by - ((rule steps_cons, assumption)+, rule steps_nil)
  then have "steps turns_step (session_start 2 100 0)
      ([Submits 0, Advances 0, Advances 0] @ [Advances 0, Housekeeping, Clears, Advances 0, Advances 0]) (submit_spawn 0 ?f)"
    by - (rule steps_append, rule waiting_reached)
  moreover have "sw_shutdown (submit_spawn 0 ?f) \<and> tt_phase (sw_tasks (submit_spawn 0 ?f) ! 0) = Live \<and>
      live_count (sw_registry (submit_spawn 0 ?f)) = 1"
    by (simp add: session_run_defs live_count_def)
  ultimately show ?thesis
    unfolding append_Cons append_Nil by - (rule exI, rule conjI)
qed

end
