(* ===== verification/Spec2Isabelle.thy ===== *)
theory Spec2Isabelle
  imports Worker_Controller Suspend_Coordinator Provider_Circuit Provider_Retry
    Provider_Sse Composition_Host Composition_Authority Composition_Egress Goal_Session
    Runtime_Stream Runtime_Tool Runtime_Turn Runtime_Sessions
begin

text \<open>
  A verification development for GTA Claw, a local agent daemon written in Rust. The daemon is one
  composition of subsystems (configuration, storage, providers, tools, the session engine, ingress)
  that are started in dependency order, serve for one run, and are torn down again; while it runs,
  every privileged action is authorized separately, calls to model providers go through a circuit
  breaker and a retry policy, workers outside the process are admitted with one-time tickets, and the
  host it runs on may be suspended under an admission fence. The development models these parts
  from their sources and proves what makes them correct.

  \<^bold>\<open>Conventions.\<close> Machine integers are words of their width, and the arithmetic wraps, saturates or is
  checked exactly as the source says; \<open>usize\<close> lengths are natural numbers. A duration or an instant is
  its number of nanoseconds, milliseconds where the source counts those. \<open>Result\<close> is the datatype
  \<open>result\<close>; a panic is \<open>None\<close> or \<open>Panicked\<close>, so its absence is a statement. Strings that the code inspects
  as Unicode are lists of code points (\<open>ustr\<close>), byte-level identifiers are lists of characters. State
  is a record passed through, and concurrency is explicit: either a step relation whose events come
  in any order, or interference between the steps of one operation. Code outside the modelled files
  (randomness, clocks, decoders, floating point, subsystems behind traits) is a parameter.

  \<^bold>\<open>Shared theories.\<close> \<open>Claw_Prelude\<close> has words, results, ASCII classes, reachability (\<open>reach\<close>, \<open>steps\<close>)
  and the locales \<open>invariant_system\<close>, \<open>history_invariant\<close>, \<open>stable_predicate\<close> and \<open>simulation\<close>, which the
  stateful components interpret. \<open>Claw_Text\<close> has the Unicode helpers: white space, trimming, UTF-16 lengths, digits.

  \<^bold>\<open>Closed worker protocol\<close> (\<open>crates/claw-worker\<close>). \<open>Worker_Identity\<close>: identifiers, method allowlists,
  secrets and their hex form (identity.rs, allowlist.rs, secret.rs, ticket.rs, limits.rs);
  \<open>Worker_Fencing\<close>: the ledger of generations (fencing.rs) behind the locale \<open>generation_fencing\<close>;
  \<open>Worker_Controller\<close>: issuing, admitting, calling, fencing and closing (controller.rs) as a step relation
  \<open>worker_step\<close>. Shown: at most one session per worker can act, an evicted worker is locked out for
  ever, tickets and calls are not replayed, honest workers get in, frames are capped before parsing.

  \<^bold>\<open>Host suspension\<close> (\<open>crates/claw-platform/src/suspend\<close>). \<open>Suspend_Admission\<close>: the fence
  (admission.rs); \<open>Suspend_Activity\<close>: what keeps a host busy (active_work.rs); \<open>Suspend_Coordinator\<close>: the
  prepare, status, resume and poll operations (coordinator.rs) with arbitrary interference on the
  fence between their steps. Shown: a fence closed for anything but a restart drain has an owner that
  can reopen it, the answers of a preparation are truthful, abandoned leases expire, and an open fence means a running scheduler.

  \<^bold>\<open>Provider SDK\<close> (\<open>crates/claw-provider-sdk\<close>). \<open>Provider_Error\<close>: the error taxonomy, sanitizing and
  \<open>Retry-After\<close> (error.rs); \<open>Provider_Circuit\<close>: the circuit breaker with permits held by concurrent
  callers (circuit.rs); \<open>Provider_Retry\<close>: backoff and the attempt loop (retry.rs); \<open>Provider_Sse\<close>: the
  incremental decoders of response streams (sse.rs). Shown: the half-open
  budget is kept and exact up to the results recorded without a permit, an open circuit admits nothing and recovers, stale reports are inert, delays are
  bounded, the loop shortcut computes the exponential, dates round-trip; chunk boundaries do not
  matter to the decoder (except that a push that fails loses the events it had completed), its buffers
  are bounded, and events written as the standard says come back.

  \<^bold>\<open>Composition\<close> (\<open>crates/claw-application/src/composition\<close>). \<open>Composition_Lifecycle\<close>: phases and the
  epoch gate (lifecycle.rs), a refinement of a single run; \<open>Composition_Graph\<close>: identifiers and the start
  plan (id.rs, error.rs, subsystem.rs, graph.rs), with Kahn's algorithm and the cycle search as while
  loops that are proved to end; \<open>Composition_Host\<close>: start and shutdown (host.rs), where every \<open>await\<close> may
  fail or be where the future is dropped, with the locale \<open>strike_loop\<close> for the two teardown loops;
  \<open>Composition_Authority\<close>: capabilities, grants and their issuer (authority.rs, parts of session.rs and
  clock.rs) interleaved with the lifecycle; \<open>Composition_Egress\<close>: destinations, the allowlist and the
  guard (egress.rs), its classification compared with address blocks. Shown: plans respect dependencies and reported cycles are
  real; teardown mirrors startup whatever is dropped, with ingress quiesced before anything is drained,
  and can always be finished; starting is all or
  nothing; grants are single-use, short-lived and dead after the run; a destination is admitted
  exactly when policy and every one of its addresses allow it.

  \<^bold>\<open>Durable goals\<close> (\<open>crates/claw-goals\<close>, \<open>crates/claw-runtime/src/goal.rs\<close> and their ports in
  \<open>crates/claw-application\<close>). \<open>Goal_Model\<close>: identifiers, goals, the status machine, budgets, the file
  format and the context anchor (transition.rs, budget.rs, wire.rs, anchor.rs); \<open>Goal_Store\<close>: the file
  store (store.rs) as programs over two directories, in which every call to the file system works,
  fails, or is where the process dies, and a power loss leaves any version of a file not yet
  synchronized; \<open>Goal_Triples\<close> and \<open>Goal_Recovery\<close>: triples for these programs, the invariant of the
  directories, and histories of failures; \<open>Goal_Guarantees\<close>: what the store promises over them;
  \<open>Goal_Service\<close>: the service, its retries, commands and tool (goal.rs, retry.rs, command.rs, tool.rs)
  over ports; \<open>Goal_Contract\<close>: the locale \<open>goal_port_contract\<close> and what follows from it; \<open>Goal_Session\<close>:
  its interpretation on the file store, and histories of the service. Shown, under
  any failures: a reopened store lists exactly the goals on disk, an acknowledged save is exact and
  loses no update, numbers are fresh; for one service on the store: goals move along legal steps only, a
  session that had an active goal keeps one, histories are bounded and counted.

  \<^bold>\<open>Agent runtime\<close> (\<open>crates/claw-runtime\<close> and its ports). \<open>Runtime_Stream\<close>: the assembler of provider
  streams (stream.rs) against a reference that reads everything from the history of chunks;
  \<open>Runtime_Approval\<close>: the approval broker (approval.rs), where a request is split at every point at which
  other tasks can act; \<open>Approval_Protocol\<close>: its step relation with answers, cancellations, revocations and
  dropped futures in any order, its invariant, and the answers behind each decision; \<open>Runtime_Tool\<close>: the
  tool executor (tool.rs) and its composition with the broker; \<open>Runtime_Turn\<close>: the states of a turn
  (model/session.rs, session.rs); \<open>Runtime_Sessions\<close>: the registry of conversations and how turns are
  submitted, claimed, released, retired and shut down around it (runtime.rs), one step for each section
  under the registry's lock. Shown: messages are assembled from interleaved fragments without mixing
  them, interruptions are invisible, sizes are counted exactly; a tool that needs approval runs only
  after an operator approved it, a finished request can never be answered, a cancelled one is
  woken by the cancellation and returns once its port answers, and outcomes are reported faithfully; a turn's snapshot restores it; each session has at most
  one turn, its slot is always given back, and a claim from before a retirement is refused.

  \<^bold>\<open>Loops.\<close> There is no fuel. Loops over data are structural recursions; Kahn's algorithm and the
  depth-first search use \<open>while_option\<close>, whose \<open>None\<close> is non-termination and is excluded by a measure.
  The retry loops are bounded by the attempts of their policies, the lock by its attempts.

  \<^bold>\<open>Not modelled.\<close> Sockets, TLS, files, processes and databases, serialization formats and the
  user interfaces; the wire protocols of the gateway, MCP and the channels; wrappers over library
  synchronization. They are effects or third-party behaviour without a decision of their own to
  verify. Of the runtime, the loop that drives one turn through providers, tools and storage and the
  command registry are left out, as is the session service of the composition: they pass on what the
  parts above decide.
\<close>

end
